(* ===== verification/Prelude.thy ===== *)
theory Prelude
  imports Main "HOL-Library.Word"
begin

text \<open>
  Shared vocabulary of the development: the machine types of the Cortex-M port
  (\<^verbatim>\<open>src/mqx/source/psp/cortex_m/psptypes.h\<close>), the MQX return codes that the modelled
  functions produce (\<^verbatim>\<open>src/mqx/source/include/mqx.h\<close>), and the lemmas on words,
  aligned addresses and lists that several components use.
\<close>

unbundle bit_operations_syntax

section \<open>Machine types\<close>

type_synonym u8 = "8 word"
type_synonym u16 = "16 word"
type_synonym u32 = "32 word"
type_synonym u64 = "64 word"

text \<open>A pointer is a 32-bit address; \<open>NULL\<close> is address 0.\<close>

type_synonym addr = "32 word"

abbreviation (input) NULL :: addr where "NULL \<equiv> 0"

abbreviation (input) MAX_UINT_32 :: u32 where "MAX_UINT_32 \<equiv> 0xFFFFFFFF"
abbreviation (input) MAX_INT_32 :: u32 where "MAX_INT_32 \<equiv> 0x7FFFFFFF"
abbreviation (input) MAX_MQX_UINT :: u32 where "MAX_MQX_UINT \<equiv> 0xFFFFFFFF"

section \<open>Return codes\<close>

text \<open>
  The \<open>_mqx_uint\<close> result codes of the modelled functions. In the source they are
  pairwise different numbers; here they are the constructors of a datatype.
\<close>

datatype mqx_code =
    MQX_OK
  | MQX_EINVAL
  | MQX_INVALID_PARAMETER
  | MQX_INVALID_POINTER
  | MQX_INVALID_TASK_ID
  | MQX_INVALID_TASK_STATE
  | MQX_INVALID_TASK_QUEUE
  | MQX_TASK_QUEUE_EMPTY
  | MQX_CANNOT_CALL_FUNCTION_FROM_ISR
  | MQX_CORRUPT_QUEUE
  | MQX_CORRUPT_STORAGE_POOL
  | MQX_CORRUPT_STORAGE_POOL_FREE_LIST
  | MQX_OUT_OF_MEMORY
  | MQX_NOT_RESOURCE_OWNER
  | MQX_LWMEM_POOL_INVALID
  | MQX_INVALID_LWSEM
  | MQX_LWSEM_WAIT_TIMEOUT
  | MQX_LWEVENT_INVALID
  | LWEVENT_WAIT_TIMEOUT
  | LWMSGQ_INVALID
  | LWMSGQ_FULL
  | LWMSGQ_EMPTY
  | LWMSGQ_TIMEOUT
  | MQX_EDEADLK
  | MQX_EBUSY
  | MQX_COMPONENT_DOES_NOT_EXIST
  | MQX_INVALID_COMPONENT_BASE
  | MQX_LWTIMER_INVALID
  | PARTITION_INVALID
  | PARTITION_OUT_OF_BLOCKS
  | PARTITION_INVALID_TASK_ID
  | PARTITION_BLOCK_INVALID_CHECKSUM
  | PARTITION_INVALID_TYPE
  | PARTITION_ALL_BLOCKS_NOT_FREE
  | MQX_SCHED_INVALID_POLICY
  | MQX_SCHED_INVALID_TASK_ID
  | MQX_SCHED_INVALID_PARAMETER_PTR

section \<open>Collections\<close>

text \<open>The kernel operations, unfolded to evaluate a call on a concrete state.\<close>

named_theorems kernel_defs "the state-passing kernel operations"

section \<open>Lists\<close>

lemma remove1_append_notin [simp]:
  "x \<notin> set xs \<Longrightarrow> remove1 x (xs @ ys) = xs @ remove1 x ys"
  by (induction xs) auto

lemma last_Cons_snoc [simp]: "last (a # xs @ [b]) = b"
  by (induction xs) auto

lemma distinct_remove1_set: "distinct xs \<Longrightarrow> set (remove1 x xs) = set xs - {x}"
  by simp

section \<open>Words\<close>

text \<open>A flag that was clear, set and cleared again.\<close>

lemma set_clear_flag:
  assumes "x AND b = 0" shows "(x OR b) AND NOT b = (x :: 'a::len word)"
proof -
  have "x = (x AND b) OR (x AND NOT b)" by (simp flip: bit.conj_disj_distrib)
  then have "x = x AND NOT b" using assms by simp
  then show ?thesis by (simp add: bit.conj_disj_distrib2)
qed

lemma unat_add_noof:
  "unat (a :: 'a::len word) + unat b < 2 ^ LENGTH('a) \<Longrightarrow> unat (a + b) = unat a + unat b"
  by (simp add: unat_word_ariths)

lemma unat_add_noof32:
  "unat (a :: 32 word) + unat b < 4294967296 \<Longrightarrow> unat (a + b) = unat a + unat b"
  by (simp add: unat_word_ariths)

lemma unat_mult_noof:
  "unat (a :: 'a::len word) * unat b < 2 ^ LENGTH('a) \<Longrightarrow> unat (a * b) = unat a * unat b"
  by (simp add: unat_word_ariths)

lemma unat_sub_noof:
  "unat (b :: 'a::len word) \<le> unat a \<Longrightarrow> unat (a - b) = unat a - unat b"
  by (simp add: unat_sub word_le_nat_alt)

lemma unat_lt32 [simp]: "unat (a :: 32 word) < 4294967296"
  using unsigned_less [of a] by simp

lemma unat_of_nat16: "n < 65536 \<Longrightarrow> unat (of_nat n :: 16 word) = n"
  by (simp add: unat_of_nat)

lemma of_nat16_eq_0: "n < 65536 \<Longrightarrow> (of_nat n :: 16 word) = 0 \<longleftrightarrow> n = 0"
  using unat_of_nat16 [of n] by (auto simp: unat_eq_0 [symmetric])

end
