(* ===== verification/Queue.thy ===== *)
theory Queue
  imports Prelude
begin

text \<open>
  The queue component, \<^verbatim>\<open>src/mqx/source/kernel/queue.c\<close>, with the queue macros of
  \<^verbatim>\<open>src/mqx/source/include/mqx_prv.h\<close> it is built from. Queues are circular doubly
  linked lists threaded through a pointer store: a \<open>QUEUE_STRUCT\<close> starts with the same
  \<open>NEXT\<close> and \<open>PREV\<close> fields as a \<open>QUEUE_ELEMENT_STRUCT\<close>, so that a queue header is
  itself an element of its ring. The store keeps one map per field.

  The lemmas relate the store to the list of elements a header owns (\<open>queue_of\<close>) and show
  that every operation implements the list operation it is named after.
\<close>

section \<open>The store\<close>

record qheap =
  NEXT :: "addr \<Rightarrow> addr"
  PREV :: "addr \<Rightarrow> addr"
  SIZE :: "addr \<Rightarrow> u16"
  MAX_Q :: "addr \<Rightarrow> u16"

section \<open>The macros\<close>

definition QUEUE_INIT :: "addr \<Rightarrow> u16 \<Rightarrow> qheap \<Rightarrow> qheap" where
  "QUEUE_INIT q mx h =
     h\<lparr>NEXT := (NEXT h)(q := q), PREV := (PREV h)(q := q),
       SIZE := (SIZE h)(q := 0), MAX_Q := (MAX_Q h)(q := mx)\<rparr>"

definition QUEUE_LINK :: "addr \<Rightarrow> addr \<Rightarrow> qheap \<Rightarrow> qheap" where
  "QUEUE_LINK m e h =
     (let nxt = NEXT h m;
          h1 = h\<lparr>NEXT := (NEXT h)(e := nxt)\<rparr>;
          h2 = h1\<lparr>NEXT := (NEXT h1)(m := e)\<rparr>;
          h3 = h2\<lparr>PREV := (PREV h2)(e := m)\<rparr>
      in h3\<lparr>PREV := (PREV h3)(nxt := e)\<rparr>)"

definition QUEUE_INSERT :: "addr \<Rightarrow> addr \<Rightarrow> addr \<Rightarrow> qheap \<Rightarrow> qheap" where
  "QUEUE_INSERT q m e h =
     (let h1 = QUEUE_LINK m e h in h1\<lparr>SIZE := (SIZE h1)(q := SIZE h1 q + 1)\<rparr>)"

definition QUEUE_ENQUEUE :: "addr \<Rightarrow> addr \<Rightarrow> qheap \<Rightarrow> qheap" where
  "QUEUE_ENQUEUE q e h = QUEUE_INSERT q (PREV h q) e h"

definition QUEUE_UNLINK :: "addr \<Rightarrow> qheap \<Rightarrow> qheap" where
  "QUEUE_UNLINK e h =
     (let prev_ptr = PREV h e; next_ptr = NEXT h e;
          h1 = h\<lparr>NEXT := (NEXT h)(prev_ptr := next_ptr)\<rparr>
      in h1\<lparr>PREV := (PREV h1)(next_ptr := prev_ptr)\<rparr>)"

definition QUEUE_REMOVE :: "addr \<Rightarrow> addr \<Rightarrow> qheap \<Rightarrow> qheap" where
  "QUEUE_REMOVE q e h =
     (let h1 = QUEUE_UNLINK e h in h1\<lparr>SIZE := (SIZE h1)(q := SIZE h1 q - 1)\<rparr>)"

definition QUEUE_DEQUEUE :: "addr \<Rightarrow> qheap \<Rightarrow> addr \<times> qheap" where
  "QUEUE_DEQUEUE q h = (let e = NEXT h q in (e, QUEUE_REMOVE q e h))"

section \<open>The functions of queue.c\<close>

definition queue_init :: "addr \<Rightarrow> u16 \<Rightarrow> qheap \<Rightarrow> qheap" where
  "queue_init q_ptr sz h = QUEUE_INIT q_ptr sz h"

definition queue_enqueue :: "addr \<Rightarrow> addr \<Rightarrow> qheap \<Rightarrow> bool \<times> qheap" where
  "queue_enqueue q_ptr e_ptr h =
     (if MAX_Q h q_ptr \<noteq> 0 \<and> SIZE h q_ptr \<ge> MAX_Q h q_ptr then (False, h)
      else (True, QUEUE_ENQUEUE q_ptr e_ptr h))"

definition queue_dequeue :: "addr \<Rightarrow> qheap \<Rightarrow> addr \<times> qheap" where
  "queue_dequeue q_ptr h =
     (if SIZE h q_ptr = 0 then (NULL, h) else QUEUE_DEQUEUE q_ptr h)"

definition queue_head :: "addr \<Rightarrow> qheap \<Rightarrow> addr" where
  "queue_head q_ptr h = (if SIZE h q_ptr = 0 then NULL else NEXT h q_ptr)"

definition queue_insert :: "addr \<Rightarrow> addr \<Rightarrow> addr \<Rightarrow> qheap \<Rightarrow> bool \<times> qheap" where
  "queue_insert q_ptr qe_ptr e_ptr h =
     (let qe_ptr = (if qe_ptr = NULL then q_ptr else qe_ptr) in
      if MAX_Q h q_ptr \<noteq> 0 \<and> SIZE h q_ptr \<ge> MAX_Q h q_ptr then (False, h)
      else (True, QUEUE_INSERT q_ptr qe_ptr e_ptr h))"

definition queue_next :: "addr \<Rightarrow> addr \<Rightarrow> qheap \<Rightarrow> addr" where
  "queue_next q_ptr e_ptr h =
     (if e_ptr = NULL then NULL
      else let next_ptr = NEXT h e_ptr in if next_ptr = q_ptr then NULL else next_ptr)"

text \<open>
  The loop of \<open>_queue_test\<close>: \<open>n\<close> is the number of iterations that \<open>while (--size)\<close> has
  left. The result is the element in error, or the pair of pointers the loop ends with.
\<close>

fun queue_test_loop ::
  "addr \<Rightarrow> nat \<Rightarrow> addr \<Rightarrow> addr \<Rightarrow> qheap \<Rightarrow> addr + addr \<times> addr" where
  "queue_test_loop q_ptr 0 element_ptr prev_ptr h = Inr (element_ptr, prev_ptr)"
| "queue_test_loop q_ptr (Suc n) element_ptr prev_ptr h =
     (if element_ptr = q_ptr then Inl element_ptr
      else if PREV h element_ptr \<noteq> prev_ptr then Inl element_ptr
      else queue_test_loop q_ptr n (NEXT h element_ptr) element_ptr h)"

text \<open>\<open>Inl e\<close> is \<open>MQX_CORRUPT_QUEUE\<close> with \<open>*element_in_error_ptr = e\<close>, \<open>Inr ()\<close> is \<open>MQX_OK\<close>.\<close>

definition queue_test :: "addr \<Rightarrow> qheap \<Rightarrow> addr + unit" where
  "queue_test q_ptr h =
     (case queue_test_loop q_ptr (unat (SIZE h q_ptr)) (NEXT h q_ptr) q_ptr h of
        Inl e \<Rightarrow> Inl e
      | Inr (element_ptr, prev_ptr) \<Rightarrow>
          if element_ptr \<noteq> q_ptr then Inl element_ptr
          else if PREV h q_ptr \<noteq> prev_ptr then Inl element_ptr
          else Inr ())"

definition queue_unlink :: "addr \<Rightarrow> addr \<Rightarrow> qheap \<Rightarrow> qheap" where
  "queue_unlink q_ptr e_ptr h = QUEUE_REMOVE q_ptr e_ptr h"

definition queue_get_size :: "addr \<Rightarrow> qheap \<Rightarrow> u16" where
  "queue_get_size q_ptr h = SIZE h q_ptr"

definition queue_is_empty :: "addr \<Rightarrow> qheap \<Rightarrow> bool" where
  "queue_is_empty q_ptr h \<longleftrightarrow> SIZE h q_ptr = 0"

lemmas queue_macros = QUEUE_INIT_def QUEUE_LINK_def QUEUE_INSERT_def QUEUE_ENQUEUE_def
  QUEUE_UNLINK_def QUEUE_REMOVE_def QUEUE_DEQUEUE_def

section \<open>The ring a header owns\<close>

text \<open>
  \<open>chain h a xs z\<close>: following \<open>NEXT\<close> from \<open>a\<close> visits \<open>xs\<close> and then \<open>z\<close>, and \<open>PREV\<close> runs
  back the same way. A queue is a chain from the header to itself.
\<close>

fun chain :: "qheap \<Rightarrow> addr \<Rightarrow> addr list \<Rightarrow> addr \<Rightarrow> bool" where
  "chain h a [] z \<longleftrightarrow> NEXT h a = z \<and> PREV h z = a"
| "chain h a (x # xs) z \<longleftrightarrow> NEXT h a = x \<and> PREV h x = a \<and> chain h x xs z"

definition queue_of :: "qheap \<Rightarrow> addr \<Rightarrow> addr list \<Rightarrow> bool" where
  "queue_of h q xs \<longleftrightarrow> distinct (q # xs) \<and> NULL \<notin> set (q # xs) \<and> chain h q xs q
     \<and> length xs < 65536 \<and> SIZE h q = of_nat (length xs)"

text \<open>The elements read off the store, \<open>SIZE\<close> steps along \<open>NEXT\<close>.\<close>

fun walk :: "qheap \<Rightarrow> nat \<Rightarrow> addr \<Rightarrow> addr list" where
  "walk h 0 a = []"
| "walk h (Suc n) a = NEXT h a # walk h n (NEXT h a)"

definition queue_list :: "addr \<Rightarrow> qheap \<Rightarrow> addr list" where
  "queue_list q h = walk h (unat (SIZE h q)) q"

subsection \<open>Chains\<close>

lemma chain_append [simp]:
  "chain h a (xs @ y # ys) z \<longleftrightarrow> chain h a xs y \<and> chain h y ys z"
  by (induction xs arbitrary: a) auto

lemma chain_cong:
  "NEXT h' = NEXT h \<Longrightarrow> PREV h' = PREV h \<Longrightarrow> chain h' a xs z = chain h a xs z"
  by (induction xs arbitrary: a) auto

lemma chain_sizes [simp]:
  "chain (h\<lparr>SIZE := s\<rparr>) a xs z = chain h a xs z"
  "chain (h\<lparr>MAX_Q := s\<rparr>) a xs z = chain h a xs z"
  by (rule chain_cong; simp)+

lemma chain_frame:
  "(\<And>u. u \<in> set (a # xs) \<Longrightarrow> NEXT h' u = NEXT h u) \<Longrightarrow>
   (\<And>u. u \<in> set (xs @ [z]) \<Longrightarrow> PREV h' u = PREV h u) \<Longrightarrow> chain h' a xs z = chain h a xs z"
  by (induction xs arbitrary: a) auto

lemma chain_next_last: "chain h a (us @ vs) z \<Longrightarrow> NEXT h (last (a # us)) = hd (vs @ [z])"
  by (induction us arbitrary: a; cases vs) auto

lemma chain_prev_hd: "chain h a (us @ vs) z \<Longrightarrow> PREV h (hd (vs @ [z])) = last (a # us)"
  by (induction us arbitrary: a; cases vs) auto

lemma chain_next: "chain h a xs z \<Longrightarrow> NEXT h a = hd (xs @ [z])"
  by (cases xs) auto

lemma chain_prev: "chain h a xs z \<Longrightarrow> PREV h z = last (a # xs)"
  using chain_prev_hd [of h a xs "[]" z] by simp

text \<open>The ring is determined by the store, and its members are pairwise different.\<close>

lemma chain_unique:
  "chain h a xs z \<Longrightarrow> chain h a ys z \<Longrightarrow> z \<notin> set xs \<Longrightarrow> z \<notin> set ys \<Longrightarrow> xs = ys"
proof (induction xs arbitrary: a ys)
  case Nil
  then show ?case by (cases ys) auto
next
  case (Cons x xs)
  then show ?case by (cases ys) auto
qed

lemma chain_distinct: "chain h a xs z \<Longrightarrow> z \<notin> set xs \<Longrightarrow> distinct xs"
proof (induction xs arbitrary: a)
  case Nil
  then show ?case by simp
next
  case (Cons x xs)
  then have ch: "chain h x xs z" and z: "z \<notin> set xs" by auto
  have "x \<notin> set xs"
  proof
    assume "x \<in> set xs"
    then obtain us vs where xs: "xs = us @ x # vs" by (auto simp: in_set_conv_decomp)
    with ch have "chain h x vs z" by simp
    with ch z xs have "xs = vs" by (intro chain_unique) auto
    with xs show False by auto
  qed
  with Cons show ?case by auto
qed

lemma chain_walk: "chain h a xs z \<Longrightarrow> walk h (length xs) a = xs"
  by (induction xs arbitrary: a) auto

subsection \<open>Linking and unlinking\<close>

lemma chain_link:
  assumes "chain h a (us @ vs) z" "distinct (a # us @ vs)" "z \<notin> set (us @ vs)"
    and "e \<notin> set (a # us @ vs)" "e \<noteq> z"
  shows "chain (QUEUE_LINK (last (a # us)) e h) a (us @ e # vs) z"
  using assms
proof (induction us arbitrary: a)
  case Nil
  note base = this
  show ?case
  proof (cases vs)
    case Nil
    with base show ?thesis by (auto simp: QUEUE_LINK_def Let_def)
  next
    case (Cons v vs')
    then have "chain (QUEUE_LINK a e h) v vs' z = chain h v vs' z"
      using base by (intro chain_frame) (auto simp: QUEUE_LINK_def Let_def)
    with Cons base show ?thesis by (auto simp: QUEUE_LINK_def Let_def)
  qed
next
  case (Cons u us)
  let ?m = "last (u # us)"
  from Cons.prems have "chain (QUEUE_LINK ?m e h) u (us @ e # vs) z"
    by (intro Cons.IH) auto
  moreover have "?m \<noteq> a" using Cons.prems last_in_set [of "u # us"] by auto
  moreover have nxt: "NEXT h ?m = hd (vs @ [z])"
    using Cons.prems chain_next_last [of h u us vs z] by simp
  moreover have "hd (vs @ [z]) \<noteq> u"
    using Cons.prems by (cases vs) auto
  ultimately show ?case using Cons.prems
    by (auto simp: QUEUE_LINK_def Let_def)
qed

lemma chain_unlink:
  assumes "chain h a (us @ e # vs) z" "distinct (a # us @ e # vs)" "z \<notin> set (us @ e # vs)"
  shows "chain (QUEUE_UNLINK e h) a (us @ vs) z"
  using assms
proof (induction us arbitrary: a)
  case Nil
  note base = this
  show ?case
  proof (cases vs)
    case Nil
    with base show ?thesis by (auto simp: QUEUE_UNLINK_def Let_def)
  next
    case (Cons v vs')
    then have "chain (QUEUE_UNLINK e h) v vs' z = chain h v vs' z"
      using base by (intro chain_frame) (auto simp: QUEUE_UNLINK_def Let_def)
    with Cons base show ?thesis by (auto simp: QUEUE_UNLINK_def Let_def)
  qed
next
  case (Cons u us)
  from Cons.prems have "chain (QUEUE_UNLINK e h) u (us @ vs) z"
    by (intro Cons.IH) auto
  moreover have "PREV h e = last (u # us)" "NEXT h e = hd (vs @ [z])"
    using Cons.prems chain_prev [of h u us e] chain_next [of h e vs z] by auto
  moreover have "last (u # us) \<noteq> a" using Cons.prems last_in_set [of "u # us"] by auto
  moreover have "hd (vs @ [z]) \<noteq> u" using Cons.prems by (cases vs) auto
  ultimately show ?case using Cons.prems
    by (auto simp: QUEUE_UNLINK_def Let_def)
qed

section \<open>Every operation implements its list operation\<close>

lemma queue_ofI:
  "distinct (q # xs) \<Longrightarrow> NULL \<notin> set (q # xs) \<Longrightarrow> chain h q xs q \<Longrightarrow> length xs < 65536 \<Longrightarrow>
   SIZE h q = of_nat (length xs) \<Longrightarrow> queue_of h q xs"
  by (simp add: queue_of_def)

lemma queue_of_unat_size: "queue_of h q xs \<Longrightarrow> unat (SIZE h q) = length xs"
  by (auto simp: queue_of_def unat_of_nat16)

lemma queue_of_size_0: "queue_of h q xs \<Longrightarrow> SIZE h q = 0 \<longleftrightarrow> xs = []"
  using queue_of_unat_size [of h q xs] by (auto simp: unat_eq_0 [symmetric])

lemma queue_of_chain: "queue_of h q xs \<Longrightarrow> chain h q xs q"
  by (simp add: queue_of_def)

lemma queue_of_distinct: "queue_of h q xs \<Longrightarrow> distinct xs \<and> q \<notin> set xs \<and> NULL \<notin> set (q # xs)"
  by (simp add: queue_of_def)

lemma queue_list_eq: "queue_of h q xs \<Longrightarrow> queue_list q h = xs"
  using queue_of_chain [of h q xs] queue_of_unat_size [of h q xs]
  by (simp add: queue_list_def chain_walk)

lemma queue_of_unique: "queue_of h q xs \<Longrightarrow> queue_of h q ys \<Longrightarrow> xs = ys"
  using queue_list_eq by metis

lemma queue_of_init: "q \<noteq> NULL \<Longrightarrow> queue_of (QUEUE_INIT q mx h) q []"
  by (simp add: queue_of_def QUEUE_INIT_def)

lemma QUEUE_LINK_sizes [simp]:
  "SIZE (QUEUE_LINK m e h) = SIZE h" "MAX_Q (QUEUE_LINK m e h) = MAX_Q h"
  by (simp_all add: QUEUE_LINK_def Let_def)

lemma QUEUE_UNLINK_sizes [simp]:
  "SIZE (QUEUE_UNLINK e h) = SIZE h" "MAX_Q (QUEUE_UNLINK e h) = MAX_Q h"
  by (simp_all add: QUEUE_UNLINK_def Let_def)

text \<open>Insertion after an arbitrary member \<open>last (q # us)\<close>, the header included.\<close>

lemma queue_of_insert:
  assumes q: "queue_of h q (us @ vs)" and e: "e \<notin> set (q # us @ vs)" "e \<noteq> NULL"
    and room: "length (us @ vs) < 65535"
  shows "queue_of (QUEUE_INSERT q (last (q # us)) e h) q (us @ e # vs)"
proof (rule queue_ofI)
  show "chain (QUEUE_INSERT q (last (q # us)) e h) q (us @ e # vs) q"
    using q e chain_link [of h q us vs q e]
    by (auto simp: QUEUE_INSERT_def Let_def queue_of_def)
  show "SIZE (QUEUE_INSERT q (last (q # us)) e h) q = of_nat (length (us @ e # vs))"
    using q by (simp add: QUEUE_INSERT_def Let_def queue_of_def)
qed (use q e room in \<open>auto simp: queue_of_def\<close>)

lemma queue_of_remove:
  assumes q: "queue_of h q (us @ e # vs)"
  shows "queue_of (QUEUE_REMOVE q e h) q (us @ vs)"
proof (rule queue_ofI)
  show "chain (QUEUE_REMOVE q e h) q (us @ vs) q"
    using q chain_unlink [of h q us e vs q]
    by (auto simp: QUEUE_REMOVE_def Let_def queue_of_def)
  show "SIZE (QUEUE_REMOVE q e h) q = of_nat (length (us @ vs))"
    using q by (simp add: QUEUE_REMOVE_def Let_def queue_of_def)
qed (use q in \<open>auto simp: queue_of_def\<close>)

lemma queue_of_prev: "queue_of h q xs \<Longrightarrow> PREV h q = last (q # xs)"
  using chain_prev [of h q xs q] by (simp add: queue_of_def)

lemma queue_of_next: "queue_of h q xs \<Longrightarrow> NEXT h q = hd (xs @ [q])"
  using chain_next [of h q xs q] by (simp add: queue_of_def)

lemma queue_of_enqueue:
  "queue_of h q xs \<Longrightarrow> e \<notin> set (q # xs) \<Longrightarrow> e \<noteq> NULL \<Longrightarrow> length xs < 65535 \<Longrightarrow>
   queue_of (QUEUE_ENQUEUE q e h) q (xs @ [e])"
  using queue_of_insert [of h q xs "[]" e] queue_of_prev [of h q xs]
  by (simp add: QUEUE_ENQUEUE_def)

lemma queue_of_dequeue:
  assumes "queue_of h q (x # xs)"
  shows "fst (QUEUE_DEQUEUE q h) = x \<and> queue_of (snd (QUEUE_DEQUEUE q h)) q xs"
  using queue_of_remove [of h q "[]" x xs] queue_of_next [OF assms] assms
  by (simp add: QUEUE_DEQUEUE_def Let_def)

text \<open>An operation on one queue leaves the others as they are.\<close>

lemma queue_of_frame:
  assumes "queue_of h r ys"
    and "\<And>u. u \<in> set (r # ys) \<Longrightarrow> NEXT h' u = NEXT h u \<and> PREV h' u = PREV h u"
    and "SIZE h' r = SIZE h r"
  shows "queue_of h' r ys"
  using assms chain_frame [of r ys h' h r] by (auto simp: queue_of_def)

lemma QUEUE_LINK_frame:
  "u \<noteq> e \<Longrightarrow> u \<noteq> m \<Longrightarrow> NEXT (QUEUE_LINK m e h) u = NEXT h u"
  "u \<noteq> e \<Longrightarrow> u \<noteq> NEXT h m \<Longrightarrow> PREV (QUEUE_LINK m e h) u = PREV h u"
  by (simp_all add: QUEUE_LINK_def Let_def)

lemma QUEUE_UNLINK_frame:
  "u \<noteq> PREV h e \<Longrightarrow> NEXT (QUEUE_UNLINK e h) u = NEXT h u"
  "u \<noteq> NEXT h e \<Longrightarrow> PREV (QUEUE_UNLINK e h) u = PREV h u"
  by (simp_all add: QUEUE_UNLINK_def Let_def)

lemma hd_last_members:
  "hd (vs @ [q]) \<in> set (q # us @ vs)" "last (q # us) \<in> set (q # us @ vs)"
  using last_in_set [of "q # us"] by (cases vs; auto)+

lemma queue_of_insert_frame:
  assumes q: "queue_of h q (us @ vs)" and r: "queue_of h r ys"
    and disj: "set (q # us @ vs) \<inter> set (r # ys) = {}" "e \<notin> set (r # ys)"
  shows "queue_of (QUEUE_INSERT q (last (q # us)) e h) r ys"
proof (rule queue_of_frame [OF r])
  have nxt: "NEXT h (last (q # us)) = hd (vs @ [q])"
    using q chain_next_last [of h q us vs q] by (simp add: queue_of_def)
  fix u assume "u \<in> set (r # ys)"
  then have "u \<noteq> e" "u \<noteq> last (q # us)" "u \<noteq> NEXT h (last (q # us))"
    unfolding nxt using disj hd_last_members [where vs = vs and q = q and us = us] by blast+
  then show "NEXT (QUEUE_INSERT q (last (q # us)) e h) u = NEXT h u \<and>
      PREV (QUEUE_INSERT q (last (q # us)) e h) u = PREV h u"
    by (simp add: QUEUE_INSERT_def Let_def QUEUE_LINK_frame)
next
  have "r \<noteq> q" using disj by auto
  then show "SIZE (QUEUE_INSERT q (last (q # us)) e h) r = SIZE h r"
    unfolding QUEUE_INSERT_def Let_def by simp
qed

lemma queue_of_remove_frame:
  assumes q: "queue_of h q (us @ e # vs)" and r: "queue_of h r ys"
    and disj: "set (q # us @ vs) \<inter> set (r # ys) = {}"
  shows "queue_of (QUEUE_REMOVE q e h) r ys"
proof (rule queue_of_frame [OF r])
  have links: "PREV h e = last (q # us)" "NEXT h e = hd (vs @ [q])"
    using q chain_prev [of h q us e] chain_next [of h e vs q] by (simp_all add: queue_of_def)
  fix u assume "u \<in> set (r # ys)"
  then have "u \<noteq> PREV h e" "u \<noteq> NEXT h e"
    unfolding links using disj hd_last_members [where vs = vs and q = q and us = us] by blast+
  then show "NEXT (QUEUE_REMOVE q e h) u = NEXT h u \<and> PREV (QUEUE_REMOVE q e h) u = PREV h u"
    by (simp add: QUEUE_REMOVE_def Let_def QUEUE_UNLINK_frame)
next
  have "r \<noteq> q" using disj by auto
  then show "SIZE (QUEUE_REMOVE q e h) r = SIZE h r"
    unfolding QUEUE_REMOVE_def Let_def by simp
qed

section \<open>The self test\<close>

text \<open>The loop accepts exactly the stores in which \<open>n\<close> doubly linked members follow \<open>p\<close>.\<close>

lemma queue_test_loop_sound:
  "queue_test_loop q n x p h = Inr (q, p') \<Longrightarrow> NEXT h p = x \<Longrightarrow> PREV h q = p' \<Longrightarrow>
   \<exists>ys. length ys = n \<and> q \<notin> set ys \<and> chain h p ys q"
proof (induction n arbitrary: x p)
  case 0
  then show ?case by simp
next
  case (Suc n)
  then have "x \<noteq> q" and p: "PREV h x = p" and r: "queue_test_loop q n (NEXT h x) x h = Inr (q, p')"
    by (auto split: if_splits)
  from Suc.IH [OF r refl Suc.prems(3)] obtain ys where
    "length ys = n" "q \<notin> set ys" "chain h x ys q" by blast
  with \<open>x \<noteq> q\<close> p Suc.prems(2) show ?case
    by (intro exI [of _ "x # ys"]) simp
qed

lemma queue_test_loop_complete:
  "chain h p ys q \<Longrightarrow> q \<notin> set ys \<Longrightarrow>
   queue_test_loop q (length ys) (NEXT h p) p h = Inr (q, last (p # ys))"
  by (induction ys arbitrary: p) auto

lemma queue_test_ok_iff:
  "queue_test q h = Inr () \<longleftrightarrow>
     (\<exists>xs. length xs = unat (SIZE h q) \<and> distinct xs \<and> q \<notin> set xs \<and> chain h q xs q)"
    (is "_ \<longleftrightarrow> ?r")
proof -
  have "queue_test q h = Inr () \<longleftrightarrow>
      queue_test_loop q (unat (SIZE h q)) (NEXT h q) q h = Inr (q, PREV h q)"
    by (auto simp: queue_test_def split: sum.splits prod.splits if_splits)
  also have "\<dots> \<longleftrightarrow> ?r"
  proof
    assume "queue_test_loop q (unat (SIZE h q)) (NEXT h q) q h = Inr (q, PREV h q)"
    from queue_test_loop_sound [OF this refl refl] show ?r
      using chain_distinct by blast
  next
    assume ?r
    then obtain xs where "length xs = unat (SIZE h q)" "q \<notin> set xs" "chain h q xs q" by blast
    then show "queue_test_loop q (unat (SIZE h q)) (NEXT h q) q h = Inr (q, PREV h q)"
      using queue_test_loop_complete [of h q xs q] chain_prev [of h q xs q] by simp
  qed
  finally show ?thesis .
qed

section \<open>A bounded first-in first-out buffer\<close>

text \<open>
  The contract that the clients of a queue rely on: what \<open>put\<close> appends, what \<open>get\<close>
  takes, and that a full buffer is refused without any change. The ring of this theory
  and the circular message buffer of the message queue component both provide it.
\<close>

locale bounded_fifo =
  fixes inv :: "'s \<Rightarrow> bool"
    and contents :: "'s \<Rightarrow> 'e list"
    and is_full :: "'s \<Rightarrow> bool"
    and ok :: "'s \<Rightarrow> 'e \<Rightarrow> bool"
    and put :: "'e \<Rightarrow> 's \<Rightarrow> bool \<times> 's"
    and get :: "'s \<Rightarrow> 'e \<times> 's"
  assumes put_ok: "inv s \<Longrightarrow> ok s e \<Longrightarrow> \<not> is_full s \<Longrightarrow>
      fst (put e s) \<and> inv (snd (put e s)) \<and> contents (snd (put e s)) = contents s @ [e]"
    and put_full: "is_full s \<Longrightarrow> put e s = (False, s)"
    and get_ok: "inv s \<Longrightarrow> contents s = x # xs \<Longrightarrow>
      fst (get s) = x \<and> inv (snd (get s)) \<and> contents (snd (get s)) = xs"
begin

primrec put_all :: "'e list \<Rightarrow> 's \<Rightarrow> 's" where
  "put_all [] s = s"
| "put_all (e # es) s = put_all es (snd (put e s))"

primrec accepts :: "'s \<Rightarrow> 'e list \<Rightarrow> bool" where
  "accepts s [] = True"
| "accepts s (e # es) = (\<not> is_full s \<and> ok s e \<and> accepts (snd (put e s)) es)"

primrec get_many :: "nat \<Rightarrow> 's \<Rightarrow> 'e list \<times> 's" where
  "get_many 0 s = ([], s)"
| "get_many (Suc n) s =
     (let (x, s1) = get s; (xs, s2) = get_many n s1 in (x # xs, s2))"

lemma put_all_contents:
  "inv s \<Longrightarrow> accepts s es \<Longrightarrow> inv (put_all es s) \<and> contents (put_all es s) = contents s @ es"
proof (induction es arbitrary: s)
  case Nil
  then show ?case by simp
next
  case (Cons e es)
  then show ?case using put_ok [of s e] by simp
qed

lemma get_many_contents:
  "inv s \<Longrightarrow> contents s = xs @ ys \<Longrightarrow>
   fst (get_many (length xs) s) = xs \<and> inv (snd (get_many (length xs) s)) \<and>
   contents (snd (get_many (length xs) s)) = ys"
proof (induction xs arbitrary: s)
  case Nil
  then show ?case by simp
next
  case (Cons x xs)
  then have "fst (get s) = x \<and> inv (snd (get s)) \<and> contents (snd (get s)) = xs @ ys"
    using get_ok [of s x "xs @ ys"] by simp
  with Cons.IH [of "snd (get s)"] show ?case
    by (auto simp: Let_def split: prod.splits)
qed

lemma first_in_first_out:
  assumes "inv s" "accepts s es"
  shows "fst (get_many (length (contents s) + length es) (put_all es s)) = contents s @ es"
  using get_many_contents [of "put_all es s" "contents s @ es" "[]"]
    put_all_contents [OF assms] by simp

end

text \<open>The ring of header \<open>q\<close> is such a buffer.\<close>

definition ring_inv :: "addr \<Rightarrow> qheap \<Rightarrow> bool" where
  "ring_inv q h \<longleftrightarrow> queue_of h q (queue_list q h)"

definition ring_full :: "addr \<Rightarrow> qheap \<Rightarrow> bool" where
  "ring_full q h \<longleftrightarrow> MAX_Q h q \<noteq> 0 \<and> SIZE h q \<ge> MAX_Q h q"

text \<open>An element can be added when it is no member yet and the 16-bit counter has room.\<close>

definition ring_ok :: "addr \<Rightarrow> qheap \<Rightarrow> addr \<Rightarrow> bool" where
  "ring_ok q h e \<longleftrightarrow> e \<noteq> NULL \<and> e \<notin> set (q # queue_list q h) \<and> length (queue_list q h) < 65535"

lemma ring_invI: "queue_of h q xs \<Longrightarrow> ring_inv q h \<and> queue_list q h = xs"
  by (simp add: ring_inv_def queue_list_eq)

lemma queue_enqueue_ring:
  assumes "ring_inv q h" "ring_ok q h e" "\<not> ring_full q h"
  shows "fst (queue_enqueue q e h) \<and> ring_inv q (snd (queue_enqueue q e h)) \<and>
    queue_list q (snd (queue_enqueue q e h)) = queue_list q h @ [e]"
proof -
  have "queue_enqueue q e h = (True, QUEUE_ENQUEUE q e h)"
    using assms(3) by (auto simp: queue_enqueue_def ring_full_def)
  moreover have "queue_of (QUEUE_ENQUEUE q e h) q (queue_list q h @ [e])"
    using assms by (intro queue_of_enqueue) (auto simp: ring_inv_def ring_ok_def)
  ultimately show ?thesis using ring_invI by simp
qed

lemma queue_dequeue_ring:
  assumes "ring_inv q h" "queue_list q h = x # xs"
  shows "fst (queue_dequeue q h) = x \<and> ring_inv q (snd (queue_dequeue q h)) \<and>
    queue_list q (snd (queue_dequeue q h)) = xs"
proof -
  have q: "queue_of h q (x # xs)" using assms by (simp add: ring_inv_def)
  then have "queue_dequeue q h = QUEUE_DEQUEUE q h"
    using queue_of_size_0 [OF q] by (simp add: queue_dequeue_def)
  with queue_of_dequeue [OF q] ring_invI show ?thesis by metis
qed

interpretation ring: bounded_fifo "ring_inv q" "queue_list q" "ring_full q" "ring_ok q"
  "queue_enqueue q" "queue_dequeue q" for q
proof
  show "ring_full q s \<Longrightarrow> queue_enqueue q e s = (False, s)" for s e
    by (auto simp: ring_full_def queue_enqueue_def)
qed (use queue_enqueue_ring queue_dequeue_ring in blast)+

section \<open>Properties of queue.c\<close>

text \<open>A concrete store for the witnesses: header 16 with capacity 3 and elements 32, 48.\<close>

definition demo_ring :: qheap where
  "demo_ring = snd (queue_enqueue 16 48 (snd (queue_enqueue 16 32
     (queue_init 16 3 \<lparr>NEXT = (\<lambda>_. 0), PREV = (\<lambda>_. 0), SIZE = (\<lambda>_. 0), MAX_Q = (\<lambda>_. 0)\<rparr>))))"

lemma demo_ring_queue: "queue_of demo_ring 16 [32, 48]"
  by (simp add: demo_ring_def queue_init_def queue_enqueue_def queue_macros queue_of_def Let_def
      word_le_nat_alt)

text \<open>
  \<open>_queue_test\<close> answers \<open>MQX_OK\<close> exactly when the store holds, from the header on, a
  ring of \<open>SIZE\<close> pairwise different members that is linked consistently in both
  directions: it accepts no corrupted ring and rejects no sound one.
\<close>

theorem queue_test_sound_complete:
  "queue_test q h = Inr () \<longleftrightarrow>
     (\<exists>xs. length xs = unat (SIZE h q) \<and> distinct xs \<and> q \<notin> set xs \<and> chain h q xs q)"
  by (rule queue_test_ok_iff)

text \<open>
  C39. \<open>_queue_insert\<close> places the element directly after the given member (at the front
  for \<open>NULL\<close>), keeps the ring well formed and leaves every other queue of the store alone;
  a full queue is refused and nothing changes.
\<close>

theorem queue_insert_refines:
  assumes "queue_of h q (us @ vs)" "e \<noteq> NULL" "e \<notin> set (q # us @ vs)"
    and "length (us @ vs) < 65535"
    and "qe = (if us = [] then NULL else last us)"
  shows "if MAX_Q h q \<noteq> 0 \<and> MAX_Q h q \<le> SIZE h q then queue_insert q qe e h = (False, h)
    else fst (queue_insert q qe e h) \<and> queue_of (snd (queue_insert q qe e h)) q (us @ e # vs) \<and>
      (\<forall>r ys. queue_of h r ys \<and> set (q # e # us @ vs) \<inter> set (r # ys) = {} \<longrightarrow>
         queue_of (snd (queue_insert q qe e h)) r ys)"
proof (cases "MAX_Q h q \<noteq> 0 \<and> MAX_Q h q \<le> SIZE h q")
  case True
  then show ?thesis by (simp add: queue_insert_def)
next
  case False
  have "NULL \<notin> set us" using assms(1) by (auto simp: queue_of_def)
  then have "last us \<noteq> NULL" if "us \<noteq> []" using that last_in_set [of us] by metis
  then have eq: "queue_insert q qe e h = (True, QUEUE_INSERT q (last (q # us)) e h)"
    using False assms(5) by (auto simp: queue_insert_def Let_def)
  have "queue_of (QUEUE_INSERT q (last (q # us)) e h) r ys"
    if "queue_of h r ys" "set (q # e # us @ vs) \<inter> set (r # ys) = {}" for r ys
    using that by (intro queue_of_insert_frame [OF assms(1)]) auto
  with False eq queue_of_insert [OF assms(1) assms(3) assms(2) assms(4)] show ?thesis
    by (simp only: fst_conv snd_conv if_False) blast
qed

theorem queue_insert_refines_witness:
  "fst (queue_insert 16 32 64 demo_ring) \<and>
   queue_of (snd (queue_insert 16 32 64 demo_ring)) 16 [32, 64, 48]"
proof -
  have full: "\<not> (MAX_Q demo_ring 16 \<noteq> 0 \<and> MAX_Q demo_ring 16 \<le> SIZE demo_ring 16)"
    by (simp add: demo_ring_def queue_init_def queue_enqueue_def queue_macros Let_def word_le_nat_alt)
  show ?thesis
    using queue_insert_refines [of demo_ring 16 "[32]" "[48]" 64 32] demo_ring_queue
    by (simp add: if_not_P [OF full])
qed

text \<open>
  \<open>_queue_unlink\<close> removes exactly the given member and keeps the order of the rest, and
  every queue with no member in common is left alone.
\<close>

theorem queue_unlink_refines:
  assumes "queue_of h q xs" "e \<in> set xs"
  shows "queue_of (queue_unlink q e h) q (remove1 e xs) \<and>
    (\<forall>r ys. queue_of h r ys \<and> set (q # xs) \<inter> set (r # ys) = {} \<longrightarrow>
       queue_of (queue_unlink q e h) r ys)"
proof -
  obtain us vs where xs: "xs = us @ e # vs" and "e \<notin> set us"
    using split_list_first [OF assms(2)] by blast
  then have r: "remove1 e xs = us @ vs" by simp
  have "queue_of (QUEUE_REMOVE q e h) s ys"
    if "queue_of h s ys" "set (q # xs) \<inter> set (s # ys) = {}" for s ys
    using that assms(1) xs by (intro queue_of_remove_frame [of h q us e vs]) auto
  moreover have "queue_of (QUEUE_REMOVE q e h) q (us @ vs)"
    using queue_of_remove assms(1) unfolding xs by blast
  ultimately show ?thesis unfolding r queue_unlink_def by blast
qed

theorem queue_unlink_refines_witness: "queue_of (queue_unlink 16 32 demo_ring) 16 [48]"
  using queue_unlink_refines [OF demo_ring_queue, of 32] by simp

text \<open>
  First in, first out: elements that are added one after the other, while the queue
  takes them, leave it in the same order after those it already held.
\<close>

theorem queue_fifo:
  assumes "queue_of h q xs" "ring.accepts q h es"
  shows "fst (ring.get_many q (length xs + length es) (ring.put_all q es h)) = xs @ es"
  using ring.first_in_first_out [of q h es] ring_invI [OF assms(1)] assms(2) by simp

theorem queue_fifo_witness:
  "fst (ring.get_many 16 3 (ring.put_all 16 [64] demo_ring)) = [32, 48, 64]"
proof -
  have "ring.accepts 16 demo_ring [64]"
    using queue_list_eq [OF demo_ring_queue]
    by (simp add: ring_full_def ring_ok_def)
      (simp add: demo_ring_def queue_init_def queue_enqueue_def queue_macros Let_def word_le_nat_alt)
  from queue_fifo [OF demo_ring_queue this] show ?thesis by (simp add: numeral_3_eq_3)
qed

text \<open>Walking a queue with \<open>_queue_head\<close> and \<open>_queue_next\<close>.\<close>

lemma queue_head_spec:
  "queue_of h q xs \<Longrightarrow> queue_head q h = (case xs of [] \<Rightarrow> NULL | x # _ \<Rightarrow> x)"
  using queue_of_size_0 [of h q xs] queue_of_next [of h q xs]
  by (auto simp: queue_head_def split: list.splits)

lemma queue_next_spec:
  assumes "queue_of h q (us @ e # vs)"
  shows "queue_next q e h = (case vs of [] \<Rightarrow> NULL | v # _ \<Rightarrow> v)"
  using assms chain_next [of h e vs q]
  by (auto simp: queue_next_def queue_of_def Let_def split: list.splits)

lemma queue_get_size_spec: "queue_of h q xs \<Longrightarrow> unat (queue_get_size q h) = length xs"
  by (simp add: queue_get_size_def queue_of_unat_size)

lemma queue_is_empty_spec: "queue_of h q xs \<Longrightarrow> queue_is_empty q h \<longleftrightarrow> xs = []"
  by (simp add: queue_is_empty_def queue_of_size_0)

end
