(* ===== verification/LwMem.thy ===== *)
theory LwMem
  imports Queue
begin

text \<open>
  The lightweight memory manager, \<^verbatim>\<open>src/mqx/source/kernel/lwmem.c\<close>, with
  \<^verbatim>\<open>src/mqx/source/include/lwmem.h\<close> and \<^verbatim>\<open>lwmem_prv.h\<close>: variable-size
  allocation from pools, first fit on an address-ordered free list, with coalescing on free.

  Memory is a map from word addresses to 32-bit words. A \<open>LWMEM_BLOCK_STRUCT\<close> at \<open>p\<close> is the
  three words \<open>p\<close> (\<open>BLOCKSIZE\<close>), \<open>p + 4\<close> (\<open>POOL\<close>) and \<open>p + 8\<close>, the union of \<open>NEXTBLOCK\<close> with
  the pair of half words \<open>TASK_NUMBER\<close> (low) and \<open>MEM_TYPE\<close> (high): writing one view of the
  union changes the other, as in the source. The pool descriptors are records at their
  addresses; their \<open>LINK\<close> elements and the kernel's \<open>LWMEM_POOLS\<close> header live in the pointer
  store of theory \<open>Queue\<close>.

  The preemption windows of the loops (\<open>_int_enable(); _int_disable();\<close>) are taken with no
  other task running in them, so that the loop variable read back from the pool is the
  one just written. A loop that does not end is the result \<open>None\<close>.
\<close>

section \<open>State\<close>

record lwmem_pool =
  VALID :: u32
  POOL_ALLOC_START_PTR :: addr
  POOL_ALLOC_END_PTR :: addr
  POOL_FREE_LIST_PTR :: addr
  POOL_ALLOC_PTR :: addr
  POOL_FREE_PTR :: addr
  POOL_TEST_PTR :: addr
  POOL_TEST2_PTR :: addr
  POOL_DESTROY_PTR :: addr
  HIGHWATER :: addr

record lwmem =
  MEM :: "addr \<Rightarrow> u32"
  POOLS :: "addr \<Rightarrow> lwmem_pool"
  QH :: qheap
  LWMEM_POOLS :: addr
  KERNEL_LWMEM_POOL :: addr
  END_OF_KERNEL_MEMORY :: addr
  IN_ISR :: u16
  INTERRUPT_ERROR_CODE :: mqx_code
  TASK_ERROR_CODE :: mqx_code
  ACTIVE_TASK_ID :: u32
  SYSTEM_TASK_ID :: u32
  TD_LIST :: "u32 list"

definition LWMEM_POOL_VALID :: u32 where "LWMEM_POOL_VALID = 0x6C6D6570"
definition SYSTEM_TASK_NUMBER :: u16 where "SYSTEM_TASK_NUMBER = 0xffff"

abbreviation (input) PSP_MEMORY_ALIGNMENT :: u32 where "PSP_MEMORY_ALIGNMENT \<equiv> 15"
abbreviation (input) PSP_MEMORY_ALIGNMENT_MASK :: u32 where "PSP_MEMORY_ALIGNMENT_MASK \<equiv> 0xFFFFFFF0"
abbreviation (input) sizeof_LWMEM_BLOCK :: u32 where "sizeof_LWMEM_BLOCK \<equiv> 12"

definition LWMEM_MIN_MEMORY_STORAGE_SIZE :: u32 where
  "LWMEM_MIN_MEMORY_STORAGE_SIZE =
     (sizeof_LWMEM_BLOCK + PSP_MEMORY_ALIGNMENT) AND PSP_MEMORY_ALIGNMENT_MASK"

definition MEMORY_ALIGN_VAL_LARGER :: "u32 \<Rightarrow> u32" where
  "MEMORY_ALIGN_VAL_LARGER val = (val + PSP_MEMORY_ALIGNMENT) AND PSP_MEMORY_ALIGNMENT_MASK"

definition ALIGN_ADDR_TO_LOWER_MEM :: "addr \<Rightarrow> addr" where
  "ALIGN_ADDR_TO_LOWER_MEM p = p AND PSP_MEMORY_ALIGNMENT_MASK"

definition TASK_NUMBER_FROM_TASKID :: "u32 \<Rightarrow> u16" where
  "TASK_NUMBER_FROM_TASKID taskid = ucast (taskid AND 0xFFFF)"

section \<open>Fields\<close>

definition BLOCKSIZE :: "lwmem \<Rightarrow> addr \<Rightarrow> u32" where "BLOCKSIZE s p = MEM s p"
definition POOL :: "lwmem \<Rightarrow> addr \<Rightarrow> addr" where "POOL s p = MEM s (p + 4)"
definition NEXTBLOCK :: "lwmem \<Rightarrow> addr \<Rightarrow> addr" where "NEXTBLOCK s p = MEM s (p + 8)"
definition TASK_NUMBER :: "lwmem \<Rightarrow> addr \<Rightarrow> u16" where "TASK_NUMBER s p = ucast (MEM s (p + 8))"
definition MEM_TYPE :: "lwmem \<Rightarrow> addr \<Rightarrow> u16" where
  "MEM_TYPE s p = ucast (drop_bit 16 (MEM s (p + 8)))"

definition wr :: "addr \<Rightarrow> u32 \<Rightarrow> lwmem \<Rightarrow> lwmem" where
  "wr a v s = s\<lparr>MEM := (MEM s)(a := v)\<rparr>"

abbreviation set_BLOCKSIZE :: "addr \<Rightarrow> u32 \<Rightarrow> lwmem \<Rightarrow> lwmem" where "set_BLOCKSIZE p \<equiv> wr p"
abbreviation set_POOL :: "addr \<Rightarrow> addr \<Rightarrow> lwmem \<Rightarrow> lwmem" where "set_POOL p \<equiv> wr (p + 4)"
abbreviation set_NEXTBLOCK :: "addr \<Rightarrow> addr \<Rightarrow> lwmem \<Rightarrow> lwmem" where "set_NEXTBLOCK p \<equiv> wr (p + 8)"

definition set_TASK_NUMBER :: "addr \<Rightarrow> u16 \<Rightarrow> lwmem \<Rightarrow> lwmem" where
  "set_TASK_NUMBER p n s = wr (p + 8) ((MEM s (p + 8) AND 0xFFFF0000) OR ucast n) s"

definition set_MEM_TYPE :: "addr \<Rightarrow> u16 \<Rightarrow> lwmem \<Rightarrow> lwmem" where
  "set_MEM_TYPE p t s = wr (p + 8) ((MEM s (p + 8) AND 0xFFFF) OR push_bit 16 (ucast t)) s"

definition upd_pool :: "addr \<Rightarrow> (lwmem_pool \<Rightarrow> lwmem_pool) \<Rightarrow> lwmem \<Rightarrow> lwmem" where
  "upd_pool pid f s = s\<lparr>POOLS := (POOLS s)(pid := f (POOLS s pid))\<rparr>"

definition GET_LWMEMBLOCK_PTR :: "addr \<Rightarrow> addr" where
  "GET_LWMEMBLOCK_PTR a = a - sizeof_LWMEM_BLOCK"

text \<open>
  \<open>_mem_zero\<close> on a word-aligned region of whole words, the only regions it is called on
  here: the longword loop of \<^verbatim>\<open>mem_zero.c\<close>.
\<close>

fun zero_words :: "nat \<Rightarrow> addr \<Rightarrow> (addr \<Rightarrow> u32) \<Rightarrow> addr \<Rightarrow> u32" where
  "zero_words 0 p m = m"
| "zero_words (Suc k) p m = zero_words k (p + 4) (m(p := 0))"

definition mem_zero :: "addr \<Rightarrow> u32 \<Rightarrow> lwmem \<Rightarrow> lwmem" where
  "mem_zero p n s = s\<lparr>MEM := zero_words (unat (drop_bit 2 n)) p (MEM s)\<rparr>"

text \<open>\<open>_task_set_error\<close>: the first error of a task (or of an ISR) is kept.\<close>

definition task_set_error :: "mqx_code \<Rightarrow> lwmem \<Rightarrow> lwmem" where
  "task_set_error new_error_code s =
     (let old_error_code =
        (if IN_ISR s \<noteq> 0 then INTERRUPT_ERROR_CODE s else TASK_ERROR_CODE s) in
      if new_error_code = MQX_OK \<or> old_error_code = MQX_OK then
        (if IN_ISR s \<noteq> 0 then s\<lparr>INTERRUPT_ERROR_CODE := new_error_code\<rparr>
         else s\<lparr>TASK_ERROR_CODE := new_error_code\<rparr>)
      else s)"

text \<open>\<open>_task_get_td\<close>, with a task descriptor named by its \<open>TASK_ID\<close>.\<close>

definition task_get_td :: "u32 \<Rightarrow> lwmem \<Rightarrow> u32 option" where
  "task_get_td task_id s =
     (if task_id = 0 then Some (ACTIVE_TASK_ID s)
      else if task_id = SYSTEM_TASK_ID s then Some (SYSTEM_TASK_ID s)
      else List.find (\<lambda>t. t = task_id) (TD_LIST s))"

section \<open>Allocation\<close>

text \<open>The adjustment of the requested size at the head of the allocation functions.\<close>

definition adjust_size :: "u32 \<Rightarrow> u32" where
  "adjust_size requested_size =
     (let requested_size = requested_size + sizeof_LWMEM_BLOCK;
          requested_size = (if requested_size < LWMEM_MIN_MEMORY_STORAGE_SIZE
                            then LWMEM_MIN_MEMORY_STORAGE_SIZE else requested_size)
      in MEMORY_ALIGN_VAL_LARGER requested_size)"

text \<open>The reset of the walking pointers that ends every change of the free list.\<close>

definition reset_walk_ptrs :: "addr \<Rightarrow> lwmem \<Rightarrow> lwmem" where
  "reset_walk_ptrs pid = upd_pool pid (\<lambda>P. P\<lparr>POOL_ALLOC_PTR := POOL_FREE_LIST_PTR P,
     POOL_FREE_PTR := POOL_FREE_LIST_PTR P, POOL_TEST_PTR := POOL_FREE_LIST_PTR P,
     POOL_TEST2_PTR := POOL_ALLOC_START_PTR P, POOL_DESTROY_PTR := POOL_ALLOC_START_PTR P\<rparr>)"

text \<open>Marking a block as in use, and the high-water mark.\<close>

definition mark_used :: "addr \<Rightarrow> u32 \<Rightarrow> addr \<Rightarrow> lwmem \<Rightarrow> lwmem" where
  "mark_used pid td_ptr block_ptr s =
     (let s = set_TASK_NUMBER block_ptr (TASK_NUMBER_FROM_TASKID td_ptr) s;
          s = set_MEM_TYPE block_ptr 0 s
      in set_POOL block_ptr pid s)"

definition raise_highwater :: "addr \<Rightarrow> addr \<Rightarrow> lwmem \<Rightarrow> lwmem" where
  "raise_highwater pid block_ptr s =
     (if block_ptr > HIGHWATER (POOLS s pid) then upd_pool pid (\<lambda>P. P\<lparr>HIGHWATER := block_ptr\<rparr>) s
      else s)"

text \<open>The body of \<open>_lwmem_alloc_internal\<close> once the request fits into \<open>block_ptr\<close>.\<close>

definition alloc_take ::
  "u32 \<Rightarrow> u32 \<Rightarrow> addr \<Rightarrow> bool \<Rightarrow> addr \<Rightarrow> addr \<Rightarrow> lwmem \<Rightarrow> addr \<times> lwmem" where
  "alloc_take requested_size td_ptr pid zero block_ptr prev_block_ptr s =
     (let block_size = BLOCKSIZE s block_ptr;
          next_block_size = block_size - requested_size;
          (requested_size, next_block_ptr, s) =
            (if next_block_size \<ge> LWMEM_MIN_MEMORY_STORAGE_SIZE then
               (let next_block_ptr = block_ptr + requested_size;
                    s = set_BLOCKSIZE next_block_ptr next_block_size s;
                    s = set_POOL next_block_ptr pid s;
                    s = set_NEXTBLOCK next_block_ptr (NEXTBLOCK s block_ptr) s;
                    s = set_NEXTBLOCK block_ptr next_block_ptr s;
                    s = set_BLOCKSIZE block_ptr requested_size s
                in (requested_size, next_block_ptr, s))
             else (block_size, NEXTBLOCK s block_ptr, s));
          s = (if block_ptr = POOL_FREE_LIST_PTR (POOLS s pid)
               then upd_pool pid (\<lambda>P. P\<lparr>POOL_FREE_LIST_PTR := next_block_ptr\<rparr>) s
               else set_NEXTBLOCK prev_block_ptr next_block_ptr s);
          s = reset_walk_ptrs pid s;
          s = mark_used pid td_ptr block_ptr s;
          s = raise_highwater pid block_ptr s;
          s = (if zero then mem_zero (block_ptr + sizeof_LWMEM_BLOCK)
                              (requested_size - sizeof_LWMEM_BLOCK) s else s)
      in (block_ptr + sizeof_LWMEM_BLOCK, s))"

partial_function (option) alloc_loop ::
  "u32 \<Rightarrow> u32 \<Rightarrow> addr \<Rightarrow> bool \<Rightarrow> addr \<Rightarrow> addr \<Rightarrow> lwmem \<Rightarrow> (addr \<times> lwmem) option" where
  "alloc_loop requested_size td_ptr pid zero block_ptr prev_block_ptr s =
     (if block_ptr = NULL then Some (NULL, task_set_error MQX_OUT_OF_MEMORY s)
      else
        let s = upd_pool pid (\<lambda>P. P\<lparr>POOL_ALLOC_PTR := block_ptr\<rparr>) s;
            prev_block_ptr = (if block_ptr = POOL_FREE_LIST_PTR (POOLS s pid) then block_ptr
                              else prev_block_ptr)
        in if BLOCKSIZE s block_ptr \<ge> requested_size
           then Some (alloc_take requested_size td_ptr pid zero block_ptr prev_block_ptr s)
           else alloc_loop requested_size td_ptr pid zero (NEXTBLOCK s block_ptr) block_ptr s)"

definition lwmem_alloc_internal ::
  "u32 \<Rightarrow> u32 \<Rightarrow> addr \<Rightarrow> bool \<Rightarrow> lwmem \<Rightarrow> (addr \<times> lwmem) option" where
  "lwmem_alloc_internal requested_size td_ptr pool_id zero s =
     (if VALID (POOLS s pool_id) \<noteq> LWMEM_POOL_VALID
      then Some (NULL, task_set_error MQX_LWMEM_POOL_INVALID s)
      else alloc_loop (adjust_size requested_size) td_ptr pool_id zero
             (POOL_FREE_LIST_PTR (POOLS s pool_id)) NULL s)"

end
