(* ===== verification/LwMemAlloc.thy ===== *)
theory LwMemAlloc
  imports LwMem
begin

text \<open>
  The shape of a memory pool (its blocks tile it, its free list is address-ordered and
  coalesced) and the correctness of first-fit allocation.
\<close>

section \<open>Aligned addresses\<close>

definition aligned :: "addr \<Rightarrow> bool" where
  "aligned p \<longleftrightarrow> unat p mod 16 = 0"

lemma unat_slot:
  assumes "aligned p" "unat i < 16"
  shows "unat (p + i) = unat p + unat i"
proof -
  have "unat p < 4294967296" by simp
  with assms have "unat p + unat i < 4294967296" unfolding aligned_def by presburger
  then show ?thesis by (rule unat_add_noof32)
qed

lemma unat_slots:
  "aligned p \<Longrightarrow> unat (p + 4) = unat p + 4"
  "aligned p \<Longrightarrow> unat (p + 8) = unat p + 8"
  "aligned p \<Longrightarrow> unat (p + 12) = unat p + 12"
  by (simp_all add: unat_slot)

lemma slot_neq [simp]:
  assumes "aligned p" "aligned q"
  shows "p + 4 \<noteq> q" "q \<noteq> p + 4" "p + 8 \<noteq> q" "q \<noteq> p + 8" "p + 4 \<noteq> q + 8" "p + 8 \<noteq> q + 4"
proof -
  have *: "unat p mod 16 = 0" "unat q mod 16 = 0" using assms by (simp_all add: aligned_def)
  have "unat (p + 4) \<noteq> unat q" "unat (p + 8) \<noteq> unat q" "unat (p + 4) \<noteq> unat (q + 8)"
    "unat (p + 8) \<noteq> unat (q + 4)"
    using * unat_slots [OF assms(1)] unat_slots [OF assms(2)] by presburger+
  then show "p + 4 \<noteq> q" "q \<noteq> p + 4" "p + 8 \<noteq> q" "q \<noteq> p + 8" "p + 4 \<noteq> q + 8" "p + 8 \<noteq> q + 4"
    by metis+
qed

lemma slot_self_neq [simp]:
  "(p :: addr) + 4 \<noteq> p" "(p :: addr) + 8 \<noteq> p" "(p :: addr) \<noteq> p + 4" "(p :: addr) \<noteq> p + 8"
  "(p :: addr) + 4 \<noteq> p + 8" "(p :: addr) + 8 \<noteq> p + 4"
  by simp_all

lemma aligned_add:
  "aligned p \<Longrightarrow> aligned i \<Longrightarrow> unat p + unat i < 4294967296 \<Longrightarrow> aligned (p + i)"
  unfolding aligned_def by (simp add: unat_add_noof32 mod_add_eq [symmetric])

lemma aligned_sub:
  assumes "aligned p" "aligned i" "unat i \<le> unat p"
  shows "aligned (p - i)"
  using assms unfolding aligned_def unat_sub_noof [OF assms(3)] by presburger

lemma and_mask_unat: "unat (x AND 0xFFFFFFF0 :: u32) = unat x div 16 * 16"
proof -
  have m: "(0xFFFFFFF0 :: u32) = NOT (mask 4)" by (simp add: mask_eq_exp_minus_1)
  have "x AND 0xFFFFFFF0 = push_bit 4 (drop_bit 4 x)"
    unfolding m by (rule bit_word_eqI) (auto simp: bit_simps)
  also have "\<dots> = x div 16 * 16" by (simp add: push_bit_eq_mult drop_bit_eq_div)
  also have "unat \<dots> = unat (x div 16) * 16 mod 4294967296"
    by (simp add: unat_word_ariths)
  also have "\<dots> = unat x div 16 * 16"
  proof -
    have "unat x div 16 * 16 < 4294967296" using unat_lt32 [of x] by presburger
    then show ?thesis by (simp add: unat_div)
  qed
  finally show ?thesis .
qed

lemma aligned_mask [simp]: "aligned (x AND 0xFFFFFFF0)"
  by (simp add: aligned_def and_mask_unat)

lemma aligned_ge_16: "aligned p \<Longrightarrow> p \<noteq> 0 \<Longrightarrow> 16 \<le> unat p"
  unfolding aligned_def by (metis mod_less not_less unat_eq_zero)

lemma MIN_SIZE [simp]: "LWMEM_MIN_MEMORY_STORAGE_SIZE = 16"
  by (simp add: LWMEM_MIN_MEMORY_STORAGE_SIZE_def)

text \<open>What the size adjustment computes, when the request does not run over the end of the
  address space.\<close>

lemma unat_adjust_size:
  assumes "unat r + 27 < 4294967296"
  shows "unat (adjust_size r) = (if unat r \<le> 4 then 16 else (unat r + 27) div 16 * 16)"
proof -
  have r12: "unat (r + 12) = unat r + 12" using assms by (simp add: unat_add_noof32)
  show ?thesis
  proof (cases "unat r < 4")
    case True
    then have "r + 12 < 16" by (simp add: word_less_nat_alt r12)
    with True show ?thesis
      by (simp add: adjust_size_def MEMORY_ALIGN_VAL_LARGER_def Let_def)
  next
    case False
    then have "\<not> r + 12 < 16" by (simp add: word_less_nat_alt r12)
    moreover have "unat (r + 12 + 15) = unat r + 27"
      using assms r12 unat_add_noof32 [of "r + 12" 15] by simp
    ultimately have "unat (adjust_size r) = (unat r + 27) div 16 * 16"
      by (simp add: adjust_size_def MEMORY_ALIGN_VAL_LARGER_def Let_def and_mask_unat add.assoc)
    with False show ?thesis by (cases "unat r = 4") auto
  qed
qed

lemma aligned_adjust_size [simp]: "aligned (adjust_size r)"
  by (simp add: adjust_size_def MEMORY_ALIGN_VAL_LARGER_def Let_def)

section \<open>The shape of a pool\<close>

text \<open>
  \<open>tiling m pid p bs e\<close>: the blocks \<open>bs\<close> of pool \<open>pid\<close> lie one after the other from \<open>p\<close> to
  \<open>e\<close>, each with an aligned size of at least one header. \<open>fpath m p fs z\<close>: the free list
  leads from \<open>p\<close> through \<open>fs\<close> to \<open>z\<close>, and each block ends before the next one starts,
  with a gap between (two free neighbours would have been joined).
\<close>

fun tiling :: "(addr \<Rightarrow> u32) \<Rightarrow> addr \<Rightarrow> addr \<Rightarrow> addr list \<Rightarrow> addr \<Rightarrow> bool" where
  "tiling m pid p [] e \<longleftrightarrow> p = e"
| "tiling m pid p (b # bs) e \<longleftrightarrow> b = p \<and> aligned p \<and> aligned (m p) \<and> 16 \<le> unat (m p)
     \<and> unat p + unat (m p) < 4294967296 \<and> m (p + 4) = pid \<and> tiling m pid (p + m p) bs e"

fun fpath :: "(addr \<Rightarrow> u32) \<Rightarrow> addr \<Rightarrow> addr list \<Rightarrow> addr \<Rightarrow> bool" where
  "fpath m p [] z \<longleftrightarrow> p = z"
| "fpath m p (f # fs) z \<longleftrightarrow> p = f \<and> f \<noteq> NULL
     \<and> (m (f + 8) \<noteq> NULL \<longrightarrow> unat f + unat (m f) < unat (m (f + 8))) \<and> fpath m (m (f + 8)) fs z"

definition pool_wf :: "lwmem \<Rightarrow> addr \<Rightarrow> addr list \<Rightarrow> addr list \<Rightarrow> bool" where
  "pool_wf s pid bs fs \<longleftrightarrow> VALID (POOLS s pid) = LWMEM_POOL_VALID
     \<and> POOL_ALLOC_START_PTR (POOLS s pid) \<noteq> NULL
     \<and> tiling (MEM s) pid (POOL_ALLOC_START_PTR (POOLS s pid)) bs (POOL_ALLOC_END_PTR (POOLS s pid))
     \<and> fpath (MEM s) (POOL_FREE_LIST_PTR (POOLS s pid)) fs NULL \<and> set fs \<subseteq> set bs"

lemma tiling_append:
  "tiling m pid p (us @ vs) e \<longleftrightarrow> (\<exists>q. tiling m pid p us q \<and> tiling m pid q vs e)"
  by (induction us arbitrary: p) auto

lemma fpath_append:
  "fpath m p (us @ vs) z \<longleftrightarrow> (\<exists>y. fpath m p us y \<and> fpath m y vs z)"
  by (induction us arbitrary: p) auto

lemma tiling_frame:
  "(\<And>b. b \<in> set bs \<Longrightarrow> m' b = m b \<and> m' (b + 4) = m (b + 4)) \<Longrightarrow>
   tiling m' pid p bs e = tiling m pid p bs e"
proof (induction bs arbitrary: p)
  case Nil
  then show ?case by simp
next
  case (Cons b bs)
  then have "tiling m' pid q bs e = tiling m pid q bs e" for q by simp
  with Cons.prems show ?case by (cases "b = p") auto
qed

lemma fpath_frame:
  "(\<And>f. f \<in> set fs \<Longrightarrow> m' f = m f \<and> m' (f + 8) = m (f + 8)) \<Longrightarrow>
   fpath m' p fs z = fpath m p fs z"
proof (induction fs arbitrary: p)
  case Nil
  then show ?case by simp
next
  case (Cons f fs)
  then have "fpath m' q fs z = fpath m q fs z" for q by simp
  with Cons.prems show ?case by (cases "p = f") auto
qed

lemma tiling_range:
  "tiling m pid p bs e \<Longrightarrow> unat p \<le> unat e \<and>
   (\<forall>b \<in> set bs. aligned b \<and> aligned (m b) \<and> 16 \<le> unat (m b) \<and> unat p \<le> unat b \<and>
      unat b + unat (m b) \<le> unat e \<and> m (b + 4) = pid)"
proof (induction bs arbitrary: p)
  case Nil
  then show ?case by simp
next
  case (Cons b bs)
  then have b: "b = p" "unat (p + m p) = unat p + unat (m p)"
    by (auto intro: unat_add_noof32)
  from Cons have "unat (p + m p) \<le> unat e \<and> (\<forall>b \<in> set bs. aligned b \<and> aligned (m b) \<and>
     16 \<le> unat (m b) \<and> unat (p + m p) \<le> unat b \<and> unat b + unat (m b) \<le> unat e \<and> m (b + 4) = pid)"
    by auto
  with b Cons.prems show ?case by auto
qed

lemma tiling_split_around:
  assumes "tiling m pid p bs e" "b \<in> set bs"
  obtains us vs where "bs = us @ b # vs" "tiling m pid p us b" "tiling m pid (b + m b) vs e"
    "aligned b" "aligned (m b)" "16 \<le> unat (m b)" "unat (b + m b) = unat b + unat (m b)"
    "m (b + 4) = pid"
    "\<And>u. u \<in> set us \<Longrightarrow> aligned u \<and> 16 \<le> unat (m u) \<and> unat u + unat (m u) \<le> unat b"
    "\<And>v. v \<in> set vs \<Longrightarrow> aligned v \<and> 16 \<le> unat (m v) \<and> unat b + unat (m b) \<le> unat v"
proof -
  from assms(2) obtain us vs where bs: "bs = us @ b # vs" by (auto simp: in_set_conv_decomp)
  with assms(1) obtain q where q: "tiling m pid p us q" "tiling m pid q (b # vs) e"
    by (auto simp: tiling_append)
  then have b: "q = b" "aligned b" "aligned (m b)" "16 \<le> unat (m b)" "m (b + 4) = pid"
    "tiling m pid (b + m b) vs e" "unat (b + m b) = unat b + unat (m b)"
    by (auto intro: unat_add_noof32)
  show thesis
    by (rule that [of us vs]) (use bs q b tiling_range [of m pid p us b]
        tiling_range [of m pid "b + m b" vs e] in auto)
qed

lemma tiling_distinct: "tiling m pid p bs e \<Longrightarrow> distinct bs"
proof (induction bs arbitrary: p)
  case Nil
  then show ?case by simp
next
  case (Cons b bs)
  then have ih: "distinct bs" and t: "tiling m pid (p + m p) bs e" and b: "b = p"
    and u: "unat (p + m p) = unat p + unat (m p)" "16 \<le> unat (m p)"
    by (auto intro: unat_add_noof32)
  have "b \<notin> set bs" using tiling_range [OF t] b u by fastforce
  with ih show ?case by simp
qed

lemma fpath_sorted:
  "fpath m p fs NULL \<Longrightarrow> sorted_wrt (\<lambda>f g. unat f + unat (m f) < unat g) fs"
proof (induction fs arbitrary: p)
  case Nil
  then show ?case by simp
next
  case (Cons f fs)
  then have ih: "sorted_wrt (\<lambda>f g. unat f + unat (m f) < unat g) fs" by auto
  show ?case
  proof (cases fs)
    case Nil
    then show ?thesis by simp
  next
    case (Cons g gs)
    with Cons.prems have "unat f + unat (m f) < unat g" by auto
    with Cons ih show ?thesis by fastforce
  qed
qed

text \<open>Two different blocks of a pool do not overlap.\<close>

lemma tiling_disjoint:
  assumes "tiling m pid p bs e" "b \<in> set bs" "c \<in> set bs" "unat b < unat c"
  shows "unat b + unat (m b) \<le> unat c"
proof -
  from tiling_split_around [OF assms(1,2)] obtain us vs where
    bs: "bs = us @ b # vs" and us: "\<And>u. u \<in> set us \<Longrightarrow> unat u + unat (m u) \<le> unat b"
    and vs: "\<And>v. v \<in> set vs \<Longrightarrow> unat b + unat (m b) \<le> unat v"
    by metis
  from assms(3,4) bs us have "c \<in> set vs" by fastforce
  with vs show ?thesis by blast
qed

section \<open>Steps that keep the shape\<close>

lemma pool_wf_cong:
  assumes "pool_wf s pid bs fs"
    and "VALID (POOLS s' pid) = VALID (POOLS s pid)"
    and "POOL_ALLOC_START_PTR (POOLS s' pid) = POOL_ALLOC_START_PTR (POOLS s pid)"
    and "POOL_ALLOC_END_PTR (POOLS s' pid) = POOL_ALLOC_END_PTR (POOLS s pid)"
    and "POOL_FREE_LIST_PTR (POOLS s' pid) = POOL_FREE_LIST_PTR (POOLS s pid)"
    and "\<And>b. b \<in> set bs \<Longrightarrow> MEM s' b = MEM s b \<and> MEM s' (b + 4) = MEM s (b + 4)"
    and "\<And>f. f \<in> set fs \<Longrightarrow> MEM s' (f + 8) = MEM s (f + 8)"
  shows "pool_wf s' pid bs fs"
proof -
  have sub: "set fs \<subseteq> set bs" using assms(1) by (simp add: pool_wf_def)
  have "tiling (MEM s') pid p bs e = tiling (MEM s) pid p bs e" for p e
    using assms(6) by (rule tiling_frame)
  moreover have "fpath (MEM s') p fs z = fpath (MEM s) p fs z" for p z
    using assms(6,7) sub by (intro fpath_frame) auto
  ultimately show ?thesis using assms(1-5) by (simp add: pool_wf_def)
qed

lemma pool_wf_aligned:
  "pool_wf s pid bs fs \<Longrightarrow> b \<in> set bs \<Longrightarrow> aligned b \<and> aligned (MEM s b) \<and> 16 \<le> unat (MEM s b) \<and>
     MEM s (b + 4) = pid \<and> b \<noteq> NULL \<and> unat b + unat (MEM s b) < 4294967296 \<and>
     unat (POOL_ALLOC_START_PTR (POOLS s pid)) \<le> unat b"
  (is "_ \<Longrightarrow> _ \<Longrightarrow> ?c")
proof -
  assume wf: "pool_wf s pid bs fs" and b: "b \<in> set bs"
  let ?p = "POOL_ALLOC_START_PTR (POOLS s pid)" and ?e = "POOL_ALLOC_END_PTR (POOLS s pid)"
  from wf have "tiling (MEM s) pid ?p bs ?e" "?p \<noteq> NULL" by (simp_all add: pool_wf_def)
  with tiling_range [of "MEM s" pid ?p bs ?e] b have r: "aligned b" "aligned (MEM s b)"
    "16 \<le> unat (MEM s b)" "unat ?p \<le> unat b" "unat b + unat (MEM s b) \<le> unat ?e"
    "MEM s (b + 4) = pid" and "?p \<noteq> NULL" by auto
  then have "b \<noteq> NULL" by (auto simp: unat_eq_zero)
  with r unat_lt32 [of ?e] show ?c by (auto intro: le_less_trans)
qed

lemma upd_pool_simps [simp]:
  "MEM (upd_pool pid f s) = MEM s"
  "POOLS (upd_pool pid f s) pid = f (POOLS s pid)"
  "TASK_ERROR_CODE (upd_pool pid f s) = TASK_ERROR_CODE s"
  by (simp_all add: upd_pool_def)

lemma wr_simps [simp]:
  "MEM (wr a v s) = (MEM s)(a := v)" "POOLS (wr a v s) = POOLS s"
  by (simp_all add: wr_def)

lemma mem_zero_POOLS [simp]: "POOLS (mem_zero p n s) = POOLS s"
  by (simp add: mem_zero_def)

lemma pool_wf_walk [simp]:
  "pool_wf (upd_pool pid (\<lambda>P. P\<lparr>POOL_ALLOC_PTR := x\<rparr>) s) pid bs fs = pool_wf s pid bs fs"
  "pool_wf (upd_pool pid (\<lambda>P. P\<lparr>POOL_FREE_PTR := x\<rparr>) s) pid bs fs = pool_wf s pid bs fs"
  "pool_wf (reset_walk_ptrs pid s) pid bs fs = pool_wf s pid bs fs"
  "pool_wf (raise_highwater pid x s) pid bs fs = pool_wf s pid bs fs"
  by (simp_all add: pool_wf_def reset_walk_ptrs_def raise_highwater_def)

lemma reset_walk_MEM [simp]:
  "MEM (reset_walk_ptrs pid s) = MEM s" "MEM (raise_highwater pid x s) = MEM s"
  by (simp_all add: reset_walk_ptrs_def raise_highwater_def)

lemma task_set_error_simps [simp]:
  "MEM (task_set_error c s) = MEM s" "POOLS (task_set_error c s) = POOLS s"
  by (simp_all add: task_set_error_def Let_def)

lemma pool_wf_set_error [simp]: "pool_wf (task_set_error c s) pid bs fs = pool_wf s pid bs fs"
  by (simp add: pool_wf_def)

text \<open>Marking a block that is not on the free list.\<close>

lemma mark_used_MEM:
  "a \<noteq> f + 4 \<Longrightarrow> a \<noteq> f + 8 \<Longrightarrow> MEM (mark_used pid td f s) a = MEM s a"
  by (simp add: mark_used_def set_TASK_NUMBER_def set_MEM_TYPE_def Let_def)

lemma mark_used_POOL: "MEM (mark_used pid td f s) (f + 4) = pid"
  by (simp add: mark_used_def Let_def)

lemma mark_used_POOLS [simp]: "POOLS (mark_used pid td f s) = POOLS s"
  by (simp add: mark_used_def set_TASK_NUMBER_def set_MEM_TYPE_def Let_def)

lemma mark_used_TASK_NUMBER:
  "TASK_NUMBER (mark_used pid td f s) f = TASK_NUMBER_FROM_TASKID td"
proof -
  have m: "(0xFFFF :: u32) = mask 16" "(0xFFFF0000 :: u32) = NOT (mask 16)"
    by (simp_all add: mask_eq_exp_minus_1)
  have "ucast (((x AND 0xFFFF0000) OR ucast n) AND 0xFFFF OR push_bit 16 (ucast (0 :: u16)) :: u32) = n"
    for x :: u32 and n :: u16
    unfolding m by (rule bit_word_eqI) (auto simp: bit_simps)
  then show ?thesis
    by (simp add: mark_used_def TASK_NUMBER_def set_TASK_NUMBER_def set_MEM_TYPE_def Let_def)
qed

lemma mark_used_wf:
  assumes wf: "pool_wf s pid bs fs" and f: "f \<in> set bs" "f \<notin> set fs"
  shows "pool_wf (mark_used pid td f s) pid bs fs"
proof (rule pool_wf_cong [OF wf])
  fix b assume b: "b \<in> set bs"
  with wf f have al: "aligned b" "aligned f" "MEM s (f + 4) = pid"
    using pool_wf_aligned by blast+
  then show "MEM (mark_used pid td f s) b = MEM s b \<and>
      MEM (mark_used pid td f s) (b + 4) = MEM s (b + 4)"
    by (cases "b = f") (auto simp: mark_used_MEM mark_used_POOL)
next
  fix g assume g: "g \<in> set fs"
  with wf f have "aligned g" "aligned f" "g \<noteq> f"
    using pool_wf_aligned [OF wf] by (auto simp: pool_wf_def)
  then show "MEM (mark_used pid td f s) (g + 8) = MEM s (g + 8)"
    by (simp add: mark_used_MEM)
qed simp_all

text \<open>Zeroing the user part of a block.\<close>

lemma zero_words_other:
  "unat p + 4 * k < 4294967296 \<Longrightarrow> unat a < unat p \<or> unat p + 4 * k \<le> unat a \<Longrightarrow>
   zero_words k p m a = m a"
proof (induction k arbitrary: p m)
  case 0
  then show ?case by simp
next
  case (Suc k)
  then have "unat (p + 4) = unat p + 4" by (intro trans [OF unat_add_noof32]) auto
  with Suc show ?case by auto
qed

lemma zero_words_in:
  "unat p + 4 * k < 4294967296 \<Longrightarrow> i < k \<Longrightarrow> zero_words k p m (p + of_nat (4 * i)) = 0"
proof (induction k arbitrary: p m i)
  case 0
  then show ?case by simp
next
  case (Suc k)
  then have u: "unat (p + 4) = unat p + 4" by (intro trans [OF unat_add_noof32]) auto
  show ?case
  proof (cases i)
    case 0
    have "zero_words k (p + 4) (m(p := 0)) p = (m(p := 0)) p"
      using Suc.prems u by (intro zero_words_other) auto
    with 0 show ?thesis by simp
  next
    case (Suc j)
    with Suc.IH [of "p + 4" j "m(p := 0)"] Suc.prems u show ?thesis
      by (simp add: algebra_simps del: fun_upd_apply)
  qed
qed

lemma unat_drop2: "unat (drop_bit 2 n :: u32) = unat n div 4"
  by (simp add: drop_bit_eq_div unat_div)

lemma mem_zero_other:
  "unat p + unat n < 4294967296 \<Longrightarrow> unat a < unat p \<or> unat p + unat n \<le> unat a \<Longrightarrow>
   MEM (mem_zero p n s) a = MEM s a"
  unfolding mem_zero_def using zero_words_other [of p "unat n div 4" a "MEM s"]
    times_div_less_eq_dividend [of 4 "unat n"]
  by (simp add: unat_drop2) linarith

text \<open>The header words of one block are outside the user part of every block.\<close>

lemma header_outside_user:
  assumes wf: "pool_wf s pid bs fs" and f: "f \<in> set bs" and b: "b \<in> set bs" and i: "i \<in> {0, 4, 8}"
  shows "unat (b + i) < unat (f + 12) \<or> unat f + unat (MEM s f) \<le> unat (b + i)"
proof -
  have al: "aligned b" "aligned f" using pool_wf_aligned [OF wf] f b by blast+
  have bi: "unat (b + i) = unat b + unat i" "unat i < 12"
    using i unat_slots [OF al(1)] by auto
  consider "b = f" | "unat b < unat f" | "unat f < unat b"
    using linorder_neqE_nat by (metis unsigned_word_eqI)
  then show ?thesis
  proof cases
    case 1
    with bi unat_slots [OF al(2)] show ?thesis by simp
  next
    case 2
    then have "unat b + unat (MEM s b) \<le> unat f" "16 \<le> unat (MEM s b)"
      using wf b f tiling_disjoint pool_wf_aligned unfolding pool_wf_def by blast+
    with bi unat_slots [OF al(2)] show ?thesis by simp
  next
    case 3
    then have "unat f + unat (MEM s f) \<le> unat b"
      using wf b f tiling_disjoint unfolding pool_wf_def by blast
    with bi show ?thesis by simp
  qed
qed

lemma zero_user_wf:
  assumes wf: "pool_wf s pid bs fs" and f: "f \<in> set bs"
  shows "pool_wf (mem_zero (f + 12) (MEM s f - 12) s) pid bs fs"
    and "b \<in> set bs \<Longrightarrow> i \<in> {0, 4, 8} \<Longrightarrow>
      MEM (mem_zero (f + 12) (MEM s f - 12) s) (b + i) = MEM s (b + i)"
proof -
  have al: "aligned f" "16 \<le> unat (MEM s f)" "unat f + unat (MEM s f) < 4294967296"
    using pool_wf_aligned [OF wf f] by auto
  have n: "unat (MEM s f - 12) = unat (MEM s f) - 12"
    using al(2) by (intro trans [OF unat_sub_noof]) auto
  have *: "MEM (mem_zero (f + 12) (MEM s f - 12) s) (b + i) = MEM s (b + i)"
    if "b \<in> set bs" "i \<in> {0, 4, 8}" for b i
    using header_outside_user [OF wf f that] al n unat_slots [OF al(1)]
    by (intro mem_zero_other) auto
  show "b \<in> set bs \<Longrightarrow> i \<in> {0, 4, 8} \<Longrightarrow>
      MEM (mem_zero (f + 12) (MEM s f - 12) s) (b + i) = MEM s (b + i)"
    by (rule *)
  have "set fs \<subseteq> set bs" using wf by (simp add: pool_wf_def)
  then show "pool_wf (mem_zero (f + 12) (MEM s f - 12) s) pid bs fs"
    using * [of _ 0] * [of _ 4] * [of _ 8] by (intro pool_wf_cong [OF wf]) auto
qed

section \<open>Allocation is correct\<close>

text \<open>Replacing everything after \<open>us\<close> on the free list by \<open>ws\<close>, which starts at \<open>y\<close>.\<close>

lemma fpath_relink:
  assumes "fpath m F us x" "fpath m' y ws NULL"
    and "us \<noteq> [] \<Longrightarrow> y \<noteq> NULL \<Longrightarrow> unat (last us) + unat (m' (last us)) < unat y"
    and "\<And>u. u \<in> set (butlast us) \<Longrightarrow> m' u = m u \<and> m' (u + 8) = m (u + 8)"
    and "us \<noteq> [] \<Longrightarrow> m' (last us + 8) = y"
  shows "fpath m' (if us = [] then y else F) (us @ ws) NULL"
proof (cases us rule: rev_cases)
  case Nil
  with assms show ?thesis by simp
next
  case (snoc us0 l)
  with assms(1) have "fpath m F us0 l" "l \<noteq> NULL" by (auto simp: fpath_append)
  moreover have "fpath m' F us0 l = fpath m F us0 l"
    using assms(4) snoc by (intro fpath_frame) simp
  ultimately show ?thesis using snoc assms(2,3,5) by (auto simp: fpath_append)
qed

text \<open>The prefix of the free list before \<open>f\<close>.\<close>

lemma free_prefix:
  assumes wf: "pool_wf s pid bs (us @ f # vs)"
  shows "fpath (MEM s) (POOL_FREE_LIST_PTR (POOLS s pid)) us f"
    and "fpath (MEM s) (MEM s (f + 8)) vs NULL"
    and "u \<in> set us \<Longrightarrow> unat u + unat (MEM s u) < unat f"
    and "v \<in> set vs \<Longrightarrow> unat f + unat (MEM s f) < unat v"
    and "MEM s (f + 8) \<noteq> NULL \<Longrightarrow> unat f + unat (MEM s f) < unat (MEM s (f + 8))"
    and "f = POOL_FREE_LIST_PTR (POOLS s pid) \<longleftrightarrow> us = []"
    and "set us \<union> set vs \<subseteq> set bs" "f \<in> set bs" "f \<noteq> NULL"
proof -
  let ?F = "POOL_FREE_LIST_PTR (POOLS s pid)"
  from wf have fp: "fpath (MEM s) ?F (us @ f # vs) NULL" and sub: "set (us @ f # vs) \<subseteq> set bs"
    by (auto simp: pool_wf_def)
  then show a: "fpath (MEM s) ?F us f" and "fpath (MEM s) (MEM s (f + 8)) vs NULL"
    and "f \<noteq> NULL"
    and "MEM s (f + 8) \<noteq> NULL \<Longrightarrow> unat f + unat (MEM s f) < unat (MEM s (f + 8))"
    by (auto simp: fpath_append)
  from fpath_sorted [OF fp] show u: "u \<in> set us \<Longrightarrow> unat u + unat (MEM s u) < unat f"
    and "v \<in> set vs \<Longrightarrow> unat f + unat (MEM s f) < unat v" for u
    by (auto simp: sorted_wrt_append)
  from a u show "f = ?F \<longleftrightarrow> us = []" by (cases us) auto
  from sub show "set us \<union> set vs \<subseteq> set bs" "f \<in> set bs" by auto
qed

text \<open>
  Carving \<open>req\<close> bytes off the front of the free block \<open>f\<close>: the rest \<open>n\<close> takes the place of
  \<open>f\<close> on the free list.
\<close>

lemma carve_split_wf:
  assumes wf: "pool_wf s pid (as @ f # cs) (us @ f # vs)"
    and req: "aligned req" "16 \<le> unat req" "unat req + 16 \<le> unat (MEM s f)"
    and n: "n = f + req"
    and m': "m' = (MEM s)(n := MEM s f - req, n + 4 := pid, n + 8 := MEM s (f + 8),
               f + 8 := n, f := req)"
    and m'': "MEM s' = (if us = [] then m' else m'(last us + 8 := n))"
    and P: "POOLS s' pid = (if us = [] then (POOLS s pid)\<lparr>POOL_FREE_LIST_PTR := n\<rparr> else POOLS s pid)"
  shows "pool_wf s' pid (as @ f # n # cs) (us @ n # vs)"
    and "MEM s' f = req" "MEM s' n = MEM s f - req" "MEM s' (f + 4) = pid"
    and "b \<in> set (as @ cs) \<Longrightarrow> MEM s' b = MEM s b \<and> MEM s' (b + 4) = MEM s (b + 4)"
    and "b \<in> set (as @ cs) \<Longrightarrow> b \<notin> set us \<Longrightarrow> MEM s' (b + 8) = MEM s (b + 8)"
proof -
  note pre = free_prefix [OF wf]
  let ?st = "POOL_ALLOC_START_PTR (POOLS s pid)" and ?en = "POOL_ALLOC_END_PTR (POOLS s pid)"
  let ?F = "POOL_FREE_LIST_PTR (POOLS s pid)"
  from wf have t: "tiling (MEM s) pid ?st (as @ f # cs) ?en" by (simp add: pool_wf_def)
  from wf have alf: "aligned f" "aligned (MEM s f)" "MEM s (f + 4) = pid"
    and fb: "unat f + unat (MEM s f) < 4294967296"
    using pool_wf_aligned [OF wf, of f] by auto
  have un: "unat n = unat f + unat req" using n fb req by (simp add: unat_add_noof32)
  have aln: "aligned n" using n alf(1) req fb by (simp add: aligned_add)
  have nf: "n \<noteq> f" using un req by auto
  have n0: "n \<noteq> NULL" using un req by auto
  have usz: "unat (MEM s f - req) = unat (MEM s f) - unat req" using req by (simp add: unat_sub_noof)
  have alsz: "aligned (MEM s f - req)" using alf(2) req by (intro aligned_sub) auto
  have other: "aligned b \<and> b \<noteq> f \<and> b \<noteq> n" if "b \<in> set as \<union> set cs" for b
  proof -
    from t that have "b \<in> set (as @ f # cs)" "f \<in> set (as @ f # cs)" "b \<noteq> f"
      using tiling_distinct [OF t] by auto
    moreover from this have "aligned b" "16 \<le> unat (MEM s b)"
      using pool_wf_aligned [OF wf] by blast+
    moreover have "unat b \<noteq> unat f" using \<open>b \<noteq> f\<close> by (simp add: word_unat_eq_iff)
    then have "unat b < unat f \<or> unat f + unat (MEM s f) \<le> unat b"
      using tiling_disjoint [OF t, of f b] calculation(1,2) by force
    then have "b \<noteq> n" using un req by auto
    ultimately show ?thesis by blast
  qed
  have lastus: "last us \<in> set as \<union> set cs" if "us \<noteq> []"
  proof -
    have "last us \<in> set us" by (rule last_in_set [OF that])
    then have "last us \<in> set (as @ f # cs)" "last us \<noteq> f"
      using pre(3) [of "last us"] pre(7) by auto
    then show ?thesis by auto
  qed
  have fr4: "MEM s' b = MEM s b \<and> MEM s' (b + 4) = MEM s (b + 4)" if "b \<in> set as \<union> set cs" for b
    using other [OF that] alf(1) aln lastus other unfolding m'' m' by (cases "us = []") auto
  have fr8: "MEM s' (b + 8) = MEM s (b + 8)"
    if "b \<in> set as \<union> set cs" "us \<noteq> [] \<Longrightarrow> b \<noteq> last us" for b
    using other [OF that(1)] alf(1) aln lastus that(2) unfolding m'' m' by (cases "us = []") auto
  have at_f: "MEM s' f = req" "MEM s' (f + 4) = pid"
    and at_n: "MEM s' n = MEM s f - req" "MEM s' (n + 4) = pid" "MEM s' (n + 8) = MEM s (f + 8)"
    using alf aln nf lastus other unfolding m'' m' by (cases "us = []"; force)+
  have last8: "MEM s' (last us + 8) = n" if "us \<noteq> []" using that unfolding m'' by simp
  show "MEM s' f = req" "MEM s' n = MEM s f - req" "MEM s' (f + 4) = pid" by fact+
  show "b \<in> set (as @ cs) \<Longrightarrow> MEM s' b = MEM s b \<and> MEM s' (b + 4) = MEM s (b + 4)"
    using fr4 by auto
  show "b \<in> set (as @ cs) \<Longrightarrow> b \<notin> set us \<Longrightarrow> MEM s' (b + 8) = MEM s (b + 8)"
    using fr8 [of b] last_in_set [of us] unfolding set_append by blast
  have t': "tiling (MEM s') pid ?st (as @ f # n # cs) ?en"
  proof -
    from t have "tiling (MEM s) pid ?st as f" "tiling (MEM s) pid (f + MEM s f) cs ?en"
      by (auto simp: tiling_append)
    then have 1: "tiling (MEM s') pid ?st as f" and "tiling (MEM s') pid (f + MEM s f) cs ?en"
      using fr4 tiling_frame [of as "MEM s'" "MEM s" pid ?st f]
        tiling_frame [of cs "MEM s'" "MEM s" pid "f + MEM s f" ?en] by simp_all
    moreover have eq: "n + (MEM s f - req) = f + MEM s f" unfolding n by simp
    ultimately have "tiling (MEM s') pid (n + (MEM s f - req)) cs ?en" by (simp only: eq)
    then have "tiling (MEM s') pid f (f # n # cs) ?en"
      using at_f at_n alf aln req un usz alsz fb by (simp add: n [symmetric])
    with 1 show ?thesis unfolding tiling_append by blast
  qed
  have nofs: "v \<in> set as \<union> set cs" if "v \<in> set us \<union> set vs" for v
  proof -
    from that pre(7) have "v \<in> set (as @ f # cs)" by auto
    moreover have "v \<noteq> f" using that pre(3,4) [of v] by auto
    ultimately show ?thesis by auto
  qed
  have gap: "unat (last us) + unat (MEM s' (last us)) < unat n" if "us \<noteq> []"
    using pre(3) [of "last us"] last_in_set [OF that] fr4 [OF lastus [OF that]] un by simp
  have vs: "fpath (MEM s') (MEM s (f + 8)) vs NULL"
  proof -
    have "fpath (MEM s') p vs NULL = fpath (MEM s) p vs NULL" for p
    proof (rule fpath_frame)
      fix v assume v: "v \<in> set vs"
      then have "us \<noteq> [] \<Longrightarrow> v \<noteq> last us"
        using pre(3) [of "last us"] pre(4) [of v] last_in_set [of us] by auto
      with v show "MEM s' v = MEM s v \<and> MEM s' (v + 8) = MEM s (v + 8)"
        using fr4 [of v] fr8 [of v] nofs [of v] by blast
    qed
    with pre(2) show ?thesis by simp
  qed
  have nvs: "fpath (MEM s') n (n # vs) NULL"
    using vs at_n n0 pre(5) un usz req by auto
  have dus: "u \<noteq> last us" if "u \<in> set (butlast us)" for u
    using that fpath_sorted [of "MEM s" ?F "us @ f # vs"] wf
    by (cases us rule: rev_cases) (auto simp: pool_wf_def sorted_wrt_append)
  have "fpath (MEM s') (if us = [] then n else ?F) (us @ n # vs) NULL"
  proof (rule fpath_relink [OF pre(1) nvs])
    fix u assume u: "u \<in> set (butlast us)"
    have "u \<in> set us" using in_set_butlastD [OF u] .
    then show "MEM s' u = MEM s u \<and> MEM s' (u + 8) = MEM s (u + 8)"
      using fr4 [of u] fr8 [of u] nofs [of u] dus [OF u] by blast
  qed (use gap last8 in blast)+
  with t' wf P pre(7) show "pool_wf s' pid (as @ f # n # cs) (us @ n # vs)"
    by (auto simp: pool_wf_def)
qed

lemma carve_whole_wf:
  assumes wf: "pool_wf s pid bs (us @ f # vs)"
    and m': "MEM s' = (if us = [] then MEM s else (MEM s)(last us + 8 := MEM s (f + 8)))"
    and P: "POOLS s' pid = (if us = [] then (POOLS s pid)\<lparr>POOL_FREE_LIST_PTR := MEM s (f + 8)\<rparr>
              else POOLS s pid)"
  shows "pool_wf s' pid bs (us @ vs)"
    and "b \<in> set bs \<Longrightarrow> MEM s' b = MEM s b \<and> MEM s' (b + 4) = MEM s (b + 4)"
    and "b \<in> set bs \<Longrightarrow> b \<notin> set us \<Longrightarrow> MEM s' (b + 8) = MEM s (b + 8)"
proof -
  note pre = free_prefix [OF wf]
  let ?F = "POOL_FREE_LIST_PTR (POOLS s pid)"
  have lastus: "last us \<in> set bs" if "us \<noteq> []" using that pre(7) last_in_set [OF that] by auto
  have al: "aligned b" if "b \<in> set bs" for b using pool_wf_aligned [OF wf that] by blast
  have fr4: "MEM s' b = MEM s b \<and> MEM s' (b + 4) = MEM s (b + 4)" if "b \<in> set bs" for b
    using al [OF that] al [OF lastus] unfolding m' by auto
  have fr8: "MEM s' (b + 8) = MEM s (b + 8)" if "b \<in> set bs" "us \<noteq> [] \<Longrightarrow> b \<noteq> last us" for b
    using that unfolding m' by auto
  show "b \<in> set bs \<Longrightarrow> MEM s' b = MEM s b \<and> MEM s' (b + 4) = MEM s (b + 4)" by (rule fr4)
  show "b \<in> set bs \<Longrightarrow> b \<notin> set us \<Longrightarrow> MEM s' (b + 8) = MEM s (b + 8)"
    using fr8 [of b] last_in_set [of us] by blast
  from wf have "tiling (MEM s') pid p bs e = tiling (MEM s) pid p bs e" for p e
    using fr4 by (intro tiling_frame) auto
  moreover have "fpath (MEM s') (if us = [] then MEM s (f + 8) else ?F) (us @ vs) NULL"
  proof (rule fpath_relink [OF pre(1)])
    have "fpath (MEM s') p vs NULL = fpath (MEM s) p vs NULL" for p
    proof (rule fpath_frame)
      fix v assume v: "v \<in> set vs"
      then have "us \<noteq> [] \<Longrightarrow> v \<noteq> last us"
        using pre(3) [of "last us"] pre(4) [of v] last_in_set [of us] by auto
      with v pre(7) show "MEM s' v = MEM s v \<and> MEM s' (v + 8) = MEM s (v + 8)"
        using fr4 [of v] fr8 [of v] by blast
    qed
    with pre(2) show "fpath (MEM s') (MEM s (f + 8)) vs NULL" by simp
  next
    assume "us \<noteq> []" "MEM s (f + 8) \<noteq> NULL"
    then show "unat (last us) + unat (MEM s' (last us)) < unat (MEM s (f + 8))"
      using pre(3) [of "last us"] pre(5) last_in_set [of us] fr4 [OF lastus] by simp
  next
    fix u assume u: "u \<in> set (butlast us)"
    have "u \<noteq> last us"
      using u fpath_sorted [of "MEM s" ?F "us @ f # vs"] wf
      by (cases us rule: rev_cases) (auto simp: pool_wf_def sorted_wrt_append)
    with u pre(7) show "MEM s' u = MEM s u \<and> MEM s' (u + 8) = MEM s (u + 8)"
      using fr4 [of u] fr8 [of u] in_set_butlastD [of u us] by blast
  qed (simp add: m')
  ultimately show "pool_wf s' pid bs (us @ vs)" using wf P pre(7) by (auto simp: pool_wf_def)
qed

text \<open>
  The state that \<open>alloc_take\<close> reaches before the walking pointers are reset and the block
  is marked: the block has left the free list.
\<close>

definition alloc_link :: "u32 \<Rightarrow> addr \<Rightarrow> addr \<Rightarrow> addr \<Rightarrow> lwmem \<Rightarrow> u32 \<times> lwmem" where
  "alloc_link requested_size pid block_ptr prev_block_ptr s =
     (let block_size = BLOCKSIZE s block_ptr;
          next_block_size = block_size - requested_size;
          (requested_size, next_block_ptr, s) =
            (if next_block_size \<ge> LWMEM_MIN_MEMORY_STORAGE_SIZE then
               (let next_block_ptr = block_ptr + requested_size;
                    s = set_BLOCKSIZE next_block_ptr next_block_size s;
                    s = set_POOL next_block_ptr pid s;
                    s = set_NEXTBLOCK next_block_ptr (NEXTBLOCK s block_ptr) s;
                    s = set_NEXTBLOCK block_ptr next_block_ptr s;
                    s = set_BLOCKSIZE block_ptr requested_size s
                in (requested_size, next_block_ptr, s))
             else (block_size, NEXTBLOCK s block_ptr, s));
          s = (if block_ptr = POOL_FREE_LIST_PTR (POOLS s pid)
               then upd_pool pid (\<lambda>P. P\<lparr>POOL_FREE_LIST_PTR := next_block_ptr\<rparr>) s
               else set_NEXTBLOCK prev_block_ptr next_block_ptr s)
      in (requested_size, s))"

lemma alloc_take_link:
  "alloc_take req td pid zero f prev s =
     (let (sz, s1) = alloc_link req pid f prev s;
          s2 = raise_highwater pid f (mark_used pid td f (reset_walk_ptrs pid s1))
      in (f + 12, if zero then mem_zero (f + 12) (sz - 12) s2 else s2))"
  by (simp add: alloc_take_def alloc_link_def Let_def split: prod.splits)

lemma alloc_link_wf:
  assumes wf: "pool_wf s pid bs (us @ f # vs)"
    and req: "aligned req" "16 \<le> unat req" "req \<le> MEM s f"
    and prev: "us \<noteq> [] \<Longrightarrow> prev = last us"
  obtains sz s1 bs' fs' where "alloc_link req pid f prev s = (sz, s1)" "pool_wf s1 pid bs' fs'"
    "f \<in> set bs'" "f \<notin> set fs'" "MEM s1 f = sz" "req \<le> sz" "unat sz < unat req + 16"
    "set bs' - set fs' = insert f (set bs - set (us @ f # vs))"
    "\<And>b. b \<in> set bs - set (us @ f # vs) \<Longrightarrow>
       MEM s1 b = MEM s b \<and> MEM s1 (b + 4) = MEM s (b + 4) \<and> MEM s1 (b + 8) = MEM s (b + 8)"
    "sum_list (map (\<lambda>g. unat (MEM s1 g)) fs') + unat sz =
       sum_list (map (\<lambda>g. unat (MEM s g)) (us @ f # vs))"
proof -
  note pre = free_prefix [OF wf]
  from wf have t: "tiling (MEM s) pid (POOL_ALLOC_START_PTR (POOLS s pid)) bs
    (POOL_ALLOC_END_PTR (POOLS s pid))" by (simp add: pool_wf_def)
  have usz: "unat (MEM s f - req) = unat (MEM s f) - unat req"
    using req(3) by (intro unat_sub_noof) (simp add: word_le_nat_alt)
  have le: "unat req \<le> unat (MEM s f)" using req(3) by (simp add: word_le_nat_alt)
  have usvs: "f \<notin> set us" "f \<notin> set vs" using pre(3) [of f] pre(4) [of f] by auto
  have al: "aligned (MEM s f)" "aligned f" using pool_wf_aligned [OF wf pre(8)] by auto
  show thesis
  proof (cases "MEM s f - req \<ge> 16")
    case True
    then have split: "unat req + 16 \<le> unat (MEM s f)" using usz le by (simp add: word_le_nat_alt)
    obtain as cs where bs: "bs = as @ f # cs"
      using pre(8) by (auto simp: in_set_conv_decomp)
    define n where "n = f + req"
    define s1 where "s1 = snd (alloc_link req pid f prev s)"
    have "n \<noteq> f" using req(2) by (auto simp: n_def)
    have aln: "aligned n" unfolding n_def
      using al(2) req(1) split pool_wf_aligned [OF wf pre(8)] by (intro aligned_add) auto
    have link: "alloc_link req pid f prev s = (req, s1)"
      using True by (simp add: s1_def alloc_link_def Let_def BLOCKSIZE_def)
    have nf8: "n \<noteq> 4 + f" "n \<noteq> 8 + f" "4 + f \<noteq> n" "8 + f \<noteq> n" "n \<noteq> f"
      using slot_neq [OF al(2) aln] \<open>n \<noteq> f\<close> by (simp_all add: add.commute)
    have n_un: "unat n = unat f + unat req"
      using split pool_wf_aligned [OF wf pre(8)] by (auto simp: n_def intro!: unat_add_noof32)
    let ?m = "(MEM s)(n := MEM s f - req, n + 4 := pid, n + 8 := MEM s (f + 8),
               f + 8 := n, f := req)"
    have M: "MEM s1 = (if us = [] then ?m else ?m(last us + 8 := n))"
      and P: "POOLS s1 pid = (if us = [] then (POOLS s pid)\<lparr>POOL_FREE_LIST_PTR := n\<rparr> else POOLS s pid)"
      using True pre(6) prev aln al(2) nf8
      by (auto simp: s1_def alloc_link_def Let_def BLOCKSIZE_def NEXTBLOCK_def n_def [symmetric])
    note cw = carve_split_wf [OF wf [unfolded bs] req(1,2) split n_def refl M P]
    have n: "n \<notin> set bs"
    proof
      assume "n \<in> set bs"
      then show False
        using tiling_disjoint [OF t pre(8), of n] n_un req(2) split by auto
    qed
    have d: "f \<notin> set (as @ cs)" using tiling_distinct [OF t] bs by auto
    have ne: "n \<notin> set (us @ vs)" using n pre(7) by auto
    have fr: "MEM s1 b = MEM s b \<and> MEM s1 (b + 4) = MEM s (b + 4) \<and>
        (b \<notin> set us \<longrightarrow> MEM s1 (b + 8) = MEM s (b + 8))" if "b \<in> set bs" "b \<noteq> f" for b
      using cw(5,6) [of b] that bs by auto
    have sums: "map (\<lambda>g. unat (MEM s1 g)) us = map (\<lambda>g. unat (MEM s g)) us"
      "map (\<lambda>g. unat (MEM s1 g)) vs = map (\<lambda>g. unat (MEM s g)) vs"
      using fr pre(7) usvs by (auto intro!: arg_cong [where f = unat])
    show thesis
    proof (rule that [OF link cw(1)])
      show "set (as @ f # n # cs) - set (us @ n # vs) = insert f (set bs - set (us @ f # vs))"
        using bs n d usvs \<open>n \<noteq> f\<close> by auto
      show "sum_list (map (\<lambda>g. unat (MEM s1 g)) (us @ n # vs)) + unat req =
          sum_list (map (\<lambda>g. unat (MEM s g)) (us @ f # vs))"
        using cw(3) usz le by (simp add: sums del: map_eq_conv)
      show "MEM s1 b = MEM s b \<and> MEM s1 (b + 4) = MEM s (b + 4) \<and> MEM s1 (b + 8) = MEM s (b + 8)"
        if "b \<in> set bs - set (us @ f # vs)" for b
        using fr [of b] that by auto
    qed (use cw(2) usvs \<open>n \<noteq> f\<close> in auto)
  next
    case False
    then have small: "unat (MEM s f) < unat req + 16" using usz le by (simp add: word_le_nat_alt)
    define s1 where "s1 = snd (alloc_link req pid f prev s)"
    have link: "alloc_link req pid f prev s = (MEM s f, s1)"
      using False by (simp add: s1_def alloc_link_def Let_def BLOCKSIZE_def)
    have M: "MEM s1 = (if us = [] then MEM s else (MEM s)(last us + 8 := MEM s (f + 8)))"
      and P: "POOLS s1 pid = (if us = [] then (POOLS s pid)\<lparr>POOL_FREE_LIST_PTR := MEM s (f + 8)\<rparr>
              else POOLS s pid)"
      using False pre(6) prev
      by (auto simp: s1_def alloc_link_def Let_def BLOCKSIZE_def NEXTBLOCK_def)
    note cw = carve_whole_wf [OF wf M P]
    have same: "MEM s1 b = MEM s b" if "b \<in> set bs" for b using cw(2) [OF that] by simp
    have sums: "map (\<lambda>g. unat (MEM s1 g)) us = map (\<lambda>g. unat (MEM s g)) us"
      "map (\<lambda>g. unat (MEM s1 g)) vs = map (\<lambda>g. unat (MEM s g)) vs"
      using same pre(7) by (auto intro!: arg_cong [where f = unat])
    show thesis
    proof (rule that [OF link cw(1) pre(8)])
      show "set bs - set (us @ vs) = insert f (set bs - set (us @ f # vs))"
        using usvs pre(8) by auto
      show "sum_list (map (\<lambda>g. unat (MEM s1 g)) (us @ vs)) + unat (MEM s f) =
          sum_list (map (\<lambda>g. unat (MEM s g)) (us @ f # vs))"
        using same [OF pre(8)] by (simp add: sums del: map_eq_conv)
      show "MEM s1 b = MEM s b \<and> MEM s1 (b + 4) = MEM s (b + 4) \<and> MEM s1 (b + 8) = MEM s (b + 8)"
        if "b \<in> set bs - set (us @ f # vs)" for b
        using cw(2,3) [of b] that by auto
    qed (use usvs same pre(8) small req(3) in auto)
  qed
qed

text \<open>Allocation from a given free block: what is left of the link step, the marking of the
  block and the zeroing.\<close>

lemma raise_highwater_wr_simps [simp]:
  "TASK_NUMBER (raise_highwater pid x s) b = TASK_NUMBER s b"
  "TASK_NUMBER (reset_walk_ptrs pid s) b = TASK_NUMBER s b"
  by (simp_all add: TASK_NUMBER_def)

lemma alloc_take_wf:
  assumes wf: "pool_wf s pid bs (us @ f # vs)"
    and req: "aligned req" "16 \<le> unat req" "req \<le> MEM s f"
    and prev: "us \<noteq> [] \<Longrightarrow> prev = last us"
  obtains s' bs' fs' where "alloc_take req td pid zero f prev s = (f + 12, s')"
    "pool_wf s' pid bs' fs'" "f \<in> set bs'" "f \<notin> set fs'"
    "req \<le> MEM s' f" "unat (MEM s' f) < unat req + 16"
    "set bs' - set fs' = insert f (set bs - set (us @ f # vs))"
    "\<And>b. b \<in> set bs - set (us @ f # vs) \<Longrightarrow>
       MEM s' b = MEM s b \<and> MEM s' (b + 4) = MEM s (b + 4) \<and> MEM s' (b + 8) = MEM s (b + 8)"
    "sum_list (map (\<lambda>g. unat (MEM s' g)) fs') + unat (MEM s' f) =
       sum_list (map (\<lambda>g. unat (MEM s g)) (us @ f # vs))"
    "TASK_NUMBER s' f = TASK_NUMBER_FROM_TASKID td"
    "zero \<Longrightarrow> \<forall>i < (unat (MEM s' f) - 12) div 4. MEM s' (f + 12 + of_nat (4 * i)) = 0"
proof (rule alloc_link_wf [OF wf req prev])
  fix sz s1 bs' fs'
  assume l: "alloc_link req pid f prev s = (sz, s1)" and wf1: "pool_wf s1 pid bs' fs'"
    and f: "f \<in> set bs'" "f \<notin> set fs'" "MEM s1 f = sz" and sz: "req \<le> sz" "unat sz < unat req + 16"
    and live: "set bs' - set fs' = insert f (set bs - set (us @ f # vs))"
    and fr: "\<And>b. b \<in> set bs - set (us @ f # vs) \<Longrightarrow>
       MEM s1 b = MEM s b \<and> MEM s1 (b + 4) = MEM s (b + 4) \<and> MEM s1 (b + 8) = MEM s (b + 8)"
    and sum: "sum_list (map (\<lambda>g. unat (MEM s1 g)) fs') + unat sz =
       sum_list (map (\<lambda>g. unat (MEM s g)) (us @ f # vs))"
  define s2 where "s2 = raise_highwater pid f (mark_used pid td f (reset_walk_ptrs pid s1))"
  define s' where "s' = (if zero then mem_zero (f + 12) (sz - 12) s2 else s2)"
  have wf2: "pool_wf s2 pid bs' fs'"
    unfolding s2_def pool_wf_walk by (rule mark_used_wf) (use wf1 f in simp_all)
  have alb: "aligned b" if "b \<in> set bs'" for b using pool_wf_aligned [OF wf1 that] by blast
  have m2: "MEM s2 b = MEM s1 b \<and> MEM s2 (b + 4) = MEM s1 (b + 4) \<and>
      (b \<noteq> f \<longrightarrow> MEM s2 (b + 8) = MEM s1 (b + 8))" if "b \<in> set bs'" for b
    using alb [OF that] alb [OF f(1)] pool_wf_aligned [OF wf1 that] pool_wf_aligned [OF wf2 that]
    by (simp add: s2_def mark_used_MEM)
  have sz2: "MEM s2 f = sz" using m2 [OF f(1)] f(3) by simp
  note z = zero_user_wf [OF wf2 f(1), unfolded sz2]
  have wf': "pool_wf s' pid bs' fs'" using z(1) wf2 by (simp add: s'_def)
  have m': "MEM s' b = MEM s1 b \<and> MEM s' (b + 4) = MEM s1 (b + 4) \<and>
      (b \<noteq> f \<longrightarrow> MEM s' (b + 8) = MEM s1 (b + 8)) \<and> MEM s' (b + 8) = MEM s2 (b + 8)"
    if "b \<in> set bs'" for b
    using m2 [OF that] z(2) [OF that, of 0] z(2) [OF that, of 4] z(2) [OF that, of 8]
    by (simp add: s'_def)
  have sz': "MEM s' f = sz" using m' [OF f(1)] f(3) by simp
  have "map (\<lambda>g. unat (MEM s' g)) fs' = map (\<lambda>g. unat (MEM s1 g)) fs'"
    using m' wf1 by (auto simp: pool_wf_def)
  then have sum': "sum_list (map (\<lambda>g. unat (MEM s' g)) fs') + unat (MEM s' f) =
       sum_list (map (\<lambda>g. unat (MEM s g)) (us @ f # vs))"
    using sum by (simp only: sz')
  have tn: "TASK_NUMBER s' f = TASK_NUMBER_FROM_TASKID td"
    using m' [OF f(1)] mark_used_TASK_NUMBER [of pid td f "reset_walk_ptrs pid s1"]
    by (simp add: TASK_NUMBER_def s2_def)
  have zeroed: "\<forall>i < (unat (MEM s' f) - 12) div 4. MEM s' (f + 12 + of_nat (4 * i)) = 0"
    if "zero"
  proof (intro allI impI)
    fix i assume i: "i < (unat (MEM s' f) - 12) div 4"
    have al: "16 \<le> unat sz" "unat f + unat sz < 4294967296"
      using pool_wf_aligned [OF wf1 f(1)] f(3) by auto
    then have n: "unat (sz - 12) = unat sz - 12"
      by (intro trans [OF unat_sub_noof]) auto
    have i: "i < (unat sz - 12) div 4" using i by (simp only: sz')
    show "MEM s' (f + 12 + of_nat (4 * i)) = 0"
      using that i al n unat_slots(3) [OF alb [OF f(1)]]
      by (simp add: s'_def mem_zero_def unat_drop2 sz' del: of_nat_mult)
         (rule zero_words_in, auto)
  qed
  have eq: "alloc_take req td pid zero f prev s = (f + 12, s')"
    by (simp add: alloc_take_link l s'_def s2_def Let_def)
  have fr': "MEM s' b = MEM s b \<and> MEM s' (b + 4) = MEM s (b + 4) \<and> MEM s' (b + 8) = MEM s (b + 8)"
    if "b \<in> set bs - set (us @ f # vs)" for b
  proof -
    from that live have "b \<in> set bs'" "b \<noteq> f" by auto
    with m' [of b] fr [OF that] show ?thesis by simp
  qed
  show thesis
    by (rule that [OF eq wf' f(1,2) _ _ live fr' sum' tn zeroed]) (use sz sz' in auto)
qed

section \<open>The first-fit loop\<close>

definition walked :: "addr \<Rightarrow> addr \<Rightarrow> lwmem \<Rightarrow> lwmem" where
  "walked pid x s = upd_pool pid (\<lambda>P. P\<lparr>POOL_ALLOC_PTR := x\<rparr>) s"

lemma walked_simps [simp]:
  "MEM (walked pid x s) = MEM s" "pool_wf (walked pid x s) pid bs fs = pool_wf s pid bs fs"
  "walked pid x (walked pid y s) = walked pid x s"
  "walked pid (POOL_ALLOC_PTR (POOLS s pid)) s = s"
  "POOL_FREE_LIST_PTR (POOLS (walked pid x s) pid) = POOL_FREE_LIST_PTR (POOLS s pid)"
  by (simp_all add: walked_def) (simp_all add: upd_pool_def)

lemma alloc_loop_finds:
  assumes "pool_wf s pid bs (us @ ws @ f # vs)" "\<forall>g \<in> set ws. MEM s g < req" "req \<le> MEM s f"
    and "us \<noteq> [] \<Longrightarrow> prev0 = last us"
  shows "\<exists>prev. (us @ ws \<noteq> [] \<longrightarrow> prev = last (us @ ws)) \<and>
    alloc_loop req td pid zero (hd (ws @ [f])) prev0 s =
      Some (alloc_take req td pid zero f prev (walked pid f s))"
  using assms
proof (induction ws arbitrary: us prev0 s)
  case Nil
  then have "f \<noteq> NULL" "f = POOL_FREE_LIST_PTR (POOLS s pid) \<longleftrightarrow> us = []"
    using free_prefix [of s pid bs us f vs] by auto
  with Nil show ?case
    by (subst alloc_loop.simps) (auto simp: Let_def BLOCKSIZE_def walked_def)
next
  case (Cons g ws)
  then have g: "g \<noteq> NULL" "g = POOL_FREE_LIST_PTR (POOLS s pid) \<longleftrightarrow> us = []"
    and fp: "fpath (MEM s) (MEM s (g + 8)) (ws @ f # vs) NULL"
    using free_prefix [of s pid bs us g "ws @ f # vs"] by auto
  then have next_g: "NEXTBLOCK (walked pid g s) g = hd (ws @ [f])"
    by (cases ws) (auto simp: NEXTBLOCK_def)
  have "\<exists>prev. ((us @ [g]) @ ws \<noteq> [] \<longrightarrow> prev = last ((us @ [g]) @ ws)) \<and>
    alloc_loop req td pid zero (hd (ws @ [f])) g (walked pid g s) =
      Some (alloc_take req td pid zero f prev (walked pid f (walked pid g s)))"
    by (rule Cons.IH) (use Cons.prems in auto)
  moreover have "\<not> req \<le> MEM s g" using Cons.prems by auto
  then have "alloc_loop req td pid zero g prev0 s =
      alloc_loop req td pid zero (NEXTBLOCK (walked pid g s) g) g (walked pid g s)"
    using g(1) by (subst alloc_loop.simps) (simp add: Let_def BLOCKSIZE_def walked_def)
  ultimately show ?case using next_g by auto
qed

lemma alloc_loop_fails:
  assumes "pool_wf s pid bs (us @ ws)" "\<forall>g \<in> set ws. MEM s g < req"
  shows "\<exists>x. alloc_loop req td pid zero (hd (ws @ [NULL])) prev0 s =
      Some (NULL, task_set_error MQX_OUT_OF_MEMORY (walked pid x s))"
  using assms
proof (induction ws arbitrary: us prev0 s)
  case Nil
  then show ?case
    by (subst alloc_loop.simps) (auto intro: exI [of _ "POOL_ALLOC_PTR (POOLS s pid)"])
next
  case (Cons g ws)
  then have g: "g \<noteq> NULL" and fp: "fpath (MEM s) (MEM s (g + 8)) ws NULL"
    using free_prefix [of s pid bs us g ws] by auto
  then have next_g: "NEXTBLOCK (walked pid g s) g = hd (ws @ [NULL])"
    by (cases ws) (auto simp: NEXTBLOCK_def)
  have "\<exists>x. alloc_loop req td pid zero (hd (ws @ [NULL])) g (walked pid g s) =
      Some (NULL, task_set_error MQX_OUT_OF_MEMORY (walked pid x (walked pid g s)))"
    by (rule Cons.IH [of _ "us @ [g]"]) (use Cons.prems in auto)
  moreover have "\<not> req \<le> MEM s g" using Cons.prems by auto
  then have "alloc_loop req td pid zero g prev0 s =
      alloc_loop req td pid zero (NEXTBLOCK (walked pid g s) g) g (walked pid g s)"
    using g by (subst alloc_loop.simps) (simp add: Let_def BLOCKSIZE_def walked_def)
  ultimately show ?case using next_g by auto
qed

lemma fpath_hd: "fpath m p fs z \<Longrightarrow> p = hd (fs @ [z])"
  by (cases fs) auto

lemma free_list_hd: "pool_wf s pid bs fs \<Longrightarrow> POOL_FREE_LIST_PTR (POOLS s pid) = hd (fs @ [NULL])"
  by (rule fpath_hd [of "MEM s"]) (simp add: pool_wf_def)

text \<open>The adjusted size covers the header and the request, with less than 28 bytes over.\<close>

lemma adjust_size_bounds:
  assumes "unat r + 27 < 4294967296"
  shows "16 \<le> unat (adjust_size r)" "unat r + 12 \<le> unat (adjust_size r)"
    and "unat (adjust_size r) \<le> unat r + 27"
  using unat_adjust_size [OF assms] by presburger+

text \<open>First fit: the block is carved from the first free block that is large enough.\<close>

lemma lwmem_alloc_fits:
  assumes wf: "pool_wf s pid bs (us @ f # vs)" and r: "unat r + 27 < 4294967296"
    and first: "\<forall>g \<in> set us. MEM s g < adjust_size r" "adjust_size r \<le> MEM s f"
  obtains s' bs' fs' where "lwmem_alloc_internal r td pid zero s = Some (f + 12, s')"
    "pool_wf s' pid bs' fs'" "f \<in> set bs'" "f \<notin> set fs'"
    "adjust_size r \<le> MEM s' f" "unat (MEM s' f) < unat (adjust_size r) + 16"
    "set bs' - set fs' = insert f (set bs - set (us @ f # vs))"
    "\<And>b. b \<in> set bs - set (us @ f # vs) \<Longrightarrow>
       MEM s' b = MEM s b \<and> MEM s' (b + 4) = MEM s (b + 4) \<and> MEM s' (b + 8) = MEM s (b + 8)"
    "sum_list (map (\<lambda>g. unat (MEM s' g)) fs') + unat (MEM s' f) =
       sum_list (map (\<lambda>g. unat (MEM s g)) (us @ f # vs))"
    "TASK_NUMBER s' f = TASK_NUMBER_FROM_TASKID td"
    "zero \<Longrightarrow> \<forall>i < (unat (MEM s' f) - 12) div 4. MEM s' (f + 12 + of_nat (4 * i)) = 0"
proof -
  have F: "POOL_FREE_LIST_PTR (POOLS s pid) = hd (us @ [f])" and v: "VALID (POOLS s pid) = LWMEM_POOL_VALID"
    using wf fpath_hd [of "MEM s" _ "us @ f # vs" NULL] by (auto simp: pool_wf_def) (cases us; simp)
  obtain prev where prev: "us \<noteq> [] \<longrightarrow> prev = last us"
    and eq: "alloc_loop (adjust_size r) td pid zero (hd (us @ [f])) NULL s =
      Some (alloc_take (adjust_size r) td pid zero f prev (walked pid f s))"
    using alloc_loop_finds [of s pid bs "[]" us f vs "adjust_size r" NULL td zero] wf first by auto
  have int: "lwmem_alloc_internal r td pid zero s =
      Some (alloc_take (adjust_size r) td pid zero f prev (walked pid f s))"
    using v eq F by (simp add: lwmem_alloc_internal_def)
  then have intern: "alloc_take (adjust_size r) td pid zero f prev (walked pid f s) = (p, s') \<Longrightarrow>
      lwmem_alloc_internal r td pid zero s = Some (p, s')" for p s'
    by simp
  show thesis
  proof (rule alloc_take_wf [of "walked pid f s" pid bs us f vs "adjust_size r" prev td zero thesis,
        unfolded walked_simps])
    show "pool_wf s pid bs (us @ f # vs)" by (rule wf)
    show "16 \<le> unat (adjust_size r)" by (rule adjust_size_bounds [OF r])
    show "us \<noteq> [] \<Longrightarrow> prev = last us" using prev by simp
    show "adjust_size r \<le> MEM s f" using first by simp
  qed (simp, rule that, erule intern, (assumption | blast)+)
qed

lemma lwmem_alloc_no_fit:
  assumes wf: "pool_wf s pid bs fs" and none: "\<forall>g \<in> set fs. MEM s g < adjust_size r"
  obtains x where "lwmem_alloc_internal r td pid zero s =
    Some (NULL, task_set_error MQX_OUT_OF_MEMORY (walked pid x s))"
proof -
  have "POOL_FREE_LIST_PTR (POOLS s pid) = hd (fs @ [NULL])" "VALID (POOLS s pid) = LWMEM_POOL_VALID"
    using wf fpath_hd [of "MEM s" _ fs NULL] by (auto simp: pool_wf_def)
  then show thesis
    using alloc_loop_fails [of s pid bs "[]" fs "adjust_size r" td zero NULL] wf none that
    by (auto simp: lwmem_alloc_internal_def)
qed

text \<open>The bytes on the free list.\<close>

definition free_bytes :: "lwmem \<Rightarrow> addr list \<Rightarrow> nat" where
  "free_bytes s fs = sum_list (map (\<lambda>g. unat (MEM s g)) fs)"

text \<open>Both outcomes together.\<close>

lemma lwmem_alloc_spec:
  assumes "pool_wf s pid bs fs" and "unat r + 27 < 4294967296"
  shows "case List.find (\<lambda>g. adjust_size r \<le> MEM s g) fs of
      None \<Rightarrow> \<exists>s'. lwmem_alloc_internal r td pid zero s = Some (NULL, s') \<and> pool_wf s' pid bs fs \<and>
        MEM s' = MEM s \<and> (IN_ISR s = 0 \<and> TASK_ERROR_CODE s = MQX_OK \<longrightarrow>
          TASK_ERROR_CODE s' = MQX_OUT_OF_MEMORY)
    | Some f \<Rightarrow> \<exists>s' bs' fs'. lwmem_alloc_internal r td pid zero s = Some (f + 12, s') \<and>
        pool_wf s' pid bs' fs' \<and> f \<notin> set bs - set fs \<and>
        set bs' - set fs' = insert f (set bs - set fs) \<and>
        unat r + 12 \<le> unat (MEM s' f) \<and> unat (MEM s' f) < unat r + 12 + 32 \<and>
        (\<forall>b \<in> set bs - set fs. MEM s' b = MEM s b \<and> MEM s' (b + 4) = MEM s (b + 4) \<and>
           MEM s' (b + 8) = MEM s (b + 8)) \<and>
        free_bytes s' fs' + unat (MEM s' f) = free_bytes s fs \<and>
        TASK_NUMBER s' f = TASK_NUMBER_FROM_TASKID td"
proof (cases "List.find (\<lambda>g. adjust_size r \<le> MEM s g) fs")
  case None
  then have "\<forall>g \<in> set fs. MEM s g < adjust_size r" by (auto simp: find_None_iff)
  then obtain x where "lwmem_alloc_internal r td pid zero s =
      Some (NULL, task_set_error MQX_OUT_OF_MEMORY (walked pid x s))"
    by (rule lwmem_alloc_no_fit [OF assms(1)])
  with None assms(1) show ?thesis
    by (simp add: task_set_error_def walked_def upd_pool_def Let_def) (simp add: pool_wf_def)
next
  case (Some f)
  then obtain i where i: "i < length fs" "f = fs ! i" "adjust_size r \<le> MEM s f"
    "\<forall>j < i. \<not> adjust_size r \<le> MEM s (fs ! j)" by (auto simp: find_Some_iff)
  define us where "us = take i fs"
  define vs where "vs = drop (Suc i) fs"
  have fs: "fs = us @ f # vs" using i by (simp add: us_def vs_def id_take_nth_drop)
  have us: "\<forall>g \<in> set us. MEM s g < adjust_size r"
    using i by (auto simp: us_def in_set_conv_nth not_le)
  from assms(1) have wf: "pool_wf s pid bs (us @ f # vs)" by (simp only: fs)
  obtain s' bs' fs' where out: "lwmem_alloc_internal r td pid zero s = Some (f + 12, s')"
    "pool_wf s' pid bs' fs'" "set bs' - set fs' = insert f (set bs - set (us @ f # vs))"
    "TASK_NUMBER s' f = TASK_NUMBER_FROM_TASKID td"
    and sz: "adjust_size r \<le> MEM s' f" "unat (MEM s' f) < unat (adjust_size r) + 16"
    and fr: "\<And>b. b \<in> set bs - set (us @ f # vs) \<Longrightarrow>
       MEM s' b = MEM s b \<and> MEM s' (b + 4) = MEM s (b + 4) \<and> MEM s' (b + 8) = MEM s (b + 8)"
    and sum: "sum_list (map (\<lambda>g. unat (MEM s' g)) fs') + unat (MEM s' f) =
       sum_list (map (\<lambda>g. unat (MEM s g)) (us @ f # vs))"
    by (rule lwmem_alloc_fits [OF wf assms(2) us i(3), of td zero thesis]) blast
  have "f \<in> set fs" unfolding fs by simp
  moreover have "unat (adjust_size r) \<le> unat (MEM s' f)" using sz(1) by (simp add: word_le_nat_alt)
  then have "unat r + 12 \<le> unat (MEM s' f)" "unat (MEM s' f) < unat r + 12 + 32"
    using sz(2) unat_adjust_size [OF assms(2)] by (presburger, presburger)
  ultimately show ?thesis
    using Some out fr sum fs by (simp only: option.case free_bytes_def) blast
qed

section \<open>Properties of the allocation\<close>

text \<open>
  A pool for the witnesses: descriptor at \<open>0x100\<close>, one free block of 256 bytes from \<open>0x1000\<close>.
\<close>

definition demo_pool :: lwmem where
  "demo_pool = \<lparr>MEM = ((\<lambda>_. 0)(0x1000 := 256, 0x1004 := 0x100)),
     POOLS = (\<lambda>_. \<lparr>VALID = 0, POOL_ALLOC_START_PTR = 0, POOL_ALLOC_END_PTR = 0, POOL_FREE_LIST_PTR = 0,
       POOL_ALLOC_PTR = 0, POOL_FREE_PTR = 0, POOL_TEST_PTR = 0, POOL_TEST2_PTR = 0,
       POOL_DESTROY_PTR = 0, HIGHWATER = 0\<rparr>)
       (0x100 := \<lparr>VALID = LWMEM_POOL_VALID, POOL_ALLOC_START_PTR = 0x1000,
       POOL_ALLOC_END_PTR = 0x1100, POOL_FREE_LIST_PTR = 0x1000, POOL_ALLOC_PTR = 0x1000,
       POOL_FREE_PTR = 0x1000, POOL_TEST_PTR = 0x1000, POOL_TEST2_PTR = 0x1000,
       POOL_DESTROY_PTR = 0x1000, HIGHWATER = 0\<rparr>),
     QH = \<lparr>NEXT = (\<lambda>_. 0), PREV = (\<lambda>_. 0), SIZE = (\<lambda>_. 0), MAX_Q = (\<lambda>_. 0)\<rparr>,
     LWMEM_POOLS = 0x200, KERNEL_LWMEM_POOL = 0x100, END_OF_KERNEL_MEMORY = 0x4000, IN_ISR = 0,
     INTERRUPT_ERROR_CODE = MQX_OK, TASK_ERROR_CODE = MQX_OK, ACTIVE_TASK_ID = 0x10001,
     SYSTEM_TASK_ID = 0x1FFFF, TD_LIST = [0x10001]\<rparr>"

lemma demo_pool_wf: "pool_wf demo_pool 0x100 [0x1000] [0x1000]"
  by (simp add: pool_wf_def demo_pool_def aligned_def)


text \<open>
  A block that is asked for zeroed is zero in every word of its user part, up to its end.
\<close>

theorem lwmem_alloc_zeroes:
  assumes "pool_wf s pid bs fs" and "unat r + 27 < 4294967296"
    and "lwmem_alloc_internal r td pid True s = Some (p, s')" and "p \<noteq> NULL"
  shows "\<forall>i < (unat (MEM s' (p - 12)) - 12) div 4. MEM s' (p + of_nat (4 * i)) = 0"
proof -
  have F: "p \<noteq> NULL \<Longrightarrow> \<not> (\<forall>g \<in> set fs. MEM s g < adjust_size r)"
    using lwmem_alloc_no_fit [OF assms(1), of r td True] assms(3) by fastforce
  then obtain i where "i < length fs" "adjust_size r \<le> MEM s (fs ! i)"
    "\<forall>j < i. \<not> adjust_size r \<le> MEM s (fs ! j)"
    using assms(4) find_None_iff [of "\<lambda>g. adjust_size r \<le> MEM s g" fs]
      find_Some_iff [of "\<lambda>g. adjust_size r \<le> MEM s g" fs]
    by (cases "List.find (\<lambda>g. adjust_size r \<le> MEM s g) fs") (auto simp: not_le)
  then obtain us f vs where fs: "fs = us @ f # vs" and us: "\<forall>g \<in> set us. MEM s g < adjust_size r"
    and f: "adjust_size r \<le> MEM s f"
    by (metis (no_types, lifting) id_take_nth_drop in_set_conv_nth length_take min.absorb4
        not_le nth_take)
  from assms(1) have wf: "pool_wf s pid bs (us @ f # vs)" by (simp only: fs)
  obtain s2 where "lwmem_alloc_internal r td pid True s = Some (f + 12, s2)"
    "\<forall>i < (unat (MEM s2 f) - 12) div 4. MEM s2 (f + 12 + of_nat (4 * i)) = 0"
    by (rule lwmem_alloc_fits [OF wf assms(2) us f, of td True thesis]) blast
  with assms(3) have "p = f + 12" "s' = s2"
    "\<forall>i < (unat (MEM s2 f) - 12) div 4. MEM s2 (f + 12 + of_nat (4 * i)) = 0" by auto
  then show ?thesis by simp
qed


text \<open>The first two allocations of the demo pool, evaluated.\<close>

lemma demo_alloc_eq:
  "lwmem_alloc_internal 100 0x10001 0x100 True demo_pool =
    Some (alloc_take 112 0x10001 0x100 True 0x1000 0x1000 (walked 0x100 0x1000 demo_pool))"
  by (subst lwmem_alloc_internal_def, subst alloc_loop.simps)
    (simp add: demo_pool_def adjust_size_def MEMORY_ALIGN_VAL_LARGER_def word_le_nat_alt
      word_less_nat_alt Let_def walked_def upd_pool_def BLOCKSIZE_def)

theorem lwmem_alloc_zeroes_witness:
  "\<exists>s'. lwmem_alloc_internal 100 0x10001 0x100 True demo_pool = Some (0x100C, s') \<and>
     (\<forall>i < (unat (MEM s' 0x1000) - 12) div 4. MEM s' (0x100C + of_nat (4 * i)) = 0)"
proof -
  obtain s' where s': "lwmem_alloc_internal 100 0x10001 0x100 True demo_pool = Some (0x100C, s')"
    unfolding demo_alloc_eq by (simp add: alloc_take_link split_def Let_def)
  show ?thesis
    using lwmem_alloc_zeroes [OF demo_pool_wf _ s'] s' by auto
qed

end
