(* ===== verification/LwMemFree.thy ===== *)
theory LwMemFree
  imports LwMemAlloc
begin

text \<open>
  \<open>_lwmem_free\<close> of \<^verbatim>\<open>lwmem.c\<close>: the block returns to the address-ordered free list and is
  joined with a free neighbour on either side. Shown: the pool stays well formed, exactly the
  freed block leaves the live set, and its bytes (and no others) become free.
\<close>

section \<open>The code\<close>

text \<open>Joining \<open>block_ptr\<close> with the free block \<open>next_ptr\<close> when they touch, or linking them.\<close>

definition free_join_next :: "addr \<Rightarrow> addr \<Rightarrow> lwmem \<Rightarrow> lwmem" where
  "free_join_next block_ptr next_ptr s =
     (if block_ptr + BLOCKSIZE s block_ptr = next_ptr then
        (let s = set_BLOCKSIZE block_ptr (BLOCKSIZE s block_ptr + BLOCKSIZE s next_ptr) s;
             s = set_NEXTBLOCK block_ptr (NEXTBLOCK s next_ptr) s
         in mem_zero next_ptr sizeof_LWMEM_BLOCK s)
      else set_NEXTBLOCK block_ptr next_ptr s)"

text \<open>
  The search loop. The result is \<open>free_list_ptr\<close>, \<open>insert\<close> and the state; the insertion at the
  head of the list happens inside the loop.
\<close>

partial_function (option) free_loop ::
  "addr \<Rightarrow> addr \<Rightarrow> addr \<Rightarrow> lwmem \<Rightarrow> (addr \<times> bool \<times> lwmem) option" where
  "free_loop pid block_ptr free_list_ptr s =
     (if POOL_FREE_LIST_PTR (POOLS s pid) = NULL \<or> block_ptr < POOL_FREE_LIST_PTR (POOLS s pid) then
        (let free_list_ptr = POOL_FREE_LIST_PTR (POOLS s pid);
             s = free_join_next block_ptr free_list_ptr s;
             s = upd_pool pid (\<lambda>P. P\<lparr>POOL_FREE_LIST_PTR := block_ptr\<rparr>) s
         in Some (free_list_ptr, False, s))
      else if block_ptr < NEXTBLOCK s free_list_ptr \<or> NEXTBLOCK s free_list_ptr = NULL then
        Some (free_list_ptr, True, s)
      else
        (let free_list_ptr = NEXTBLOCK s free_list_ptr;
             s = upd_pool pid (\<lambda>P. P\<lparr>POOL_FREE_PTR := free_list_ptr\<rparr>) s
         in free_loop pid block_ptr free_list_ptr s))"

text \<open>The insertion between \<open>free_list_ptr\<close> and its successor.\<close>

definition free_insert :: "addr \<Rightarrow> addr \<Rightarrow> lwmem \<Rightarrow> lwmem" where
  "free_insert block_ptr free_list_ptr s =
     (let s = free_join_next block_ptr (NEXTBLOCK s free_list_ptr) s
      in if free_list_ptr + BLOCKSIZE s free_list_ptr = block_ptr then
           (let s = set_BLOCKSIZE free_list_ptr (BLOCKSIZE s free_list_ptr + BLOCKSIZE s block_ptr) s;
                s = set_NEXTBLOCK free_list_ptr (NEXTBLOCK s block_ptr) s
            in mem_zero block_ptr sizeof_LWMEM_BLOCK s)
         else set_NEXTBLOCK free_list_ptr block_ptr s)"

definition lwmem_free :: "addr \<Rightarrow> lwmem \<Rightarrow> (mqx_code \<times> lwmem) option" where
  "lwmem_free mem_ptr s =
     (if mem_ptr = NULL then Some (MQX_INVALID_POINTER, task_set_error MQX_INVALID_POINTER s)
      else
        let block_ptr = GET_LWMEMBLOCK_PTR mem_ptr;
            pid = POOL s block_ptr
        in if VALID (POOLS s pid) \<noteq> LWMEM_POOL_VALID
           then Some (MQX_LWMEM_POOL_INVALID, task_set_error MQX_LWMEM_POOL_INVALID s)
           else if \<not> (TASK_NUMBER s block_ptr = TASK_NUMBER_FROM_TASKID (ACTIVE_TASK_ID s)
                      \<or> TASK_NUMBER s block_ptr = SYSTEM_TASK_NUMBER)
           then Some (MQX_NOT_RESOURCE_OWNER, task_set_error MQX_NOT_RESOURCE_OWNER s)
           else map_option
             (\<lambda>(free_list_ptr, insert, s).
                (MQX_OK, reset_walk_ptrs pid
                   (if insert then free_insert block_ptr free_list_ptr s else s)))
             (free_loop pid block_ptr (POOL_FREE_LIST_PTR (POOLS s pid)) s))"

section \<open>Joining two neighbours\<close>

lemma mem_zero_header:
  "MEM (mem_zero p 12 s) = (MEM s)(p := 0, p + 4 := 0, p + 8 := 0)"
proof -
  have "zero_words 3 p m = m(p := 0, p + 4 := 0, p + 8 := 0)" for p m
    by (simp add: numeral_3_eq_3 add.commute)
  then show ?thesis by (simp add: mem_zero_def)
qed

text \<open>Neighbours in memory are neighbours in the tiling.\<close>

lemma tiling_adjacent:
  assumes t: "tiling m pid p bs e" and b: "b \<in> set bs" and n: "n \<in> set bs" and bn: "b + m b = n"
  obtains as cs where "bs = as @ b # n # cs"
proof -
  obtain us vs where bs: "bs = us @ b # vs" and tv: "tiling m pid (b + m b) vs e"
    and sz: "16 \<le> unat (m b)" "unat (b + m b) = unat b + unat (m b)"
    and us: "\<And>u. u \<in> set us \<Longrightarrow> unat u + unat (m u) \<le> unat b"
    by (rule tiling_split_around [OF t b]) blast
  have "n \<notin> set us" "n \<noteq> b" using us [of n] sz bn by auto
  with n bs have "n \<in> set vs" by auto
  with tv bn obtain cs where "vs = n # cs" by (cases vs) auto
  with bs that show thesis by blast
qed

lemma tiling_merge:
  assumes t: "tiling m pid p (as @ b # n # cs) e"
    and b: "m' b = m b + m n" "m' (b + 4) = m (b + 4)"
    and fr: "\<And>c. c \<in> set as \<union> set cs \<Longrightarrow> m' c = m c \<and> m' (c + 4) = m (c + 4)"
  shows "tiling m' pid p (as @ b # cs) e" and "unat (m' b) = unat (m b) + unat (m n)"
    and "unat b + unat (m b) = unat n"
proof -
  from t have 1: "tiling m pid p as b" and 2: "b + m b = n" "aligned b" "aligned (m b)"
    "16 \<le> unat (m b)" "unat b + unat (m b) < 4294967296" "m (b + 4) = pid" "aligned (m n)"
    "16 \<le> unat (m n)" "unat n + unat (m n) < 4294967296" and 3: "tiling m pid (n + m n) cs e"
    by (auto simp: tiling_append)
  then show n: "unat b + unat (m b) = unat n" using unat_add_noof32 [of b "m b"] by simp
  then have sum: "unat (m b) + unat (m n) < 4294967296" using 2 by linarith
  then show u: "unat (m' b) = unat (m b) + unat (m n)" unfolding b by (rule unat_add_noof32)
  have "tiling m' pid p as b" "tiling m' pid (n + m n) cs e"
    using 1 3 fr tiling_frame [of as m' m pid p b] tiling_frame [of cs m' m pid "n + m n" e]
    by simp_all
  moreover have "b + m' b = n + m n" unfolding b 2(1) [symmetric] by (simp add: add.assoc)
  ultimately have "tiling m' pid p as b" "tiling m' pid (b + m' b) cs e" by simp_all
  moreover have "aligned (m' b)" unfolding b using 2 sum by (intro aligned_add)
  ultimately show "tiling m' pid p (as @ b # cs) e"
    unfolding tiling_append using 2(2,4,6,9) n u b(2) by (intro exI [of _ b]) simp
qed

section \<open>What freeing achieves\<close>

text \<open>
  \<open>s'\<close> is a state in which \<open>b\<close> has been given back: the pool is well formed, the live blocks
  are the old ones without \<open>b\<close>, their headers are untouched, and the free bytes have grown
  by the size of \<open>b\<close>.
\<close>

definition freed :: "addr \<Rightarrow> addr \<Rightarrow> lwmem \<Rightarrow> addr list \<Rightarrow> addr list \<Rightarrow> lwmem \<Rightarrow> bool" where
  "freed pid b s bs fs s' \<longleftrightarrow> (\<exists>bs' fs'. pool_wf s' pid bs' fs' \<and>
     set bs' - set fs' = set bs - set fs - {b} \<and>
     (\<forall>c \<in> set bs - set fs - {b}. MEM s' c = MEM s c \<and> MEM s' (c + 4) = MEM s (c + 4) \<and>
        MEM s' (c + 8) = MEM s (c + 8)) \<and>
     free_bytes s' fs' = free_bytes s fs + unat (MEM s b))"

lemma free_bytes_append: "free_bytes s (us @ vs) = free_bytes s us + free_bytes s vs"
  by (simp add: free_bytes_def)

lemma free_bytes_cong:
  "(\<And>f. f \<in> set fs \<Longrightarrow> MEM s' f = MEM s f) \<Longrightarrow> free_bytes s' fs = free_bytes s fs"
  unfolding free_bytes_def by (rule arg_cong [where f = sum_list]) auto

lemma free_join_next_spec:
  assumes wf: "pool_wf s pid bs (us @ vs)" and b: "b \<in> set bs" "b \<notin> set (us @ vs)"
    and ord: "\<And>u. u \<in> set us \<Longrightarrow> unat u < unat b" "\<And>v. v \<in> set vs \<Longrightarrow> unat b < unat v"
    and s1: "s1 = free_join_next b (hd (vs @ [NULL])) s"
  obtains bs1 vs1 where "POOLS s1 = POOLS s"
    "tiling (MEM s1) pid (POOL_ALLOC_START_PTR (POOLS s pid)) bs1 (POOL_ALLOC_END_PTR (POOLS s pid))"
    "fpath (MEM s1) (MEM s1 (b + 8)) vs1 NULL"
    "MEM s1 (b + 8) \<noteq> NULL \<Longrightarrow> unat b + unat (MEM s1 b) < unat (MEM s1 (b + 8))"
    "b \<in> set bs1" "set us \<union> set vs1 \<subseteq> set bs1" "set vs1 \<subseteq> set vs"
    "set bs1 - set (us @ vs1) = set bs - set (us @ vs)"
    "\<And>c. c \<in> set bs1 \<Longrightarrow> c \<noteq> b \<Longrightarrow>
       MEM s1 c = MEM s c \<and> MEM s1 (c + 4) = MEM s (c + 4) \<and> MEM s1 (c + 8) = MEM s (c + 8)"
    "free_bytes s1 vs1 + unat (MEM s1 b) = free_bytes s vs + unat (MEM s b)"
proof -
  let ?st = "POOL_ALLOC_START_PTR (POOLS s pid)" and ?en = "POOL_ALLOC_END_PTR (POOLS s pid)"
  have t: "tiling (MEM s) pid ?st bs ?en" and sub: "set (us @ vs) \<subseteq> set bs"
    and fp: "fpath (MEM s) (POOL_FREE_LIST_PTR (POOLS s pid)) (us @ vs) NULL"
    using wf by (simp_all add: pool_wf_def)
  from fp have fpv: "fpath (MEM s) (hd (vs @ [NULL])) vs NULL"
    by (auto simp: fpath_append dest: fpath_hd)
  have al: "aligned c" if "c \<in> set bs" for c using pool_wf_aligned [OF wf that] by blast
  have bsz: "unat b + unat (MEM s b) < 4294967296" "16 \<le> unat (MEM s b)"
    using pool_wf_aligned [OF wf b(1)] by auto
  then have ub: "unat (b + MEM s b) = unat b + unat (MEM s b)" by (intro unat_add_noof32)
  then have nn: "b + MEM s b \<noteq> NULL" using bsz(2) by (auto simp: unat_eq_zero)
  show thesis
  proof (cases "b + MEM s b = hd (vs @ [NULL])")
    case True
    with nn obtain n vs1 where vs: "vs = n # vs1" and n: "b + MEM s b = n" by (cases vs) auto
    have nbs: "n \<in> set bs" "n \<noteq> b" using sub vs ord(2) [of n] by auto
    obtain as cs where bs: "bs = as @ b # n # cs" by (rule tiling_adjacent [OF t b(1) nbs(1) n])
    have d: "distinct bs" by (rule tiling_distinct [OF t])
    have M: "MEM s1 = (MEM s)(b := MEM s b + MEM s n, b + 8 := MEM s (n + 8), n := 0, n + 4 := 0, n + 8 := 0)"
      using True vs al [OF b(1)] al [OF nbs(1)]
      by (simp add: s1 free_join_next_def BLOCKSIZE_def NEXTBLOCK_def Let_def mem_zero_header)
    have P: "POOLS s1 = POOLS s"
      using True by (simp add: s1 free_join_next_def BLOCKSIZE_def Let_def)
    have fr: "MEM s1 c = MEM s c \<and> MEM s1 (c + 4) = MEM s (c + 4) \<and> MEM s1 (c + 8) = MEM s (c + 8)"
      if "c \<in> set bs" "c \<noteq> b" "c \<noteq> n" for c
      using that al [OF that(1)] al [OF b(1)] al [OF nbs(1)] by (simp add: M)
    have b1: "MEM s1 b = MEM s b + MEM s n" "MEM s1 (b + 4) = MEM s (b + 4)"
      "MEM s1 (b + 8) = MEM s (n + 8)"
      using nbs(2) al [OF b(1)] al [OF nbs(1)] by (simp_all add: M)
    have frc: "MEM s1 c = MEM s c \<and> MEM s1 (c + 4) = MEM s (c + 4)" if "c \<in> set as \<union> set cs" for c
      using fr [of c] that d bs by auto
    have mg: "tiling (MEM s1) pid ?st (as @ b # cs) ?en"
      "unat (MEM s1 b) = unat (MEM s b) + unat (MEM s n)" "unat b + unat (MEM s b) = unat n"
      by (rule tiling_merge [OF t [unfolded bs] b1(1,2)], erule frc)+
    have wf': "pool_wf s pid bs (us @ n # vs1)" using wf by (simp only: vs)
    note pre = free_prefix [OF wf']
    have v1: "v \<in> set bs \<and> v \<noteq> b \<and> v \<noteq> n" if "v \<in> set vs1" for v
      using pre(4) [OF that] pre(7) that ord(2) [of v] vs by auto
    have "n \<notin> set us" "n \<notin> set vs1" using pre(3) [of n] v1 by auto
    show thesis
    proof (rule that [OF P mg(1)])
      have "fpath (MEM s1) (MEM s (n + 8)) vs1 NULL = fpath (MEM s) (MEM s (n + 8)) vs1 NULL"
        using v1 fr by (intro fpath_frame) blast
      with pre(2) show "fpath (MEM s1) (MEM s1 (b + 8)) vs1 NULL" by (simp add: b1)
      show "unat b + unat (MEM s1 b) < unat (MEM s1 (b + 8))" if "MEM s1 (b + 8) \<noteq> NULL"
        using that pre(5) mg(2,3) unfolding b1(3) by linarith
      show "set us \<union> set vs1 \<subseteq> set (as @ b # cs)"
        using v1 sub bs \<open>n \<notin> set us\<close> by auto
      show "set (as @ b # cs) - set (us @ vs1) = set bs - set (us @ vs)"
        using d bs vs b \<open>n \<notin> set us\<close> \<open>n \<notin> set vs1\<close> by auto
      have "free_bytes s1 vs1 = free_bytes s vs1" using v1 fr by (intro free_bytes_cong) blast
      then show "free_bytes s1 vs1 + unat (MEM s1 b) = free_bytes s vs + unat (MEM s b)"
        using mg(2) vs by (simp add: free_bytes_def)
      show "MEM s1 c = MEM s c \<and> MEM s1 (c + 4) = MEM s (c + 4) \<and> MEM s1 (c + 8) = MEM s (c + 8)"
        if "c \<in> set (as @ b # cs)" "c \<noteq> b" for c
        using fr [of c] that d bs by auto
    qed (use vs in auto)
  next
    case False
    then have M: "MEM s1 = (MEM s)(b + 8 := hd (vs @ [NULL]))" and P: "POOLS s1 = POOLS s"
      by (simp_all add: s1 free_join_next_def BLOCKSIZE_def)
    have fr: "MEM s1 c = MEM s c \<and> MEM s1 (c + 4) = MEM s (c + 4) \<and> (c \<noteq> b \<longrightarrow> MEM s1 (c + 8) = MEM s (c + 8))"
      if "c \<in> set bs" for c
      using al [OF that] al [OF b(1)] by (simp add: M)
    show thesis
    proof (rule that [OF P, of bs vs])
      show "tiling (MEM s1) pid ?st bs ?en"
        using t fr tiling_frame [of bs "MEM s1" "MEM s" pid ?st ?en] by blast
      have "fpath (MEM s1) (hd (vs @ [NULL])) vs NULL = fpath (MEM s) (hd (vs @ [NULL])) vs NULL"
        using sub fr b by (intro fpath_frame) auto
      with fpv show "fpath (MEM s1) (MEM s1 (b + 8)) vs NULL" by (simp add: M)
      show "unat b + unat (MEM s1 b) < unat (MEM s1 (b + 8))" if nz: "MEM s1 (b + 8) \<noteq> NULL"
      proof -
        from nz obtain n vs1 where vs: "vs = n # vs1" by (cases vs) (auto simp: M)
        then have "unat b + unat (MEM s b) \<le> unat n" "b + MEM s b \<noteq> n"
          using tiling_disjoint [OF t b(1), of n] sub ord(2) [of n] False by auto
        then have "unat b + unat (MEM s b) < unat n"
          unfolding ub [symmetric] by (metis le_neq_implies_less unsigned_word_eqI)
        then show ?thesis using vs by (simp add: M)
      qed
      show "free_bytes s1 vs + unat (MEM s1 b) = free_bytes s vs + unat (MEM s b)"
        using sub fr b free_bytes_cong [of vs s1 s] by auto
    qed (use b sub fr in auto)
  qed
qed

text \<open>The head case: \<open>b\<close> becomes the first free block.\<close>

lemma free_head_wf:
  assumes wf: "pool_wf s pid bs fs" and b: "b \<in> set bs" "b \<notin> set fs"
    and ord: "\<And>v. v \<in> set fs \<Longrightarrow> unat b < unat v"
    and s': "s' = upd_pool pid (\<lambda>P. P\<lparr>POOL_FREE_LIST_PTR := b\<rparr>) (free_join_next b (hd (fs @ [NULL])) s)"
  shows "freed pid b s bs fs s'"
proof -
  let ?s1 = "free_join_next b (hd (fs @ [NULL])) s"
  let ?st = "POOL_ALLOC_START_PTR (POOLS s pid)" and ?en = "POOL_ALLOC_END_PTR (POOLS s pid)"
  have wf0: "pool_wf s pid bs ([] @ fs)" "b \<notin> set ([] @ fs)" using wf b by simp_all
  obtain bs1 vs1 where P: "POOLS ?s1 = POOLS s" and t: "tiling (MEM ?s1) pid ?st bs1 ?en"
    and fp: "fpath (MEM ?s1) (MEM ?s1 (b + 8)) vs1 NULL"
    and gap: "MEM ?s1 (b + 8) \<noteq> NULL \<Longrightarrow> unat b + unat (MEM ?s1 b) < unat (MEM ?s1 (b + 8))"
    and b1: "b \<in> set bs1" and sub: "set [] \<union> set vs1 \<subseteq> set bs1" and vs1: "set vs1 \<subseteq> set fs"
    and live: "set bs1 - set ([] @ vs1) = set bs - set ([] @ fs)"
    and fr: "\<And>c. c \<in> set bs1 \<Longrightarrow> c \<noteq> b \<Longrightarrow> MEM ?s1 c = MEM s c \<and> MEM ?s1 (c + 4) = MEM s (c + 4) \<and>
       MEM ?s1 (c + 8) = MEM s (c + 8)"
    and sum: "free_bytes ?s1 vs1 + unat (MEM ?s1 b) = free_bytes s fs + unat (MEM s b)"
    by (rule free_join_next_spec [OF wf0(1) b(1) wf0(2) _ ord refl]) auto
  have M: "MEM s' = MEM ?s1" by (simp add: s')
  have "b \<noteq> NULL" using pool_wf_aligned [OF wf b(1)] by simp
  then have "pool_wf s' pid bs1 (b # vs1)"
    using wf t fp gap b1 sub by (simp add: pool_wf_def s' P)
  moreover have "set bs1 - set (b # vs1) = set bs - set fs - {b}" using live by auto
  moreover have "free_bytes s' (b # vs1) = free_bytes s fs + unat (MEM s b)"
    using sum by (simp add: free_bytes_def M)
  moreover have "c \<in> set bs1 \<and> c \<noteq> b" if "c \<in> set bs - set fs - {b}" for c
    using that live by auto
  ultimately show ?thesis unfolding freed_def M using fr by blast
qed

text \<open>The other case: the last free block below \<open>b\<close> is \<open>l\<close>.\<close>

lemma free_insert_wf:
  assumes wf: "pool_wf s pid bs (us @ vs)" and b: "b \<in> set bs" "b \<notin> set (us @ vs)"
    and ord: "\<And>u. u \<in> set us \<Longrightarrow> unat u < unat b" "\<And>v. v \<in> set vs \<Longrightarrow> unat b < unat v"
    and us: "us \<noteq> []" "l = last us"
  shows "freed pid b s bs (us @ vs) (free_insert b l s)"
proof -
  let ?st = "POOL_ALLOC_START_PTR (POOLS s pid)" and ?en = "POOL_ALLOC_END_PTR (POOLS s pid)"
  let ?F = "POOL_FREE_LIST_PTR (POOLS s pid)"
  define s1 where "s1 = free_join_next b (hd (vs @ [NULL])) s"
  define s' where "s' = free_insert b l s"
  have fp0: "fpath (MEM s) ?F (us @ vs) NULL" and sub0: "set (us @ vs) \<subseteq> set bs"
    and t0: "tiling (MEM s) pid ?st bs ?en"
    using wf by (simp_all add: pool_wf_def)
  then obtain y where y: "fpath (MEM s) ?F us y" "fpath (MEM s) y vs NULL" by (auto simp: fpath_append)
  obtain us0 where us0: "us = us0 @ [l]" using us by (cases us rule: rev_cases) auto
  with y have nl: "MEM s (l + 8) = hd (vs @ [NULL])" by (auto simp: fpath_append dest: fpath_hd)
  obtain bs1 vs1 where P: "POOLS s1 = POOLS s" and t: "tiling (MEM s1) pid ?st bs1 ?en"
    and fp: "fpath (MEM s1) (MEM s1 (b + 8)) vs1 NULL"
    and gap: "MEM s1 (b + 8) \<noteq> NULL \<Longrightarrow> unat b + unat (MEM s1 b) < unat (MEM s1 (b + 8))"
    and b1: "b \<in> set bs1" and sub: "set us \<union> set vs1 \<subseteq> set bs1" and vs1: "set vs1 \<subseteq> set vs"
    and live: "set bs1 - set (us @ vs1) = set bs - set (us @ vs)"
    and fr: "\<And>c. c \<in> set bs1 \<Longrightarrow> c \<noteq> b \<Longrightarrow> MEM s1 c = MEM s c \<and> MEM s1 (c + 4) = MEM s (c + 4) \<and>
       MEM s1 (c + 8) = MEM s (c + 8)"
    and sum: "free_bytes s1 vs1 + unat (MEM s1 b) = free_bytes s vs + unat (MEM s b)"
    by (rule free_join_next_spec [OF wf b ord s1_def]) auto
  have l: "l \<in> set us" "l \<in> set bs1" "l \<noteq> b" "l \<notin> set vs1" "unat l < unat b"
    using us0 sub b vs1 ord(1) [of l] ord(2) [of l] by auto
  have al: "aligned c" if "c \<in> set bs1" for c using tiling_range [OF t] that by blast
  have d1: "distinct bs1" by (rule tiling_distinct [OF t])
  have dus: "l \<notin> set us0" using fpath_sorted [OF fp0] us0 by (auto simp: sorted_wrt_append)
  have ml: "MEM s1 l = MEM s l" using fr l by blast
  have fus: "free_bytes s1 us0 = free_bytes s us0"
    using fr sub us0 b by (intro free_bytes_cong) auto
  have nb: "b \<noteq> NULL" using pool_wf_aligned [OF wf b(1)] by simp
  have fpu: "fpath (MEM s) ?F us0 l" "l \<noteq> NULL" using y(1) us0 by (auto simp: fpath_append)
  have glb: "unat l + unat (MEM s1 l) \<le> unat b" by (rule tiling_disjoint [OF t l(2) b1 l(5)])
  have ul: "unat (l + MEM s1 l) = unat l + unat (MEM s1 l)"
    using glb unat_lt32 [of b] by (intro unat_add_noof32) linarith
  have fi: "s' = (if l + MEM s1 l = b then mem_zero b 12 (wr (l + 8) (MEM s1 (b + 8))
      (wr l (MEM s1 l + MEM s1 b) s1)) else wr (l + 8) b s1)"
    using al [OF l(2)] al [OF b1] l(3)
    by (simp add: s'_def s1_def free_insert_def NEXTBLOCK_def BLOCKSIZE_def nl Let_def)
  then have P': "POOLS s' = POOLS s" by (simp add: P)
  have nmem: "c \<in> set bs1 \<and> c \<noteq> b \<and> c \<noteq> l" if "c \<in> set bs - set (us @ vs) - {b}" for c
    using that live us0 by auto
  show ?thesis
  proof (cases "l + MEM s1 l = b")
    case True
    obtain as cs where bs1: "bs1 = as @ l # b # cs" by (rule tiling_adjacent [OF t l(2) b1 True])
    have M: "MEM s' = (MEM s1)(l := MEM s1 l + MEM s1 b, l + 8 := MEM s1 (b + 8),
        b := 0, b + 4 := 0, b + 8 := 0)"
      using True by (simp add: fi mem_zero_header)
    have fr': "MEM s' c = MEM s1 c \<and> MEM s' (c + 4) = MEM s1 (c + 4) \<and> MEM s' (c + 8) = MEM s1 (c + 8)"
      if "c \<in> set bs1" "c \<noteq> b" "c \<noteq> l" for c
      using that al [OF that(1)] al [OF b1] al [OF l(2)] by (simp add: M)
    have l1: "MEM s' l = MEM s1 l + MEM s1 b" "MEM s' (l + 4) = MEM s1 (l + 4)"
      "MEM s' (l + 8) = MEM s1 (b + 8)"
      using l(3) al [OF b1] al [OF l(2)] by (simp_all add: M)
    have frc: "MEM s' c = MEM s1 c \<and> MEM s' (c + 4) = MEM s1 (c + 4)" if "c \<in> set as \<union> set cs" for c
      using fr' [of c] that d1 bs1 by auto
    have mg: "tiling (MEM s') pid ?st (as @ l # cs) ?en"
      "unat (MEM s' l) = unat (MEM s1 l) + unat (MEM s1 b)" "unat l + unat (MEM s1 l) = unat b"
      by (rule tiling_merge [OF t [unfolded bs1] l1(1,2)], erule frc)+
    have sb: "set (as @ l # cs) = set bs1 - {b}" using d1 bs1 by auto
    have v1: "c \<in> set bs1 \<and> c \<noteq> b \<and> c \<noteq> l" if "c \<in> set us0 \<union> set vs1" for c
      using that sub us0 dus l(4) b vs1 by auto
    have "fpath (MEM s') (if us = [] then MEM s1 (b + 8) else ?F) (us @ vs1) NULL"
    proof (rule fpath_relink [OF y(1)])
      have "fpath (MEM s') (MEM s1 (b + 8)) vs1 NULL = fpath (MEM s1) (MEM s1 (b + 8)) vs1 NULL"
        using v1 fr' by (intro fpath_frame) blast
      with fp show "fpath (MEM s') (MEM s1 (b + 8)) vs1 NULL" by simp
      show "unat (last us) + unat (MEM s' (last us)) < unat (MEM s1 (b + 8))"
        if "MEM s1 (b + 8) \<noteq> NULL"
        using gap [OF that] mg(2,3) us0 by simp
      show "MEM s' u = MEM s u \<and> MEM s' (u + 8) = MEM s (u + 8)" if "u \<in> set (butlast us)" for u
        using that us0 v1 [of u] fr' [of u] fr [of u] by simp
      show "MEM s' (last us + 8) = MEM s1 (b + 8)" using us0 l1 by simp
    qed
    then have wf': "pool_wf s' pid (as @ l # cs) (us @ vs1)"
      using wf mg(1) sub us b vs1 unfolding pool_wf_def P' sb by auto
    have "free_bytes s' us0 = free_bytes s1 us0" "free_bytes s' vs1 = free_bytes s1 vs1"
      using v1 fr' by (auto intro!: free_bytes_cong)
    then have "free_bytes s' (us @ vs1) = free_bytes s (us @ vs) + unat (MEM s b)"
      using sum mg(2) ml fus unfolding us0 free_bytes_append by (simp add: free_bytes_def)
    moreover have "set (as @ l # cs) - set (us @ vs1) = set bs - set (us @ vs) - {b}"
      using live unfolding sb by blast
    moreover have "MEM s' c = MEM s c \<and> MEM s' (c + 4) = MEM s (c + 4) \<and> MEM s' (c + 8) = MEM s (c + 8)"
      if "c \<in> set bs - set (us @ vs) - {b}" for c
      using nmem [OF that] fr [of c] fr' [of c] by simp
    ultimately show ?thesis unfolding freed_def s'_def [symmetric] using wf' by blast
  next
    case False
    then have M: "MEM s' = (MEM s1)(l + 8 := b)" by (simp add: fi)
    have lt: "unat l + unat (MEM s1 l) < unat b"
      using False glb unfolding ul [symmetric] by (metis le_neq_implies_less unsigned_word_eqI)
    have fr': "MEM s' c = MEM s1 c \<and> MEM s' (c + 4) = MEM s1 (c + 4) \<and> (c \<noteq> l \<longrightarrow> MEM s' (c + 8) = MEM s1 (c + 8))"
      if "c \<in> set bs1" for c
      using al [OF that] al [OF l(2)] by (simp add: M)
    have v1: "c \<in> set bs1 \<and> c \<noteq> b \<and> c \<noteq> l" if "c \<in> set us0 \<union> set vs1" for c
      using that sub us0 dus l(4) b vs1 by auto
    have "fpath (MEM s') (if us = [] then b else ?F) (us @ b # vs1) NULL"
    proof (rule fpath_relink [OF y(1)])
      have "fpath (MEM s') (MEM s1 (b + 8)) vs1 NULL = fpath (MEM s1) (MEM s1 (b + 8)) vs1 NULL"
        using v1 fr' by (intro fpath_frame) blast
      with fp gap nb fr' [OF b1] l(3) show "fpath (MEM s') b (b # vs1) NULL" by auto
      show "unat (last us) + unat (MEM s' (last us)) < unat b"
        using lt fr' [OF l(2)] us0 by simp
      show "MEM s' u = MEM s u \<and> MEM s' (u + 8) = MEM s (u + 8)" if "u \<in> set (butlast us)" for u
        using that us0 v1 [of u] fr' [of u] fr [of u] by simp
      show "MEM s' (last us + 8) = b" using us0 by (simp add: M)
    qed
    moreover have "tiling (MEM s') pid ?st bs1 ?en"
      using t fr' tiling_frame [of bs1 "MEM s'" "MEM s1" pid ?st ?en] by blast
    ultimately have wf': "pool_wf s' pid bs1 (us @ b # vs1)"
      using wf sub us b1 unfolding pool_wf_def P' by auto
    have "free_bytes s' (us @ b # vs1) = free_bytes s1 (us @ b # vs1)"
      using fr' sub b1 by (intro free_bytes_cong) auto
    then have "free_bytes s' (us @ b # vs1) = free_bytes s (us @ vs) + unat (MEM s b)"
      using sum ml fus unfolding us0 by (simp add: free_bytes_def)
    moreover have "set bs1 - set (us @ b # vs1) = set bs - set (us @ vs) - {b}"
      using live by auto
    moreover have "MEM s' c = MEM s c \<and> MEM s' (c + 4) = MEM s (c + 4) \<and> MEM s' (c + 8) = MEM s (c + 8)"
      if "c \<in> set bs - set (us @ vs) - {b}" for c
      using nmem [OF that] fr [of c] fr' [of c] by simp
    ultimately show ?thesis unfolding freed_def s'_def [symmetric] using wf' by blast
  qed
qed

section \<open>The search loop\<close>

definition free_walked :: "addr \<Rightarrow> addr \<Rightarrow> lwmem \<Rightarrow> lwmem" where
  "free_walked pid x s = upd_pool pid (\<lambda>P. P\<lparr>POOL_FREE_PTR := x\<rparr>) s"

lemma free_walked_simps [simp]:
  "MEM (free_walked pid x s) = MEM s" "pool_wf (free_walked pid x s) pid bs fs = pool_wf s pid bs fs"
  "free_walked pid x (free_walked pid y s) = free_walked pid x s"
  "free_walked pid (POOL_FREE_PTR (POOLS s pid)) s = s"
  "POOL_FREE_LIST_PTR (POOLS (free_walked pid x s) pid) = POOL_FREE_LIST_PTR (POOLS s pid)"
  by (simp_all add: free_walked_def) (simp_all add: upd_pool_def)

lemma free_loop_head:
  assumes "pool_wf s pid bs fs" "\<forall>v \<in> set fs. unat b < unat v"
  shows "free_loop pid b (POOL_FREE_LIST_PTR (POOLS s pid)) s =
    Some (hd (fs @ [NULL]), False,
      upd_pool pid (\<lambda>P. P\<lparr>POOL_FREE_LIST_PTR := b\<rparr>) (free_join_next b (hd (fs @ [NULL])) s))"
proof -
  have "POOL_FREE_LIST_PTR (POOLS s pid) = hd (fs @ [NULL])"
    using assms(1) fpath_hd [of "MEM s" _ fs NULL] by (simp add: pool_wf_def)
  then show ?thesis using assms(2)
    by (subst free_loop.simps) (cases fs; simp add: Let_def word_less_nat_alt)
qed

lemma free_loop_after:
  assumes "pool_wf s pid bs (us @ l # ws @ vs)" "\<forall>u \<in> set (us @ l # ws). unat u < unat b"
    and "\<forall>v \<in> set vs. unat b < unat v"
  shows "\<exists>x. free_loop pid b l s = Some (last (l # ws), True, free_walked pid x s)"
  using assms
proof (induction ws arbitrary: us l s)
  case Nil
  note pre = free_prefix [of s pid bs us l vs]
  have fp: "fpath (MEM s) (POOL_FREE_LIST_PTR (POOLS s pid)) (us @ l # vs) NULL"
    using Nil.prems(1) by (simp add: pool_wf_def)
  then have F: "POOL_FREE_LIST_PTR (POOLS s pid) = hd (us @ [l])" by (cases us) auto
  have F2: "MEM s (l + 8) = hd (vs @ [NULL])"
    using pre(2) Nil.prems(1) by (intro fpath_hd) simp
  have "hd (us @ [l]) \<in> set (us @ [l])" by (cases us) auto
  then have "unat (hd (us @ [l])) < unat b" "hd (us @ [l]) \<noteq> NULL"
    using Nil.prems pool_wf_aligned [OF Nil.prems(1)] by (auto simp: pool_wf_def)
  moreover have "b < hd (vs @ [NULL]) \<or> hd (vs @ [NULL]) = NULL"
    using Nil.prems(3) by (cases vs) (auto simp: word_less_nat_alt)
  ultimately show ?case using F F2
    by (subst free_loop.simps)
      (auto simp: NEXTBLOCK_def word_less_nat_alt intro: exI [of _ "POOL_FREE_PTR (POOLS s pid)"])
next
  case (Cons w ws)
  note wf = Cons.prems(1)
  have fp: "fpath (MEM s) (POOL_FREE_LIST_PTR (POOLS s pid)) (us @ l # w # ws @ vs) NULL"
    using wf by (simp add: pool_wf_def)
  then have F: "POOL_FREE_LIST_PTR (POOLS s pid) = hd (us @ [l])" "MEM s (l + 8) = w" "w \<noteq> NULL"
    by (cases us; auto simp: fpath_append)+
  have "hd (us @ [l]) \<in> set (us @ [l])" by (cases us) auto
  then have h: "unat (hd (us @ [l])) < unat b" "hd (us @ [l]) \<noteq> NULL"
    using Cons.prems pool_wf_aligned [OF wf] by (auto simp: pool_wf_def)
  have "\<exists>x. free_loop pid b w (free_walked pid w s) =
      Some (last (w # ws), True, free_walked pid x (free_walked pid w s))"
    by (rule Cons.IH [of _ "us @ [l]"]) (use Cons.prems in auto)
  moreover have "free_loop pid b l s = free_loop pid b w (free_walked pid w s)"
    using F h Cons.prems(2)
    by (subst free_loop.simps) (simp add: NEXTBLOCK_def Let_def free_walked_def word_less_nat_alt)
  ultimately show ?case by auto
qed

lemma freed_walked: "freed pid b (free_walked pid x s) bs fs s' = freed pid b s bs fs s'"
  by (simp add: freed_def free_bytes_def)

lemma freed_reset: "freed pid b s bs fs s' \<Longrightarrow> freed pid b s bs fs (reset_walk_ptrs pid s')"
  by (simp add: freed_def free_bytes_def)

text \<open>The free list splits at \<open>b\<close>.\<close>

lemma sorted_split_at:
  "sorted_wrt (\<lambda>f g. unat f + unat (m f) < unat g) fs \<Longrightarrow> (b :: addr) \<notin> set fs \<Longrightarrow>
   \<exists>us vs. fs = us @ vs \<and> (\<forall>u \<in> set us. unat u < unat b) \<and> (\<forall>v \<in> set vs. unat b < unat v)"
proof (induction fs)
  case Nil
  then show ?case by simp
next
  case (Cons f fs)
  then obtain us vs where ih: "fs = us @ vs" "\<forall>u \<in> set us. unat u < unat b"
    "\<forall>v \<in> set vs. unat b < unat v" by auto
  have "unat f \<noteq> unat b" using Cons.prems(2) by (auto simp: word_unat_eq_iff)
  then consider "unat f < unat b" | "unat b < unat f" by linarith
  then show ?case
  proof cases
    case 1
    with ih show ?thesis by (intro exI [of _ "f # us"] exI [of _ vs]) auto
  next
    case 2
    with Cons.prems(1) have "\<forall>v \<in> set (f # fs). unat b < unat v" by auto
    then show ?thesis by (intro exI [of _ "[]"] exI [of _ "f # fs"]) auto
  qed
qed

lemma lwmem_free_correct:
  assumes wf: "pool_wf s pid bs fs" and b: "b \<in> set bs" "b \<notin> set fs"
    and owner: "TASK_NUMBER s b = TASK_NUMBER_FROM_TASKID (ACTIVE_TASK_ID s) \<or>
      TASK_NUMBER s b = SYSTEM_TASK_NUMBER"
  shows "\<exists>s'. lwmem_free (b + 12) s = Some (MQX_OK, s') \<and> freed pid b s bs fs s'"
proof -
  have "sorted_wrt (\<lambda>f g. unat f + unat (MEM s f) < unat g) fs"
    using wf fpath_sorted unfolding pool_wf_def by blast
  then obtain us vs where fs: "fs = us @ vs" and us: "\<forall>u \<in> set us. unat u < unat b"
    and vs: "\<forall>v \<in> set vs. unat b < unat v" using sorted_split_at [of "MEM s" fs b] b(2) by blast
  have "aligned b" using pool_wf_aligned [OF wf b(1)] by simp
  then have p: "b + 12 \<noteq> NULL" using unat_slots(3) [of b] by (auto simp: unat_eq_zero)
  have pid: "POOL s b = pid" using pool_wf_aligned [OF wf b(1)] by (simp add: POOL_def)
  have valid: "VALID (POOLS s pid) = LWMEM_POOL_VALID" using wf by (simp add: pool_wf_def)
  have start: "lwmem_free (b + 12) s = map_option
      (\<lambda>(l, insert, s). (MQX_OK, reset_walk_ptrs pid (if insert then free_insert b l s else s)))
      (free_loop pid b (POOL_FREE_LIST_PTR (POOLS s pid)) s)"
    using p pid valid owner by (auto simp: lwmem_free_def GET_LWMEMBLOCK_PTR_def Let_def)
  show ?thesis
  proof (cases us)
    case Nil
    with vs fs free_loop_head [OF wf, of b] free_head_wf [OF wf b _ refl] freed_reset
    show ?thesis by (auto simp: start)
  next
    case (Cons l ws)
    have "pool_wf s pid bs ([] @ l # ws @ vs)" using wf fs Cons by simp
    then obtain x where x: "free_loop pid b l s = Some (last us, True, free_walked pid x s)"
      using free_loop_after [of s pid bs "[]" l ws vs b] us vs Cons by auto
    have "POOL_FREE_LIST_PTR (POOLS s pid) = l"
      using wf fs Cons by (simp add: pool_wf_def)
    moreover have "freed pid b (free_walked pid x s) bs (us @ vs)
        (free_insert b (last us) (free_walked pid x s))"
      by (rule free_insert_wf) (use wf b fs us vs Cons in auto)
    ultimately show ?thesis
      using x freed_reset freed_walked fs by (simp add: start)
  qed
qed

end
