(* ===== verification/LwMemPool.thy ===== *)
theory LwMemPool
  imports LwMemFree "HOL-Library.Multiset"
begin

text \<open>
  The rest of \<^verbatim>\<open>lwmem.c\<close>: creating pools, the entry points around the internal allocation
  functions, allocation at an address and at an alignment, the size, type, owner and
  high-water queries, and \<open>_lwmem_test\<close>. Then the contract of an allocator, as a locale that
  the pool interprets, with its consequence that nothing leaks.
\<close>

section \<open>Creating pools\<close>

abbreviation (input) sizeof_LWMEM_POOL_STRUCT :: u32 where "sizeof_LWMEM_POOL_STRUCT \<equiv> 48"

definition ALIGN_ADDR_TO_HIGHER_MEM :: "addr \<Rightarrow> addr" where
  "ALIGN_ADDR_TO_HIGHER_MEM p = (p + PSP_MEMORY_ALIGNMENT) AND PSP_MEMORY_ALIGNMENT_MASK"

definition lwmem_create_pool :: "addr \<Rightarrow> addr \<Rightarrow> u32 \<Rightarrow> lwmem \<Rightarrow> addr \<times> lwmem" where
  "lwmem_create_pool pid start sz s =
     (let end_ptr = start + sz;
          s = upd_pool pid (\<lambda>P. P\<lparr>POOL_ALLOC_END_PTR := ALIGN_ADDR_TO_LOWER_MEM end_ptr\<rparr>) s;
          block_ptr = ALIGN_ADDR_TO_HIGHER_MEM start;
          s = upd_pool pid (\<lambda>P. P\<lparr>POOL_ALLOC_START_PTR := block_ptr, HIGHWATER := block_ptr\<rparr>) s;
          s = set_BLOCKSIZE block_ptr (POOL_ALLOC_END_PTR (POOLS s pid) - block_ptr) s;
          s = set_NEXTBLOCK block_ptr NULL s;
          s = set_POOL block_ptr pid s;
          s = upd_pool pid (\<lambda>P. P\<lparr>POOL_FREE_LIST_PTR := block_ptr, POOL_ALLOC_PTR := block_ptr,
                POOL_FREE_PTR := block_ptr, POOL_TEST_PTR := block_ptr\<rparr>) s;
          s = (if NEXT (QH s) (LWMEM_POOLS s) = NULL
               then s\<lparr>QH := QUEUE_INIT (LWMEM_POOLS s) 0 (QH s)\<rparr> else s);
          s = s\<lparr>QH := QUEUE_ENQUEUE (LWMEM_POOLS s) pid (QH s)\<rparr>;
          s = upd_pool pid (\<lambda>P. P\<lparr>VALID := LWMEM_POOL_VALID\<rparr>) s
      in (pid, s))"

text \<open>The pool descriptor at the head of the region itself: \<open>_mem_zero\<close> clears its fields.\<close>

definition zero_pool :: "addr \<Rightarrow> lwmem \<Rightarrow> lwmem" where
  "zero_pool pid s =
     (let s = upd_pool pid (\<lambda>_. \<lparr>VALID = 0, POOL_ALLOC_START_PTR = 0, POOL_ALLOC_END_PTR = 0,
            POOL_FREE_LIST_PTR = 0, POOL_ALLOC_PTR = 0, POOL_FREE_PTR = 0, POOL_TEST_PTR = 0,
            POOL_TEST2_PTR = 0, POOL_DESTROY_PTR = 0, HIGHWATER = 0\<rparr>) s
      in s\<lparr>QH := (QH s)\<lparr>NEXT := (NEXT (QH s))(pid := 0), PREV := (PREV (QH s))(pid := 0)\<rparr>\<rparr>)"

definition lwmem_create_pool_mapped :: "addr \<Rightarrow> u32 \<Rightarrow> lwmem \<Rightarrow> addr \<times> lwmem" where
  "lwmem_create_pool_mapped start sz s =
     (let mem_pool_ptr = ALIGN_ADDR_TO_HIGHER_MEM start;
          s = zero_pool mem_pool_ptr s;
          start = mem_pool_ptr + sizeof_LWMEM_POOL_STRUCT;
          (_, s) = lwmem_create_pool mem_pool_ptr start (sz - sizeof_LWMEM_POOL_STRUCT) s
      in (mem_pool_ptr, s))"

text \<open>\<open>kernel_data_end\<close> is the address after the kernel data structure.\<close>

definition lwmem_init_internal :: "addr \<Rightarrow> lwmem \<Rightarrow> mqx_code \<times> lwmem" where
  "lwmem_init_internal kernel_data_end s =
     (let start = kernel_data_end;
          lwmem_pool_ptr = start;
          s = s\<lparr>KERNEL_LWMEM_POOL := lwmem_pool_ptr\<rparr>;
          start = start + sizeof_LWMEM_POOL_STRUCT;
          (_, s) = lwmem_create_pool lwmem_pool_ptr start (END_OF_KERNEL_MEMORY s - start) s
      in (MQX_OK, s))"

section \<open>The entry points\<close>

definition lwmem_alloc :: "u32 \<Rightarrow> lwmem \<Rightarrow> (addr \<times> lwmem) option" where
  "lwmem_alloc n s = lwmem_alloc_internal n (ACTIVE_TASK_ID s) (KERNEL_LWMEM_POOL s) False s"

definition lwmem_alloc_from :: "addr \<Rightarrow> u32 \<Rightarrow> lwmem \<Rightarrow> (addr \<times> lwmem) option" where
  "lwmem_alloc_from pool_id n s = lwmem_alloc_internal n (ACTIVE_TASK_ID s) pool_id False s"

definition lwmem_alloc_zero :: "u32 \<Rightarrow> lwmem \<Rightarrow> (addr \<times> lwmem) option" where
  "lwmem_alloc_zero n s = lwmem_alloc_internal n (ACTIVE_TASK_ID s) (KERNEL_LWMEM_POOL s) True s"

definition lwmem_alloc_zero_from :: "addr \<Rightarrow> u32 \<Rightarrow> lwmem \<Rightarrow> (addr \<times> lwmem) option" where
  "lwmem_alloc_zero_from pool_id n s = lwmem_alloc_internal n (ACTIVE_TASK_ID s) pool_id True s"

definition lwmem_alloc_system :: "u32 \<Rightarrow> lwmem \<Rightarrow> (addr \<times> lwmem) option" where
  "lwmem_alloc_system n s = lwmem_alloc_internal n (SYSTEM_TASK_ID s) (KERNEL_LWMEM_POOL s) False s"

definition lwmem_alloc_system_from :: "addr \<Rightarrow> u32 \<Rightarrow> lwmem \<Rightarrow> (addr \<times> lwmem) option" where
  "lwmem_alloc_system_from pool_id n s = lwmem_alloc_internal n (SYSTEM_TASK_ID s) pool_id False s"

definition lwmem_alloc_system_zero :: "u32 \<Rightarrow> lwmem \<Rightarrow> (addr \<times> lwmem) option" where
  "lwmem_alloc_system_zero n s =
     lwmem_alloc_internal n (SYSTEM_TASK_ID s) (KERNEL_LWMEM_POOL s) True s"

definition lwmem_alloc_system_zero_from :: "addr \<Rightarrow> u32 \<Rightarrow> lwmem \<Rightarrow> (addr \<times> lwmem) option" where
  "lwmem_alloc_system_zero_from pool_id n s =
     lwmem_alloc_internal n (SYSTEM_TASK_ID s) pool_id True s"

definition lwmem_get_system_pool_id :: "lwmem \<Rightarrow> addr" where
  "lwmem_get_system_pool_id s = KERNEL_LWMEM_POOL s"

definition lwmem_set_default_pool :: "addr \<Rightarrow> lwmem \<Rightarrow> addr \<times> lwmem" where
  "lwmem_set_default_pool pool_id s = (KERNEL_LWMEM_POOL s, s\<lparr>KERNEL_LWMEM_POOL := pool_id\<rparr>)"

definition lwmem_get_highwater :: "lwmem \<Rightarrow> addr" where
  "lwmem_get_highwater s = HIGHWATER (POOLS s (KERNEL_LWMEM_POOL s))"

definition lwmem_get_size :: "addr \<Rightarrow> lwmem \<Rightarrow> u32 \<times> lwmem" where
  "lwmem_get_size mem_ptr s =
     (if mem_ptr = NULL then (0, task_set_error MQX_INVALID_POINTER s)
      else let block_ptr = GET_LWMEMBLOCK_PTR mem_ptr
           in if BLOCKSIZE s block_ptr \<le> sizeof_LWMEM_BLOCK
              then (0, task_set_error MQX_INVALID_POINTER s)
              else (BLOCKSIZE s block_ptr - sizeof_LWMEM_BLOCK, s))"

definition lwmem_get_type :: "addr \<Rightarrow> lwmem \<Rightarrow> u16" where
  "lwmem_get_type mem_ptr s = MEM_TYPE s (GET_LWMEMBLOCK_PTR mem_ptr)"

definition lwmem_set_type :: "addr \<Rightarrow> u16 \<Rightarrow> lwmem \<Rightarrow> bool \<times> lwmem" where
  "lwmem_set_type mem_ptr mem_type s =
     (if mem_ptr \<noteq> NULL then (True, set_MEM_TYPE (GET_LWMEMBLOCK_PTR mem_ptr) mem_type s)
      else (False, s))"

definition lwmem_transfer :: "addr \<Rightarrow> u32 \<Rightarrow> u32 \<Rightarrow> lwmem \<Rightarrow> mqx_code \<times> lwmem" where
  "lwmem_transfer memory_ptr source_id target_id s =
     (if memory_ptr = NULL then (MQX_INVALID_POINTER, task_set_error MQX_INVALID_POINTER s)
      else let block_ptr = GET_LWMEMBLOCK_PTR memory_ptr
           in case (task_get_td source_id s, task_get_td target_id s) of
                (Some source_td, Some target_td) \<Rightarrow>
                  if TASK_NUMBER s block_ptr \<noteq> TASK_NUMBER_FROM_TASKID source_td
                  then (MQX_NOT_RESOURCE_OWNER, task_set_error MQX_NOT_RESOURCE_OWNER s)
                  else (MQX_OK, set_TASK_NUMBER block_ptr (TASK_NUMBER_FROM_TASKID target_td) s)
              | _ \<Rightarrow> (MQX_INVALID_TASK_ID, task_set_error MQX_INVALID_TASK_ID s))"

definition lwmem_transfer_internal :: "addr \<Rightarrow> u32 \<Rightarrow> lwmem \<Rightarrow> lwmem" where
  "lwmem_transfer_internal memory_ptr target_td s =
     set_TASK_NUMBER (GET_LWMEMBLOCK_PTR memory_ptr) (TASK_NUMBER_FROM_TASKID target_td) s"

definition lwmem_transfer_td_internal :: "addr \<Rightarrow> u32 \<Rightarrow> u32 \<Rightarrow> lwmem \<Rightarrow> mqx_code \<times> lwmem" where
  "lwmem_transfer_td_internal memory_ptr source_td target_td s =
     (MQX_OK, set_TASK_NUMBER (GET_LWMEMBLOCK_PTR memory_ptr) (TASK_NUMBER_FROM_TASKID target_td) s)"

section \<open>Counting and checking\<close>

partial_function (option) get_free_loop :: "addr \<Rightarrow> addr \<Rightarrow> u32 \<Rightarrow> lwmem \<Rightarrow> (u32 \<times> lwmem) option" where
  "get_free_loop pid block_ptr total_size s =
     (if block_ptr = NULL then Some (total_size, s)
      else let s = upd_pool pid (\<lambda>P. P\<lparr>POOL_ALLOC_PTR := block_ptr\<rparr>) s;
               total_size = (if block_ptr = POOL_FREE_LIST_PTR (POOLS s pid) then 0 else total_size);
               total_size = total_size + BLOCKSIZE s block_ptr
           in get_free_loop pid (NEXTBLOCK s block_ptr) total_size s)"

definition lwmem_get_free_internal :: "addr \<Rightarrow> lwmem \<Rightarrow> (u32 \<times> lwmem) option" where
  "lwmem_get_free_internal pool_id s =
     (if VALID (POOLS s pool_id) \<noteq> LWMEM_POOL_VALID
      then Some (0, task_set_error MQX_LWMEM_POOL_INVALID s)
      else get_free_loop pool_id (POOL_FREE_LIST_PTR (POOLS s pool_id)) 0 s)"

definition lwmem_get_free :: "lwmem \<Rightarrow> (u32 \<times> lwmem) option" where
  "lwmem_get_free s = lwmem_get_free_internal (KERNEL_LWMEM_POOL s) s"

definition lwmem_get_free_from :: "addr \<Rightarrow> lwmem \<Rightarrow> (u32 \<times> lwmem) option" where
  "lwmem_get_free_from pool_id s = lwmem_get_free_internal pool_id s"

text \<open>The two walks of \<open>_lwmem_test\<close> over one pool: \<open>Inl\<close> is the block in error.\<close>

partial_function (option) test_pool_loop :: "addr \<Rightarrow> addr \<Rightarrow> lwmem \<Rightarrow> ((addr + unit) \<times> lwmem) option" where
  "test_pool_loop pid block_ptr s =
     (if block_ptr < POOL_ALLOC_END_PTR (POOLS s pid) then
        (let s = upd_pool pid (\<lambda>P. P\<lparr>POOL_TEST2_PTR := block_ptr\<rparr>) s
         in if POOL s block_ptr \<noteq> pid then Some (Inl block_ptr, s)
            else test_pool_loop pid (block_ptr + BLOCKSIZE s block_ptr) s)
      else Some (Inr (), s))"

partial_function (option) test_free_loop :: "addr \<Rightarrow> addr \<Rightarrow> lwmem \<Rightarrow> ((addr + unit) \<times> lwmem) option" where
  "test_free_loop pid block_ptr s =
     (if block_ptr = NULL then Some (Inr (), s)
      else
        (let s = upd_pool pid (\<lambda>P. P\<lparr>POOL_TEST_PTR := block_ptr\<rparr>) s
         in if block_ptr < POOL_ALLOC_START_PTR (POOLS s pid)
               \<or> block_ptr > POOL_ALLOC_END_PTR (POOLS s pid) \<or> POOL s block_ptr \<noteq> pid
               \<or> (NEXTBLOCK s block_ptr \<noteq> NULL
                  \<and> NEXTBLOCK s block_ptr \<le> block_ptr + BLOCKSIZE s block_ptr)
            then Some (Inl block_ptr, s)
            else test_free_loop pid (NEXTBLOCK s block_ptr) s))"

text \<open>
  The result carries the two out parameters, \<open>*pool_error_ptr\<close> and \<open>*block_error_ptr\<close>; \<open>pe\<close>
  and \<open>be\<close> are their values before the call.
\<close>

fun test_pools_loop ::
  "nat \<Rightarrow> addr \<Rightarrow> lwmem \<Rightarrow> (mqx_code \<times> addr \<times> addr \<times> lwmem) option" where
  "test_pools_loop 0 mem_pool_ptr s = Some (MQX_OK, NULL, NULL, s)"
| "test_pools_loop (Suc i) mem_pool_ptr s =
     (if VALID (POOLS s mem_pool_ptr) \<noteq> LWMEM_POOL_VALID
      then Some (MQX_LWMEM_POOL_INVALID, mem_pool_ptr, NULL, s)
      else case test_pool_loop mem_pool_ptr (POOL_ALLOC_START_PTR (POOLS s mem_pool_ptr)) s of
        None \<Rightarrow> None
      | Some (Inl block_ptr, s) \<Rightarrow> Some (MQX_CORRUPT_STORAGE_POOL, mem_pool_ptr, block_ptr, s)
      | Some (Inr _, s) \<Rightarrow>
          (case test_free_loop mem_pool_ptr (POOL_FREE_LIST_PTR (POOLS s mem_pool_ptr)) s of
             None \<Rightarrow> None
           | Some (Inl block_ptr, s) \<Rightarrow>
               Some (MQX_CORRUPT_STORAGE_POOL_FREE_LIST, mem_pool_ptr, block_ptr, s)
           | Some (Inr _, s) \<Rightarrow> test_pools_loop i (NEXT (QH s) mem_pool_ptr) s))"

definition lwmem_test :: "addr \<Rightarrow> addr \<Rightarrow> lwmem \<Rightarrow> (mqx_code \<times> addr \<times> addr \<times> lwmem) option" where
  "lwmem_test pe be s =
     (if NEXT (QH s) (LWMEM_POOLS s) = NULL then Some (MQX_OK, pe, be, s)
      else case queue_test (LWMEM_POOLS s) (QH s) of
        Inl e \<Rightarrow> Some (MQX_CORRUPT_QUEUE, e, be, s)
      | Inr _ \<Rightarrow> test_pools_loop (unat (SIZE (QH s) (LWMEM_POOLS s))) (NEXT (QH s) (LWMEM_POOLS s)) s)"

text \<open>
  \<open>_lwmem_get_next_block_internal\<close>: the next live block of a task, pool after pool. The
  free pointer runs along with the block pointer to skip the blocks that are free.
\<close>

partial_function (option) skip_free :: "addr \<Rightarrow> addr \<Rightarrow> lwmem \<Rightarrow> addr option" where
  "skip_free block_ptr free_ptr s =
     (if free_ptr \<noteq> NULL \<and> free_ptr < block_ptr then skip_free block_ptr (NEXTBLOCK s free_ptr) s
      else Some free_ptr)"

partial_function (option) next_block_loop ::
  "u32 \<Rightarrow> addr \<Rightarrow> addr \<Rightarrow> addr \<Rightarrow> lwmem \<Rightarrow> addr option option" where
  "next_block_loop td_ptr pid block_ptr free_ptr s =
     (if block_ptr < POOL_ALLOC_END_PTR (POOLS s pid) then
        (if TASK_NUMBER s block_ptr = TASK_NUMBER_FROM_TASKID td_ptr then
           Option.bind (skip_free block_ptr free_ptr s)
             (\<lambda>free_ptr. if free_ptr \<noteq> block_ptr then Some (Some (block_ptr + sizeof_LWMEM_BLOCK))
                else next_block_loop td_ptr pid (block_ptr + BLOCKSIZE s block_ptr) free_ptr s)
         else next_block_loop td_ptr pid (block_ptr + BLOCKSIZE s block_ptr) free_ptr s)
      else Some None)"

partial_function (option) next_block_pools ::
  "u32 \<Rightarrow> addr \<Rightarrow> addr \<Rightarrow> lwmem \<Rightarrow> addr option" where
  "next_block_pools td_ptr pid block_ptr s =
     Option.bind (next_block_loop td_ptr pid block_ptr (POOL_FREE_LIST_PTR (POOLS s pid)) s)
       (\<lambda>r. case r of
          Some p \<Rightarrow> Some p
        | None \<Rightarrow>
            (let pid = NEXT (QH s) pid; block_ptr = POOL_ALLOC_START_PTR (POOLS s pid)
             in if pid \<noteq> LWMEM_POOLS s then next_block_pools td_ptr pid block_ptr s else Some NULL))"

definition lwmem_get_next_block_internal :: "u32 \<Rightarrow> addr \<Rightarrow> lwmem \<Rightarrow> addr option" where
  "lwmem_get_next_block_internal td_ptr in_block_ptr s =
     (if in_block_ptr = NULL then
        (let pid = NEXT (QH s) (LWMEM_POOLS s)
         in next_block_pools td_ptr pid (POOL_ALLOC_START_PTR (POOLS s pid)) s)
      else
        (let block_ptr = GET_LWMEMBLOCK_PTR in_block_ptr
         in next_block_pools td_ptr (POOL s block_ptr) (block_ptr + BLOCKSIZE s block_ptr) s))"

section \<open>Allocation at an address, and at an alignment\<close>

definition alloc_at_take ::
  "u32 \<Rightarrow> addr \<Rightarrow> u32 \<Rightarrow> addr \<Rightarrow> bool \<Rightarrow> addr \<Rightarrow> lwmem \<Rightarrow> addr \<times> lwmem" where
  "alloc_at_take requested_size requested_addr td_ptr pid zero block_ptr s =
     (let block_size = BLOCKSIZE s block_ptr;
          requested_block_ptr = requested_addr - sizeof_LWMEM_BLOCK;
          free_block_size = requested_block_ptr - block_ptr;
          next_block_size = block_size - requested_size - free_block_size;
          s = set_BLOCKSIZE block_ptr free_block_size s;
          (requested_size, next_block_ptr, s) =
            (if next_block_size \<ge> LWMEM_MIN_MEMORY_STORAGE_SIZE then
               (let next_block_ptr = requested_block_ptr + requested_size;
                    s = set_BLOCKSIZE next_block_ptr next_block_size s;
                    s = set_POOL next_block_ptr pid s;
                    s = set_NEXTBLOCK next_block_ptr (NEXTBLOCK s block_ptr) s;
                    s = set_NEXTBLOCK block_ptr next_block_ptr s
                in (requested_size, next_block_ptr, s))
             else (requested_size + next_block_size, NEXTBLOCK s block_ptr, s));
          s = set_BLOCKSIZE requested_block_ptr requested_size s;
          s = set_NEXTBLOCK requested_block_ptr next_block_ptr s;
          s = reset_walk_ptrs pid s;
          s = mark_used pid td_ptr requested_block_ptr s;
          s = raise_highwater pid block_ptr s;
          s = (if zero then mem_zero requested_addr (requested_size - sizeof_LWMEM_BLOCK) s else s)
      in (requested_addr, s))"

partial_function (option) alloc_at_loop ::
  "u32 \<Rightarrow> addr \<Rightarrow> u32 \<Rightarrow> addr \<Rightarrow> bool \<Rightarrow> addr \<Rightarrow> lwmem \<Rightarrow> (addr \<times> lwmem) option" where
  "alloc_at_loop requested_size requested_addr td_ptr pid zero block_ptr s =
     (if block_ptr = NULL then Some (NULL, task_set_error MQX_OUT_OF_MEMORY s)
      else
        let s = upd_pool pid (\<lambda>P. P\<lparr>POOL_ALLOC_PTR := block_ptr\<rparr>) s
        in if block_ptr + LWMEM_MIN_MEMORY_STORAGE_SIZE \<le> requested_addr - sizeof_LWMEM_BLOCK
              \<and> block_ptr + BLOCKSIZE s block_ptr \<ge> requested_addr - sizeof_LWMEM_BLOCK + requested_size
           then Some (alloc_at_take requested_size requested_addr td_ptr pid zero block_ptr s)
           else alloc_at_loop requested_size requested_addr td_ptr pid zero (NEXTBLOCK s block_ptr) s)"

definition lwmem_alloc_at_internal ::
  "u32 \<Rightarrow> addr \<Rightarrow> u32 \<Rightarrow> addr \<Rightarrow> bool \<Rightarrow> lwmem \<Rightarrow> (addr \<times> lwmem) option" where
  "lwmem_alloc_at_internal requested_size requested_addr td_ptr pool_id zero s =
     (if VALID (POOLS s pool_id) \<noteq> LWMEM_POOL_VALID
      then Some (NULL, task_set_error MQX_LWMEM_POOL_INVALID s)
      else alloc_at_loop (adjust_size requested_size) requested_addr td_ptr pool_id zero
             (POOL_FREE_LIST_PTR (POOLS s pool_id)) s)"

definition lwmem_alloc_at :: "u32 \<Rightarrow> addr \<Rightarrow> lwmem \<Rightarrow> (addr \<times> lwmem) option" where
  "lwmem_alloc_at requested_size requested_addr s =
     lwmem_alloc_at_internal requested_size requested_addr (ACTIVE_TASK_ID s) (KERNEL_LWMEM_POOL s) False s"

text \<open>The distance from a free block to the aligned block that is carved out of it.\<close>

definition align_shift :: "u32 \<Rightarrow> addr \<Rightarrow> u32" where
  "align_shift req_align block_ptr =
     (let shift = ((block_ptr + sizeof_LWMEM_BLOCK + req_align) AND NOT (req_align - 1))
                  - (block_ptr + sizeof_LWMEM_BLOCK)
      in if shift < 2 * LWMEM_MIN_MEMORY_STORAGE_SIZE
         then ((block_ptr + sizeof_LWMEM_BLOCK + 3 * LWMEM_MIN_MEMORY_STORAGE_SIZE + req_align)
               AND NOT (req_align - 1)) - (block_ptr + sizeof_LWMEM_BLOCK)
         else shift)"

definition alloc_align_take ::
  "u32 \<Rightarrow> u32 \<Rightarrow> u32 \<Rightarrow> addr \<Rightarrow> bool \<Rightarrow> addr \<Rightarrow> lwmem \<Rightarrow> addr \<times> lwmem" where
  "alloc_align_take requested_size shift td_ptr pid zero block_ptr s =
     (let block_size = BLOCKSIZE s block_ptr;
          prev_block_ptr = block_ptr;
          block_ptr = block_ptr + shift;
          s = set_BLOCKSIZE prev_block_ptr shift s;
          s = set_NEXTBLOCK block_ptr (NEXTBLOCK s prev_block_ptr) s;
          next_block_size = block_size - requested_size - shift;
          (requested_size, next_block_ptr, s) =
            (if next_block_size \<ge> LWMEM_MIN_MEMORY_STORAGE_SIZE then
               (let next_block_ptr = block_ptr + requested_size;
                    s = set_BLOCKSIZE next_block_ptr next_block_size s;
                    s = set_POOL next_block_ptr pid s;
                    s = set_NEXTBLOCK next_block_ptr (NEXTBLOCK s block_ptr) s;
                    s = set_NEXTBLOCK block_ptr next_block_ptr s;
                    s = set_BLOCKSIZE block_ptr requested_size s
                in (requested_size, next_block_ptr, s))
             else (block_size, NEXTBLOCK s block_ptr, s));
          s = (if block_ptr = POOL_FREE_LIST_PTR (POOLS s pid)
               then upd_pool pid (\<lambda>P. P\<lparr>POOL_FREE_LIST_PTR := next_block_ptr\<rparr>) s
               else set_NEXTBLOCK prev_block_ptr next_block_ptr s);
          s = reset_walk_ptrs pid s;
          s = mark_used pid td_ptr block_ptr s;
          s = raise_highwater pid block_ptr s;
          s = (if zero then mem_zero (block_ptr + sizeof_LWMEM_BLOCK)
                              (requested_size - sizeof_LWMEM_BLOCK) s else s)
      in (block_ptr + sizeof_LWMEM_BLOCK, s))"

partial_function (option) alloc_align_loop ::
  "u32 \<Rightarrow> u32 \<Rightarrow> u32 \<Rightarrow> addr \<Rightarrow> bool \<Rightarrow> addr \<Rightarrow> lwmem \<Rightarrow> (addr \<times> lwmem) option" where
  "alloc_align_loop requested_size req_align td_ptr pid zero block_ptr s =
     (if block_ptr = NULL then Some (NULL, task_set_error MQX_OUT_OF_MEMORY s)
      else
        let s = upd_pool pid (\<lambda>P. P\<lparr>POOL_ALLOC_PTR := block_ptr\<rparr>) s;
            shift = align_shift req_align block_ptr
        in if BLOCKSIZE s block_ptr \<ge> requested_size + shift
           then Some (alloc_align_take requested_size shift td_ptr pid zero block_ptr s)
           else alloc_align_loop requested_size req_align td_ptr pid zero (NEXTBLOCK s block_ptr) s)"

definition lwmem_alloc_align_internal ::
  "u32 \<Rightarrow> u32 \<Rightarrow> u32 \<Rightarrow> addr \<Rightarrow> bool \<Rightarrow> lwmem \<Rightarrow> (addr \<times> lwmem) option" where
  "lwmem_alloc_align_internal requested_size req_align td_ptr pool_id zero s =
     (if VALID (POOLS s pool_id) \<noteq> LWMEM_POOL_VALID
      then Some (NULL, task_set_error MQX_LWMEM_POOL_INVALID s)
      else alloc_align_loop (adjust_size requested_size) req_align td_ptr pool_id zero
             (POOL_FREE_LIST_PTR (POOLS s pool_id)) s)"

definition lwmem_alloc_align :: "u32 \<Rightarrow> u32 \<Rightarrow> lwmem \<Rightarrow> (addr \<times> lwmem) option" where
  "lwmem_alloc_align n a s =
     lwmem_alloc_align_internal n a (ACTIVE_TASK_ID s) (KERNEL_LWMEM_POOL s) False s"

definition lwmem_alloc_align_from :: "addr \<Rightarrow> u32 \<Rightarrow> u32 \<Rightarrow> lwmem \<Rightarrow> (addr \<times> lwmem) option" where
  "lwmem_alloc_align_from pool_id n a s =
     lwmem_alloc_align_internal n a (ACTIVE_TASK_ID s) pool_id False s"

definition lwmem_alloc_system_align :: "u32 \<Rightarrow> u32 \<Rightarrow> lwmem \<Rightarrow> (addr \<times> lwmem) option" where
  "lwmem_alloc_system_align n a s =
     lwmem_alloc_align_internal n a (SYSTEM_TASK_ID s) (KERNEL_LWMEM_POOL s) False s"

definition lwmem_alloc_system_align_from :: "addr \<Rightarrow> u32 \<Rightarrow> u32 \<Rightarrow> lwmem \<Rightarrow> (addr \<times> lwmem) option" where
  "lwmem_alloc_system_align_from pool_id n a s =
     lwmem_alloc_align_internal n a (SYSTEM_TASK_ID s) pool_id False s"

section \<open>Reading the pool off memory\<close>

text \<open>
  The blocks and the free list of a pool as functions of the state. The fuel is the number
  of minimal blocks that fit into the pool, and the number of blocks.
\<close>

fun blocks_from :: "(addr \<Rightarrow> u32) \<Rightarrow> nat \<Rightarrow> addr \<Rightarrow> addr \<Rightarrow> addr list" where
  "blocks_from m 0 p e = []"
| "blocks_from m (Suc n) p e = (if p = e then [] else p # blocks_from m n (p + m p) e)"

fun frees_from :: "(addr \<Rightarrow> u32) \<Rightarrow> nat \<Rightarrow> addr \<Rightarrow> addr list" where
  "frees_from m 0 p = []"
| "frees_from m (Suc n) p = (if p = NULL then [] else p # frees_from m n (m (p + 8)))"

definition block_list :: "addr \<Rightarrow> lwmem \<Rightarrow> addr list" where
  "block_list pid s = blocks_from (MEM s)
     ((unat (POOL_ALLOC_END_PTR (POOLS s pid)) - unat (POOL_ALLOC_START_PTR (POOLS s pid))) div 16)
     (POOL_ALLOC_START_PTR (POOLS s pid)) (POOL_ALLOC_END_PTR (POOLS s pid))"

definition free_list :: "addr \<Rightarrow> lwmem \<Rightarrow> addr list" where
  "free_list pid s = frees_from (MEM s) (length (block_list pid s)) (POOL_FREE_LIST_PTR (POOLS s pid))"

definition pool_ok :: "addr \<Rightarrow> lwmem \<Rightarrow> bool" where
  "pool_ok pid s \<longleftrightarrow> pool_wf s pid (block_list pid s) (free_list pid s)"

lemma blocks_from_eq:
  "tiling m pid p bs e \<Longrightarrow> (unat e - unat p) div 16 \<le> n \<Longrightarrow> blocks_from m n p e = bs"
proof (induction bs arbitrary: p n)
  case Nil
  then show ?case by (cases n) auto
next
  case (Cons b bs)
  then have u: "unat (p + m p) = unat p + unat (m p)" "16 \<le> unat (m p)" and b: "b = p"
    and t: "tiling m pid (p + m p) bs e" by (auto intro: unat_add_noof32)
  have "unat (p + m p) \<le> unat e" using tiling_range [OF t] by simp
  then have lt: "(unat e - unat (p + m p)) div 16 < (unat e - unat p) div 16"
    and "p \<noteq> e" using u by auto
  then obtain k where "n = Suc k" using Cons.prems(2) by (cases n) auto
  with lt Cons.prems(2) Cons.IH [OF t, of k] b \<open>p \<noteq> e\<close> show ?case by simp
qed

lemma frees_from_eq: "fpath m p fs NULL \<Longrightarrow> length fs \<le> n \<Longrightarrow> frees_from m n p = fs"
proof (induction fs arbitrary: p n)
  case Nil
  then show ?case by (cases n) auto
next
  case (Cons f fs)
  then obtain k where "n = Suc k" by (cases n) auto
  with Cons show ?case by simp
qed

lemma pool_wf_lists:
  assumes "pool_wf s pid bs fs"
  shows "block_list pid s = bs" "free_list pid s = fs" "pool_ok pid s" "distinct fs" "distinct bs"
proof -
  let ?st = "POOL_ALLOC_START_PTR (POOLS s pid)" and ?en = "POOL_ALLOC_END_PTR (POOLS s pid)"
  have t: "tiling (MEM s) pid ?st bs ?en" and fp: "fpath (MEM s) (POOL_FREE_LIST_PTR (POOLS s pid)) fs NULL"
    and sub: "set fs \<subseteq> set bs" using assms by (simp_all add: pool_wf_def)
  show 1: "block_list pid s = bs" unfolding block_list_def by (rule blocks_from_eq [OF t]) simp
  show "distinct bs" by (rule tiling_distinct [OF t])
  have "sorted_wrt (\<lambda>f g. f \<noteq> g) fs"
    using fpath_sorted [OF fp] by (rule sorted_wrt_mono_rel [rotated]) auto
  then show d: "distinct fs" by (induction fs) auto
  have "length fs \<le> length bs"
    using card_mono [OF finite_set sub] distinct_card [OF d] card_length [of bs] by simp
  then show 2: "free_list pid s = fs" unfolding free_list_def 1 by (rule frees_from_eq [OF fp])
  show "pool_ok pid s" using assms by (simp add: pool_ok_def 1 2)
qed

section \<open>The contract of an allocator\<close>

text \<open>
  What the users of the memory manager rely on. \<open>live\<close> is the set of pointers handed out,
  \<open>avail\<close> the number of free bytes, \<open>extent\<close> the bytes that a live pointer holds, \<open>mine\<close> whether
  the caller may give it back.
\<close>

locale allocator =
  fixes ok :: "'s \<Rightarrow> bool"
    and live :: "'s \<Rightarrow> 'p set"
    and avail :: "'s \<Rightarrow> nat"
    and extent :: "'s \<Rightarrow> 'p \<Rightarrow> nat"
    and mine :: "'s \<Rightarrow> 'p \<Rightarrow> bool"
    and null :: 'p
    and fits :: "'r \<Rightarrow> bool"
    and alloc :: "'r \<Rightarrow> 's \<Rightarrow> ('p \<times> 's) option"
    and release :: "'p \<Rightarrow> 's \<Rightarrow> (mqx_code \<times> 's) option"
  assumes alloc_law: "ok s \<Longrightarrow> fits r \<Longrightarrow> \<exists>p s'. alloc r s = Some (p, s') \<and> ok s' \<and>
      (if p = null then live s' = live s \<and> avail s' = avail s
       else p \<notin> live s \<and> live s' = insert p (live s) \<and> avail s' + extent s' p = avail s \<and> mine s' p) \<and>
      (\<forall>q \<in> live s. extent s' q = extent s q \<and> mine s' q = mine s q)"
    and release_law: "ok s \<Longrightarrow> p \<in> live s \<Longrightarrow> mine s p \<Longrightarrow> \<exists>s'. release p s = Some (MQX_OK, s') \<and>
      ok s' \<and> live s' = live s - {p} \<and> avail s' = avail s + extent s p \<and>
      (\<forall>q \<in> live s - {p}. extent s' q = extent s q \<and> mine s' q = mine s q)"
begin

primrec release_all :: "'p list \<Rightarrow> 's \<Rightarrow> 's option" where
  "release_all [] s = Some s"
| "release_all (p # ps) s =
     (case release p s of Some (MQX_OK, s') \<Rightarrow> release_all ps s' | _ \<Rightarrow> None)"

text \<open>The pointers that a sequence of requests obtains, the failing ones left out.\<close>

primrec alloc_all :: "'r list \<Rightarrow> 's \<Rightarrow> ('p list \<times> 's) option" where
  "alloc_all [] s = Some ([], s)"
| "alloc_all (r # rs) s =
     (case alloc r s of None \<Rightarrow> None
      | Some (p, s') \<Rightarrow>
          (case alloc_all rs s' of None \<Rightarrow> None
           | Some (ps, s'') \<Rightarrow> Some (if p = null then ps else p # ps, s'')))"

lemma alloc_all_law:
  "ok s \<Longrightarrow> \<forall>r \<in> set rs. fits r \<Longrightarrow> \<exists>ps s'. alloc_all rs s = Some (ps, s') \<and> ok s' \<and> distinct ps \<and>
     set ps \<inter> live s = {} \<and> live s' = live s \<union> set ps \<and>
     avail s' + sum_list (map (extent s') ps) = avail s \<and> (\<forall>p \<in> set ps. mine s' p) \<and>
     (\<forall>q \<in> live s. extent s' q = extent s q \<and> mine s' q = mine s q)"
proof (induction rs arbitrary: s)
  case Nil
  then show ?case by simp
next
  case (Cons r rs)
  obtain p s1 where a: "alloc r s = Some (p, s1)" "ok s1"
    and p: "if p = null then live s1 = live s \<and> avail s1 = avail s
       else p \<notin> live s \<and> live s1 = insert p (live s) \<and> avail s1 + extent s1 p = avail s \<and> mine s1 p"
    and q: "\<forall>q \<in> live s. extent s1 q = extent s q \<and> mine s1 q = mine s q"
    using alloc_law [of s r] Cons.prems by auto
  obtain ps s2 where b: "alloc_all rs s1 = Some (ps, s2)" "ok s2" "distinct ps"
    "set ps \<inter> live s1 = {}" "live s2 = live s1 \<union> set ps"
    "avail s2 + sum_list (map (extent s2) ps) = avail s1" "\<forall>p \<in> set ps. mine s2 p"
    "\<forall>q \<in> live s1. extent s2 q = extent s1 q \<and> mine s2 q = mine s1 q"
    using Cons.IH [of s1] a(2) Cons.prems(2) by auto
  show ?case using a b p q by (cases "p = null") auto
qed

lemma release_all_law:
  "ok s \<Longrightarrow> distinct ps \<Longrightarrow> set ps \<subseteq> live s \<Longrightarrow> \<forall>p \<in> set ps. mine s p \<Longrightarrow>
   \<exists>s'. release_all ps s = Some s' \<and> ok s' \<and> live s' = live s - set ps \<and>
     avail s' = avail s + sum_list (map (extent s) ps)"
proof (induction ps arbitrary: s)
  case Nil
  then show ?case by simp
next
  case (Cons p ps)
  obtain s1 where r: "release p s = Some (MQX_OK, s1)" "ok s1" "live s1 = live s - {p}"
    "avail s1 = avail s + extent s p" "\<forall>q \<in> live s - {p}. extent s1 q = extent s q \<and> mine s1 q = mine s q"
    using release_law [of s p] Cons.prems by auto
  have ps: "q \<in> live s - {p}" if "q \<in> set ps" for q using that Cons.prems by auto
  obtain s2 where "release_all ps s1 = Some s2" "ok s2" "live s2 = live s1 - set ps"
    "avail s2 = avail s1 + sum_list (map (extent s1) ps)"
    using Cons.IH [of s1] Cons.prems ps r by auto
  moreover have "map (extent s1) ps = map (extent s) ps" using ps r(5) by auto
  ultimately show ?case using r by auto
qed

text \<open>Nothing leaks: whatever was obtained can be given back, in any order, and then the
  free bytes and the live pointers are those of the start.\<close>

lemma no_leak:
  assumes "ok s" "\<forall>r \<in> set rs. fits r" "alloc_all rs s = Some (ps, s')" "mset qs = mset ps"
  shows "\<exists>s''. release_all qs s' = Some s'' \<and> ok s'' \<and> live s'' = live s \<and> avail s'' = avail s"
proof -
  from alloc_all_law [OF assms(1,2)] assms(3)
  have a: "ok s'" "distinct ps" "set ps \<inter> live s = {}" "live s' = live s \<union> set ps"
    "avail s' + sum_list (map (extent s') ps) = avail s" "\<forall>p \<in> set ps. mine s' p" by auto
  have q: "set qs = set ps" "distinct qs"
    using assms(4) a(2) mset_eq_setD mset_eq_imp_distinct_iff by blast+
  have "sum_list (map (extent s') qs) = sum_list (map (extent s') ps)"
    using assms(4) by (metis mset_map sum_mset_sum_list)
  then show ?thesis using release_all_law [of s' qs] a q by auto
qed

end

text \<open>The pool \<open>pid\<close> is an allocator for the active task.\<close>

definition pool_live :: "addr \<Rightarrow> lwmem \<Rightarrow> addr set" where
  "pool_live pid s = (\<lambda>b. b + 12) ` (set (block_list pid s) - set (free_list pid s))"

definition pool_avail :: "addr \<Rightarrow> lwmem \<Rightarrow> nat" where
  "pool_avail pid s = free_bytes s (free_list pid s)"

definition pool_extent :: "lwmem \<Rightarrow> addr \<Rightarrow> nat" where
  "pool_extent s p = unat (BLOCKSIZE s (GET_LWMEMBLOCK_PTR p))"

definition pool_mine :: "lwmem \<Rightarrow> addr \<Rightarrow> bool" where
  "pool_mine s p \<longleftrightarrow> TASK_NUMBER s (GET_LWMEMBLOCK_PTR p) = TASK_NUMBER_FROM_TASKID (ACTIVE_TASK_ID s)"

lemma ACTIVE_simps [simp]:
  "ACTIVE_TASK_ID (upd_pool pid f s) = ACTIVE_TASK_ID s"
  "ACTIVE_TASK_ID (wr a v s) = ACTIVE_TASK_ID s"
  "ACTIVE_TASK_ID (mem_zero p n s) = ACTIVE_TASK_ID s"
  "ACTIVE_TASK_ID (reset_walk_ptrs pid s) = ACTIVE_TASK_ID s"
  "ACTIVE_TASK_ID (raise_highwater pid p s) = ACTIVE_TASK_ID s"
  "ACTIVE_TASK_ID (mark_used pid td p s) = ACTIVE_TASK_ID s"
  "ACTIVE_TASK_ID (task_set_error c s) = ACTIVE_TASK_ID s"
  "ACTIVE_TASK_ID (free_join_next b n s) = ACTIVE_TASK_ID s"
  by (simp_all add: upd_pool_def wr_def mem_zero_def reset_walk_ptrs_def raise_highwater_def
      mark_used_def set_TASK_NUMBER_def set_MEM_TYPE_def task_set_error_def free_join_next_def Let_def)

lemma ACTIVE_alloc_take: "ACTIVE_TASK_ID (snd (alloc_take r td pid z b p s)) = ACTIVE_TASK_ID s"
  by (simp add: alloc_take_def Let_def)

lemma ACTIVE_alloc_loop:
  assumes "alloc_loop r td pid z b p s = Some y"
  shows "ACTIVE_TASK_ID (snd y) = ACTIVE_TASK_ID s"
proof (rule alloc_loop.raw_induct [OF _ assms], goal_cases)
  case (1 f r td pid z b p s y)
  note ih = 1(1)
  show ?case using 1(2)
    by (auto simp: Let_def ACTIVE_alloc_take split: if_splits dest!: ih)
qed

lemma ACTIVE_free_loop:
  assumes "free_loop pid b l s = Some y"
  shows "ACTIVE_TASK_ID (snd (snd y)) = ACTIVE_TASK_ID s"
proof (rule free_loop.raw_induct [OF _ assms], goal_cases)
  case (1 f pid b l s y)
  note ih = 1(1)
  show ?case using 1(2) by (auto simp: Let_def split: if_splits dest!: ih)
qed

lemma ACTIVE_alloc:
  "lwmem_alloc_internal r td pid z s = Some (p, s') \<Longrightarrow> ACTIVE_TASK_ID s' = ACTIVE_TASK_ID s"
  by (auto simp: lwmem_alloc_internal_def split: if_splits dest: ACTIVE_alloc_loop)

lemma ACTIVE_free: "lwmem_free p s = Some (c, s') \<Longrightarrow> ACTIVE_TASK_ID s' = ACTIVE_TASK_ID s"
  by (auto simp: lwmem_free_def free_insert_def Let_def split: if_splits dest!: ACTIVE_free_loop)

text \<open>In terms of block lists.\<close>

lemma pool_live_wf: "pool_wf s pid bs fs \<Longrightarrow> pool_live pid s = (\<lambda>b. b + 12) ` (set bs - set fs)"
  by (simp add: pool_live_def pool_wf_lists)

lemma pool_avail_wf: "pool_wf s pid bs fs \<Longrightarrow> pool_avail pid s = free_bytes s fs"
  by (simp add: pool_avail_def pool_wf_lists)

lemma pool_extent_block [simp]: "pool_extent s (b + 12) = unat (MEM s b)"
  by (simp add: pool_extent_def BLOCKSIZE_def GET_LWMEMBLOCK_PTR_def)

lemma pool_mine_block:
  "pool_mine s (b + 12) \<longleftrightarrow> TASK_NUMBER s b = TASK_NUMBER_FROM_TASKID (ACTIVE_TASK_ID s)"
  by (simp add: pool_mine_def GET_LWMEMBLOCK_PTR_def)

lemma pool_alloc_law:
  assumes "pool_ok pid s" "unat r + 27 < 4294967296"
  shows "\<exists>p s'. lwmem_alloc_from pid r s = Some (p, s') \<and> pool_ok pid s' \<and>
      (if p = NULL then pool_live pid s' = pool_live pid s \<and> pool_avail pid s' = pool_avail pid s
       else p \<notin> pool_live pid s \<and> pool_live pid s' = insert p (pool_live pid s) \<and>
         pool_avail pid s' + pool_extent s' p = pool_avail pid s \<and> pool_mine s' p) \<and>
      (\<forall>q \<in> pool_live pid s. pool_extent s' q = pool_extent s q \<and> pool_mine s' q = pool_mine s q)"
proof -
  obtain bs fs where wf: "pool_wf s pid bs fs" using assms(1) by (auto simp: pool_ok_def)
  note spec = lwmem_alloc_spec [OF wf assms(2), of "ACTIVE_TASK_ID s" False]
  show ?thesis
  proof (cases "List.find (\<lambda>g. adjust_size r \<le> MEM s g) fs")
    case None
    with spec obtain s' where s': "lwmem_alloc_from pid r s = Some (NULL, s')" "pool_wf s' pid bs fs"
      "MEM s' = MEM s" by (auto simp: lwmem_alloc_from_def)
    then have "ACTIVE_TASK_ID s' = ACTIVE_TASK_ID s"
      using ACTIVE_alloc unfolding lwmem_alloc_from_def by blast
    with s' show ?thesis using pool_live_wf [OF wf] pool_avail_wf [OF wf]
        pool_live_wf [OF s'(2)] pool_avail_wf [OF s'(2)] pool_wf_lists(3) [OF s'(2)]
      by (auto simp: free_bytes_def pool_mine_block TASK_NUMBER_def)
  next
    case (Some f)
    with spec obtain s' bs' fs' where s': "lwmem_alloc_from pid r s = Some (f + 12, s')"
      and wf': "pool_wf s' pid bs' fs'" and f: "f \<notin> set bs - set fs"
      and live: "set bs' - set fs' = insert f (set bs - set fs)"
      and fr: "\<forall>b \<in> set bs - set fs. MEM s' b = MEM s b \<and> MEM s' (b + 4) = MEM s (b + 4) \<and>
           MEM s' (b + 8) = MEM s (b + 8)"
      and sum: "free_bytes s' fs' + unat (MEM s' f) = free_bytes s fs"
      and own: "TASK_NUMBER s' f = TASK_NUMBER_FROM_TASKID (ACTIVE_TASK_ID s)"
      unfolding lwmem_alloc_from_def by auto
    have act: "ACTIVE_TASK_ID s' = ACTIVE_TASK_ID s"
      using s' ACTIVE_alloc unfolding lwmem_alloc_from_def by blast
    have "f \<in> set bs'" using live by auto
    then have "aligned f" using pool_wf_aligned [OF wf'] by blast
    then have nz: "f + 12 \<noteq> NULL" using unat_slots(3) [of f] by (auto simp: unat_eq_zero)
    have "pool_live pid s' = insert (f + 12) (pool_live pid s)" "f + 12 \<notin> pool_live pid s"
      unfolding pool_live_wf [OF wf] pool_live_wf [OF wf'] live using f by auto
    moreover have "pool_avail pid s' + pool_extent s' (f + 12) = pool_avail pid s"
      using sum pool_avail_wf [OF wf] pool_avail_wf [OF wf'] by simp
    moreover have "pool_mine s' (f + 12)" using own act by (simp add: pool_mine_block)
    moreover have "\<forall>q \<in> pool_live pid s. pool_extent s' q = pool_extent s q \<and> pool_mine s' q = pool_mine s q"
      unfolding pool_live_wf [OF wf] using fr act
      by (auto simp: pool_mine_block TASK_NUMBER_def)
    ultimately show ?thesis using s' nz pool_wf_lists(3) [OF wf']
      by (intro exI [of _ "f + 12"] exI [of _ s']) (simp only: if_False, blast)
  qed
qed

lemma pool_release_law:
  assumes "pool_ok pid s" "p \<in> pool_live pid s" "pool_mine s p"
  shows "\<exists>s'. lwmem_free p s = Some (MQX_OK, s') \<and> pool_ok pid s' \<and>
      pool_live pid s' = pool_live pid s - {p} \<and>
      pool_avail pid s' = pool_avail pid s + pool_extent s p \<and>
      (\<forall>q \<in> pool_live pid s - {p}. pool_extent s' q = pool_extent s q \<and> pool_mine s' q = pool_mine s q)"
proof -
  obtain bs fs where wf: "pool_wf s pid bs fs" using assms(1) by (auto simp: pool_ok_def)
  obtain b where b: "p = b + 12" "b \<in> set bs" "b \<notin> set fs"
    using assms(2) unfolding pool_live_wf [OF wf] by auto
  obtain s' where s': "lwmem_free p s = Some (MQX_OK, s')" "freed pid b s bs fs s'"
    using lwmem_free_correct [OF wf b(2,3)] assms(3) b(1) by (auto simp: pool_mine_block)
  then obtain bs' fs' where wf': "pool_wf s' pid bs' fs'"
    and live: "set bs' - set fs' = set bs - set fs - {b}"
    and fr: "\<forall>c \<in> set bs - set fs - {b}. MEM s' c = MEM s c \<and> MEM s' (c + 4) = MEM s (c + 4) \<and>
        MEM s' (c + 8) = MEM s (c + 8)"
    and sum: "free_bytes s' fs' = free_bytes s fs + unat (MEM s b)"
    unfolding freed_def by blast
  have act: "ACTIVE_TASK_ID s' = ACTIVE_TASK_ID s" using s' ACTIVE_free by blast
  have "pool_live pid s' = pool_live pid s - {p}"
    unfolding pool_live_wf [OF wf] pool_live_wf [OF wf'] live b(1) by auto
  moreover have "pool_avail pid s' = pool_avail pid s + pool_extent s p"
    using sum pool_avail_wf [OF wf] pool_avail_wf [OF wf'] b(1) by simp
  moreover have "\<forall>q \<in> pool_live pid s - {p}. pool_extent s' q = pool_extent s q \<and> pool_mine s' q = pool_mine s q"
    unfolding pool_live_wf [OF wf] b(1) using fr act
      by (auto simp: pool_mine_block TASK_NUMBER_def)
  ultimately show ?thesis using s' pool_wf_lists(3) [OF wf'] by auto
qed

interpretation heap: allocator "pool_ok pid" "pool_live pid" "pool_avail pid" pool_extent pool_mine
  NULL "\<lambda>r. unat r + 27 < 4294967296" "lwmem_alloc_from pid" lwmem_free for pid
  by unfold_locales (use pool_alloc_law pool_release_law in blast)+

section \<open>Properties\<close>

text \<open>A pool with one live block of task 1 and one free block.\<close>

definition demo_pool2 :: lwmem where
  "demo_pool2 = upd_pool 0x100 (\<lambda>P. P\<lparr>POOL_FREE_LIST_PTR := 0x1070\<rparr>)
     (wr 0x1000 112 (wr 0x1008 1 (wr 0x1070 144 (wr 0x1074 0x100 demo_pool))))"

lemma demo_pool2_wf: "pool_wf demo_pool2 0x100 [0x1000, 0x1070] [0x1070]"
  by (simp add: pool_wf_def demo_pool2_def demo_pool_def aligned_def)

text \<open>
  C9. Freeing gives back exactly one block: for a live block of the caller (or of the system)
  \<open>_lwmem_free\<close> ends with \<open>MQX_OK\<close>, the pool stays well formed (so that touching free
  neighbours have been joined), the block and no other leaves the live set, the headers of
  the other live blocks are untouched, and the free bytes grow by its size.
\<close>

theorem lwmem_free_returns_block:
  assumes "pool_wf s pid bs fs" "b \<in> set bs" "b \<notin> set fs"
    and "TASK_NUMBER s b = TASK_NUMBER_FROM_TASKID (ACTIVE_TASK_ID s) \<or>
      TASK_NUMBER s b = SYSTEM_TASK_NUMBER"
  shows "\<exists>s' bs' fs'. lwmem_free (b + 12) s = Some (MQX_OK, s') \<and> pool_wf s' pid bs' fs' \<and>
     set bs' - set fs' = set bs - set fs - {b} \<and>
     (\<forall>c \<in> set bs - set fs - {b}. MEM s' c = MEM s c \<and> MEM s' (c + 4) = MEM s (c + 4) \<and>
        MEM s' (c + 8) = MEM s (c + 8)) \<and>
     free_bytes s' fs' = free_bytes s fs + unat (MEM s b)"
  using lwmem_free_correct [OF assms] unfolding freed_def by blast

theorem lwmem_free_returns_block_witness:
  "\<exists>s' bs' fs'. lwmem_free 0x100C demo_pool2 = Some (MQX_OK, s') \<and> pool_wf s' 0x100 bs' fs' \<and>
     set bs' \<subseteq> set fs' \<and> free_bytes s' fs' = 256"
proof -
  have own: "TASK_NUMBER demo_pool2 0x1000 = TASK_NUMBER_FROM_TASKID (ACTIVE_TASK_ID demo_pool2)"
    by (simp add: TASK_NUMBER_def TASK_NUMBER_FROM_TASKID_def demo_pool2_def demo_pool_def)
  obtain s' bs' fs' where "lwmem_free (0x1000 + 12) demo_pool2 = Some (MQX_OK, s')"
    "pool_wf s' 0x100 bs' fs'" "set bs' - set fs' = set [0x1000, 0x1070] - set [0x1070] - {0x1000}"
    "free_bytes s' fs' = free_bytes demo_pool2 [0x1070] + unat (MEM demo_pool2 0x1000)"
    using lwmem_free_returns_block [OF demo_pool2_wf, where b = "0x1000"] own by auto
  moreover have "free_bytes demo_pool2 [0x1070] + unat (MEM demo_pool2 0x1000) = 256"
    by (simp add: free_bytes_def demo_pool2_def demo_pool_def)
  ultimately show ?thesis by auto
qed



text \<open>Creating a pool.\<close>

lemma unat_higher:
  "unat p + 15 < 4294967296 \<Longrightarrow> unat (ALIGN_ADDR_TO_HIGHER_MEM p) = (unat p + 15) div 16 * 16"
  by (simp add: ALIGN_ADDR_TO_HIGHER_MEM_def and_mask_unat unat_add_noof32)

text \<open>The new pool joins the list of pools, which the first call sets up.\<close>

lemma create_pool_queue:
  assumes "pid \<noteq> NULL" "pid \<noteq> q" "q \<noteq> NULL"
    and "NEXT h q = NULL \<and> xs = [] \<or> queue_of h q xs \<and> pid \<notin> set xs \<and> length xs < 65535"
  shows "queue_of (QUEUE_ENQUEUE q pid (if NEXT h q = NULL then QUEUE_INIT q 0 h else h)) q (xs @ [pid])"
  using assms(4)
proof
  assume a: "NEXT h q = NULL \<and> xs = []"
  then show ?thesis using queue_of_enqueue [of _ q "[]" pid] queue_of_init assms(1-3) by simp
next
  assume a: "queue_of h q xs \<and> pid \<notin> set xs \<and> length xs < 65535"
  then have "NEXT h q \<noteq> NULL"
    using queue_of_next [of h q xs] queue_of_distinct [of h q xs] by (cases xs) auto
  with a show ?thesis using queue_of_enqueue assms(1,2) by simp
qed

text \<open>A pool on one side of a region does not see what is written at its first block.\<close>

lemma pool_wf_outside:
  assumes "pool_wf s q bs fs" "POOLS s' q = POOLS s q" "MEM s' = (MEM s)(st := x, st + 8 := y, st + 4 := z)"
    and "aligned st" "unat st < unat en"
    and "unat (POOL_ALLOC_END_PTR (POOLS s q)) \<le> unat st \<or> unat en \<le> unat (POOL_ALLOC_START_PTR (POOLS s q))"
  shows "pool_wf s' q bs fs"
proof -
  have "aligned b \<and> b \<noteq> st" if "b \<in> set bs" for b
  proof -
    have "tiling (MEM s) q (POOL_ALLOC_START_PTR (POOLS s q)) bs (POOL_ALLOC_END_PTR (POOLS s q))"
      using assms(1) by (simp add: pool_wf_def)
    from tiling_range [OF this] that have "aligned b" "unat (POOL_ALLOC_START_PTR (POOLS s q)) \<le> unat b"
      "16 \<le> unat (MEM s b)" "unat b + unat (MEM s b) \<le> unat (POOL_ALLOC_END_PTR (POOLS s q))" by auto
    with assms(5,6) show ?thesis by auto
  qed
  then have "MEM s' b = MEM s b \<and> MEM s' (b + 4) = MEM s (b + 4) \<and> MEM s' (b + 8) = MEM s (b + 8)"
    if "b \<in> set bs" for b using that assms(4) by (simp add: assms(3))
  moreover have "set fs \<subseteq> set bs" using assms(1) by (simp add: pool_wf_def)
  ultimately show ?thesis by (intro pool_wf_cong [OF assms(1)]) (auto simp: assms(2))
qed

text \<open>
  A new pool is well formed and wholly free: it consists of one free block from the aligned
  start to the aligned end of the region, it is appended to the list of pools (which is set
  up by the first call), and the pools that lie outside the region stay as they were.
\<close>

theorem lwmem_create_pool_establishes:
  assumes "start \<noteq> NULL" "unat start + unat sz < 4294967296"
    and "unat (ALIGN_ADDR_TO_HIGHER_MEM start) + 16 \<le> unat (ALIGN_ADDR_TO_LOWER_MEM (start + sz))"
    and "unat start + 15 < 4294967296"
    and "pid \<noteq> NULL" "pid \<noteq> LWMEM_POOLS s" "LWMEM_POOLS s \<noteq> NULL"
    and "NEXT (QH s) (LWMEM_POOLS s) = NULL \<and> xs = [] \<or>
      queue_of (QH s) (LWMEM_POOLS s) xs \<and> pid \<notin> set xs \<and> length xs < 65535"
  shows "let (p, s') = lwmem_create_pool pid start sz s; st = ALIGN_ADDR_TO_HIGHER_MEM start;
             en = ALIGN_ADDR_TO_LOWER_MEM (start + sz)
    in p = pid \<and> pool_wf s' pid [st] [st] \<and> pool_avail pid s' = unat en - unat st \<and>
      pool_live pid s' = {} \<and> queue_of (QH s') (LWMEM_POOLS s) (xs @ [pid]) \<and>
      (\<forall>q bs fs. q \<noteq> pid \<and> pool_wf s q bs fs \<and>
         (unat (POOL_ALLOC_END_PTR (POOLS s q)) \<le> unat st \<or> unat en \<le> unat (POOL_ALLOC_START_PTR (POOLS s q)))
         \<longrightarrow> pool_wf s' q bs fs)"
proof -
  define st where "st = ALIGN_ADDR_TO_HIGHER_MEM start"
  define en where "en = ALIGN_ADDR_TO_LOWER_MEM (start + sz)"
  define s' where "s' = snd (lwmem_create_pool pid start sz s)"
  have fst: "lwmem_create_pool pid start sz s = (pid, s')"
    by (simp add: s'_def lwmem_create_pool_def Let_def)
  have M: "MEM s' = (MEM s)(st := en - st, st + 8 := 0, st + 4 := pid)"
    by (simp add: s'_def lwmem_create_pool_def st_def en_def Let_def)
  have P: "VALID (POOLS s' pid) = LWMEM_POOL_VALID" "POOL_ALLOC_START_PTR (POOLS s' pid) = st"
    "POOL_ALLOC_END_PTR (POOLS s' pid) = en" "POOL_FREE_LIST_PTR (POOLS s' pid) = st"
    and P': "q \<noteq> pid \<Longrightarrow> POOLS s' q = POOLS s q" for q
    by (simp_all add: s'_def lwmem_create_pool_def st_def en_def upd_pool_def wr_def Let_def)
  have Q: "QH s' = QUEUE_ENQUEUE (LWMEM_POOLS s) pid
      (if NEXT (QH s) (LWMEM_POOLS s) = NULL then QUEUE_INIT (LWMEM_POOLS s) 0 (QH s) else QH s)"
    by (simp add: s'_def lwmem_create_pool_def upd_pool_def wr_def Let_def)
  have al: "aligned st" "aligned en"
    by (simp_all add: st_def en_def ALIGN_ADDR_TO_HIGHER_MEM_def ALIGN_ADDR_TO_LOWER_MEM_def)
  have le: "unat st + 16 \<le> unat en" using assms(3) by (simp add: st_def en_def)
  have "0 < unat start" using assms(1) by (simp add: unat_gt_0)
  then have nz: "st \<noteq> NULL" using unat_higher [OF assms(4)] by (auto simp: st_def)
  have sz: "unat (en - st) = unat en - unat st" using le by (intro unat_sub_noof) simp
  have "aligned (en - st)" using al le by (intro aligned_sub) auto
  then have wf: "pool_wf s' pid [st] [st]"
    using P nz al le sz unat_lt32 [of en] by (simp add: pool_wf_def M)
  have "queue_of (QH s') (LWMEM_POOLS s) (xs @ [pid])"
    unfolding Q by (rule create_pool_queue [OF assms(5-8)])
  moreover have "pool_wf s' q bs fs" if "q \<noteq> pid" "pool_wf s q bs fs"
    "unat (POOL_ALLOC_END_PTR (POOLS s q)) \<le> unat st \<or> unat en \<le> unat (POOL_ALLOC_START_PTR (POOLS s q))"
    for q bs fs
    using pool_wf_outside [OF that(2) P' [OF that(1)] M al(1) _ that(3)] le by simp
  moreover have "pool_avail pid s' = unat en - unat st" "pool_live pid s' = {}"
    using sz by (simp_all add: pool_avail_wf [OF wf] pool_live_wf [OF wf] free_bytes_def M)
  ultimately show ?thesis
    using wf unfolding fst Let_def prod.case st_def [symmetric] en_def [symmetric] by blast
qed

theorem lwmem_create_pool_establishes_witness:
  "pool_wf (snd (lwmem_create_pool 0x300 0x2004 0x100 demo_pool)) 0x300 [0x2010] [0x2010] \<and>
   pool_wf (snd (lwmem_create_pool 0x300 0x2004 0x100 demo_pool)) 0x100 [0x1000] [0x1000]"
proof -
  have 1: "ALIGN_ADDR_TO_HIGHER_MEM 0x2004 = 0x2010" "ALIGN_ADDR_TO_LOWER_MEM 0x2104 = 0x2100"
    by (simp_all add: ALIGN_ADDR_TO_HIGHER_MEM_def ALIGN_ADDR_TO_LOWER_MEM_def)
  have 2: "NEXT (QH demo_pool) (LWMEM_POOLS demo_pool) = NULL" "LWMEM_POOLS demo_pool = 0x200"
    "POOL_ALLOC_END_PTR (POOLS demo_pool 0x100) = 0x1100"
    by (simp_all add: demo_pool_def)
  show ?thesis
    using lwmem_create_pool_establishes [of "0x2004" "0x100" "0x300" demo_pool "[]"] 1 2 demo_pool_wf
    by (auto simp: Let_def split: prod.splits)
qed

text \<open>Counting the free bytes.\<close>

lemma free_bytes_bound:
  assumes "pool_wf s pid bs fs"
  shows "free_bytes s fs < 4294967296"
proof -
  let ?en = "POOL_ALLOC_END_PTR (POOLS s pid)"
  have "tiling m pid p bs e \<Longrightarrow> unat p + sum_list (map (\<lambda>b. unat (m b)) bs) = unat e" for m p e
  proof (induction bs arbitrary: p)
    case (Cons b bs)
    then have "unat (p + m p) = unat p + unat (m p)" "tiling m pid (p + m p) bs e" "b = p"
      by (auto intro: unat_add_noof32)
    with Cons.IH [of "p + m p"] show ?case by simp
  qed simp
  then have "sum_list (map (\<lambda>b. unat (MEM s b)) bs) \<le> unat ?en"
    using assms unfolding pool_wf_def by (metis le_add2)
  moreover have "free_bytes s fs \<le> sum_list (map (\<lambda>b. unat (MEM s b)) bs)"
    using assms pool_wf_lists(4,5) [OF assms]
    by (simp add: free_bytes_def sum_list_distinct_conv_sum_set pool_wf_def sum_mono2)
  ultimately show ?thesis using unat_lt32 [of ?en] by linarith
qed

lemma get_free_loop_eq:
  assumes "pool_wf s pid bs (us @ ws)"
  shows "\<exists>x. get_free_loop pid (hd (ws @ [NULL])) (of_nat (free_bytes s us)) s =
    Some (of_nat (free_bytes s (us @ ws)), walked pid x s)"
  using assms
proof (induction ws arbitrary: us s)
  case Nil
  then show ?case
    by (subst get_free_loop.simps) (auto intro: exI [of _ "POOL_ALLOC_PTR (POOLS s pid)"])
next
  case (Cons g ws)
  have pre: "g = POOL_FREE_LIST_PTR (POOLS s pid) \<longleftrightarrow> us = []" "g \<noteq> NULL"
    "fpath (MEM s) (MEM s (g + 8)) ws NULL"
    using free_prefix [OF Cons.prems] by auto
  have ih: "\<exists>x. get_free_loop pid (hd (ws @ [NULL])) (of_nat (free_bytes (walked pid g s) (us @ [g]))) (walked pid g s) =
      Some (of_nat (free_bytes (walked pid g s) ((us @ [g]) @ ws)), walked pid x (walked pid g s))"
    by (rule Cons.IH) (use Cons.prems in simp)
  have next_g: "NEXTBLOCK (walked pid g s) g = hd (ws @ [NULL])"
    using fpath_hd [OF pre(3)] by (simp add: NEXTBLOCK_def)
  have fb: "free_bytes (walked pid g s) xs = free_bytes s xs" for xs by (simp add: free_bytes_def)
  have "get_free_loop pid g (of_nat (free_bytes s us)) s =
      get_free_loop pid (hd (ws @ [NULL])) (of_nat (free_bytes s us) + BLOCKSIZE (walked pid g s) g) (walked pid g s)"
    using pre(1,2) next_g
    by (subst get_free_loop.simps) (auto simp: Let_def walked_def [symmetric] free_bytes_def)
  moreover have "of_nat (free_bytes s us) + BLOCKSIZE (walked pid g s) g = (of_nat (free_bytes s (us @ [g])) :: u32)"
    by (simp add: free_bytes_def BLOCKSIZE_def)
  ultimately show ?case using ih by (simp add: fb)
qed

text \<open>
  \<open>_lwmem_get_free\<close> and \<open>_lwmem_get_free_from\<close> end and return the exact number of bytes
  on the free list, with no wrap-around, and leave the pool as it was.
\<close>

theorem lwmem_get_free_exact:
  assumes "pool_wf s pid bs fs"
  shows "\<exists>w s'. lwmem_get_free_from pid s = Some (w, s') \<and> unat w = free_bytes s fs \<and>
    pool_wf s' pid bs fs \<and> MEM s' = MEM s"
proof -
  have "POOL_FREE_LIST_PTR (POOLS s pid) = hd (fs @ [NULL])" "VALID (POOLS s pid) = LWMEM_POOL_VALID"
    using assms fpath_hd [of "MEM s" _ fs NULL] by (auto simp: pool_wf_def)
  moreover obtain x where "get_free_loop pid (hd (fs @ [NULL])) 0 s =
      Some (of_nat (free_bytes s fs), walked pid x s)"
    using get_free_loop_eq [of s pid bs "[]" fs] assms by (auto simp: free_bytes_def)
  moreover have "unat (of_nat (free_bytes s fs) :: u32) = free_bytes s fs"
    using free_bytes_bound [OF assms] by (simp add: unat_of_nat)
  ultimately show ?thesis using assms
    by (simp add: lwmem_get_free_from_def lwmem_get_free_internal_def)
qed

theorem lwmem_get_free_exact_witness:
  "\<exists>w s'. lwmem_get_free_from 0x100 demo_pool2 = Some (w, s') \<and> unat w = 144"
  using lwmem_get_free_exact [OF demo_pool2_wf]
  by (auto simp: free_bytes_def demo_pool2_def demo_pool_def)

text \<open>The checks of \<open>_lwmem_test\<close> on a well-formed pool.\<close>

definition tested :: "addr \<Rightarrow> addr \<Rightarrow> addr \<Rightarrow> lwmem \<Rightarrow> lwmem" where
  "tested pid x y s = upd_pool pid (\<lambda>P. P\<lparr>POOL_TEST2_PTR := x, POOL_TEST_PTR := y\<rparr>) s"

lemma tested_simps [simp]:
  "MEM (tested pid x y s) = MEM s" "QH (tested pid x y s) = QH s"
  "pool_wf (tested pid x y s) p bs fs = pool_wf s p bs fs"
  "tested pid x y (tested pid x' y' s) = tested pid x y s"
  "POOL_ALLOC_START_PTR (POOLS (tested pid x y s) p) = POOL_ALLOC_START_PTR (POOLS s p)"
  "POOL_ALLOC_END_PTR (POOLS (tested pid x y s) p) = POOL_ALLOC_END_PTR (POOLS s p)"
  by (auto simp: tested_def upd_pool_def pool_wf_def)

lemma test_pool_loop_ok:
  "tiling (MEM s) pid p bs (POOL_ALLOC_END_PTR (POOLS s pid)) \<Longrightarrow>
   \<exists>x y. test_pool_loop pid p s = Some (Inr (), tested pid x y s)"
proof (induction bs arbitrary: p s)
  case Nil
  have "s = tested pid (POOL_TEST2_PTR (POOLS s pid)) (POOL_TEST_PTR (POOLS s pid)) s"
    by (simp add: tested_def upd_pool_def)
  with Nil show ?case by (subst test_pool_loop.simps) auto
next
  case (Cons b bs)
  let ?s = "upd_pool pid (\<lambda>P. P\<lparr>POOL_TEST2_PTR := p\<rparr>) s"
  have t: "?s = tested pid p (POOL_TEST_PTR (POOLS s pid)) s" by (simp add: tested_def upd_pool_def)
  from Cons.prems have u: "unat (p + MEM s p) = unat p + unat (MEM s p)" "16 \<le> unat (MEM s p)"
    and tl: "tiling (MEM s) pid (p + MEM s p) bs (POOL_ALLOC_END_PTR (POOLS s pid))"
    and pool: "MEM s (p + 4) = pid"
    by (auto intro: unat_add_noof32)
  have "p < POOL_ALLOC_END_PTR (POOLS s pid)"
    using tiling_range [OF tl] u by (simp add: word_less_nat_alt)
  moreover have "\<exists>x y. test_pool_loop pid (p + MEM s p) ?s = Some (Inr (), tested pid x y ?s)"
    using tl by (intro Cons.IH) simp
  ultimately show ?case using pool
    by (subst test_pool_loop.simps) (auto simp: Let_def POOL_def BLOCKSIZE_def t)
qed

lemma test_free_loop_ok:
  assumes "pool_wf s pid bs (us @ ws)"
  shows "\<exists>x y. test_free_loop pid (hd (ws @ [NULL])) s = Some (Inr (), tested pid x y s)"
  using assms
proof (induction ws arbitrary: us s)
  case Nil
  have "s = tested pid (POOL_TEST2_PTR (POOLS s pid)) (POOL_TEST_PTR (POOLS s pid)) s"
    by (simp add: tested_def upd_pool_def)
  then show ?case by (subst test_free_loop.simps) auto
next
  case (Cons g ws)
  let ?s = "upd_pool pid (\<lambda>P. P\<lparr>POOL_TEST_PTR := g\<rparr>) s"
  have t: "?s = tested pid (POOL_TEST2_PTR (POOLS s pid)) g s" by (simp add: tested_def upd_pool_def)
  note pre = free_prefix [OF Cons.prems]
  have g: "g \<noteq> NULL" "g \<in> set bs" using pre by auto
  note r = pool_wf_aligned [OF Cons.prems g(2)]
  have "tiling (MEM s) pid (POOL_ALLOC_START_PTR (POOLS s pid)) bs (POOL_ALLOC_END_PTR (POOLS s pid))"
    using Cons.prems by (simp add: pool_wf_def)
  from tiling_range [OF this] g have "unat g \<le> unat (POOL_ALLOC_END_PTR (POOLS s pid))" by fastforce
  moreover have "unat (g + MEM s g) = unat g + unat (MEM s g)" using r by (intro unat_add_noof32) simp
  ultimately have ok: "\<not> (g < POOL_ALLOC_START_PTR (POOLS s pid) \<or> g > POOL_ALLOC_END_PTR (POOLS s pid)
      \<or> MEM s (g + 4) \<noteq> pid \<or> (MEM s (g + 8) \<noteq> NULL \<and> MEM s (g + 8) \<le> g + MEM s g))"
    using r pre(5) by (auto simp: word_less_nat_alt word_le_nat_alt)
  have "\<exists>x y. test_free_loop pid (hd (ws @ [NULL])) ?s = Some (Inr (), tested pid x y ?s)"
    unfolding t by (rule Cons.IH [of _ "us @ [g]"]) (use Cons.prems in simp)
  moreover have "NEXTBLOCK ?s g = hd (ws @ [NULL])"
    using fpath_hd [OF pre(2)] by (simp add: NEXTBLOCK_def)
  ultimately show ?case using g ok
    by (subst test_free_loop.simps) (simp add: Let_def POOL_def NEXTBLOCK_def BLOCKSIZE_def t)
qed

lemma test_pools_loop_ok:
  assumes "chain (QH s) h (pid # xs) z" "\<forall>p \<in> set (pid # xs). \<exists>bs fs. pool_wf s p bs fs"
  shows "\<exists>s'. test_pools_loop (length (pid # xs)) pid s = Some (MQX_OK, NULL, NULL, s') \<and>
    MEM s' = MEM s \<and> QH s' = QH s \<and> (\<forall>p bs fs. pool_wf s' p bs fs = pool_wf s p bs fs)"
  using assms
proof (induction xs arbitrary: h pid s)
  case Nil
  then obtain bs fs where wf: "pool_wf s pid bs ([] @ fs)" by auto
  then have "tiling (MEM s) pid (POOL_ALLOC_START_PTR (POOLS s pid)) bs (POOL_ALLOC_END_PTR (POOLS s pid))"
    and v: "VALID (POOLS s pid) = LWMEM_POOL_VALID" by (simp_all add: pool_wf_def)
  from test_pool_loop_ok [OF this(1)] obtain x y where
    1: "test_pool_loop pid (POOL_ALLOC_START_PTR (POOLS s pid)) s = Some (Inr (), tested pid x y s)" by auto
  have wf1: "pool_wf (tested pid x y s) pid bs ([] @ fs)" using wf by simp
  then have "POOL_FREE_LIST_PTR (POOLS (tested pid x y s) pid) = hd (fs @ [NULL])"
    using free_list_hd by fastforce
  with 1 v test_free_loop_ok [OF wf1] show ?case by auto
next
  case (Cons q xs)
  then obtain bs fs where wf: "pool_wf s pid bs ([] @ fs)" by auto
  then have "tiling (MEM s) pid (POOL_ALLOC_START_PTR (POOLS s pid)) bs (POOL_ALLOC_END_PTR (POOLS s pid))"
    and v: "VALID (POOLS s pid) = LWMEM_POOL_VALID" by (simp_all add: pool_wf_def)
  from test_pool_loop_ok [OF this(1)] obtain x y where
    1: "test_pool_loop pid (POOL_ALLOC_START_PTR (POOLS s pid)) s = Some (Inr (), tested pid x y s)" by auto
  have wf1: "pool_wf (tested pid x y s) pid bs ([] @ fs)" using wf by simp
  then have F: "POOL_FREE_LIST_PTR (POOLS (tested pid x y s) pid) = hd (fs @ [NULL])"
    using free_list_hd by fastforce
  from test_free_loop_ok [OF wf1] obtain x' y' where
    2: "test_free_loop pid (hd (fs @ [NULL])) (tested pid x y s) = Some (Inr (), tested pid x' y' s)" by auto
  have "\<exists>s'. test_pools_loop (length (q # xs)) q (tested pid x' y' s) = Some (MQX_OK, NULL, NULL, s') \<and>
    MEM s' = MEM (tested pid x' y' s) \<and> QH s' = QH (tested pid x' y' s) \<and>
    (\<forall>p bs fs. pool_wf s' p bs fs = pool_wf (tested pid x' y' s) p bs fs)"
    by (rule Cons.IH [of _ pid]) (use Cons.prems in auto)
  moreover have "NEXT (QH s) pid = q" using Cons.prems(1) by simp
  then have "test_pools_loop (Suc n) pid s = test_pools_loop n q (tested pid x' y' s)" for n
    using 1 2 F v by simp
  from this [of "length (q # xs)"]
  have "test_pools_loop (length (pid # q # xs)) pid s = test_pools_loop (length (q # xs)) q (tested pid x' y' s)"
    by (simp only: list.size add_Suc_right add_0_right)
  ultimately show ?case by (simp only: tested_simps)
qed

text \<open>
  \<open>_lwmem_test\<close> raises no false alarm: when the pools on the kernel's list are well
  formed it ends, answers \<open>MQX_OK\<close> with both error pointers cleared, and leaves the memory
  and every pool as they were.
\<close>

theorem lwmem_test_accepts:
  assumes "queue_of (QH s) (LWMEM_POOLS s) (pid # xs)"
    and "\<forall>p \<in> set (pid # xs). pool_ok p s"
  shows "\<exists>s'. lwmem_test pe be s = Some (MQX_OK, NULL, NULL, s') \<and>
    MEM s' = MEM s \<and> QH s' = QH s \<and> (\<forall>p bs fs. pool_wf s' p bs fs = pool_wf s p bs fs)"
proof -
  have ch: "chain (QH s) (LWMEM_POOLS s) (pid # xs) (LWMEM_POOLS s)" and n: "pid \<noteq> NULL"
    and d: "distinct (pid # xs)" "LWMEM_POOLS s \<notin> set (pid # xs)"
    using assms(1) by (auto simp: queue_of_def)
  have "queue_test (LWMEM_POOLS s) (QH s) = Inr ()"
    using queue_test_ok_iff [of "LWMEM_POOLS s" "QH s"] queue_of_unat_size [OF assms(1)] ch d by metis
  moreover have "\<forall>p \<in> set (pid # xs). \<exists>bs fs. pool_wf s p bs fs"
    using assms(2) unfolding pool_ok_def by blast
  ultimately show ?thesis
    using test_pools_loop_ok [OF ch] n ch queue_of_unat_size [OF assms(1)]
    by (simp add: lwmem_test_def del: test_pools_loop.simps)
qed

definition demo_pools :: lwmem where
  "demo_pools = demo_pool\<lparr>QH := QUEUE_ENQUEUE 0x200 0x100 (QUEUE_INIT 0x200 0 (QH demo_pool))\<rparr>"

theorem lwmem_test_accepts_witness:
  "\<exists>s'. lwmem_test 7 8 demo_pools = Some (MQX_OK, NULL, NULL, s')"
proof -
  have "queue_of (QH demo_pools) (LWMEM_POOLS demo_pools) [0x100]"
    using queue_of_enqueue [OF queue_of_init, of "0x200" "0x100" 0 "QH demo_pool"]
    by (simp add: demo_pools_def demo_pool_def)
  moreover have "pool_wf demo_pools 0x100 [0x1000] [0x1000]"
    by (simp add: pool_wf_def demo_pools_def demo_pool_def aligned_def)
  ultimately show ?thesis
    using lwmem_test_accepts [of demo_pools "0x100" "[]" 7 8] pool_wf_lists(3) by auto
qed

section \<open>Two defects\<close>

text \<open>
  The size adjustment wraps around: a request of almost the whole address space is served
  with a block of 16 bytes. (The bound on the request in the properties above is needed.)
\<close>

lemma adjust_size_wraps: "adjust_size 0xFFFFFFF8 = 16"
  by (simp add: adjust_size_def MEMORY_ALIGN_VAL_LARGER_def Let_def)

text \<open>
  When an aligned request takes the rest of a free block, \<open>_lwmem_alloc_align_internal\<close> does
  not write the size of the block it hands out: here it stays 0, the size query on the
  pointer reports an invalid pointer, and the blocks no longer tile the pool.
\<close>

lemma lwmem_alloc_align_leaves_size_unset:
  "\<exists>s'. lwmem_alloc_align_internal 180 64 0x10001 0x100 False demo_pool = Some (0x1040, s') \<and>
    BLOCKSIZE s' 0x1034 = 0 \<and> fst (lwmem_get_size 0x1040 s') = 0"
proof -
  have n: "NOT (63 :: u32) = 0xFFFFFFC0" by simp
  have sh: "align_shift 64 0x1000 = 52" by (simp add: align_shift_def Let_def n)
  have sz: "adjust_size 180 = 192"
    by (simp add: adjust_size_def MEMORY_ALIGN_VAL_LARGER_def Let_def)
  have F: "POOL_FREE_LIST_PTR (POOLS demo_pool 0x100) = 0x1000" "VALID (POOLS demo_pool 0x100) = LWMEM_POOL_VALID"
    by (simp_all add: demo_pool_def)
  let ?s = "walked 0x100 0x1000 demo_pool"
  have B: "BLOCKSIZE ?s 0x1000 = 256" by (simp add: BLOCKSIZE_def demo_pool_def)
  have "lwmem_alloc_align_internal 180 64 0x10001 0x100 False demo_pool =
      Some (alloc_align_take 192 52 0x10001 0x100 False 0x1000 ?s)"
    unfolding lwmem_alloc_align_internal_def sz using F B
    by (subst alloc_align_loop.simps) (simp add: Let_def sh walked_def word_le_nat_alt)
  moreover have "fst (alloc_align_take 192 52 0x10001 0x100 False 0x1000 ?s) = 0x1040"
    by (simp add: alloc_align_take_def Let_def)
  moreover have "BLOCKSIZE (snd (alloc_align_take 192 52 0x10001 0x100 False 0x1000 ?s)) 0x1034 = 0"
    using F B by (simp add: alloc_align_take_def Let_def BLOCKSIZE_def mark_used_MEM)
      (simp add: demo_pool_def)
  ultimately show ?thesis
    by (intro exI [of _ "snd (alloc_align_take 192 52 0x10001 0x100 False 0x1000 ?s)"])
      (simp add: lwmem_get_size_def GET_LWMEMBLOCK_PTR_def prod_eq_iff)
qed

end
