(* ===== verification/Ticks.thy ===== *)
theory Ticks
  imports Prelude
begin

text \<open>
  The tick arithmetic of the Cortex-M port, \<^verbatim>\<open>src/mqx/source/psp/cortex_m/psp_ti*.c\<close>,
  \<^verbatim>\<open>psp_*ti.c\<close>, \<^verbatim>\<open>psp_tkti.c\<close> and \<^verbatim>\<open>psp_mat1.c\<close> to \<^verbatim>\<open>psp_mat3.c\<close>. A time is a 64-bit
  count of ticks and a 32-bit count of hardware ticks, of which \<open>HW_TICKS_PER_TICK\<close> make a
  tick; \<open>TICKS_PER_SECOND\<close> ticks make a second. These two kernel variables are the arguments
  \<open>hwtpt\<close> and \<open>tps\<close>. The functions return what the source stores through its out pointers,
  which may alias its arguments: the source reads each field before it writes it.
\<close>

section \<open>State and basic arithmetic\<close>

record tick_struct =
  TICKS :: u64
  HW_TICKS :: u32

abbreviation MAX_UINT_64 :: u64 where "MAX_UINT_64 \<equiv> 0xFFFFFFFFFFFFFFFF"

definition psp_add_ticks :: "u32 \<Rightarrow> tick_struct \<Rightarrow> tick_struct \<Rightarrow> tick_struct" where
  "psp_add_ticks hwtpt a b =
     (let ticks = TICKS a + TICKS b;
          a_hw_ticks = HW_TICKS a;
          b_hw_ticks = HW_TICKS b
      in if a_hw_ticks \<ge> hwtpt - b_hw_ticks
         then \<lparr>TICKS = ticks + 1, HW_TICKS = a_hw_ticks + (b_hw_ticks - hwtpt)\<rparr>
         else \<lparr>TICKS = ticks, HW_TICKS = a_hw_ticks + b_hw_ticks\<rparr>)"

definition psp_subtract_ticks :: "u32 \<Rightarrow> tick_struct \<Rightarrow> tick_struct \<Rightarrow> tick_struct" where
  "psp_subtract_ticks hwtpt a b =
     (let ticks = TICKS a - TICKS b;
          a_hw_ticks = HW_TICKS a;
          b_hw_ticks = HW_TICKS b;
          (a_hw_ticks, ticks) =
            (if a_hw_ticks < b_hw_ticks then (a_hw_ticks + hwtpt, ticks - 1) else (a_hw_ticks, ticks))
      in \<lparr>TICKS = ticks, HW_TICKS = a_hw_ticks - b_hw_ticks\<rparr>)"

text \<open>The signed result and the overflow flag.\<close>

definition psp_subtract_ticks_int32 :: "u32 \<Rightarrow> tick_struct \<Rightarrow> tick_struct \<Rightarrow> u32 \<times> bool" where
  "psp_subtract_ticks_int32 hwtpt a b =
     (let r = TICKS a - TICKS b;
          r = (if HW_TICKS a < HW_TICKS b then r - 1 else r);
          b_hw_ticks = ucast (drop_bit 32 r) :: u32;
          a_hw_ticks = (b_hw_ticks AND (MAX_UINT_32 XOR MAX_INT_32)) OR (ucast r AND MAX_INT_32);
          b_hw_ticks = (ucast r AND (MAX_UINT_32 XOR MAX_INT_32)) OR (b_hw_ticks AND MAX_INT_32)
      in if drop_bit 31 a_hw_ticks * MAX_UINT_32 \<noteq> b_hw_ticks
         then (MAX_INT_32 + drop_bit 31 a_hw_ticks, True)
         else (a_hw_ticks, False))"

definition psp_normalize_ticks :: "u32 \<Rightarrow> tick_struct \<Rightarrow> tick_struct" where
  "psp_normalize_ticks ticks_per_tick t =
     (if HW_TICKS t \<ge> ticks_per_tick then
        (let n = HW_TICKS t div ticks_per_tick
         in \<lparr>TICKS = TICKS t + ucast n, HW_TICKS = HW_TICKS t - n * ticks_per_tick\<rparr>)
      else t)"

section \<open>Units to ticks\<close>

definition psp_seconds_to_ticks :: "u32 \<Rightarrow> u32 \<Rightarrow> tick_struct" where
  "psp_seconds_to_ticks tps seconds = \<lparr>TICKS = ucast seconds * ucast tps, HW_TICKS = 0\<rparr>"

definition psp_minutes_to_ticks :: "u32 \<Rightarrow> u32 \<Rightarrow> tick_struct" where
  "psp_minutes_to_ticks tps minutes = \<lparr>TICKS = ucast minutes * ucast tps * 60, HW_TICKS = 0\<rparr>"

definition psp_hours_to_ticks :: "u32 \<Rightarrow> u32 \<Rightarrow> tick_struct" where
  "psp_hours_to_ticks tps hours = \<lparr>TICKS = ucast hours * ucast tps * 3600, HW_TICKS = 0\<rparr>"

definition psp_days_to_ticks :: "u32 \<Rightarrow> u32 \<Rightarrow> tick_struct" where
  "psp_days_to_ticks tps days = \<lparr>TICKS = ucast days * ucast tps * (3600 * 24), HW_TICKS = 0\<rparr>"

definition psp_msecs_to_ticks :: "u32 \<Rightarrow> u32 \<Rightarrow> u32 \<Rightarrow> tick_struct" where
  "psp_msecs_to_ticks tps hwtpt msecs =
     (let tmp = ucast msecs * ucast tps :: u64;
          ticks = tmp div 1000;
          tmp = tmp mod 1000;
          tmp = (tmp * ucast hwtpt + 500) div 1000
      in \<lparr>TICKS = ticks, HW_TICKS = ucast tmp\<rparr>)"

definition psp_usecs_to_ticks :: "u32 \<Rightarrow> u32 \<Rightarrow> u32 \<Rightarrow> tick_struct" where
  "psp_usecs_to_ticks tps hwtpt usecs =
     (let tmp = ucast usecs * ucast tps :: u64;
          ticks = tmp div 1000000;
          tmp = tmp mod 1000000;
          tmp = (tmp * ucast hwtpt + 500000) div 1000000
      in \<lparr>TICKS = ticks, HW_TICKS = ucast tmp\<rparr>)"

definition psp_nsecs_to_ticks :: "u32 \<Rightarrow> u32 \<Rightarrow> u32 \<Rightarrow> tick_struct" where
  "psp_nsecs_to_ticks tps hwtpt nsecs =
     (let tmp = ucast nsecs * ucast tps :: u64;
          ticks = tmp div 1000000000;
          tmp = tmp mod 1000000000;
          tmp = (tmp * ucast hwtpt + 500000000) div 1000000000
      in \<lparr>TICKS = ticks, HW_TICKS = ucast tmp\<rparr>)"

text \<open>
  \<open>_psp_msecs_to_ticks_quick\<close> caches in two static variables whether a tick is a whole number
  of milliseconds: \<open>heuristic\<close> is 0 before the first call.
\<close>

record quick_cache =
  ms_per_tick :: u32
  heuristic :: u32

definition psp_msecs_to_ticks_quick ::
  "u32 \<Rightarrow> u32 \<Rightarrow> quick_cache \<Rightarrow> tick_struct \<times> quick_cache" where
  "psp_msecs_to_ticks_quick tps msecs c =
     (let fast = (\<lambda>c. (\<lparr>TICKS = ucast (msecs div ms_per_tick c), HW_TICKS = 0\<rparr>, c));
          slow = (\<lambda>c. (\<lparr>TICKS = ucast msecs * ucast tps div 1000, HW_TICKS = 0\<rparr>, c))
      in if heuristic c = 1 then fast c
         else if heuristic c = 2 then slow c
         else
           (let c = c\<lparr>ms_per_tick := 1000 div tps\<rparr>
            in if ms_per_tick c * tps = 1000 then fast (c\<lparr>heuristic := 1\<rparr>)
               else slow (c\<lparr>heuristic := 2\<rparr>)))"

record time_struct =
  SECONDS :: u32
  MILLISECONDS :: u32

definition psp_time_to_ticks :: "u32 \<Rightarrow> u32 \<Rightarrow> time_struct \<Rightarrow> tick_struct" where
  "psp_time_to_ticks tps hwtpt t =
     (let tick1 = psp_seconds_to_ticks tps (SECONDS t);
          tick2 = psp_msecs_to_ticks tps hwtpt (MILLISECONDS t)
      in psp_add_ticks hwtpt tick1 tick2)"

section \<open>Ticks to units\<close>

definition psp_ticks_to_time :: "u32 \<Rightarrow> u32 \<Rightarrow> tick_struct \<Rightarrow> bool \<times> time_struct" where
  "psp_ticks_to_time tps hwtpt t =
     (if TICKS t div ucast tps > ucast MAX_UINT_32
      then (False, \<lparr>SECONDS = MAX_UINT_32, MILLISECONDS = 999\<rparr>)
      else
        (let tmp = TICKS t * 1000 + ucast (HW_TICKS t * 1000 div hwtpt);
             tmp = tmp div ucast tps;
             secs = ucast (tmp div 1000) :: u32
         in (True, \<lparr>SECONDS = secs, MILLISECONDS = ucast (tmp - ucast (secs * 1000))\<rparr>)))"

text \<open>The rounding up of more than half a tick that the coarse conversions share.\<close>

definition psp_ticks_to_seconds :: "u32 \<Rightarrow> u32 \<Rightarrow> tick_struct \<Rightarrow> u32 \<times> bool" where
  "psp_ticks_to_seconds tps hwtpt t =
     (let tmp = TICKS t;
          tmp = (if tmp \<noteq> MAX_UINT_64 \<and> HW_TICKS t > hwtpt div 2 then tmp + 1 else tmp);
          tmp = tmp div ucast tps
      in (ucast tmp, tmp > ucast MAX_UINT_32))"

definition psp_ticks_to_minutes :: "u32 \<Rightarrow> u32 \<Rightarrow> tick_struct \<Rightarrow> u32 \<times> bool" where
  "psp_ticks_to_minutes tps hwtpt t =
     (let tmp = TICKS t;
          tmp = (if tmp \<noteq> MAX_UINT_64 \<and> HW_TICKS t > hwtpt div 2 then tmp + 1 else tmp);
          tmp = (tmp div ucast tps) div 60
      in (ucast tmp, tmp > ucast MAX_UINT_32))"

definition psp_ticks_to_hours :: "u32 \<Rightarrow> u32 \<Rightarrow> tick_struct \<Rightarrow> u32 \<times> bool" where
  "psp_ticks_to_hours tps hwtpt t =
     (let tmp = TICKS t;
          tmp = (if tmp \<noteq> MAX_UINT_64 \<and> HW_TICKS t > hwtpt div 2 then tmp + 1 else tmp);
          tmp = (tmp div ucast tps) div (60 * 60)
      in (ucast tmp, tmp > ucast MAX_UINT_32))"

definition psp_ticks_to_days :: "u32 \<Rightarrow> u32 \<Rightarrow> tick_struct \<Rightarrow> u32 \<times> bool" where
  "psp_ticks_to_days tps hwtpt t =
     (let tmp = TICKS t;
          tmp = (if tmp \<noteq> MAX_UINT_64 \<and> HW_TICKS t > hwtpt div 2 then tmp + 1 else tmp);
          tmp = (tmp div ucast tps) div (60 * 60 * 24)
      in (ucast tmp, tmp > ucast MAX_UINT_32))"

definition psp_get_elapsed_milliseconds :: "u32 \<Rightarrow> tick_struct \<Rightarrow> u32" where
  "psp_get_elapsed_milliseconds tps time =
     (let ticks = TICKS time;
          ms_per_tick = 1000 div tps
      in if ms_per_tick * tps = 1000 then ucast (ticks * ucast ms_per_tick)
         else ucast (ticks * 1000 div ucast tps))"

section \<open>128-bit arithmetic\<close>

text \<open>
  \<open>PSP_128_BIT_UNION\<close>, read as its four 32-bit words \<open>LW[0]\<close> (least significant on this
  little-endian port) to \<open>LW[3]\<close>; \<open>LLW[i]\<close> is the pair of words \<open>2 i\<close> and \<open>2 i + 1\<close>. The
  loops over the words are unrolled into the steps that they repeat.
\<close>

record u128 =
  LW0 :: u32
  LW1 :: u32
  LW2 :: u32
  LW3 :: u32

definition u128_of_u64 :: "u64 \<Rightarrow> u128" where
  "u128_of_u64 x = \<lparr>LW0 = ucast x, LW1 = ucast (drop_bit 32 x), LW2 = 0, LW3 = 0\<rparr>"

definition u128_is_zero :: "u128 \<Rightarrow> bool" where
  "u128_is_zero m \<longleftrightarrow> LW0 m = 0 \<and> LW1 m = 0 \<and> LW2 m = 0 \<and> LW3 m = 0"

text \<open>One step: the word that is stored, and the carry into the next word.\<close>

definition mul_step :: "u32 \<Rightarrow> u32 \<Rightarrow> u32 \<Rightarrow> u32 \<times> u32" where
  "mul_step mul m_i tmp_i =
     (let w = ucast mul * ucast m_i :: u64;
          w0 = ucast w :: u32;
          tmp_i = tmp_i + w0
      in (tmp_i, ucast (drop_bit 32 w + (if tmp_i < w0 then 1 else 0))))"

definition psp_mul_128_by_32 :: "u128 \<Rightarrow> u32 \<Rightarrow> u128 \<times> u32" where
  "psp_mul_128_by_32 m mul =
     (if mul = 0 \<or> u128_is_zero m then (\<lparr>LW0 = 0, LW1 = 0, LW2 = 0, LW3 = 0\<rparr>, 0)
      else if mul = 1 then (m, 0)
      else
        (let (t0, t1) = mul_step mul (LW0 m) 0;
             (t1, t2) = mul_step mul (LW1 m) t1;
             (t2, t3) = mul_step mul (LW2 m) t2;
             (t3, r) = mul_step mul (LW3 m) t3
         in (\<lparr>LW0 = t0, LW1 = t1, LW2 = t2, LW3 = t3\<rparr>, r)))"

text \<open>One step: the remainder, and the two words that are added at \<open>i + 1\<close> and \<open>i\<close>.\<close>

definition div_step :: "u32 \<Rightarrow> u64 \<Rightarrow> u32 \<Rightarrow> u64 \<times> u32 \<times> u32" where
  "div_step dv r n_i =
     (let w = push_bit 32 r + ucast n_i;
          d = w div ucast dv
      in (w mod ucast dv, ucast (drop_bit 32 d), ucast d))"

text \<open>The result that is stored (for a zero divisor, none is) and the value returned.\<close>

definition psp_div_128_by_32 :: "u128 \<Rightarrow> u32 \<Rightarrow> u128 \<times> u32" where
  "psp_div_128_by_32 n dv =
     (if dv = 0 then (n, MAX_UINT_32)
      else if dv = 1 then (n, 0)
      else if \<not> u128_is_zero n then
        (let r = ucast (LW3 n);
             (r, h, l) = div_step dv r (LW2 n);
             t3 = 0 + h; t2 = 0 + l;
             (r, h, l) = div_step dv r (LW1 n);
             t2 = t2 + h; t1 = 0 + l;
             (r, h, l) = div_step dv r (LW0 n);
             t1 = t1 + h; t0 = 0 + l
         in (\<lparr>LW0 = t0, LW1 = t1, LW2 = t2, LW3 = t3\<rparr>, ucast r))
      else (n, 0))"

definition add_step :: "u32 \<Rightarrow> u32 \<Rightarrow> u32 \<times> u32" where
  "add_step z cy = (let x = z + cy in (x, if x < z then 1 else 0))"

text \<open>\<open>_psp_add_element_to_array\<close> on the four words, the only size it is called with.\<close>

definition psp_add_element_to_array :: "u128 \<Rightarrow> u32 \<Rightarrow> u128 \<times> u32" where
  "psp_add_element_to_array s1 val =
     (let x = LW0 s1;
          y = x + val;
          cy = (if y < val then 1 else 0);
          (x1, cy) = add_step (LW1 s1) cy;
          (x2, cy) = add_step (LW2 s1) cy;
          (x3, cy) = add_step (LW3 s1) cy
      in (\<lparr>LW0 = y, LW1 = x1, LW2 = x2, LW3 = x3\<rparr>, cy))"

definition psp_psecs_to_ticks :: "u32 \<Rightarrow> u32 \<Rightarrow> u32 \<Rightarrow> tick_struct" where
  "psp_psecs_to_ticks tps hwtpt psecs =
     (let t = ucast psecs * ucast tps :: u64;
          ticks = t div 1000000000000;
          tmp = u128_of_u64 (t mod 1000000000000);
          tmp = fst (psp_mul_128_by_32 tmp hwtpt);
          tmp = fst (psp_div_128_by_32 tmp 1000000000);
          tmp = fst (psp_div_128_by_32 tmp 1000)
      in \<lparr>TICKS = ticks, HW_TICKS = LW0 tmp\<rparr>)"

section \<open>The fine conversions\<close>

definition psp_ticks_to_hw_ticks :: "u32 \<Rightarrow> tick_struct \<Rightarrow> u128" where
  "psp_ticks_to_hw_ticks hwtpt t =
     (let tmp = u128_of_u64 (TICKS t);
          tmp = fst (psp_mul_128_by_32 tmp hwtpt)
      in fst (psp_add_element_to_array tmp (HW_TICKS t)))"

definition psp_scaled_to_units :: "u32 \<Rightarrow> u32 \<Rightarrow> bool \<Rightarrow> u128 \<Rightarrow> u32 \<times> bool" where
  "psp_scaled_to_units tps hwtpt round tmp =
     (let tmp = fst (psp_div_128_by_32 tmp tps);
          tmp = fst (psp_div_128_by_32 tmp hwtpt);
          tmp = (if round then fst (psp_add_element_to_array tmp 5) else tmp);
          tmp = fst (psp_div_128_by_32 tmp 10)
      in (LW0 tmp, LW2 tmp \<noteq> 0 \<or> LW3 tmp \<noteq> 0 \<or> LW1 tmp \<noteq> 0))"

definition psp_ticks_to_milliseconds_round :: "u32 \<Rightarrow> u32 \<Rightarrow> bool \<Rightarrow> tick_struct \<Rightarrow> u32 \<times> bool" where
  "psp_ticks_to_milliseconds_round tps hwtpt round t =
     (let tmp = psp_ticks_to_hw_ticks hwtpt t;
          tmp = fst (psp_mul_128_by_32 tmp 10000)
      in psp_scaled_to_units tps hwtpt round tmp)"

definition psp_ticks_to_milliseconds :: "u32 \<Rightarrow> u32 \<Rightarrow> tick_struct \<Rightarrow> u32 \<times> bool" where
  "psp_ticks_to_milliseconds tps hwtpt t = psp_ticks_to_milliseconds_round tps hwtpt True t"

definition psp_ticks_to_milliseconds_truncate :: "u32 \<Rightarrow> u32 \<Rightarrow> tick_struct \<Rightarrow> u32 \<times> bool" where
  "psp_ticks_to_milliseconds_truncate tps hwtpt t = psp_ticks_to_milliseconds_round tps hwtpt False t"

definition psp_ticks_to_microseconds_round :: "u32 \<Rightarrow> u32 \<Rightarrow> bool \<Rightarrow> tick_struct \<Rightarrow> u32 \<times> bool" where
  "psp_ticks_to_microseconds_round tps hwtpt round t =
     (let tmp = psp_ticks_to_hw_ticks hwtpt t;
          tmp = fst (psp_mul_128_by_32 tmp (10 * 1000 * 1000))
      in psp_scaled_to_units tps hwtpt round tmp)"

definition psp_ticks_to_microseconds :: "u32 \<Rightarrow> u32 \<Rightarrow> tick_struct \<Rightarrow> u32 \<times> bool" where
  "psp_ticks_to_microseconds tps hwtpt t = psp_ticks_to_microseconds_round tps hwtpt True t"

definition psp_ticks_to_microseconds_truncate :: "u32 \<Rightarrow> u32 \<Rightarrow> tick_struct \<Rightarrow> u32 \<times> bool" where
  "psp_ticks_to_microseconds_truncate tps hwtpt t = psp_ticks_to_microseconds_round tps hwtpt False t"

definition psp_ticks_to_nanoseconds_round :: "u32 \<Rightarrow> u32 \<Rightarrow> bool \<Rightarrow> tick_struct \<Rightarrow> u32 \<times> bool" where
  "psp_ticks_to_nanoseconds_round tps hwtpt round t =
     (let tmp = psp_ticks_to_hw_ticks hwtpt t;
          tmp = fst (psp_mul_128_by_32 tmp 1000000000);
          tmp = fst (psp_mul_128_by_32 tmp 10)
      in psp_scaled_to_units tps hwtpt round tmp)"

definition psp_ticks_to_nanoseconds :: "u32 \<Rightarrow> u32 \<Rightarrow> tick_struct \<Rightarrow> u32 \<times> bool" where
  "psp_ticks_to_nanoseconds tps hwtpt t = psp_ticks_to_nanoseconds_round tps hwtpt True t"

definition psp_ticks_to_nanoseconds_truncate :: "u32 \<Rightarrow> u32 \<Rightarrow> tick_struct \<Rightarrow> u32 \<times> bool" where
  "psp_ticks_to_nanoseconds_truncate tps hwtpt t = psp_ticks_to_nanoseconds_round tps hwtpt False t"

definition psp_ticks_to_picoseconds_round :: "u32 \<Rightarrow> u32 \<Rightarrow> bool \<Rightarrow> tick_struct \<Rightarrow> u32 \<times> bool" where
  "psp_ticks_to_picoseconds_round tps hwtpt round t =
     (let tmp = psp_ticks_to_hw_ticks hwtpt t;
          tmp = fst (psp_mul_128_by_32 tmp 1000000000);
          tmp = fst (psp_mul_128_by_32 tmp 10000)
      in psp_scaled_to_units tps hwtpt round tmp)"

definition psp_ticks_to_picoseconds :: "u32 \<Rightarrow> u32 \<Rightarrow> tick_struct \<Rightarrow> u32 \<times> bool" where
  "psp_ticks_to_picoseconds tps hwtpt t = psp_ticks_to_picoseconds_round tps hwtpt True t"

definition psp_ticks_to_picoseconds_truncate :: "u32 \<Rightarrow> u32 \<Rightarrow> tick_struct \<Rightarrow> u32 \<times> bool" where
  "psp_ticks_to_picoseconds_truncate tps hwtpt t = psp_ticks_to_picoseconds_round tps hwtpt False t"

section \<open>The values\<close>

definition val128 :: "u128 \<Rightarrow> nat" where
  "val128 m = unat (LW0 m) + 2 ^ 32 * (unat (LW1 m) + 2 ^ 32 * (unat (LW2 m) + 2 ^ 32 * unat (LW3 m)))"

lemma unat_lt64 [simp]: "unat (a :: 64 word) < 18446744073709551616"
  using unsigned_less [of a] by simp

lemma unat_ucast_up [simp]: "unat (ucast (x :: u32) :: u64) = unat x"
proof -
  have "unat x < 18446744073709551616" by (rule less_trans [OF unat_lt32]) simp
  then show ?thesis by (simp add: unsigned_ucast_eq unsigned_take_bit_eq take_bit_eq_mod)
qed

lemma unat_ucast_down: "unat (ucast (x :: u64) :: u32) = unat x mod 4294967296"
  by (simp add: unsigned_ucast_eq unsigned_take_bit_eq take_bit_eq_mod)

lemma unat_mul32: "unat (ucast (x :: u32) * ucast (y :: u32) :: u64) = unat x * unat y"
proof -
  have "unat x \<le> 4294967295" "unat y \<le> 4294967295"
    using unat_lt32 [of x] unat_lt32 [of y] by linarith+
  then have "unat x * unat y \<le> 4294967295 * 4294967295" by (rule mult_le_mono)
  then show ?thesis by (simp add: unat_word_ariths)
qed

lemma unat_drop32: "unat (drop_bit 32 (w :: u64)) = unat w div 4294967296"
  by (simp add: drop_bit_eq_div unat_div)

text \<open>A wrapping addition, and its carry as the source computes it.\<close>

lemma unat_add_carry:
  "unat (x + y :: u32) + 4294967296 * (if x + y < y then 1 else 0) = unat x + unat y"
proof (cases "unat x + unat y < 4294967296")
  case True
  then show ?thesis by (simp add: unat_add_noof32 word_less_nat_alt)
next
  case False
  have "(unat x + unat y) mod 4294967296 = unat x + unat y - 4294967296"
  proof -
    have "unat x + unat y - 4294967296 < 4294967296"
      using unat_lt32 [of x] unat_lt32 [of y] by linarith
    with False show ?thesis by (simp add: le_mod_geq)
  qed
  then have "unat (x + y) = unat x + unat y - 4294967296" by (simp add: unat_word_ariths)
  moreover from this have "x + y < y"
    using unat_lt32 [of x] False unfolding word_less_nat_alt by linarith
  ultimately show ?thesis using False by simp
qed

lemma mul_step_val:
  assumes "mul_step mul m_i t = (lo, c)"
  shows "unat lo + 4294967296 * unat c = unat mul * unat m_i + unat t"
proof -
  define w where "w = (ucast mul * ucast m_i :: u64)"
  have w: "unat w = unat mul * unat m_i" unfolding w_def by (rule unat_mul32)
  let ?w0 = "ucast w :: u32" and ?h = "drop_bit 32 w" and ?c = "if t + ucast w < (ucast w :: u32) then 1 else 0 :: u64"
  have eq: "lo = t + ?w0" "c = ucast (?h + ?c)"
    using assms unfolding mul_step_def Let_def w_def [symmetric] by auto
  have "unat mul \<le> 4294967295" "unat m_i \<le> 4294967295"
    using unat_lt32 [of mul] unat_lt32 [of m_i] by linarith+
  then have "unat w \<le> 4294967295 * 4294967295" unfolding w by (rule mult_le_mono)
  then have "unat w div 4294967296 \<le> 4294967295 * 4294967295 div 4294967296" by (rule div_le_mono)
  then have h: "unat ?h + unat ?c < 4294967296" by (simp add: unat_drop32)
  then have "unat (?h + ?c) = unat ?h + unat ?c" by (intro unat_add_noof) simp
  then have "unat c = unat w div 4294967296 + unat ?c"
    unfolding eq unat_ucast_down using h by (simp add: unat_drop32)
  moreover have "unat lo + 4294967296 * unat ?c = unat t + unat w mod 4294967296"
    using unat_add_carry [of t ?w0] unfolding eq unat_ucast_down by (simp split: if_splits)
  moreover have "unat w mod 4294967296 + 4294967296 * (unat w div 4294967296) = unat w" by simp
  ultimately show ?thesis unfolding w by (simp only: distrib_left)
qed

lemma div_step_val:
  assumes "unat r < 4294967296" "dv \<noteq> 0" "div_step dv r n = (r', h, l)"
  shows "(unat h * 4294967296 + unat l) * unat dv + unat r' = unat r * 4294967296 + unat n"
    and "unat r' < unat dv"
proof -
  define w where "w = (push_bit 32 r + ucast n :: u64)"
  have "unat (push_bit 32 r :: u64) = unat r * 4294967296"
    using assms(1) by (simp add: push_bit_eq_mult unat_word_ariths)
  then have w: "unat w = unat r * 4294967296 + unat n"
  proof -
    have "unat r * 4294967296 + unat n < 18446744073709551616"
      using assms(1) unat_lt32 [of n] by linarith
    with \<open>unat (push_bit 32 r :: u64) = unat r * 4294967296\<close> show ?thesis
      unfolding w_def by (subst unat_add_noof) simp_all
  qed
  have eq: "r' = w mod ucast dv" "h = ucast (drop_bit 32 (w div ucast dv))" "l = ucast (w div ucast dv)"
    using assms(3) by (simp_all add: div_step_def Let_def w_def)
  have dv: "0 < unat dv" using assms(2) by (simp add: unat_gt_0)
  have d: "unat (w div ucast dv) = unat w div unat dv" by (simp add: unat_div)
  have r: "unat r' = unat w mod unat dv" unfolding eq by (simp add: unat_mod)
  then show "unat r' < unat dv" using dv by simp
  have "unat (w div ucast dv) div 4294967296 < 4294967296"
    using unat_lt64 [of "w div ucast dv"] by (simp add: div_less_iff_less_mult)
  then have "unat h * 4294967296 + unat l = unat w div unat dv"
    unfolding eq unat_ucast_down unat_drop32 d by simp
  then show "(unat h * 4294967296 + unat l) * unat dv + unat r' = unat r * 4294967296 + unat n"
    by (simp only: r w [symmetric] div_mult_mod_eq)
qed

lemma psp_mul_128_by_32_val:
  "val128 (fst (psp_mul_128_by_32 m k)) + 2 ^ 128 * unat (snd (psp_mul_128_by_32 m k)) = val128 m * unat k"
proof -
  consider "k = 0 \<or> u128_is_zero m" | "k = 1" "\<not> u128_is_zero m" | "k \<noteq> 0" "k \<noteq> 1" "\<not> u128_is_zero m"
    by blast
  then show ?thesis
  proof cases
    case 1
    then show ?thesis by (auto simp: psp_mul_128_by_32_def u128_is_zero_def val128_def)
  next
    case 2
    then show ?thesis by (simp add: psp_mul_128_by_32_def)
  next
    case 3
    obtain t0 c0 where s0: "mul_step k (LW0 m) 0 = (t0, c0)" by fastforce
    obtain t1 c1 where s1: "mul_step k (LW1 m) c0 = (t1, c1)" by fastforce
    obtain t2 c2 where s2: "mul_step k (LW2 m) c1 = (t2, c2)" by fastforce
    obtain t3 r where s3: "mul_step k (LW3 m) c2 = (t3, r)" by fastforce
    have "psp_mul_128_by_32 m k = (\<lparr>LW0 = t0, LW1 = t1, LW2 = t2, LW3 = t3\<rparr>, r)"
      using 3 by (simp add: psp_mul_128_by_32_def s0 s1 s2 s3)
    then show ?thesis
      using mul_step_val [OF s0] mul_step_val [OF s1] mul_step_val [OF s2] mul_step_val [OF s3]
      by (simp add: val128_def algebra_simps)
  qed
qed

lemma psp_div_128_by_32_val:
  assumes "dv \<noteq> 0"
  shows "val128 (fst (psp_div_128_by_32 n dv)) = val128 n div unat dv"
    and "unat (snd (psp_div_128_by_32 n dv)) = val128 n mod unat dv"
proof -
  have "val128 (fst (psp_div_128_by_32 n dv)) * unat dv + unat (snd (psp_div_128_by_32 n dv)) = val128 n
      \<and> unat (snd (psp_div_128_by_32 n dv)) < unat dv"
  proof -
    consider "dv = 1" | "u128_is_zero n" "dv \<noteq> 1" | "dv \<noteq> 1" "\<not> u128_is_zero n" by blast
    then show ?thesis
    proof cases
      case 1
      then show ?thesis by (simp add: psp_div_128_by_32_def)
    next
      case 2
      then show ?thesis using assms
        by (auto simp: psp_div_128_by_32_def u128_is_zero_def val128_def unat_gt_0)
    next
      case 3
      obtain r2 h2 l2 where s2: "div_step dv (ucast (LW3 n)) (LW2 n) = (r2, h2, l2)" by (metis prod_cases3)
      obtain r1 h1 l1 where s1: "div_step dv r2 (LW1 n) = (r1, h1, l1)" by (metis prod_cases3)
      obtain r0 h0 l0 where s0: "div_step dv r1 (LW0 n) = (r0, h0, l0)" by (metis prod_cases3)
      have eq: "psp_div_128_by_32 n dv = (\<lparr>LW0 = l0, LW1 = l1 + h0, LW2 = l2 + h1, LW3 = h2\<rparr>, ucast r0)"
        using 3 assms by (simp add: psp_div_128_by_32_def s0 s1 s2 Let_def)
      have dl: "unat dv < 4294967296" "0 < unat dv" using assms by (simp_all add: unat_gt_0)
      note v2 = div_step_val [OF _ assms s2]
      have r2: "unat r2 < unat dv" by (rule v2(2)) simp
      note v1 = div_step_val [OF _ assms s1]
      have r1: "unat r1 < unat dv" by (rule v1(2)) (use r2 dl in linarith)
      note v0 = div_step_val [OF _ assms s0]
      have r0: "unat r0 < unat dv" by (rule v0(2)) (use r1 dl in linarith)
      have small: "unat h = 0" if "(unat h * 4294967296 + unat l) * unat dv + unat r' = unat r * 4294967296 + unat w"
        "unat r < unat dv" for h l w :: u32 and r r' :: u64
      proof (rule ccontr)
        assume "unat h \<noteq> 0"
        then have "4294967296 \<le> unat h * 4294967296 + unat l" by simp
        then have "4294967296 * unat dv \<le> (unat h * 4294967296 + unat l) * unat dv"
          by (rule mult_le_mono1)
        moreover have "unat r * 4294967296 + 4294967296 \<le> 4294967296 * unat dv"
          using that(2) by simp
        ultimately show False using that(1) unat_lt32 [of w] by linarith
      qed
      have e1: "(unat h1 * 4294967296 + unat l1) * unat dv + unat r1 = unat r2 * 4294967296 + unat (LW1 n)"
        by (rule v1(1)) (use r2 dl in linarith)
      have e0: "(unat h0 * 4294967296 + unat l0) * unat dv + unat r0 = unat r1 * 4294967296 + unat (LW0 n)"
        by (rule v0(1)) (use r1 dl in linarith)
      have e2: "(unat h2 * 4294967296 + unat l2) * unat dv + unat r2 = unat (LW3 n) * 4294967296 + unat (LW2 n)"
        using v2(1) by simp
      have h: "h1 = 0" "h0 = 0" using small [OF e1 r2] small [OF e0 r1] by (simp_all add: unat_eq_zero)
      have "unat (ucast r0 :: u32) = unat r0" using less_trans [OF r0 dl(1)] by (simp add: unat_ucast_down)
      then show ?thesis
        using e0 e1 e2 r0 unfolding eq by (simp add: h val128_def algebra_simps)
    qed
  qed
  then show "val128 (fst (psp_div_128_by_32 n dv)) = val128 n div unat dv"
    and "unat (snd (psp_div_128_by_32 n dv)) = val128 n mod unat dv"
    by (metis div_mult_self3 div_less add.right_neutral add.commute mult.commute gr_implies_not0,
        metis mod_mult_self3 mod_less)
qed

lemma psp_add_element_val:
  "val128 (fst (psp_add_element_to_array m v)) + 2 ^ 128 * unat (snd (psp_add_element_to_array m v)) =
   val128 m + unat v"
proof -
  have st: "unat x + 4294967296 * unat cy' = unat z + unat cy" if "add_step z cy = (x, cy')" for z cy x cy'
    using that unat_add_carry [of cy z] by (auto simp: add_step_def Let_def add.commute split: if_splits)
  obtain x1 c1 where s1: "add_step (LW1 m) (if LW0 m + v < v then 1 else 0) = (x1, c1)" by fastforce
  obtain x2 c2 where s2: "add_step (LW2 m) c1 = (x2, c2)" by fastforce
  obtain x3 c3 where s3: "add_step (LW3 m) c2 = (x3, c3)" by fastforce
  have "psp_add_element_to_array m v = (\<lparr>LW0 = LW0 m + v, LW1 = x1, LW2 = x2, LW3 = x3\<rparr>, c3)"
    by (simp add: psp_add_element_to_array_def Let_def s1 s2 s3)
  then show ?thesis
    using st [OF s1] st [OF s2] st [OF s3] unat_add_carry [of "LW0 m" v]
    by (simp add: val128_def algebra_simps split: if_splits)
qed

text \<open>The value of a time in hardware ticks, and normal form.\<close>

definition tick_value :: "u32 \<Rightarrow> tick_struct \<Rightarrow> nat" where
  "tick_value hwtpt t = unat (TICKS t) * unat hwtpt + unat (HW_TICKS t)"

definition normalized :: "u32 \<Rightarrow> tick_struct \<Rightarrow> bool" where
  "normalized hwtpt t \<longleftrightarrow> HW_TICKS t < hwtpt"

lemma psp_add_ticks_parts:
  assumes "normalized hwtpt a" "normalized hwtpt b"
  shows "TICKS (psp_add_ticks hwtpt a b) =
      TICKS a + TICKS b + (if unat (HW_TICKS a) + unat (HW_TICKS b) < unat hwtpt then 0 else 1)"
    and "unat (HW_TICKS (psp_add_ticks hwtpt a b)) =
      (if unat (HW_TICKS a) + unat (HW_TICKS b) < unat hwtpt then unat (HW_TICKS a) + unat (HW_TICKS b)
       else unat (HW_TICKS a) + unat (HW_TICKS b) - unat hwtpt)"
proof -
  let ?a = "HW_TICKS a" and ?b = "HW_TICKS b"
  have lt: "unat ?a < unat hwtpt" "unat ?b < unat hwtpt"
    using assms by (simp_all add: normalized_def word_less_nat_alt)
  have d: "unat (hwtpt - ?b) = unat hwtpt - unat ?b" using lt by (intro unat_sub_noof) simp
  have c: "?a \<ge> hwtpt - ?b \<longleftrightarrow> \<not> unat ?a + unat ?b < unat hwtpt"
    unfolding word_le_nat_alt d using lt by linarith
  have 1: "unat (?a + ?b) = unat ?a + unat ?b" if "unat ?a + unat ?b < unat hwtpt"
    using that unat_lt32 [of hwtpt] by (intro unat_add_noof32) linarith
  have 2: "unat (?a + (?b - hwtpt)) = unat ?a + unat ?b - unat hwtpt"
    if "\<not> unat ?a + unat ?b < unat hwtpt"
  proof -
    have e: "?a + (?b - hwtpt) = ?a - (hwtpt - ?b)" by simp
    have "unat (?a - (hwtpt - ?b)) = unat ?a - (unat hwtpt - unat ?b)"
      using that lt d by (metis c unat_sub)
    then show ?thesis unfolding e using that lt by linarith
  qed
  show "TICKS (psp_add_ticks hwtpt a b) =
      TICKS a + TICKS b + (if unat ?a + unat ?b < unat hwtpt then 0 else 1)"
    and "unat (HW_TICKS (psp_add_ticks hwtpt a b)) =
      (if unat ?a + unat ?b < unat hwtpt then unat ?a + unat ?b else unat ?a + unat ?b - unat hwtpt)"
    using c 1 2 by (auto simp: psp_add_ticks_def Let_def)
qed

lemma psp_subtract_ticks_parts:
  assumes "normalized hwtpt a" "normalized hwtpt b"
  shows "TICKS (psp_subtract_ticks hwtpt a b) =
      TICKS a - TICKS b - (if unat (HW_TICKS b) \<le> unat (HW_TICKS a) then 0 else 1)"
    and "unat (HW_TICKS (psp_subtract_ticks hwtpt a b)) =
      (if unat (HW_TICKS b) \<le> unat (HW_TICKS a) then unat (HW_TICKS a) - unat (HW_TICKS b)
       else unat (HW_TICKS a) + unat hwtpt - unat (HW_TICKS b))"
proof -
  let ?a = "HW_TICKS a" and ?b = "HW_TICKS b"
  have lt: "unat ?a < unat hwtpt" "unat ?b < unat hwtpt"
    using assms by (simp_all add: normalized_def word_less_nat_alt)
  have 2: "unat (?a + hwtpt - ?b) = unat ?a + unat hwtpt - unat ?b" if "unat ?a < unat ?b"
  proof -
    have e: "?a + hwtpt - ?b = hwtpt - (?b - ?a)" by simp
    have d: "unat (?b - ?a) = unat ?b - unat ?a" using that by (intro unat_sub_noof) simp
    have "unat (hwtpt - (?b - ?a)) = unat hwtpt - unat (?b - ?a)"
      unfolding d [symmetric] using that lt d by (intro unat_sub_noof) linarith
    then show ?thesis unfolding e d using that lt by linarith
  qed
  show "TICKS (psp_subtract_ticks hwtpt a b) =
      TICKS a - TICKS b - (if unat ?b \<le> unat ?a then 0 else 1)"
    and "unat (HW_TICKS (psp_subtract_ticks hwtpt a b)) =
      (if unat ?b \<le> unat ?a then unat ?a - unat ?b else unat ?a + unat hwtpt - unat ?b)"
    using 2 by (auto simp: psp_subtract_ticks_def Let_def word_less_nat_alt unat_sub_noof)
qed

section \<open>Properties\<close>

text \<open>
  Adding and subtracting times. The sum of two normalized times is normalized and its
  value is the sum of the values, as long as the 64-bit tick count does not overflow;
  subtracting either summand from the sum gives back the other one, with or without overflow.
\<close>

theorem psp_add_subtract_ticks:
  assumes "normalized hwtpt a" "normalized hwtpt b"
  shows "normalized hwtpt (psp_add_ticks hwtpt a b) \<and>
    (unat (TICKS a) + unat (TICKS b) + 1 < 2 ^ 64 \<longrightarrow>
       tick_value hwtpt (psp_add_ticks hwtpt a b) = tick_value hwtpt a + tick_value hwtpt b) \<and>
    psp_subtract_ticks hwtpt (psp_add_ticks hwtpt a b) b = a \<and>
    psp_subtract_ticks hwtpt (psp_add_ticks hwtpt a b) a = b"
proof -
  let ?r = "psp_add_ticks hwtpt a b" and ?H = "unat hwtpt"
  note p = psp_add_ticks_parts [OF assms]
  have lt: "unat (HW_TICKS a) < ?H" "unat (HW_TICKS b) < ?H"
    using assms by (simp_all add: normalized_def word_less_nat_alt)
  have n: "normalized hwtpt ?r"
    unfolding normalized_def word_less_nat_alt p(2) using lt
    by (simp only: split: if_split) linarith
  have v: "tick_value hwtpt ?r = tick_value hwtpt a + tick_value hwtpt b"
    if "unat (TICKS a) + unat (TICKS b) + 1 < 2 ^ 64"
  proof -
    have 1: "unat (TICKS a + TICKS b) = unat (TICKS a) + unat (TICKS b)"
      using that by (intro unat_add_noof) simp
    have 2: "unat (TICKS a + TICKS b + 1) = unat (TICKS a) + unat (TICKS b) + 1"
      using that 1 by (subst unat_add_noof) simp_all
    show ?thesis using 1 2 lt unfolding tick_value_def p
      by (simp add: add_mult_distrib split: if_splits)
  qed
  have b: "psp_subtract_ticks hwtpt ?r x = y"
    if xy: "(x = b \<and> y = a) \<or> (x = a \<and> y = b)" for x y
  proof -
    have x: "normalized hwtpt x" using xy assms by auto
    note q = psp_subtract_ticks_parts [OF n x]
    have "TICKS (psp_subtract_ticks hwtpt ?r x) = TICKS y"
      unfolding q p using xy lt by (auto split: if_splits)
    moreover have "unat (HW_TICKS (psp_subtract_ticks hwtpt ?r x)) = unat (HW_TICKS y)"
      unfolding q p using xy lt by (auto split: if_splits)
    ultimately show ?thesis by (cases y) (simp add: word_unat_eq_iff)
  qed
  from n v b show ?thesis by blast
qed

theorem psp_add_subtract_ticks_witness:
  "psp_subtract_ticks 1000 (psp_add_ticks 1000 \<lparr>TICKS = 5, HW_TICKS = 700\<rparr> \<lparr>TICKS = 7, HW_TICKS = 600\<rparr>)
     \<lparr>TICKS = 7, HW_TICKS = 600\<rparr> = \<lparr>TICKS = 5, HW_TICKS = 700\<rparr>"
  using psp_add_subtract_ticks [of 1000 "\<lparr>TICKS = 5, HW_TICKS = 700\<rparr>" "\<lparr>TICKS = 7, HW_TICKS = 600\<rparr>"]
  by (simp add: normalized_def)

text \<open>
  Normalizing a time keeps its value and leaves less than a tick of hardware ticks.
\<close>

theorem psp_normalize_ticks_correct:
  assumes "hwtpt \<noteq> 0" "unat (TICKS t) + 2 ^ 32 \<le> 2 ^ 64"
  shows "normalized hwtpt (psp_normalize_ticks hwtpt t) \<and>
    tick_value hwtpt (psp_normalize_ticks hwtpt t) = tick_value hwtpt t"
proof (cases "HW_TICKS t \<ge> hwtpt")
  case True
  let ?n = "HW_TICKS t div hwtpt"
  have n: "unat ?n = unat (HW_TICKS t) div unat hwtpt" by (simp add: unat_div)
  have le: "unat ?n * unat hwtpt \<le> unat (HW_TICKS t)" unfolding n by (simp add: div_times_less_eq_dividend)
  then have m: "unat (?n * hwtpt) = unat ?n * unat hwtpt"
    using le_less_trans [OF le unat_lt32] by (intro unat_mult_noof) simp
  have h: "unat (HW_TICKS t - ?n * hwtpt) = unat (HW_TICKS t) mod unat hwtpt"
    using le m n by (simp add: unat_sub_noof minus_div_mult_eq_mod unat_mod)
  have "unat (TICKS t) \<le> 18446744069414584320" using assms(2) by simp
  then have "unat (TICKS t) + unat ?n < 18446744073709551616"
    using unat_lt32 [of ?n] by linarith
  then have tk: "unat (TICKS t + ucast ?n) = unat (TICKS t) + unat ?n"
    by (subst unat_add_noof) simp_all
  have "0 < unat hwtpt" using assms(1) by (simp add: unat_gt_0)
  then have "normalized hwtpt (psp_normalize_ticks hwtpt t)"
    using True h by (simp add: normalized_def psp_normalize_ticks_def Let_def word_less_nat_alt)
  moreover have "tick_value hwtpt (psp_normalize_ticks hwtpt t) = tick_value hwtpt t"
    using True h tk n by (simp add: tick_value_def psp_normalize_ticks_def Let_def add_mult_distrib)
  ultimately show ?thesis by blast
next
  case False
  then show ?thesis by (simp add: normalized_def psp_normalize_ticks_def)
qed

theorem psp_normalize_ticks_correct_witness:
  "normalized 1000 (psp_normalize_ticks 1000 \<lparr>TICKS = 5, HW_TICKS = 4700\<rparr>)"
  using psp_normalize_ticks_correct [of 1000 "\<lparr>TICKS = 5, HW_TICKS = 4700\<rparr>"] by simp

text \<open>
  The multi-word arithmetic is exact: the 128-bit product together with the word that
  overflows, the quotient with the remainder, and the sum with the carry are those of the
  natural numbers.
\<close>

theorem psp_128_bit_arithmetic:
  "val128 (fst (psp_mul_128_by_32 m k)) + 2 ^ 128 * unat (snd (psp_mul_128_by_32 m k)) = val128 m * unat k \<and>
   (d \<noteq> 0 \<longrightarrow> val128 (fst (psp_div_128_by_32 m d)) = val128 m div unat d \<and>
      unat (snd (psp_div_128_by_32 m d)) = val128 m mod unat d) \<and>
   val128 (fst (psp_add_element_to_array m v)) + 2 ^ 128 * unat (snd (psp_add_element_to_array m v)) =
     val128 m + unat v"
  using psp_mul_128_by_32_val psp_div_128_by_32_val psp_add_element_val by blast

theorem psp_128_bit_arithmetic_witness:
  "val128 (fst (psp_div_128_by_32 \<lparr>LW0 = 7, LW1 = 0, LW2 = 1, LW3 = 0\<rparr> 10)) =
     (2 ^ 64 + 7) div 10"
  using psp_128_bit_arithmetic [of "\<lparr>LW0 = 7, LW1 = 0, LW2 = 1, LW3 = 0\<rparr>" 0 10 0]
  by (simp add: val128_def)

text \<open>The signed difference.\<close>

lemma sint_cases32:
  "sint (w :: u32) = (if unat w < 2147483648 then int (unat w) else int (unat w) - 4294967296)"
proof -
  have u: "uint w = int (unat w)" by simp
  have b: "bit (uint w) 31 \<longleftrightarrow> \<not> unat w < 2147483648"
  proof -
    have "uint w div 2147483648 < 2" using unat_lt32 [of w] unfolding u by linarith
    moreover have "0 \<le> uint w div 2147483648" by (rule pos_imp_zdiv_nonneg_iff [THEN iffD2]) simp_all
    ultimately have "uint w div 2147483648 = 0 \<or> uint w div 2147483648 = 1" by linarith
    then have "odd (uint w div 2147483648) \<longleftrightarrow> 2147483648 \<le> uint w" by auto
    moreover have "2147483648 \<le> uint w \<longleftrightarrow> \<not> unat w < 2147483648"
      using of_nat_le_iff [of 2147483648 "unat w", where 'a = int] by auto
    ultimately show ?thesis by (simp add: bit_iff_odd)
  qed
  have "uint (take_bit 32 w) = take_bit 32 (uint w)" by (rule unsigned_take_bit_eq)
  then have "take_bit 32 (uint w) = uint w" using take_bit_word_eq_self [of 32 w] by simp
  then show ?thesis
    using b by (simp add: sint_uint signed_take_bit_eq_take_bit_minus del: bit_0)
qed

lemma psp_int32_halves:
  "unat ((x AND 0x80000000) OR (y AND 0x7FFFFFFF) :: u32) =
   unat x div 2147483648 * 2147483648 + unat y mod 2147483648"
proof -
  have m: "(0x7FFFFFFF :: u32) = mask 31" "(0x80000000 :: u32) = NOT (mask 31)"
    by (simp_all add: mask_eq_exp_minus_1)
  have n31: "n = 31" if "n < 32" "\<not> n < 31" for n :: nat using that by simp
  have x: "x AND 0x80000000 = push_bit 31 (drop_bit 31 x)"
    unfolding m by (rule bit_word_eqI) (auto simp: bit_simps not_less [symmetric] dest: n31)
  have y: "y AND 0x7FFFFFFF = take_bit 31 y" unfolding m by (simp add: take_bit_eq_mask)
  have d: "push_bit 31 (drop_bit 31 x) AND take_bit 31 y = 0"
    by (rule bit_word_eqI) (auto simp: bit_simps)
  have ux: "unat (push_bit 31 (drop_bit 31 x) :: u32) = unat x div 2147483648 * 2147483648"
  proof -
    have "unat x div 2147483648 * 2147483648 < 4294967296"
      using le_less_trans [OF div_times_less_eq_dividend unat_lt32] .
    then show ?thesis
      by (simp add: push_bit_eq_mult drop_bit_eq_div unat_word_ariths unat_div)
  qed
  have uy: "unat (take_bit 31 y) = unat y mod 2147483648"
    by (simp add: take_bit_eq_mod unat_mod)
  have "unat x div 2147483648 \<le> 1"
    using unat_lt32 [of x] by (simp add: less_mult_imp_div_less flip: less_Suc_eq_le)
  then have "unat (push_bit 31 (drop_bit 31 x)) + unat (take_bit 31 y) < 4294967296"
    unfolding ux uy using mod_less_divisor [of 2147483648 "unat y"] by linarith
  then show ?thesis
    unfolding x y disjunctive_add_eq_or [OF d, symmetric] using ux uy
    by (subst unat_add_noof32) simp_all
qed

text \<open>The difference as a word, and the four parts of it that the saturation test compares.\<close>

lemma int64_word_value:
  fixes d :: int
  assumes "- (2 ^ 63) \<le> d" "d < 2 ^ 63"
  shows "int (unat (word_of_int d :: u64)) = (if 0 \<le> d then d else d + 18446744073709551616)"
proof -
  have "d mod 18446744073709551616 = (if 0 \<le> d then d else d + 18446744073709551616)"
  proof (cases "0 \<le> d")
    case True
    then show ?thesis using assms(2) by simp
  next
    case False
    have "(d + 18446744073709551616) mod 18446744073709551616 = d + 18446744073709551616"
      using assms(1) False by (intro mod_pos_pos_trivial) simp_all
    with False show ?thesis by simp
  qed
  moreover have "int (unat (word_of_int d :: u64)) = d mod 18446744073709551616" by (simp add: uint_word_of_int)
  ultimately show ?thesis by (simp only:)
qed

lemma int32_parts:
  fixes r :: u64
  defines "hi \<equiv> (ucast (drop_bit 32 r) :: u32)" and "lo \<equiv> (ucast r :: u32)"
  shows "\<exists>s h l m. s < 2 \<and> l < 2 \<and> h < 2147483648 \<and> m < 2147483648
    \<and> unat r = s * 9223372036854775808 + h * 4294967296 + l * 2147483648 + m
    \<and> unat ((hi AND 0x80000000) OR (lo AND 0x7FFFFFFF)) = s * 2147483648 + m
    \<and> unat ((lo AND 0x80000000) OR (hi AND 0x7FFFFFFF)) = l * 2147483648 + h"
proof -
  have "unat r div 4294967296 < 4294967296"
    using unat_lt64 [of r] by (simp add: div_less_iff_less_mult)
  then have r: "unat r = unat hi * 4294967296 + unat lo"
    unfolding hi_def lo_def unat_ucast_down unat_drop32 by simp
  define s where "s = unat hi div 2147483648"
  define h where "h = unat hi mod 2147483648"
  define l where "l = unat lo div 2147483648"
  define m where "m = unat lo mod 2147483648"
  have "unat hi = s * 2147483648 + h" "unat lo = l * 2147483648 + m"
    unfolding s_def h_def l_def m_def by simp_all
  then have "unat r = s * 9223372036854775808 + h * 4294967296 + l * 2147483648 + m"
    using r by simp
  moreover have "s < 2" "l < 2" "h < 2147483648" "m < 2147483648"
    using unat_lt32 [of hi] unat_lt32 [of lo]
    unfolding s_def h_def l_def m_def by (simp_all add: div_less_iff_less_mult)
  moreover have "unat ((hi AND 0x80000000) OR (lo AND 0x7FFFFFFF)) = s * 2147483648 + m"
    "unat ((lo AND 0x80000000) OR (hi AND 0x7FFFFFFF)) = l * 2147483648 + h"
    unfolding psp_int32_halves s_def h_def l_def m_def by simp_all
  ultimately show ?thesis by blast
qed

text \<open>
  The 32-bit difference saturates. If the exact difference in ticks (with the borrow of
  the hardware ticks) fits into 64 bits, \<open>_psp_subtract_ticks_int32\<close> returns it clamped to the
  range of \<open>int_32\<close>, and reports an overflow exactly when it had to be clamped.
\<close>

theorem psp_subtract_ticks_int32_saturates:
  assumes "d = int (unat (TICKS a)) - int (unat (TICKS b)) - (if HW_TICKS a < HW_TICKS b then 1 else 0)"
    and "- (2 ^ 63) \<le> d" "d < 2 ^ 63"
  shows "sint (fst (psp_subtract_ticks_int32 hwtpt a b)) = max (- (2 ^ 31)) (min (2 ^ 31 - 1) d) \<and>
    (snd (psp_subtract_ticks_int32 hwtpt a b) \<longleftrightarrow> d < - (2 ^ 31) \<or> 2 ^ 31 \<le> d)"
proof -
  define r where "r = (if HW_TICKS a < HW_TICKS b then TICKS a - TICKS b - 1 else TICKS a - TICKS b)"
  define hi where "hi = (ucast (drop_bit 32 r) :: u32)"
  define lo where "lo = (ucast r :: u32)"
  define aw where "aw = (hi AND 0x80000000) OR (lo AND 0x7FFFFFFF)"
  define bw where "bw = (lo AND 0x80000000) OR (hi AND 0x7FFFFFFF)"
  have "r = word_of_int d" unfolding r_def assms(1) by simp
  then have d: "int (unat r) = (if 0 \<le> d then d else d + 18446744073709551616)"
    using int64_word_value [OF assms(2,3)] by simp
  obtain s h l m where bd: "s < 2" "l < 2" "h < 2147483648" "m < 2147483648"
    and xr: "unat r = s * 9223372036854775808 + h * 4294967296 + l * 2147483648 + m"
    and A: "unat aw = s * 2147483648 + m" and B: "unat bw = l * 2147483648 + h"
    using int32_parts [of r] unfolding aw_def bw_def hi_def lo_def by blast
  have "unat (drop_bit 31 aw) = s" using A bd by (simp add: drop_bit_eq_div unat_div)
  then have s01: "s = 0 \<and> drop_bit 31 aw = 0 \<or> s = 1 \<and> drop_bit 31 aw = 1"
    using bd(1) by (auto simp: less_2_cases_iff word_unat_eq_iff)
  then have P: "unat (drop_bit 31 aw * MAX_UINT_32) = s * 4294967295" by auto
  have fit: "drop_bit 31 aw * MAX_UINT_32 = bw \<longleftrightarrow> (if s = 0 then l = 0 \<and> h = 0 else l = 1 \<and> h = 2147483647)"
    unfolding word_unat_eq_iff P B using bd by (cases "s = 0") auto
  have eq: "psp_subtract_ticks_int32 hwtpt a b =
      (if drop_bit 31 aw * MAX_UINT_32 \<noteq> bw then (MAX_INT_32 + drop_bit 31 aw, True) else (aw, False))"
    by (simp add: psp_subtract_ticks_int32_def Let_def r_def [symmetric] hi_def lo_def aw_def bw_def)
  have d0: "d = int h * 4294967296 + int l * 2147483648 + int m - (if s = 0 then 0 else 9223372036854775808)"
  proof (cases "s = 0")
    case True
    then show ?thesis using d xr bd assms(2,3) by (auto split: if_splits)
  next
    case False
    then have "s = 1" using s01 by auto
    then show ?thesis using d xr bd assms(2,3) by (auto split: if_splits)
  qed
  show ?thesis
  proof (cases "drop_bit 31 aw * MAX_UINT_32 = bw")
    case True
    show ?thesis using s01
      by (elim disjE conjE) (use True eq fit A bd d0 in \<open>simp_all add: sint_cases32\<close>)
  next
    case False
    then have "if s = 0 then 2147483648 \<le> d else d < - 2147483648"
      using fit d0 s01 bd by (auto simp: less_2_cases_iff split: if_splits)
    with False show ?thesis using eq s01 by (auto simp: sint_cases32)
  qed
qed

theorem psp_subtract_ticks_int32_saturates_witness:
  "sint (fst (psp_subtract_ticks_int32 1000 \<lparr>TICKS = 5, HW_TICKS = 3\<rparr> \<lparr>TICKS = 5000000005, HW_TICKS = 4\<rparr>)) =
     - 2147483648"
  using psp_subtract_ticks_int32_saturates
    [of "- 5000000001" "\<lparr>TICKS = 5, HW_TICKS = 3\<rparr>" "\<lparr>TICKS = 5000000005, HW_TICKS = 4\<rparr>" 1000]
  by simp

section \<open>The fine conversions are exact\<close>

lemma u128_of_u64_val: "val128 (u128_of_u64 x) = unat x"
proof -
  have "unat x div 4294967296 < 4294967296"
    using unat_lt64 [of x] by (simp add: div_less_iff_less_mult)
  then show ?thesis
    by (simp add: u128_of_u64_def val128_def unat_ucast_down unat_drop32)
qed

lemma no_carry: "(v :: nat) + 2 ^ 128 * c = p \<Longrightarrow> p < 2 ^ 128 \<Longrightarrow> v = p"
  by (cases c) auto

lemma mul_val: "val128 m * unat k < 2 ^ 128 \<Longrightarrow> val128 (fst (psp_mul_128_by_32 m k)) = val128 m * unat k"
  by (rule no_carry [OF psp_mul_128_by_32_val])

lemma add_val: "val128 m + unat v < 2 ^ 128 \<Longrightarrow> val128 (fst (psp_add_element_to_array m v)) = val128 m + unat v"
  by (rule no_carry [OF psp_add_element_val])

lemma tick_value_bound: "tick_value hwtpt t < 2 ^ 97"
proof -
  have "unat (TICKS t) * unat hwtpt \<le> 2 ^ 64 * 2 ^ 32"
    by (rule mult_le_mono) (simp_all add: less_imp_le)
  then have "unat (TICKS t) * unat hwtpt \<le> 79228162514264337593543950336" by simp
  then have "tick_value hwtpt t < 158456325028528675187087900672"
    using unat_lt32 [of "HW_TICKS t"] unfolding tick_value_def by linarith
  then show ?thesis by simp
qed

lemma hw_ticks_val: "val128 (psp_ticks_to_hw_ticks hwtpt t) = tick_value hwtpt t"
proof -
  have b: "unat (TICKS t) * unat hwtpt + unat (HW_TICKS t) < 2 ^ 97"
    using tick_value_bound unfolding tick_value_def .
  then have "val128 (fst (psp_mul_128_by_32 (u128_of_u64 (TICKS t)) hwtpt)) = unat (TICKS t) * unat hwtpt"
    by (subst mul_val) (simp_all add: u128_of_u64_val)
  with b show ?thesis
    unfolding psp_ticks_to_hw_ticks_def Let_def tick_value_def by (subst add_val) simp_all
qed

lemma u128_word0: "unat (LW0 m) = val128 m mod 2 ^ 32"
  unfolding val128_def by (simp only: mod_mult_self2) simp

lemma u128_overflow: "(LW2 m \<noteq> 0 \<or> LW3 m \<noteq> 0 \<or> LW1 m \<noteq> 0) \<longleftrightarrow> 2 ^ 32 \<le> val128 m"
proof
  assume "LW2 m \<noteq> 0 \<or> LW3 m \<noteq> 0 \<or> LW1 m \<noteq> 0"
  then have "0 < unat (LW1 m) + 2 ^ 32 * (unat (LW2 m) + 2 ^ 32 * unat (LW3 m))"
    by (auto simp: unat_gt_0)
  then have "(2 :: nat) ^ 32 * 1 \<le> 2 ^ 32 * (unat (LW1 m) + 2 ^ 32 * (unat (LW2 m) + 2 ^ 32 * unat (LW3 m)))"
    by (intro mult_le_mono2) linarith
  then show "2 ^ 32 \<le> val128 m" unfolding val128_def nat_mult_1_right by (rule trans_le_add2)
next
  assume le: "2 ^ 32 \<le> val128 m"
  show "LW2 m \<noteq> 0 \<or> LW3 m \<noteq> 0 \<or> LW1 m \<noteq> 0"
  proof (rule ccontr)
    assume "\<not> ?thesis"
    then have "val128 m = unat (LW0 m)" by (simp add: val128_def)
    then show False using le unat_lt32 [of "LW0 m"] by simp
  qed
qed

lemma scaled_val:
  assumes "tps \<noteq> 0" "hwtpt \<noteq> 0" "val128 x + 5 < 2 ^ 128"
    and "q = (val128 x div (unat tps * unat hwtpt) + (if round then 5 else 0)) div 10"
  shows "unat (fst (psp_scaled_to_units tps hwtpt round x)) = q mod 2 ^ 32"
    and "snd (psp_scaled_to_units tps hwtpt round x) \<longleftrightarrow> 2 ^ 32 \<le> q"
proof -
  define y where "y = fst (psp_div_128_by_32 (fst (psp_div_128_by_32 x tps)) hwtpt)"
  define z where "z = (if round then fst (psp_add_element_to_array y 5) else y)"
  have y: "val128 y = val128 x div (unat tps * unat hwtpt)"
    unfolding y_def by (simp add: psp_div_128_by_32_val assms(1,2) div_mult2_eq)
  have "val128 y \<le> val128 x" unfolding y by simp
  then have z: "val128 z = val128 y + (if round then 5 else 0)"
    unfolding z_def using assms(3) add_val [of y 5] by simp
  have q: "val128 (fst (psp_div_128_by_32 z 10)) = q"
    using psp_div_128_by_32_val(1) [of 10 z] unfolding z y assms(4) by simp
  show "unat (fst (psp_scaled_to_units tps hwtpt round x)) = q mod 2 ^ 32"
    and "snd (psp_scaled_to_units tps hwtpt round x) \<longleftrightarrow> 2 ^ 32 \<le> q"
    using q unfolding psp_scaled_to_units_def Let_def
    by (simp_all only: y_def [symmetric] z_def [symmetric] fst_conv snd_conv u128_word0 u128_overflow)
qed

lemma to_milliseconds_val:
  assumes "tps \<noteq> 0" "hwtpt \<noteq> 0"
    and "q = (tick_value hwtpt t * 10000 div (unat tps * unat hwtpt) + (if round then 5 else 0)) div 10"
  shows "unat (fst (psp_ticks_to_milliseconds_round tps hwtpt round t)) = q mod 2 ^ 32"
    and "snd (psp_ticks_to_milliseconds_round tps hwtpt round t) \<longleftrightarrow> 2 ^ 32 \<le> q"
proof -
  have b: "tick_value hwtpt t * 10000 + 5 < 2 ^ 128" using tick_value_bound [of hwtpt t] by simp
  then have v: "val128 (fst (psp_mul_128_by_32 (psp_ticks_to_hw_ticks hwtpt t) 10000)) = tick_value hwtpt t * 10000"
    by (subst mul_val) (simp_all add: hw_ticks_val)
  show "unat (fst (psp_ticks_to_milliseconds_round tps hwtpt round t)) = q mod 2 ^ 32"
    and "snd (psp_ticks_to_milliseconds_round tps hwtpt round t) \<longleftrightarrow> 2 ^ 32 \<le> q"
    unfolding psp_ticks_to_milliseconds_round_def Let_def
    by (rule scaled_val [OF assms(1,2)]; use b v assms(3) in simp)+
qed

lemma to_microseconds_val:
  assumes "tps \<noteq> 0" "hwtpt \<noteq> 0"
    and "q = (tick_value hwtpt t * 10000000 div (unat tps * unat hwtpt) + (if round then 5 else 0)) div 10"
  shows "unat (fst (psp_ticks_to_microseconds_round tps hwtpt round t)) = q mod 2 ^ 32"
    and "snd (psp_ticks_to_microseconds_round tps hwtpt round t) \<longleftrightarrow> 2 ^ 32 \<le> q"
proof -
  have b: "tick_value hwtpt t * 10000000 + 5 < 2 ^ 128" using tick_value_bound [of hwtpt t] by simp
  then have v: "val128 (fst (psp_mul_128_by_32 (psp_ticks_to_hw_ticks hwtpt t) 10000000)) = tick_value hwtpt t * 10000000"
    by (subst mul_val) (simp_all add: hw_ticks_val)
  show "unat (fst (psp_ticks_to_microseconds_round tps hwtpt round t)) = q mod 2 ^ 32"
    and "snd (psp_ticks_to_microseconds_round tps hwtpt round t) \<longleftrightarrow> 2 ^ 32 \<le> q"
    unfolding psp_ticks_to_microseconds_round_def Let_def
    by (rule scaled_val [OF assms(1,2)]; use b v assms(3) in simp)+
qed

text \<open>
  C40. The conversions of ticks to milliseconds and to microseconds are exact for every 64-bit
  time: computed on 128 bits they never lose a carry, the result is the true quotient, rounded
  at the first decimal or truncated, reduced to 32 bits, and the overflow flag tells exactly
  when it does not fit.
\<close>

theorem psp_ticks_to_units_exact:
  assumes "tps \<noteq> 0" "hwtpt \<noteq> 0"
    and "ms = (tick_value hwtpt t * 10000 div (unat tps * unat hwtpt) + (if round then 5 else 0)) div 10"
    and "us = (tick_value hwtpt t * 10000000 div (unat tps * unat hwtpt) + (if round then 5 else 0)) div 10"
  shows "unat (fst (psp_ticks_to_milliseconds_round tps hwtpt round t)) = ms mod 2 ^ 32 \<and>
    (snd (psp_ticks_to_milliseconds_round tps hwtpt round t) \<longleftrightarrow> 2 ^ 32 \<le> ms) \<and>
    unat (fst (psp_ticks_to_microseconds_round tps hwtpt round t)) = us mod 2 ^ 32 \<and>
    (snd (psp_ticks_to_microseconds_round tps hwtpt round t) \<longleftrightarrow> 2 ^ 32 \<le> us)"
  using to_milliseconds_val [OF assms(1-3)] to_microseconds_val [OF assms(1,2,4)] by blast

theorem psp_ticks_to_units_exact_witness:
  "unat (fst (psp_ticks_to_milliseconds_round 200 240000 True \<lparr>TICKS = 201, HW_TICKS = 30000\<rparr>)) = 1006"
  using psp_ticks_to_units_exact [of 200 240000 1006 "\<lparr>TICKS = 201, HW_TICKS = 30000\<rparr>" True 1005625]
  by (simp add: tick_value_def)

text \<open>Rounding to the nearest hardware tick and back.\<close>

lemma rounding_roundtrip:
  fixes n k H D ms X :: nat
  assumes "0 < k" "n * H = ms * D" "10 * (k div 2) < D"
    and X: "X = n div k * H + (n mod k * H + k div 2) div k"
  shows "(X * (10 * k) div D + 5) div 10 = ms"
proof -
  define y where "y = (n mod k * H + k div 2) div k"
  have m: "y * k + (n mod k * H + k div 2) mod k = n mod k * H + k div 2"
    unfolding y_def by (rule div_mult_mod_eq)
  moreover have "(n mod k * H + k div 2) mod k < k" using assms(1) by simp
  moreover have "n div k * H * k + n mod k * H = n * H"
    by (metis add_mult_distrib div_mult_mod_eq mult.assoc mult.commute)
  ultimately have lo: "n * H \<le> X * k + k div 2" and hi: "X * k \<le> n * H + k div 2"
    unfolding X y_def [symmetric] add_mult_distrib by linarith+
  define Z where "Z = X * (10 * k)"
  have Z: "Z = 10 * (X * k)" by (simp add: Z_def)
  have lo': "10 * (ms * D) \<le> Z + 10 * (k div 2)" and hi': "Z \<le> 10 * (ms * D) + 10 * (k div 2)"
    using lo hi unfolding Z assms(2) by linarith+
  have "Z < (10 * ms + 1) * D" using hi' assms(3) by (simp add: algebra_simps)
  then have up: "Z div D < 10 * ms + 1" using assms(3) by (simp add: div_less_iff_less_mult)
  have down: "10 * ms \<le> Z div D + 1"
  proof -
    have "10 * ms * D \<le> Z + D" using lo' assms(3) by (simp add: algebra_simps)
    then have "10 * ms \<le> (Z + D) div D" using assms(3) by (simp add: less_eq_div_iff_mult_less_eq)
    moreover have "D \<noteq> 0" using assms(3) by linarith
    then have "(Z + D) div D = Z div D + 1" by (rule div_add_self2)
    ultimately show ?thesis by simp
  qed
  show ?thesis unfolding Z_def [symmetric] using up down by linarith
qed

lemma units_to_ticks_value:
  fixes n :: u64
  assumes "k = 1000 \<and> c = 500 \<or> k = 1000000 \<and> c = 500000"
    and t: "t = \<lparr>TICKS = n div k, HW_TICKS = ucast ((n mod k * ucast hwtpt + c) div k)\<rparr>"
  shows "tick_value hwtpt t = unat n div unat k * unat hwtpt + (unat n mod unat k * unat hwtpt + unat k div 2) div unat k"
proof -
  have k: "0 < unat k" "unat k \<le> 1000000" "unat c = unat k div 2" using assms(1) by auto
  have r: "unat (n mod k) = unat n mod unat k" by (simp add: unat_mod)
  let ?x = "unat n mod unat k * unat hwtpt"
  have "unat n mod unat k \<le> unat k - 1" using mod_less_divisor [OF k(1), of "unat n"] by linarith
  then have le: "?x \<le> (unat k - 1) * unat hwtpt" by (rule mult_le_mono1)
  also have "\<dots> \<le> 1000000 * 4294967296"
    by (rule mult_le_mono) (use k(2) in \<open>linarith, simp add: less_imp_le\<close>)
  finally have b: "?x + unat c < 18446744073709551616" using k by simp
  have 1: "unat (n mod k * ucast hwtpt) = ?x" using b by (subst unat_mult_noof) (simp_all add: r)
  have 2: "unat (n mod k * ucast hwtpt + c) = ?x + unat c" using b 1 by (subst unat_add_noof) simp_all
  have "(?x + unat c) div unat k < 4294967296"
  proof -
    have "(unat k - 1) * unat hwtpt \<le> unat k * unat hwtpt" by (rule mult_le_mono1) simp
    moreover have "unat c < unat k" using k by simp
    ultimately have "?x + unat c < unat k * unat hwtpt + unat k" using le by linarith
    moreover have "unat hwtpt + 1 \<le> 4294967296" using unat_lt32 [of hwtpt] by linarith
    then have "unat k * (unat hwtpt + 1) \<le> unat k * 4294967296" by (rule mult_le_mono2)
    then have "unat k * unat hwtpt + unat k \<le> 4294967296 * unat k"
      by (simp only: distrib_left mult_1_right mult.commute [of _ 4294967296])
    ultimately have "?x + unat c < 4294967296 * unat k" by linarith
    then show ?thesis using k by (simp add: div_less_iff_less_mult)
  qed
  then have "unat (ucast ((n mod k * ucast hwtpt + c) div k) :: u32) = (?x + unat c) div unat k"
    by (simp add: unat_ucast_down unat_div 2)
  then show ?thesis unfolding t tick_value_def by (simp add: unat_div k(3))
qed

text \<open>
  Converting milliseconds or microseconds to ticks and back gives the same number, for
  all 32-bit numbers, whenever the hardware clock is fast enough: above 5 kHz for
  milliseconds and above 5 MHz for microseconds (the rounding then costs less than a tenth of
  a unit).
\<close>

theorem psp_units_to_ticks_roundtrip:
  assumes "5000 < unat tps * unat hwtpt"
  shows "psp_ticks_to_milliseconds tps hwtpt (psp_msecs_to_ticks tps hwtpt ms) = (ms, False) \<and>
    (5000000 < unat tps * unat hwtpt \<longrightarrow>
       psp_ticks_to_microseconds tps hwtpt (psp_usecs_to_ticks tps hwtpt us) = (us, False))"
proof -
  let ?D = "unat tps * unat hwtpt"
  have nz: "tps \<noteq> 0" "hwtpt \<noteq> 0" using assms by auto
  have n: "unat (ucast x * ucast tps :: u64) * unat hwtpt = unat x * ?D" for x :: u32
    by (simp add: unat_mul32)
  let ?t = "psp_msecs_to_ticks tps hwtpt ms"
  have v: "tick_value hwtpt ?t = unat (ucast ms * ucast tps :: u64) div 1000 * unat hwtpt +
      (unat (ucast ms * ucast tps :: u64) mod 1000 * unat hwtpt + 1000 div 2) div 1000"
    using units_to_ticks_value [of 1000 500 ?t "ucast ms * ucast tps" hwtpt]
    by (simp add: psp_msecs_to_ticks_def Let_def)
  have "(tick_value hwtpt ?t * (10 * 1000) div ?D + 5) div 10 = unat ms"
    by (rule rounding_roundtrip [OF _ n _ v]) (use assms in simp_all)
  then have "unat ms = (tick_value hwtpt ?t * 10000 div ?D + (if True then 5 else 0)) div 10" by simp
  from to_milliseconds_val [OF nz this]
  have 1: "psp_ticks_to_milliseconds tps hwtpt ?t = (ms, False)"
    by (simp add: psp_ticks_to_milliseconds_def prod_eq_iff word_unat_eq_iff not_le)
  let ?u = "psp_usecs_to_ticks tps hwtpt us"
  have v: "tick_value hwtpt ?u = unat (ucast us * ucast tps :: u64) div 1000000 * unat hwtpt +
      (unat (ucast us * ucast tps :: u64) mod 1000000 * unat hwtpt + 1000000 div 2) div 1000000"
    using units_to_ticks_value [of 1000000 500000 ?u "ucast us * ucast tps" hwtpt]
    by (simp add: psp_usecs_to_ticks_def Let_def)
  have 2: "psp_ticks_to_microseconds tps hwtpt ?u = (us, False)" if "5000000 < ?D"
  proof -
    have "(tick_value hwtpt ?u * (10 * 1000000) div ?D + 5) div 10 = unat us"
      by (rule rounding_roundtrip [OF _ n _ v]) (use that in simp_all)
    then have "unat us = (tick_value hwtpt ?u * 10000000 div ?D + (if True then 5 else 0)) div 10" by simp
    from to_microseconds_val [OF nz this] show ?thesis
      by (simp add: psp_ticks_to_microseconds_def prod_eq_iff word_unat_eq_iff not_le)
  qed
  from 1 2 show ?thesis by blast
qed

theorem psp_units_to_ticks_roundtrip_witness:
  "psp_ticks_to_milliseconds 200 600000 (psp_msecs_to_ticks 200 600000 4294967295) = (4294967295, False)"
  using psp_units_to_ticks_roundtrip [of 200 600000] by simp

text \<open>The cache of the quick conversion is consistent with the tick rate.\<close>

definition quick_cache_ok :: "u32 \<Rightarrow> quick_cache \<Rightarrow> bool" where
  "quick_cache_ok tps c \<longleftrightarrow> heuristic c \<noteq> 1 \<or> unat (ms_per_tick c) * unat tps = 1000"

text \<open>
  The quick conversion of milliseconds, which divides by a cached number of milliseconds
  per tick when that is a whole number, computes the same whole ticks as the multiplication
  of the slow path, and keeps its cache consistent; before the first call it is.
\<close>

theorem psp_msecs_to_ticks_quick_correct:
  assumes "quick_cache_ok tps c" "psp_msecs_to_ticks_quick tps ms c = (t, c')"
  shows "unat (TICKS t) = unat ms * unat tps div 1000 \<and> HW_TICKS t = 0 \<and>
    quick_cache_ok tps c' \<and> heuristic c' \<in> {1, 2}"
proof -
  have slow: "unat (ucast ms * ucast tps div 1000 :: u64) = unat ms * unat tps div 1000"
    by (simp add: unat_div unat_mul32)
  have fast: "unat (ms div m) = unat ms * unat tps div 1000" if "unat m * unat tps = 1000" for m
  proof -
    have "0 < unat tps" using that by (cases "unat tps") auto
    then have "unat ms * unat tps div (unat m * unat tps) = unat ms div unat m" by simp
    then show ?thesis unfolding that by (simp add: unat_div)
  qed
  let ?m = "1000 div tps"
  have first: "unat ?m * unat tps = 1000" if "?m * tps = 1000"
  proof -
    have "unat ?m * unat tps \<le> 1000" by (simp add: unat_div)
    then have "unat (?m * tps) = unat ?m * unat tps" by (intro unat_mult_noof) simp
    then show ?thesis by (simp add: that)
  qed
  consider "heuristic c = 1" | "heuristic c = 2" | "heuristic c \<notin> {1, 2}" "?m * tps = 1000"
    | "heuristic c \<notin> {1, 2}" "?m * tps \<noteq> 1000" by blast
  then show ?thesis
    using assms slow fast first
    by cases (auto simp: psp_msecs_to_ticks_quick_def quick_cache_ok_def Let_def)
qed

theorem psp_msecs_to_ticks_quick_correct_witness:
  "unat (TICKS (fst (psp_msecs_to_ticks_quick 200 1234 \<lparr>ms_per_tick = 0, heuristic = 0\<rparr>))) = 1234 * 200 div 1000"
  using psp_msecs_to_ticks_quick_correct [of 200 "\<lparr>ms_per_tick = 0, heuristic = 0\<rparr>" 1234
      "fst (psp_msecs_to_ticks_quick 200 1234 \<lparr>ms_per_tick = 0, heuristic = 0\<rparr>)"
      "snd (psp_msecs_to_ticks_quick 200 1234 \<lparr>ms_per_tick = 0, heuristic = 0\<rparr>)"]
  by (simp add: quick_cache_ok_def)

end
