(* ===== verification/Calendar.thy ===== *)
theory Calendar
  imports Ticks
begin

text \<open>
  Calendar time: \<^verbatim>\<open>_time_from_date\<close>, \<^verbatim>\<open>_time_to_date\<close>, \<^verbatim>\<open>_time_check_if_leap\<close>, \<^verbatim>\<open>_time_diff\<close>,
  \<^verbatim>\<open>_time_to_ticks\<close> and \<^verbatim>\<open>_ticks_to_time\<close> of \<^verbatim>\<open>src/mqx/source/kernel/time.c\<close> over the tables of
  \<^verbatim>\<open>time_tables.c\<close>. The specification is the proleptic Gregorian calendar, defined by
  counting the days of years and months. A pointer argument is an \<open>option\<close>, \<open>None\<close> for
  \<open>NULL\<close>, and so are the structures a function leaves behind it; a function whose whole
  result is \<open>None\<close> has read outside one of the tables.
\<close>

section \<open>The tables\<close>

definition time_days_in_month_internal :: "bool \<Rightarrow> u16 list" where
  "time_days_in_month_internal leap =
     (if leap then [0, 31, 29, 31, 30, 31, 30, 31, 31, 30, 31, 30, 31]
      else [0, 31, 28, 31, 30, 31, 30, 31, 31, 30, 31, 30, 31])"

definition time_secs_before_month_internal :: "bool \<Rightarrow> u32 list" where
  "time_secs_before_month_internal leap =
     map (\<lambda>days. days * 86400)
       (if leap then [0, 31, 60, 91, 121, 152, 182, 213, 244, 274, 305, 335]
        else [0, 31, 59, 90, 120, 151, 181, 212, 243, 273, 304, 334]) @ [MAX_UINT_32]"

text \<open>
  The entries are written as the source writes them: a year \<open>y\<close> and a count \<open>n\<close> of leap days
  stand for \<open>(y - 1970) * SECS_IN_YEAR + n * SECS_IN_DAY\<close>. The entry between those of 1994
  and 1996 is the source's.
\<close>

definition secs_before_year_entries :: "(nat \<times> nat) list" where
  "secs_before_year_entries = [
    (1970, 0), (1971, 0), (1972, 0), (1973, 1), (1974, 1), (1975, 1), (1976, 1), (1977, 2),
    (1978, 2), (1979, 2), (1980, 2), (1981, 3), (1982, 3), (1983, 3), (1984, 3), (1985, 4),
    (1986, 4), (1987, 4), (1988, 4), (1989, 5), (1990, 5), (1991, 5), (1992, 5), (1993, 6),
    (1994, 6), (1996, 6), (1996, 6), (1997, 7), (1998, 7), (1999, 7), (2000, 7), (2001, 8),
    (2002, 8), (2003, 8), (2004, 8), (2005, 9), (2006, 9), (2007, 9), (2008, 9), (2009, 10),
    (2010, 10), (2011, 10), (2012, 10), (2013, 11), (2014, 11), (2015, 11), (2016, 11),
    (2017, 12), (2018, 12), (2019, 12), (2020, 12), (2021, 13), (2022, 13), (2023, 13),
    (2024, 13), (2025, 14), (2026, 14), (2027, 14), (2028, 14), (2029, 15), (2030, 15),
    (2031, 15), (2032, 15), (2033, 16), (2034, 16), (2035, 16), (2036, 16), (2037, 17),
    (2038, 17), (2039, 17), (2040, 17), (2041, 18), (2042, 18), (2043, 18), (2044, 18),
    (2045, 19), (2046, 19), (2047, 19), (2048, 19), (2049, 20), (2050, 20), (2051, 20),
    (2052, 20), (2053, 21), (2054, 21), (2055, 21), (2056, 21), (2057, 22), (2058, 22),
    (2059, 22), (2060, 22), (2061, 23), (2062, 23), (2063, 23), (2064, 23), (2065, 24),
    (2066, 24), (2067, 24), (2068, 24), (2069, 25), (2070, 25), (2071, 25), (2072, 25),
    (2073, 26), (2074, 26), (2075, 26), (2076, 26), (2077, 27), (2078, 27), (2079, 27),
    (2080, 27), (2081, 28), (2082, 28), (2083, 28), (2084, 28), (2085, 29), (2086, 29),
    (2087, 29), (2088, 29), (2089, 30), (2090, 30), (2091, 30), (2092, 30), (2093, 31),
    (2094, 31), (2095, 31), (2096, 31), (2097, 32), (2098, 32), (2099, 32)]"

definition time_secs_before_year_internal :: "u32 list" where
  "time_secs_before_year_internal =
     map (\<lambda>(y, n). of_nat ((y - 1970) * 31536000 + n * 86400)) secs_before_year_entries @ [MAX_UINT_32]"

text \<open>Reading a table: \<open>None\<close> outside its bounds.\<close>

definition entry :: "'a list \<Rightarrow> nat \<Rightarrow> 'a option" where
  "entry xs i = (if i < length xs then Some (xs ! i) else None)"

text \<open>
  The loop \<open>while (s >= table[i]) i++\<close>, with which the source looks for a year or a month.
\<close>

function first_above :: "u32 list \<Rightarrow> u32 \<Rightarrow> nat \<Rightarrow> nat option" where
  "first_above table s i =
     (case entry table i of
        None \<Rightarrow> None
      | Some t \<Rightarrow> if s \<ge> t then first_above table s (i + 1) else Some i)"
  by pat_completeness auto

termination
  by (relation "measure (\<lambda>(table, s, i). length table - i)") (auto simp: entry_def split: if_splits)

declare first_above.simps [simp del]

section \<open>Dates\<close>

record date_struct =
  YEAR :: u16
  MONTH :: u16
  DAY :: u16
  HOUR :: u16
  MINUTE :: u16
  SECOND :: u16
  MILLISEC :: u16

definition time_check_if_leap :: "u16 \<Rightarrow> bool" where
  "time_check_if_leap year =
     (if year mod 100 = 0 then (if year mod 400 = 0 then True else False)
      else (if year mod 4 = 0 then True else False))"

text \<open>
  The loop that moves whole months out of the day of the month. It is the same code in
  \<open>_time_from_date\<close> and \<open>_time_normalize_xdate\<close>, over the year, the month and the day of
  their structures.
\<close>

definition next_month :: "u16 \<Rightarrow> u16 \<times> u16 \<times> u16 \<Rightarrow> u16 \<times> u16 \<times> u16" where
  "next_month n ymd =
     (case ymd of (year, month, day) \<Rightarrow>
        (let day = day - n; month = month + 1
         in if month > 12 then (year + month div 12, month mod 12, day) else (year, month, day)))"

function carry_days :: "u16 \<times> u16 \<times> u16 \<Rightarrow> (u16 \<times> u16 \<times> u16) option" where
  "carry_days (year, month, day) =
     (case entry (time_days_in_month_internal (time_check_if_leap year)) (unat month) of
        None \<Rightarrow> None
      | Some n \<Rightarrow>
          if day > n then carry_days (next_month n (year, month, day)) else Some (year, month, day))"
  by pat_completeness auto

lemma month_entry:
  assumes "entry (time_days_in_month_internal leap) (unat (month :: u16)) = Some n"
  shows "unat month \<le> 12" "month = 0 \<Longrightarrow> n = 0" "month \<noteq> 0 \<Longrightarrow> 28 \<le> unat n"
proof -
  have lt: "unat month < 13"
    using assms by (auto simp: entry_def time_days_in_month_internal_def split: if_splits)
  then have "unat month = 0 \<or> unat month = 1 \<or> unat month = 2 \<or> unat month = 3 \<or> unat month = 4 \<or>
    unat month = 5 \<or> unat month = 6 \<or> unat month = 7 \<or> unat month = 8 \<or> unat month = 9 \<or>
    unat month = 10 \<or> unat month = 11 \<or> unat month = 12" by arith
  then show "unat month \<le> 12" "month = 0 \<Longrightarrow> n = 0" "month \<noteq> 0 \<Longrightarrow> 28 \<le> unat n"
    using assms by (auto simp: entry_def time_days_in_month_internal_def unat_eq_0 split: if_splits)
qed

termination carry_days
proof (relation "measure (\<lambda>(year, month, day). 2 * unat day + (if month = 0 then 1 else 0))", goal_cases)
  case 1
  show ?case by simp
next
  case (2 year month day n)
  note e = month_entry [OF 2(1)]
  have d: "unat (day - n) = unat day - unat n" "unat n \<le> unat day" "0 < unat day"
    using 2(2) by (auto simp: unat_sub word_less_nat_alt order_less_imp_le)
  show ?case
  proof (cases "month = 0")
    case True
    then show ?thesis using e(2) by (simp add: next_month_def Let_def)
  next
    case False
    then have "Suc (2 * (unat day - unat n)) < 2 * unat day" using e(3) d by arith
    then show ?thesis using d by (simp add: next_month_def Let_def)
  qed
qed

declare carry_days.simps [simp del]

text \<open>
  \<open>_time_from_date\<close>. The carries from the milliseconds up to the days, on 16-bit fields; the
  test of the day; the carry of the month; the clamp of the year; the loop; then the seconds.
\<close>

definition carry_fields :: "date_struct \<Rightarrow> date_struct" where
  "carry_fields d =
     (let d = (if MILLISEC d \<ge> 1000
               then d\<lparr>SECOND := SECOND d + MILLISEC d div 1000, MILLISEC := MILLISEC d mod 1000\<rparr> else d);
          d = (if SECOND d \<ge> 60
               then d\<lparr>MINUTE := MINUTE d + SECOND d div 60, SECOND := SECOND d mod 60\<rparr> else d);
          d = (if MINUTE d \<ge> 60
               then d\<lparr>HOUR := HOUR d + MINUTE d div 60, MINUTE := MINUTE d mod 60\<rparr> else d)
      in if HOUR d \<ge> 24 then d\<lparr>DAY := DAY d + HOUR d div 24, HOUR := HOUR d mod 24\<rparr> else d)"

definition date_to_seconds :: "date_struct \<Rightarrow> u32 option" where
  "date_to_seconds d =
     (if unat (YEAR d) < 1970 \<or> MONTH d = 0 then None
      else
        (case (entry time_secs_before_year_internal (unat (YEAR d) - 1970),
               entry (time_secs_before_month_internal (time_check_if_leap (YEAR d))) (unat (MONTH d) - 1)) of
           (Some y, Some m) \<Rightarrow>
             Some (y + m + (ucast (DAY d) - 1) * 86400 + ucast (HOUR d) * 3600 + ucast (MINUTE d) * 60
                   + ucast (SECOND d))
         | _ \<Rightarrow> None))"

definition time_from_date ::
  "date_struct option \<Rightarrow> time_struct option \<Rightarrow> (bool \<times> date_struct option \<times> time_struct option) option" where
  "time_from_date time_ptr ts_ptr =
     (case (time_ptr, ts_ptr) of
        (Some d, Some ts) \<Rightarrow>
          (let d = carry_fields d
           in if DAY d < 1 then Some (False, Some d, Some ts)
              else
                (let d = (if MONTH d > 12
                          then d\<lparr>YEAR := YEAR d + MONTH d div 12, MONTH := MONTH d mod 12\<rparr> else d);
                     d = (if YEAR d < 1970 then d\<lparr>YEAR := 1970\<rparr> else d)
                 in case carry_days (YEAR d, MONTH d, DAY d) of
                      None \<Rightarrow> None
                    | Some (year, month, day) \<Rightarrow>
                        (let d = d\<lparr>YEAR := year, MONTH := month, DAY := day\<rparr>
                         in if YEAR d > 2239 then Some (False, Some d, Some ts)
                            else
                              (case date_to_seconds d of
                                 None \<Rightarrow> None
                               | Some time \<Rightarrow>
                                   Some (True, Some d,
                                     Some \<lparr>SECONDS = time, MILLISECONDS = ucast (MILLISEC d)\<rparr>)))))
      | _ \<Rightarrow> Some (False, time_ptr, ts_ptr))"

text \<open>
  \<open>_time_to_date\<close>: the year and the month are looked for in the tables, from the entry after
  the first.
\<close>

definition seconds_to_date :: "u32 \<Rightarrow> u32 \<Rightarrow> date_struct option" where
  "seconds_to_date seconds ms =
     (case first_above time_secs_before_year_internal seconds 1 of
        None \<Rightarrow> None
      | Some i \<Rightarrow>
          (let time = seconds - time_secs_before_year_internal ! (i - 1);
               year = of_nat (i - 1) + 1970;
               table = time_secs_before_month_internal (time_check_if_leap year)
           in case first_above table time 1 of
                None \<Rightarrow> None
              | Some month \<Rightarrow>
                  (let time = time - table ! (month - 1);
                       day = ucast (time div 86400) :: u16;
                       time = time - ucast day * 86400;
                       hour = ucast (time div 3600) :: u16;
                       time = time - ucast hour * 3600;
                       minute = ucast (time div 60) :: u16;
                       time = time - ucast minute * 60
                   in Some \<lparr>YEAR = year, MONTH = of_nat month, DAY = day + 1, HOUR = hour,
                            MINUTE = minute, SECOND = ucast time, MILLISEC = ucast ms\<rparr>)))"

definition time_to_date ::
  "time_struct option \<Rightarrow> date_struct option \<Rightarrow> (bool \<times> date_struct option) option" where
  "time_to_date ts_ptr time_ptr =
     (case (ts_ptr, time_ptr) of
        (Some ts, Some d) \<Rightarrow>
          if SECONDS ts > 4102444800 \<or> MILLISECONDS ts > 999 then Some (False, Some d)
          else
            (case seconds_to_date (SECONDS ts) (MILLISECONDS ts) of
               None \<Rightarrow> None
             | Some d \<Rightarrow> Some (True, Some d))
      | _ \<Rightarrow> Some (False, time_ptr))"

text \<open>Differences of times and the conversions between the two formats of a time.\<close>

definition time_diff :: "time_struct \<Rightarrow> time_struct \<Rightarrow> time_struct" where
  "time_diff start_time end_time =
     (let temp = end_time;
          temp = (if MILLISECONDS temp < MILLISECONDS start_time
                  then temp\<lparr>MILLISECONDS := MILLISECONDS temp + 1000, SECONDS := SECONDS temp - 1\<rparr> else temp);
          temp = temp\<lparr>SECONDS := SECONDS temp - SECONDS start_time,
                      MILLISECONDS := MILLISECONDS temp - MILLISECONDS start_time\<rparr>
      in if MILLISECONDS temp > 1000
         then temp\<lparr>SECONDS := SECONDS temp + MILLISECONDS temp div 1000,
                   MILLISECONDS := MILLISECONDS temp mod 1000\<rparr>
         else temp)"

definition time_to_ticks ::
  "u32 \<Rightarrow> u32 \<Rightarrow> time_struct option \<Rightarrow> tick_struct option \<Rightarrow> bool \<times> tick_struct option" where
  "time_to_ticks tps hwtpt time_ptr tick_ptr =
     (case (time_ptr, tick_ptr) of
        (Some t, Some _) \<Rightarrow> (True, Some (psp_time_to_ticks tps hwtpt t))
      | _ \<Rightarrow> (False, tick_ptr))"

definition ticks_to_time ::
  "u32 \<Rightarrow> u32 \<Rightarrow> tick_struct option \<Rightarrow> time_struct option \<Rightarrow> bool \<times> time_struct option" where
  "ticks_to_time tps hwtpt tick_ptr time_ptr =
     (case (tick_ptr, time_ptr) of
        (Some t, Some _) \<Rightarrow> (True, Some (snd (psp_ticks_to_time tps hwtpt t)))
      | _ \<Rightarrow> (False, time_ptr))"

section \<open>The Gregorian calendar\<close>

definition leap_year :: "nat \<Rightarrow> bool" where
  "leap_year y \<longleftrightarrow> y mod 4 = 0 \<and> (y mod 100 \<noteq> 0 \<or> y mod 400 = 0)"

definition month_days :: "bool \<Rightarrow> nat \<Rightarrow> nat" where
  "month_days leap m = (if m = 2 then (if leap then 29 else 28) else if m \<in> {4, 6, 9, 11} then 30 else 31)"

primrec days_before_month :: "bool \<Rightarrow> nat \<Rightarrow> nat" where
  "days_before_month leap 0 = 0"
| "days_before_month leap (Suc m) = (if m = 0 then 0 else days_before_month leap m + month_days leap m)"

primrec days_before_year :: "nat \<Rightarrow> nat" where
  "days_before_year 0 = 0"
| "days_before_year (Suc y) = days_before_year y + (if leap_year y then 366 else 365)"

text \<open>The day of a date, counted from 1 January of year 0, which is day 1.\<close>

definition day_number :: "nat \<Rightarrow> nat \<Rightarrow> nat \<Rightarrow> nat" where
  "day_number y m d = days_before_year y + days_before_month (leap_year y) m + d"

lemma days_before_year_gregorian:
  "days_before_year y + (y + 99) div 100 = 365 * y + (y + 3) div 4 + (y + 399) div 400"
proof (induction y)
  case 0
  show ?case by simp
next
  case (Suc y)
  have step: "(Suc y + k) div (k + 1) = (y + k) div (k + 1) + (if y mod (k + 1) = 0 then 1 else 0)" for k
    using div_Suc [of "y + k" "k + 1"] mod_add_self2 [of y "k + 1"] by (simp del: mod_add_self2)
  have "4 dvd y" if "100 dvd y" by (rule dvd_trans [OF _ that]) simp
  moreover have "100 dvd y" if "400 dvd y" by (rule dvd_trans [OF _ that]) simp
  ultimately show ?case
    using Suc step [of 3] step [of 99] step [of 399]
    by (auto simp: leap_year_def mod_eq_0_iff_dvd split: if_splits)
qed

text \<open>Up to 2100, a leap day every fourth year.\<close>

lemma days_before_year_from_1970:
  assumes "k \<le> 130"
  shows "days_before_year (1970 + k) = 719528 + 365 * k + (k + 1) div 4"
proof -
  have "(1970 + k + 399) div 400 = (1970 + k + 99) div 100 - 15"
  proof (cases "k < 31")
    case True
    then have "(1970 + k + 399) div 400 = 5" "(1970 + k + 99) div 100 = 20"
      by (intro div_nat_eqI; simp)+
    then show ?thesis by simp
  next
    case False
    then have "(1970 + k + 399) div 400 = 6" "(1970 + k + 99) div 100 = 21"
      using assms by (intro div_nat_eqI; simp)+
    then show ?thesis by simp
  qed
  moreover have "15 \<le> (1970 + k + 99) div 100"
    using div_le_mono [of 1500 "1970 + k + 99" 100] by simp
  moreover have "(1970 + k + 3) div 4 = 493 + (k + 1) div 4" by simp
  ultimately show ?thesis using days_before_year_gregorian [of "1970 + k"] by simp
qed

lemma days_before_year_mono: "y \<le> z \<Longrightarrow> days_before_year y + 365 * (z - y) \<le> days_before_year z"
  by (induction z) (auto simp: le_Suc_eq Suc_diff_le)

lemma days_before_year_less: "days_before_year y + 365 \<le> days_before_year z \<longleftrightarrow> y < z"
proof
  assume "y < z"
  then show "days_before_year y + 365 \<le> days_before_year z"
    using days_before_year_mono [of "Suc y" z] by (simp split: if_splits)
next
  assume le: "days_before_year y + 365 \<le> days_before_year z"
  show "y < z"
  proof (rule ccontr)
    assume "\<not> y < z"
    then show False using days_before_year_mono [of z y] le by simp
  qed
qed

lemma days_before_month_last: "days_before_month leap 12 + 31 = (if leap then 366 else 365)"
  by (simp add: eval_nat_numeral month_days_def)

text \<open>The entries of the tables, year by year and month by month.\<close>

lemma secs_before_year_entries_eq:
  "secs_before_year_entries = map (\<lambda>k. (if k = 25 then 1996 else 1970 + k, (k + 1) div 4)) [0..<130]"
  by (simp add: secs_before_year_entries_def upt_rec [of 0] upt_rec [of "Suc 0"] flip: numeral_2_eq_2)

definition secs_at :: "nat \<Rightarrow> nat" where
  "secs_at k = 86400 * (days_before_year (1970 + k) - 719528)"

lemma secs_at_eq: "k \<le> 130 \<Longrightarrow> secs_at k = 31536000 * k + 86400 * ((k + 1) div 4)"
  by (simp add: secs_at_def days_before_year_from_1970)

lemma secs_before_year_length [simp]: "length time_secs_before_year_internal = 131"
  by (simp add: time_secs_before_year_internal_def secs_before_year_entries_eq)

lemma secs_before_year_nth:
  "k < 130 \<Longrightarrow> time_secs_before_year_internal ! k = of_nat (secs_at (if k = 25 then 26 else k))"
  by (simp add: time_secs_before_year_internal_def secs_before_year_entries_eq nth_append secs_at_eq
      algebra_simps)

lemma secs_before_year_last: "time_secs_before_year_internal ! 130 = MAX_UINT_32"
  by (simp add: time_secs_before_year_internal_def secs_before_year_entries_eq nth_append)

lemma months_cases:
  assumes "1 \<le> m" "m \<le> 12"
  obtains "m = 1" | "m = 2" | "m = 3" | "m = 4" | "m = 5" | "m = 6" | "m = 7" | "m = 8" | "m = 9" |
    "m = 10" | "m = 11" | "m = (12 :: nat)"
proof -
  have "m = 1 \<or> m = 2 \<or> m = 3 \<or> m = 4 \<or> m = 5 \<or> m = 6 \<or> m = 7 \<or> m = 8 \<or> m = 9 \<or> m = 10 \<or>
    m = 11 \<or> m = 12"
    using assms by arith
  then show thesis using that by blast
qed

lemma days_in_month_nth:
  assumes "1 \<le> m" "m \<le> 12"
  shows "entry (time_days_in_month_internal leap) m = Some (of_nat (month_days leap m))"
  by (rule months_cases [OF assms]; simp add: entry_def time_days_in_month_internal_def month_days_def)

lemma secs_before_month_length [simp]: "length (time_secs_before_month_internal leap) = 13"
  by (simp add: time_secs_before_month_internal_def)

lemma days_before_month_values [simp]:
  "days_before_month leap 1 = 0"
  "days_before_month leap 2 = 31"
  "days_before_month leap 3 = (if leap then 60 else 59)"
  "days_before_month leap 4 = (if leap then 91 else 90)"
  "days_before_month leap 5 = (if leap then 121 else 120)"
  "days_before_month leap 6 = (if leap then 152 else 151)"
  "days_before_month leap 7 = (if leap then 182 else 181)"
  "days_before_month leap 8 = (if leap then 213 else 212)"
  "days_before_month leap 9 = (if leap then 244 else 243)"
  "days_before_month leap 10 = (if leap then 274 else 273)"
  "days_before_month leap 11 = (if leap then 305 else 304)"
  "days_before_month leap 12 = (if leap then 335 else 334)"
  by (simp_all add: eval_nat_numeral month_days_def)

lemma days_before_month_Suc: "1 \<le> m \<Longrightarrow> days_before_month leap (Suc m) = days_before_month leap m + month_days leap m"
  by simp

lemma days_before_month_mono: "i \<le> j \<Longrightarrow> days_before_month leap i \<le> days_before_month leap j"
  by (rule lift_Suc_mono_le [of "days_before_month leap"]) (cases, auto)

declare days_before_month.simps [simp del]

lemma days_before_month_0 [simp]: "days_before_month leap 0 = 0" "days_before_month leap (Suc 0) = 0"
  "days_before_month leap (Suc (Suc 0)) = 31"
  by (simp_all add: days_before_month.simps month_days_def)

lemma secs_before_month_nth:
  assumes "1 \<le> m" "m \<le> 12"
  shows "time_secs_before_month_internal leap ! (m - 1) = of_nat (86400 * days_before_month leap m)"
  by (rule months_cases [OF assms]; simp add: time_secs_before_month_internal_def del: One_nat_def)

lemma secs_before_month_last: "time_secs_before_month_internal leap ! 12 = MAX_UINT_32"
  by (simp add: time_secs_before_month_internal_def)

lemma time_check_if_leap_eq: "time_check_if_leap y = leap_year (unat y)"
proof -
  have z: "y mod n = 0 \<longleftrightarrow> unat y mod unat n = 0" for n :: u16
    by (simp add: unat_mod flip: unat_eq_0)
  have "unat y mod 100 = 0 \<Longrightarrow> unat y mod 4 = 0" by presburger
  then show ?thesis by (auto simp: time_check_if_leap_def leap_year_def z)
qed

lemma month_days_bounds: "28 \<le> month_days leap m" "month_days leap m \<le> 31"
  by (auto simp: month_days_def)

lemma day_number_next_month:
  "1 \<le> m \<Longrightarrow> day_number y (Suc m) d = day_number y m (month_days (leap_year y) m + d)"
  by (simp add: day_number_def days_before_month_Suc)

lemma day_number_next_year: "day_number (Suc y) 1 d = day_number y 12 (31 + d)"
  using days_before_month_last [of "leap_year y"] by (simp add: day_number_def split: if_splits)

section \<open>The loop of the days\<close>

definition valid_day :: "nat \<Rightarrow> nat \<Rightarrow> nat \<Rightarrow> bool" where
  "valid_day y m d \<longleftrightarrow> 1 \<le> m \<and> m \<le> 12 \<and> 1 \<le> d \<and> d \<le> month_days (leap_year y) m"

lemma valid_day_iff_number:
  assumes "valid_day y m d"
  shows "days_before_year y < day_number y m d" "day_number y m d \<le> days_before_year (Suc y)"
proof -
  have m: "1 \<le> m" "m \<le> 12" using assms by (auto simp: valid_day_def)
  show "days_before_year y < day_number y m d" "day_number y m d \<le> days_before_year (Suc y)"
    using assms
    by (rule_tac [!] months_cases [OF m]; auto simp: valid_day_def day_number_def month_days_def split: if_splits)+
qed

text \<open>One turn of the loop keeps the number of the day.\<close>

lemma next_month_day_number:
  assumes m: "1 \<le> unat month" "unat month \<le> 12"
    and gt: "of_nat (month_days (leap_year (unat year)) (unat month)) < day"
    and bound: "day_number (unat year) (unat month) (unat day) \<le> days_before_year 65535"
  obtains y m d where "next_month (of_nat (month_days (leap_year (unat year)) (unat month))) (year, month, day) = (y, m, d)"
    and "1 \<le> unat m" "unat m \<le> 12" "1 \<le> unat d" "year \<le> y"
    and "day_number (unat y) (unat m) (unat d) = day_number (unat year) (unat month) (unat day)"
proof -
  define n where "n = month_days (leap_year (unat year)) (unat month)"
  have n: "n \<le> 31" by (simp add: n_def month_days_bounds)
  have un: "unat (of_nat n :: u16) = n" using n by (simp add: unat_of_nat)
  have gt': "n < unat day" using gt un by (simp add: word_less_nat_alt flip: n_def)
  then have day: "unat (day - of_nat n) = unat day - n"
    using un by (simp add: unat_sub word_le_nat_alt)
  have mon: "unat (month + 1) = unat month + 1"
    using m by (subst unat_add_lem [THEN iffD1]) auto
  show thesis
  proof (cases "unat month = 12")
    case False
    then have "\<not> 12 < month + 1" using m mon by (simp add: word_less_nat_alt)
    then have "next_month (of_nat n) (year, month, day) = (year, month + 1, day - of_nat n)"
      by (simp add: next_month_def Let_def)
    moreover have "day_number (unat year) (unat (month + 1)) (unat (day - of_nat n)) =
      day_number (unat year) (unat month) (unat day)"
      using day_number_next_month [of "unat month" "unat year" "unat day - n"] m gt' mon day
      by (simp add: n_def)
    ultimately show thesis using that False m mon day gt' by (simp add: n_def)
  next
    case True
    then have month: "month = 12" by (simp add: word_unat_eq_iff)
    have "n = 31" using True by (simp add: n_def month_days_def)
    have "unat year < 65535"
    proof (rule ccontr)
      assume "\<not> unat year < 65535"
      then have "days_before_year 65535 \<le> days_before_year (unat year)"
        using days_before_year_mono [of 65535 "unat year"] by simp
      then show False
        using bound gt' \<open>n = 31\<close> True by (simp add: day_number_def split: if_splits)
    qed
    then have yr: "unat (year + 1) = Suc (unat year)" by (simp add: unat_add_lem [THEN iffD1])
    have "next_month (of_nat n) (year, month, day) = (year + 1, 1, day - of_nat n)"
      by (simp add: next_month_def Let_def month)
    moreover have "day_number (unat (year + 1)) 1 (unat (day - of_nat n)) =
      day_number (unat year) (unat month) (unat day)"
      using day_number_next_year [of "unat year" "unat day - n"] yr day gt' \<open>n = 31\<close> True by simp
    moreover have "year \<le> year + 1" using yr by (simp add: word_le_nat_alt)
    ultimately show thesis using that day gt' by (simp add: n_def)
  qed
qed

lemma carry_days_correct:
  assumes "1 \<le> unat month" "unat month \<le> 12" "1 \<le> unat day"
    and "day_number (unat year) (unat month) (unat day) \<le> days_before_year 65535"
  shows "\<exists>y m d. carry_days (year, month, day) = Some (y, m, d) \<and> valid_day (unat y) (unat m) (unat d) \<and>
    day_number (unat y) (unat m) (unat d) = day_number (unat year) (unat month) (unat day) \<and> year \<le> y"
  using assms
proof (induction "(year, month, day)" arbitrary: year month day rule: carry_days.induct)
  case (1 year month day)
  define n where "n = (of_nat (month_days (leap_year (unat year)) (unat month)) :: u16)"
  have e: "entry (time_days_in_month_internal (time_check_if_leap year)) (unat month) = Some n"
    using 1(2,3) by (simp add: n_def time_check_if_leap_eq days_in_month_nth)
  show ?case
  proof (cases "n < day")
    case True
    obtain y m d where nm: "next_month n (year, month, day) = (y, m, d)"
      and ymd: "1 \<le> unat m" "unat m \<le> 12" "1 \<le> unat d" "year \<le> y"
      and num: "day_number (unat y) (unat m) (unat d) = day_number (unat year) (unat month) (unat day)"
      using next_month_day_number [of month year day] 1(2,3,5) True by (auto simp: n_def)
    have "\<exists>y' m' d'. carry_days (y, m, d) = Some (y', m', d') \<and> valid_day (unat y') (unat m') (unat d') \<and>
      day_number (unat y') (unat m') (unat d') = day_number (unat y) (unat m) (unat d) \<and> y \<le> y'"
      using 1(1) [OF e True nm] ymd num 1(5) by simp
    then show ?thesis
      using e True nm num ymd(4) by (auto simp: carry_days.simps [of year month day])
  next
    case False
    then have "unat day \<le> month_days (leap_year (unat year)) (unat month)"
      using month_days_bounds(2) [of "leap_year (unat year)" "unat month"]
      by (simp add: n_def word_le_nat_alt unat_of_nat not_less)
    then show ?thesis
      using e False 1(2-4) by (simp add: carry_days.simps [of year month day] valid_day_def)
  qed
qed

section \<open>Dates and seconds\<close>

text \<open>
  The second since 1970 that a date names: months beyond the twelfth belong to the following
  years, and days, hours, minutes and seconds beyond their range run on.
\<close>

definition date_seconds :: "date_struct \<Rightarrow> nat" where
  "date_seconds d =
     86400 * (day_number (unat (YEAR d) + (unat (MONTH d) - 1) div 12) ((unat (MONTH d) - 1) mod 12 + 1)
                (unat (DAY d)) - 719529)
     + 3600 * unat (HOUR d) + 60 * unat (MINUTE d) + unat (SECOND d) + unat (MILLISEC d) div 1000"

text \<open>The fields leave room for the carries, which the 16-bit additions do not detect.\<close>

definition date_fits :: "date_struct \<Rightarrow> bool" where
  "date_fits d \<longleftrightarrow> unat (SECOND d) \<le> 62000 \<and> unat (MINUTE d) \<le> 62000 \<and> unat (HOUR d) \<le> 62000 \<and> unat (DAY d) \<le> 62000"

definition date_ok :: "date_struct \<Rightarrow> bool" where
  "date_ok d \<longleftrightarrow> valid_day (unat (YEAR d)) (unat (MONTH d)) (unat (DAY d)) \<and> unat (HOUR d) < 24 \<and>
     unat (MINUTE d) < 60 \<and> unat (SECOND d) < 60 \<and> unat (MILLISEC d) < 1000"

lemma word_below_div_mod [simp]: "x < n \<Longrightarrow> x div n = 0" "x < n \<Longrightarrow> x mod n = x" for x n :: "'a::len word"
  by (simp_all add: word_less_nat_alt word_arith_nat_div word_arith_nat_mod)

lemma unat_lt16: "unat (w :: u16) < 65536"
  using unsigned_less [of w, where ?'a = nat] by simp

lemma unat_carry16:
  fixes x y n :: u16
  assumes "unat x \<le> 62000" "20 < n"
  shows "unat (x + y div n) = unat x + unat y div unat n"
proof -
  have "unat y < 65536" using unat_lt16 [of y] by simp
  moreover have "21 \<le> unat n" using assms(2) by (simp add: word_less_nat_alt)
  ultimately have "unat y div unat n \<le> 65536 div 21"
    by (meson div_le_mono div_le_mono2 le_trans less_imp_le_nat zero_less_numeral)
  then show ?thesis using assms(1) by (simp add: unat_add_lem [THEN iffD1] unat_div)
qed

lemma carries_value:
  fixes h m s :: nat
  shows "3600 * h + (60 * m + s) =
    86400 * ((h + (m + s div 60) div 60) div 24) + (3600 * ((h + (m + s div 60) div 60) mod 24)
      + (60 * ((m + s div 60) mod 60) + s mod 60))"
  using div_mult_mod_eq [of s 60] div_mult_mod_eq [of "m + s div 60" 60]
    div_mult_mod_eq [of "h + (m + s div 60) div 60" 24]
  by linarith

lemma carry_fields_eq:
  "carry_fields d =
     (let s = SECOND d + MILLISEC d div 1000; m = MINUTE d + s div 60; h = HOUR d + m div 60
      in d\<lparr>MILLISEC := MILLISEC d mod 1000, SECOND := s mod 60, MINUTE := m mod 60, HOUR := h mod 24,
           DAY := DAY d + h div 24\<rparr>)"
  by (cases d) (simp add: carry_fields_def Let_def not_le)

lemma carry_fields_correct:
  assumes "date_fits d"
  shows "unat (DAY (carry_fields d)) = unat (DAY d) + (unat (HOUR d) + (unat (MINUTE d) +
      (unat (SECOND d) + unat (MILLISEC d) div 1000) div 60) div 60) div 24"
    and "date_seconds d =
      86400 * (day_number (unat (YEAR d) + (unat (MONTH d) - 1) div 12) ((unat (MONTH d) - 1) mod 12 + 1)
                (unat (DAY d)) - 719529)
      + 86400 * (unat (DAY (carry_fields d)) - unat (DAY d))
      + 3600 * unat (HOUR (carry_fields d)) + 60 * unat (MINUTE (carry_fields d)) + unat (SECOND (carry_fields d))"
    and "unat (HOUR (carry_fields d)) < 24" "unat (MINUTE (carry_fields d)) < 60"
      "unat (SECOND (carry_fields d)) < 60" "MILLISEC (carry_fields d) = MILLISEC d mod 1000"
      "MONTH (carry_fields d) = MONTH d" "YEAR (carry_fields d) = YEAR d"
proof -
  define s where "s = SECOND d + MILLISEC d div 1000"
  define m where "m = MINUTE d + s div 60"
  define h where "h = HOUR d + m div 60"
  have us: "unat s = unat (SECOND d) + unat (MILLISEC d) div 1000"
    and um: "unat m = unat (MINUTE d) + unat s div 60"
    and uh: "unat h = unat (HOUR d) + unat m div 60"
    and ud: "unat (DAY d + h div 24) = unat (DAY d) + unat h div 24"
    using assms by (simp_all add: s_def m_def h_def date_fits_def unat_carry16)
  have c: "carry_fields d =
    d\<lparr>MILLISEC := MILLISEC d mod 1000, SECOND := s mod 60, MINUTE := m mod 60, HOUR := h mod 24,
      DAY := DAY d + h div 24\<rparr>"
    by (simp add: carry_fields_eq Let_def s_def m_def h_def)
  show "unat (DAY (carry_fields d)) = unat (DAY d) + (unat (HOUR d) + (unat (MINUTE d) +
      (unat (SECOND d) + unat (MILLISEC d) div 1000) div 60) div 60) div 24"
    by (simp add: c ud uh um us)
  show "date_seconds d =
      86400 * (day_number (unat (YEAR d) + (unat (MONTH d) - 1) div 12) ((unat (MONTH d) - 1) mod 12 + 1)
                (unat (DAY d)) - 719529)
      + 86400 * (unat (DAY (carry_fields d)) - unat (DAY d))
      + 3600 * unat (HOUR (carry_fields d)) + 60 * unat (MINUTE (carry_fields d)) + unat (SECOND (carry_fields d))"
    using carries_value [of "unat (HOUR d)" "unat (MINUTE d)" "unat s"]
    by (simp add: c ud date_seconds_def unat_mod uh um us)
qed (simp_all add: carry_fields_eq Let_def unat_mod)

lemma days_before_1970: "days_before_year 1970 = 719528"
  using days_before_year_from_1970 [of 0] by simp

lemma day_number_since_1970:
  assumes "1970 \<le> y"
  shows "719528 + d \<le> day_number y m d"
  using days_before_year_mono [OF assms] by (simp add: day_number_def days_before_1970)

lemma ucast_of_nat16: "(ucast (w :: u16) :: u32) = of_nat (unat w)"
  using unat_lt16 [of w] by (simp add: word_unat_eq_iff unat_of_nat unsigned_ucast_eq take_bit_nat_def)

text \<open>A date in its ranges: the table of the years is wrong for 1995 only.\<close>

lemma date_seconds_ok:
  assumes "date_ok d" "1970 \<le> unat (YEAR d)"
  shows "date_seconds d + 86400 = secs_at (unat (YEAR d) - 1970)
      + 86400 * days_before_month (leap_year (unat (YEAR d))) (unat (MONTH d)) + 86400 * unat (DAY d)
      + 3600 * unat (HOUR d) + 60 * unat (MINUTE d) + unat (SECOND d)"
proof -
  have m: "(unat (MONTH d) - 1) div 12 = 0" "(unat (MONTH d) - 1) mod 12 + 1 = unat (MONTH d)"
    using assms(1) by (auto simp: date_ok_def valid_day_def)
  have "1 \<le> unat (DAY d)" "unat (MILLISEC d) div 1000 = 0" using assms(1) by (auto simp: date_ok_def valid_day_def)
  then show ?thesis
    using day_number_since_1970 [OF assms(2), of "unat (DAY d)" "unat (MONTH d)"]
      days_before_year_mono [OF assms(2)] assms(2)
    unfolding date_seconds_def m
    by (simp add: day_number_def secs_at_def days_before_1970 diff_mult_distrib2 add_mult_distrib2)
qed

lemma date_to_seconds_ok:
  assumes ok: "date_ok d" and year: "1970 \<le> unat (YEAR d)" "unat (YEAR d) < 2100"
  shows "date_to_seconds d = Some (of_nat (date_seconds d + (if YEAR d = 1995 then 31536000 else 0)))"
proof -
  define k where "k = unat (YEAR d) - 1970"
  have k: "k < 130" "unat (YEAR d) = 1970 + k" using year by (auto simp: k_def)
  have m: "1 \<le> unat (MONTH d)" "unat (MONTH d) \<le> 12" "MONTH d \<noteq> 0" "1 \<le> unat (DAY d)"
    using ok by (auto simp: date_ok_def valid_day_def)
  have y1995: "YEAR d = 1995 \<longleftrightarrow> k = 25"
    using k(2) by (simp add: word_unat_eq_iff)
  have sy: "entry time_secs_before_year_internal k =
    Some (of_nat (secs_at k + (if YEAR d = 1995 then 31536000 else 0)))"
    using k(1) by (auto simp: entry_def secs_before_year_nth y1995 secs_at_eq)
  have sm: "entry (time_secs_before_month_internal l) (unat (MONTH d) - 1) =
    Some (of_nat (86400 * days_before_month l (unat (MONTH d))))" for l
    using secs_before_month_nth [OF m(1,2)] m(2) by (simp add: entry_def)
  define e where "e = (if YEAR d = 1995 then 31536000 else (0 :: nat))"
  define b where "b = days_before_month (leap_year (unat (YEAR d))) (unat (MONTH d))"
  have "date_seconds d + e + 86400 = secs_at k + e + 86400 * b + 86400 * unat (DAY d)
      + 3600 * unat (HOUR d) + 60 * unat (MINUTE d) + unat (SECOND d)"
    using date_seconds_ok [OF ok year(1)] by (simp add: k_def b_def)
  from arg_cong [OF this, of "of_nat :: nat \<Rightarrow> u32"]
  have "(of_nat (secs_at k + e) :: u32) + of_nat (86400 * b) + (of_nat (unat (DAY d)) - 1) * 86400
      + of_nat (unat (HOUR d)) * 3600 + of_nat (unat (MINUTE d)) * 60 + of_nat (unat (SECOND d))
      = of_nat (date_seconds d + e)"
    by (simp only: of_nat_add of_nat_mult of_nat_numeral left_diff_distrib mult.commute [of 86400]
        mult.commute [of 3600] mult.commute [of 60] mult_1_left diff_eq_eq add_diff_eq diff_add_eq)
  moreover have "\<not> unat (YEAR d) < 1970" using year(1) by simp
  ultimately show ?thesis
    using m(3) sy sm [of "leap_year (unat (YEAR d))"]
    by (simp only: date_to_seconds_def ucast_of_nat16 time_check_if_leap_eq if_False simp_thms
        option.case prod.case k_def [symmetric] e_def [symmetric] b_def [symmetric])
qed

text \<open>The months beyond the twelfth, as the first carry of the month treats them.\<close>

lemma month_carry:
  assumes "12 < (month :: u16)" "\<not> 12 dvd unat month" "unat year + unat month div 12 < 65536"
  shows "unat (year + month div 12) = unat year + (unat month - 1) div 12"
    and "unat (month mod 12) = (unat month - 1) mod 12 + 1"
proof -
  obtain k where k: "unat month = Suc k" using assms(1) by (cases "unat month") (auto simp: word_less_nat_alt)
  have "Suc k mod 12 \<noteq> 0" using assms(2) k by (simp add: mod_eq_0_iff_dvd)
  then have "Suc k div 12 = k div 12" "Suc k mod 12 = Suc (k mod 12)"
    using mod_Suc [of k 12] by (simp_all add: div_Suc split: if_splits)
  then show "unat (year + month div 12) = unat year + (unat month - 1) div 12"
    "unat (month mod 12) = (unat month - 1) mod 12 + 1"
    using assms(3) k by (simp_all add: unat_add_lem [THEN iffD1] unat_div unat_mod)
qed

lemma days_before_2481: "days_before_year 2481 = 906168"
  using days_before_year_gregorian [of 2481] by simp

lemma days_before_65535: "days_before_year 65535 = 23936167"
  using days_before_year_gregorian [of 65535] by simp

lemma year_of_day:
  assumes "valid_day y m d" "days_before_year z < day_number y m d"
  shows "z \<le> y"
proof (rule ccontr)
  assume "\<not> z \<le> y"
  then have "days_before_year (Suc y) \<le> days_before_year z" using days_before_year_mono [of "Suc y" z] by simp
  then show False using valid_day_iff_number(2) [OF assms(1)] assms(2) by simp
qed

lemma year_before_day:
  assumes "valid_day y m d" "day_number y m d \<le> days_before_year z"
  shows "y < z"
proof (rule ccontr)
  assume "\<not> y < z"
  then have "days_before_year z \<le> days_before_year y" using days_before_year_mono [of z y] by simp
  then show False using valid_day_iff_number(1) [OF assms(1)] assms(2) by simp
qed

lemma days_bound:
  assumes "y \<le> 60000" "m \<le> 12" "d < 70000"
  shows "day_number y m d \<le> days_before_year 65535"
proof -
  have "days_before_year y + 365 * (65535 - y) \<le> days_before_year 65535"
    using assms(1) by (intro days_before_year_mono) simp
  moreover have "days_before_month (leap_year y) m \<le> 335"
  proof (cases "m = 0")
    case False
    then have "1 \<le> m" by simp
    then show ?thesis by (rule months_cases [OF _ assms(2)]; simp)
  qed simp
  ultimately show ?thesis using assms(1,3) unfolding day_number_def by linarith
qed

text \<open>\<open>_time_from_date\<close> on every date that names a second before 2100.\<close>

lemma time_from_date_run:
  assumes fits: "date_fits d" and year: "1970 \<le> unat (YEAR d)"
    and month: "1 \<le> unat (MONTH d)" "unat (MONTH d) \<le> 12 \<or> \<not> 12 dvd unat (MONTH d)" and day: "1 \<le> unat (DAY d)"
    and bound: "date_seconds d < 4102444800"
  obtains d' where "date_ok d'" "1970 \<le> unat (YEAR d')" "unat (YEAR d') < 2100" "date_seconds d' = date_seconds d"
    "MILLISEC d' = MILLISEC d mod 1000"
    "time_from_date (Some d) (Some ts) = Some (True, Some d',
       Some \<lparr>SECONDS = of_nat (date_seconds d + (if YEAR d' = 1995 then 31536000 else 0)),
             MILLISECONDS = ucast (MILLISEC d mod 1000)\<rparr>)"
proof -
  define c where "c = carry_fields d"
  note cc = carry_fields_correct [OF fits, folded c_def]
  define y where "y = unat (YEAR d) + (unat (MONTH d) - 1) div 12"
  define m where "m = (unat (MONTH d) - 1) mod 12 + 1"
  have m: "1 \<le> m" "m \<le> 12" by (simp_all add: m_def Suc_le_eq)
  have secs: "date_seconds d = 86400 * (day_number y m (unat (DAY d)) - 719529)
      + 86400 * (unat (DAY c) - unat (DAY d)) + 3600 * unat (HOUR c) + 60 * unat (MINUTE c) + unat (SECOND c)"
    using cc(2) by (simp add: y_def m_def)
  have dayc: "unat (DAY d) \<le> unat (DAY c)" using cc(1) by simp
  have "1970 \<le> y" using year by (simp add: y_def)
  have num: "day_number y m (unat (DAY c)) = day_number y m (unat (DAY d)) + (unat (DAY c) - unat (DAY d))"
    using dayc by (simp add: day_number_def)
  have ge: "719528 + unat (DAY d) \<le> day_number y m (unat (DAY d))" by (rule day_number_since_1970 [OF \<open>1970 \<le> y\<close>])
  have secs': "date_seconds d = 86400 * (day_number y m (unat (DAY c)) - 719529)
      + 3600 * unat (HOUR c) + 60 * unat (MINUTE c) + unat (SECOND c)"
    using secs num ge day by (simp add: diff_mult_distrib2 add_mult_distrib2)
  have "86400 * (day_number y m (unat (DAY c)) - 719529) < 86400 * 47482"
    using bound secs' by simp
  then have num_less: "day_number y m (unat (DAY c)) < 767011"
    using ge num day by simp
  have b2100: "days_before_year 2100 = 767010" using days_before_year_from_1970 [of 130] by simp
  have "y < 2100"
  proof (rule ccontr)
    assume "\<not> y < 2100"
    then have "767010 \<le> days_before_year y" using days_before_year_mono [of 2100 y] b2100 by simp
    then show False using num_less dayc day by (simp add: day_number_def)
  qed
  define c1 where "c1 = (if MONTH c > 12 then c\<lparr>YEAR := YEAR c + MONTH c div 12, MONTH := MONTH c mod 12\<rparr> else c)"
  have ym: "unat (YEAR c1) = y \<and> unat (MONTH c1) = m"
  proof (cases "12 < MONTH d")
    case True
    have "unat (MONTH d) div 12 \<le> 65535 div 12"
      using unat_lt16 [of "MONTH d"] by (intro div_le_mono) simp
    moreover have "unat (YEAR d) < 2100" using \<open>y < 2100\<close> by (simp add: y_def)
    moreover have "\<not> 12 dvd unat (MONTH d)" using month(2) True by (auto simp: word_less_nat_alt)
    ultimately show ?thesis
      using month_carry [of "MONTH d" "YEAR d"] True cc(7,8) by (simp add: c1_def y_def m_def)
  next
    case False
    then show ?thesis
      using cc(7,8) month(1) by (auto simp: c1_def y_def m_def word_less_nat_alt)
  qed
  have c1: "DAY c1 = DAY c" "HOUR c1 = HOUR c" "MINUTE c1 = MINUTE c" "SECOND c1 = SECOND c"
    "MILLISEC c1 = MILLISEC c" "\<not> YEAR c1 < 1970"
    using ym \<open>1970 \<le> y\<close> by (auto simp: c1_def word_less_nat_alt)
  obtain y' m' d' where carry: "carry_days (YEAR c1, MONTH c1, DAY c) = Some (y', m', d')"
    and valid: "valid_day (unat y') (unat m') (unat d')"
    and num': "day_number (unat y') (unat m') (unat d') = day_number y m (unat (DAY c))"
    and "YEAR c1 \<le> y'"
  proof -
    have "day_number y m (unat (DAY c)) \<le> days_before_year 65535"
      using \<open>y < 2100\<close> m unat_lt16 [of "DAY c"] by (intro days_bound) auto
    then show thesis
      using carry_days_correct [of "MONTH c1" "DAY c" "YEAR c1"] ym m dayc day that by auto
  qed
  define r where "r = c1\<lparr>YEAR := y', MONTH := m', DAY := d'\<rparr>"
  have y': "1970 \<le> unat y'" "unat y' < 2100"
    using \<open>YEAR c1 \<le> y'\<close> ym \<open>1970 \<le> y\<close> year_before_day [OF valid, of 2100] num' num_less b2100
    by (auto simp: word_le_nat_alt)
  have ok: "date_ok r"
    using valid cc(3-6) c1 by (simp add: r_def date_ok_def unat_mod)
  have "date_seconds r = date_seconds d"
  proof -
    have "(unat m' - 1) div 12 = 0" "(unat m' - 1) mod 12 + 1 = unat m'" using valid by (auto simp: valid_day_def)
    moreover have "unat (MILLISEC c) div 1000 = 0" using cc(6) by (simp add: unat_mod)
    ultimately have "date_seconds r = 86400 * (day_number (unat y') (unat m') (unat d') - 719529)
      + 3600 * unat (HOUR c) + 60 * unat (MINUTE c) + unat (SECOND c)"
      using c1 by (simp only: date_seconds_def r_def date_struct.simps date_struct.select_convs
          date_struct.update_convs) simp
    then show ?thesis using secs' num' by simp
  qed
  moreover have "MILLISEC r = MILLISEC d mod 1000" using cc(6) c1 by (simp add: r_def)
  moreover have "time_from_date (Some d) (Some ts) = Some (True, Some r,
       Some \<lparr>SECONDS = of_nat (date_seconds d + (if YEAR r = 1995 then 31536000 else 0)),
             MILLISECONDS = ucast (MILLISEC d mod 1000)\<rparr>)"
  proof -
    have "\<not> DAY c < 1" using dayc day by (simp add: word_less_nat_alt)
    moreover have "\<not> 2239 < y'" using y' by (simp add: word_less_nat_alt)
    moreover have "date_to_seconds r = Some (of_nat (date_seconds d + (if YEAR r = 1995 then 31536000 else 0)))"
      using date_to_seconds_ok [OF ok] y' \<open>date_seconds r = date_seconds d\<close> by (simp add: r_def)
    moreover have "MILLISEC r = MILLISEC d mod 1000" using cc(6) c1 by (simp add: r_def)
    ultimately show ?thesis
      unfolding time_from_date_def Let_def option.case prod.case c_def [symmetric] c1_def [symmetric]
      by (simp add: c1 carry flip: r_def)
  qed
  ultimately show thesis using that [OF ok] y' by (simp add: r_def)
qed

lemma secs_at_mono: "i \<le> j \<Longrightarrow> secs_at i \<le> secs_at j"
  using days_before_year_mono [of "1970 + i" "1970 + j"] by (simp add: secs_at_def diff_le_mono)

lemma date_seconds_year:
  assumes "date_ok d" "1970 \<le> unat (YEAR d)" "unat (YEAR d) < 2100"
  shows "YEAR d = 1995 \<longleftrightarrow> 788918400 \<le> date_seconds d \<and> date_seconds d < 820454400"
proof -
  have v: "valid_day (unat (YEAR d)) (unat (MONTH d)) (unat (DAY d))" using assms(1) by (simp add: date_ok_def)
  define n where "n = day_number (unat (YEAR d)) (unat (MONTH d)) (unat (DAY d))"
  have m: "(unat (MONTH d) - 1) div 12 = 0" "(unat (MONTH d) - 1) mod 12 + 1 = unat (MONTH d)"
    "unat (MILLISEC d) div 1000 = 0"
    using assms(1) by (auto simp: date_ok_def valid_day_def)
  have secs: "date_seconds d = 86400 * (n - 719529) + 3600 * unat (HOUR d) + 60 * unat (MINUTE d) + unat (SECOND d)"
    unfolding date_seconds_def m by (simp add: n_def)
  have hms: "3600 * unat (HOUR d) + 60 * unat (MINUTE d) + unat (SECOND d) < 86400"
    using assms(1) by (simp add: date_ok_def)
  have b: "days_before_year 1995 = 728659" "days_before_year 1996 = 729024"
    using days_before_year_from_1970 [of 25] days_before_year_from_1970 [of 26] by simp_all
  have "unat (YEAR d) = 1995 \<longleftrightarrow> 728659 < n \<and> n \<le> 729024"
    using valid_day_iff_number [OF v] year_of_day [OF v, of 1995] year_before_day [OF v, of 1996] b
    by (auto simp: n_def leap_year_def)
  moreover have "719529 \<le> n"
    using day_number_since_1970 [OF assms(2), of "unat (DAY d)" "unat (MONTH d)"] v by (simp add: n_def valid_day_def)
  moreover define k where "k = n - 719529"
  ultimately have "unat (YEAR d) = 1995 \<longleftrightarrow> 9131 \<le> k \<and> k < 9496" by auto
  moreover have "9131 \<le> k \<longleftrightarrow> 788918400 \<le> date_seconds d" "k < 9496 \<longleftrightarrow> date_seconds d < 820454400"
    using hms unfolding secs k_def [symmetric] by (rule_tac [!] iffI; linarith)+
  ultimately have "unat (YEAR d) = 1995 \<longleftrightarrow> 788918400 \<le> date_seconds d \<and> date_seconds d < 820454400"
    by simp
  then show ?thesis by (simp add: word_unat_eq_iff)
qed

section \<open>Seconds to dates\<close>

lemma bracket:
  fixes f :: "nat \<Rightarrow> nat"
  assumes "f i \<le> x" "x < f n" "i \<le> n"
  shows "\<exists>k. i \<le> k \<and> k < n \<and> f k \<le> x \<and> x < f (Suc k)"
  using assms(2,3)
proof (induction n)
  case (Suc n)
  show ?case
  proof (cases "x < f n")
    case True
    then have "i \<le> n" using assms(1) Suc.prems by (auto simp: le_Suc_eq)
    then show ?thesis using Suc.IH [OF True] by auto
  next
    case False
    then have "i \<le> n" using Suc.prems assms(1) by (auto simp: le_Suc_eq)
    then show ?thesis using False Suc.prems by (auto intro!: exI [of _ n])
  qed
qed (use assms(1) in simp)

lemma first_above_finds:
  assumes "i \<le> j" "j < length table" "s < table ! j" "\<And>k. i \<le> k \<Longrightarrow> k < j \<Longrightarrow> table ! k \<le> s"
  shows "first_above table s i = Some j"
  using assms(1,4)
proof (induction "j - i" arbitrary: i)
  case 0
  then have "i = j" by simp
  then show ?case using assms(2,3) by (subst first_above.simps) (auto simp: entry_def)
next
  case (Suc n)
  then have "i < j" by simp
  have "first_above table s (Suc i) = Some j" using Suc by (intro Suc(1)) auto
  then show ?case
    using Suc.prems(2) [of i] \<open>i < j\<close> assms(2) by (subst first_above.simps) (simp add: entry_def)
qed

lemma unat_of_nat32: "n < 4294967296 \<Longrightarrow> unat (of_nat n :: u32) = n"
  by (simp add: unat_of_nat)

lemma of_nat_le_word32: "n < 4294967296 \<Longrightarrow> of_nat n \<le> s \<longleftrightarrow> n \<le> unat s" for s :: u32
  by (simp add: word_le_nat_alt unat_of_nat32)

lemma word_less_of_nat32: "n < 4294967296 \<Longrightarrow> s < of_nat n \<longleftrightarrow> unat s < n" for s :: u32
  by (simp add: word_less_nat_alt unat_of_nat32)

lemma secs_at_130: "secs_at 130 = 4102444800"
  by (simp add: secs_at_eq)

lemma secs_at_bound: "k \<le> 130 \<Longrightarrow> secs_at k < 4294967296"
  using secs_at_mono [of k 130] secs_at_130 by simp

text \<open>The search for the year stops one entry early on the seconds of 1995.\<close>

lemma year_search:
  assumes k: "k < 130" "secs_at k \<le> unat s" "unat s < secs_at (Suc k)"
  shows "first_above time_secs_before_year_internal s 1 = Some (if k = 25 then 25 else Suc k)"
proof (rule first_above_finds)
  show "s < time_secs_before_year_internal ! (if k = 25 then 25 else Suc k)"
  proof (cases "k = 129")
    case True
    then show ?thesis using k(3) secs_before_year_last secs_at_130 by (simp add: word_less_nat_alt)
  next
    case False
    then have "Suc k < 130" using k(1) by simp
    moreover have "secs_at (Suc k) \<le> secs_at 26" if "k \<le> 25" using that by (intro secs_at_mono) simp
    ultimately show ?thesis using k(3) by (auto simp: secs_before_year_nth word_less_of_nat32 secs_at_bound)
  qed
next
  fix j
  assume j: "1 \<le> j" "j < (if k = 25 then 25 else Suc k)"
  have "secs_at (if j = 25 then 26 else j) \<le> secs_at k"
    using j by (intro secs_at_mono) (auto split: if_splits)
  then show "time_secs_before_year_internal ! j \<le> s"
    using j k(1,2) by (subst secs_before_year_nth) (auto simp: of_nat_le_word32 secs_at_bound split: if_splits)
qed (use k(1) in auto)

text \<open>The search for the month, which stops at December whatever the number of seconds.\<close>

lemma month_search:
  obtains m where "1 \<le> m" "m \<le> 12" "86400 * days_before_month leap m \<le> unat s"
    "m < 12 \<longrightarrow> unat s < 86400 * days_before_month leap (Suc m)"
    "s < MAX_UINT_32 \<Longrightarrow> first_above (time_secs_before_month_internal leap) s 1 = Some m"
proof -
  have "\<exists>m. 1 \<le> m \<and> m \<le> 12 \<and> 86400 * days_before_month leap m \<le> unat s \<and>
    (m < 12 \<longrightarrow> unat s < 86400 * days_before_month leap (Suc m))"
  proof (cases "unat s < 86400 * days_before_month leap 12")
    case True
    then show ?thesis
      using bracket [of "\<lambda>m. 86400 * days_before_month leap m" 1 "unat s" 12] by auto
  next
    case False
    then show ?thesis by (intro exI [of _ 12]) simp
  qed
  then obtain m where m: "1 \<le> m" "m \<le> 12" "86400 * days_before_month leap m \<le> unat s"
    "m < 12 \<longrightarrow> unat s < 86400 * days_before_month leap (Suc m)" by blast
  have nth: "time_secs_before_month_internal leap ! j = of_nat (86400 * days_before_month leap (Suc j))"
    "days_before_month leap (Suc j) \<le> 335" if "j < 12" for j
    using secs_before_month_nth [of "Suc j" leap] days_before_month_mono [of "Suc j" 12 leap] that
    by (simp_all split: if_splits)
  show thesis
  proof (rule that [OF m])
    assume "s < MAX_UINT_32"
    show "first_above (time_secs_before_month_internal leap) s 1 = Some m"
    proof (rule first_above_finds)
      show "s < time_secs_before_month_internal leap ! m"
      proof (cases "m = 12")
        case True
        then show ?thesis using \<open>s < MAX_UINT_32\<close> secs_before_month_last by simp
      next
        case False
        then show ?thesis using m nth [of m] by (simp add: word_less_of_nat32 del: of_nat_mult)
      qed
    next
      fix j
      assume j: "1 \<le> j" "j < m"
      have "days_before_month leap (Suc j) \<le> days_before_month leap m"
        using j by (intro days_before_month_mono) simp
      then show "time_secs_before_month_internal leap ! j \<le> s"
        using nth [of j] j m by (simp add: of_nat_le_word32 del: of_nat_mult)
    qed (use m in auto)
  qed
qed

text \<open>Splitting whole units off a number of seconds, through the 16-bit fields.\<close>

lemma split_units:
  fixes w n :: u32
  assumes "unat w div unat n < 65536"
  shows "unat (ucast (w div n) :: u16) = unat w div unat n" "w - ucast (ucast (w div n) :: u16) * n = w mod n"
proof -
  have "unat (w div n) < 65536" using assms by (simp add: unat_div)
  then have c: "unat (ucast (w div n) :: u16) = unat (w div n)"
    by (simp add: unsigned_ucast_eq take_bit_nat_def)
  then show "unat (ucast (w div n) :: u16) = unat w div unat n" by (simp add: unat_div)
  have "(ucast (ucast (w div n) :: u16) :: u32) = w div n"
    unfolding ucast_of_nat16 c by simp
  then show "w - ucast (ucast (w div n) :: u16) * n = w mod n" by (simp add: minus_div_mult_eq_mod)
qed

lemma seconds_to_date_run:
  assumes year: "first_above time_secs_before_year_internal s 1 = Some (Suc k)" "k < 130" "k \<noteq> 25"
    and s: "secs_at k \<le> unat s" "unat s < secs_at k + 86400 * 800" and ms: "unat ms < 1000"
  obtains m d where "seconds_to_date s ms = Some d" "unat (YEAR d) = 1970 + k" "unat (MONTH d) = m"
    "1 \<le> m" "m \<le> 12" "86400 * days_before_month (leap_year (1970 + k)) m \<le> unat s - secs_at k"
    "m < 12 \<longrightarrow> unat s - secs_at k < 86400 * days_before_month (leap_year (1970 + k)) (Suc m)"
    "unat (DAY d) = (unat s - secs_at k) div 86400 - days_before_month (leap_year (1970 + k)) m + 1"
    "unat (HOUR d) < 24" "unat (MINUTE d) < 60" "unat (SECOND d) < 60" "unat (MILLISEC d) = unat ms"
    "3600 * unat (HOUR d) + 60 * unat (MINUTE d) + unat (SECOND d) = (unat s - secs_at k) mod 86400"
proof -
  define t where "t = s - of_nat (secs_at k)"
  have t: "unat t = unat s - secs_at k"
    using s(1) year(2) by (simp add: t_def unat_sub of_nat_le_word32 unat_of_nat32 secs_at_bound)
  have y: "unat (of_nat k + 1970 :: u16) = 1970 + k"
    using year(2) by (subst add.commute) (simp add: unat_add_lem [THEN iffD1] unat_of_nat)
  define leap where "leap = leap_year (1970 + k)"
  have tsmall: "unat t < 69120000" using s(2) t by simp
  then have "t < MAX_UINT_32" by (simp add: word_less_nat_alt)
  then obtain m where m: "1 \<le> m" "m \<le> 12" "86400 * days_before_month leap m \<le> unat t"
    "m < 12 \<longrightarrow> unat t < 86400 * days_before_month leap (Suc m)"
    "first_above (time_secs_before_month_internal leap) t 1 = Some m"
    using month_search [of leap t] by metis
  define u where "u = t - of_nat (86400 * days_before_month leap m)"
  have b: "86400 * days_before_month leap m < 4294967296"
    using m(3) tsmall by simp
  have u: "unat u = unat t - 86400 * days_before_month leap m"
    using m(3) b by (simp add: u_def unat_sub of_nat_le_word32 unat_of_nat32 del: of_nat_mult)
  have us: "unat u < 69120000" using u tsmall by simp
  obtain r where r: "unat t = 86400 * days_before_month leap m + r" using m(3) le_Suc_ex by blast
  have ud: "unat u div 86400 = unat t div 86400 - days_before_month leap m" "unat u mod 86400 = unat t mod 86400"
    by (simp_all add: u r)
  define v where "v = u mod 86400"
  have v: "unat v = unat t mod 86400" using ud(2) by (simp add: v_def unat_mod)
  have vs: "unat v < 86400" by (simp add: v)
  define w where "w = v mod 3600"
  have w: "unat w = unat v mod 3600" by (simp add: w_def unat_mod)
  have ws: "unat w < 3600" by (simp add: w)
  have units: "unat (ucast (u div 86400) :: u16) = unat u div 86400" "u - ucast (ucast (u div 86400) :: u16) * 86400 = v"
    "unat (ucast (v div 3600) :: u16) = unat v div 3600" "v - ucast (ucast (v div 3600) :: u16) * 3600 = w"
    "unat (ucast (w div 60) :: u16) = unat w div 60" "w - ucast (ucast (w div 60) :: u16) * 60 = w mod 60"
    using split_units [of u 86400] split_units [of v 3600] split_units [of w 60] us vs ws
    by (simp_all add: v_def w_def div_less_iff_less_mult)
  have day: "unat (ucast (u div 86400) + 1 :: u16) = unat u div 86400 + 1"
    using units(1) us by (simp add: unat_add_lem [THEN iffD1] div_less_iff_less_mult)
  define d where "d = \<lparr>YEAR = of_nat k + 1970, MONTH = of_nat m, DAY = ucast (u div 86400) + 1,
      HOUR = ucast (v div 3600), MINUTE = ucast (w div 60), SECOND = ucast (w mod 60), MILLISEC = ucast ms\<rparr>"
  have run: "seconds_to_date s ms = Some d"
  proof -
    have nth: "time_secs_before_year_internal ! k = of_nat (secs_at k)" using year by (simp add: secs_before_year_nth)
    show ?thesis
      unfolding seconds_to_date_def year(1) option.case Let_def diff_Suc_1 nth t_def [symmetric]
        time_check_if_leap_eq y leap_def [symmetric] m(5) secs_before_month_nth [OF m(1,2)] u_def [symmetric] units
      by (simp add: d_def)
  qed
  have n: "unat (86400 :: u32) = 86400" "unat (3600 :: u32) = 3600" "unat (60 :: u32) = 60" by simp_all
  have date: "unat (YEAR d) = 1970 + k" "unat (DAY d) = unat u div 86400 + 1"
    "unat (HOUR d) = unat v div 3600" "unat (MINUTE d) = unat w div 60"
    by (simp_all only: d_def date_struct.select_convs y day units n)
  have sec: "unat (SECOND d) = unat w mod 60"
    by (simp add: d_def unsigned_ucast_eq take_bit_nat_def unat_mod)
  have mon: "unat (MONTH d) = m" using m(2) by (simp add: d_def unat_of_nat)
  have msec: "unat (MILLISEC d) = unat ms" using ms by (simp add: d_def unsigned_ucast_eq take_bit_nat_def)
  show thesis
  proof (rule that [OF run date(1) mon m(1,2)])
    show "86400 * days_before_month (leap_year (1970 + k)) m \<le> unat s - secs_at k"
      "m < 12 \<longrightarrow> unat s - secs_at k < 86400 * days_before_month (leap_year (1970 + k)) (Suc m)"
      using m(3,4) by (simp_all only: leap_def t)
    show "unat (DAY d) = (unat s - secs_at k) div 86400 - days_before_month (leap_year (1970 + k)) m + 1"
      by (simp only: date ud t leap_def)
    show "unat (HOUR d) < 24" "unat (MINUTE d) < 60" "unat (SECOND d) < 60" "unat (MILLISEC d) = unat ms"
      using vs ws by (simp_all only: date sec msec)
    have "3600 * (unat v div 3600) + 60 * (unat w div 60) + unat w mod 60 = unat v"
      using div_mult_mod_eq [of "unat v" 3600] div_mult_mod_eq [of "unat w" 60] w by linarith
    then show "3600 * unat (HOUR d) + 60 * unat (MINUTE d) + unat (SECOND d) = (unat s - secs_at k) mod 86400"
      by (simp only: date sec v t)
  qed
qed

end
