(* ===== verification/CalendarProps.thy ===== *)
theory CalendarProps
  imports Calendar
begin

text \<open>
  What the calendar functions guarantee: \<open>_time_from_date\<close> counts the seconds of the Gregorian
  calendar, \<open>_time_to_date\<close> is its inverse, and the exceptions to both, the year 1995 and the
  years from 2100 on, where the tables of \<^verbatim>\<open>time_tables.c\<close> are wrong or end.
\<close>




text \<open>A date in its ranges is left as it is.\<close>

lemma carry_fields_ok: "date_ok d \<Longrightarrow> carry_fields d = d"
  by (simp add: carry_fields_def date_ok_def word_le_nat_alt Let_def)

lemma carry_days_ok:
  assumes "valid_day (unat y) (unat m) (unat d)"
  shows "carry_days (y, m, d) = Some (y, m, d)"
proof -
  have m: "1 \<le> unat m" "unat m \<le> 12" "unat d \<le> month_days (leap_year (unat y)) (unat m)"
    using assms by (auto simp: valid_day_def)
  have "unat (of_nat (month_days l (unat m)) :: u16) = month_days l (unat m)" for l
    using month_days_bounds(2) [of l "unat m"] by (simp add: unat_of_nat)
  then have "\<not> of_nat (month_days (leap_year (unat y)) (unat m)) < d"
    using m(3) by (simp add: word_less_nat_alt not_less)
  then show ?thesis
    using days_in_month_nth [OF m(1,2)] by (subst carry_days.simps) (simp add: time_check_if_leap_eq)
qed

lemma time_from_date_ok:
  assumes ok: "date_ok d" and year: "1970 \<le> unat (YEAR d)"
  shows "time_from_date (Some d) (Some ts) =
    (if YEAR d > 2239 then Some (False, Some d, Some ts)
     else (case date_to_seconds d of
             None \<Rightarrow> None
           | Some time \<Rightarrow> Some (True, Some d, Some \<lparr>SECONDS = time, MILLISECONDS = ucast (MILLISEC d)\<rparr>)))"
proof -
  have v: "valid_day (unat (YEAR d)) (unat (MONTH d)) (unat (DAY d))" using ok by (simp add: date_ok_def)
  have "\<not> DAY d < 1" "\<not> 12 < MONTH d" "\<not> YEAR d < 1970"
    using v year by (auto simp: valid_day_def word_less_nat_alt)
  then show ?thesis
    using ok carry_days_ok [OF v]
    by (simp add: time_from_date_def Let_def carry_fields_ok split: option.split)
qed

text \<open>
  C34. \<open>_time_from_date\<close> accepts years up to \<open>CLK_LAST_YEAR\<close>, 2239, and its table of the years
  ends with 2099: for a date in its ranges from 2101 to 2239 it reads past the end of the
  table (the model's \<open>None\<close>), and from 2240 on it returns FALSE and leaves the time alone.
\<close>

theorem time_from_date_reads_past_table:
  assumes "date_ok d" "2101 \<le> YEAR d"
  shows "time_from_date (Some d) (Some ts) = (if YEAR d \<le> 2239 then None else Some (False, Some d, Some ts))"
proof -
  have y: "2101 \<le> unat (YEAR d)" using assms(2) by (simp add: word_le_nat_alt)
  then have "entry time_secs_before_year_internal (unat (YEAR d) - 1970) = None" by (simp add: entry_def)
  then have "date_to_seconds d = None" by (simp add: date_to_seconds_def)
  then show ?thesis using time_from_date_ok [OF assms(1)] y by (simp add: not_le)
qed

theorem time_from_date_reads_past_table_witness:
  "time_from_date (Some \<lparr>YEAR = 2101, MONTH = 1, DAY = 1, HOUR = 0, MINUTE = 0, SECOND = 0, MILLISEC = 0\<rparr>)
     (Some \<lparr>SECONDS = 7, MILLISECONDS = 7\<rparr>) = None"
  using time_from_date_reads_past_table [of
      "\<lparr>YEAR = 2101, MONTH = 1, DAY = 1, HOUR = 0, MINUTE = 0, SECOND = 0, MILLISEC = 0\<rparr>"
      "\<lparr>SECONDS = 7, MILLISECONDS = 7\<rparr>"]
  by (simp add: date_ok_def valid_day_def month_days_def)

text \<open>The year of a number of seconds.\<close>

lemma year_of_seconds:
  assumes "x < 4102444800"
  obtains k where "k < 130" "secs_at k \<le> x" "x < secs_at (Suc k)" "k = 25 \<longleftrightarrow> 788918400 \<le> x \<and> x < 820454400"
proof -
  obtain k where k: "k < 130" "secs_at k \<le> x" "x < secs_at (Suc k)"
    using bracket [of secs_at 0 x 130] assms by (auto simp: secs_at_eq)
  have "k = 25 \<longleftrightarrow> secs_at 25 \<le> x \<and> x < secs_at 26"
  proof
    assume b: "secs_at 25 \<le> x \<and> x < secs_at 26"
    have "\<not> Suc k \<le> 25" using secs_at_mono [of "Suc k" 25] b k(3) by linarith
    moreover have "\<not> 26 \<le> k" using secs_at_mono [of 26 k] b k(2) by linarith
    ultimately show "k = 25" by simp
  qed (use k in auto)
  then show thesis using that [OF k] by (simp add: secs_at_eq)
qed

text \<open>The date that \<open>_time_to_date\<close> finds for a second outside 1995.\<close>

lemma day_in_month:
  assumes "86400 * days_before_month leap m \<le> t" "1 \<le> m" "m \<le> 12"
    and "m < 12 \<longrightarrow> t < 86400 * days_before_month leap (Suc m)" "t < 86400 * (if leap then 366 else 365)"
  shows "t div 86400 - days_before_month leap m + 1 \<le> month_days leap m"
    and "days_before_month leap m \<le> t div 86400"
proof -
  have "t < 86400 * (days_before_month leap m + month_days leap m)"
  proof (cases "m = 12")
    case True
    then show ?thesis using assms(5) by (simp add: month_days_def split: if_splits)
  next
    case False
    then show ?thesis using assms(2-4) by (simp add: days_before_month_Suc)
  qed
  then have "t div 86400 < days_before_month leap m + month_days leap m"
    by (simp add: div_less_iff_less_mult mult.commute)
  moreover show "days_before_month leap m \<le> t div 86400"
    using div_le_mono [OF assms(1), of 86400] by simp
  ultimately show "t div 86400 - days_before_month leap m + 1 \<le> month_days leap m" by arith
qed

lemma secs_at_Suc: "secs_at (Suc k) = secs_at k + 86400 * (if leap_year (1970 + k) then 366 else 365)"
proof -
  obtain e where "days_before_year (1970 + k) = 719528 + e"
    using days_before_year_mono [of 1970 "1970 + k"] days_before_1970 le_Suc_ex
    by (metis add.assoc le_add1)
  moreover have "days_before_year (1970 + Suc k) =
    days_before_year (1970 + k) + (if leap_year (1970 + k) then 366 else 365)"
    by (simp only: add_Suc_right days_before_year.simps)
  ultimately show ?thesis unfolding secs_at_def by (simp only:)
qed

lemma seconds_to_date_ok:
  assumes k: "k < 130" "k \<noteq> 25" "secs_at k \<le> unat s" "unat s < secs_at (Suc k)" and ms: "unat ms < 1000"
  obtains d where "seconds_to_date s ms = Some d" "date_ok d" "unat (YEAR d) = 1970 + k" "date_seconds d = unat s"
    "unat (MILLISEC d) = unat ms"
proof -
  define leap where "leap = leap_year (1970 + k)"
  have t: "unat s - secs_at k < 86400 * (if leap then 366 else 365)" "unat s < secs_at k + 86400 * 800"
    using k(3,4) secs_at_Suc [of k] by (auto simp: leap_def split: if_splits)
  have "first_above time_secs_before_year_internal s 1 = Some (Suc k)"
    using year_search [OF k(1,3,4)] k(2) by simp
  then obtain m d where d: "seconds_to_date s ms = Some d" "unat (YEAR d) = 1970 + k" "unat (MONTH d) = m"
    "1 \<le> m" "m \<le> 12" "86400 * days_before_month leap m \<le> unat s - secs_at k"
    "m < 12 \<longrightarrow> unat s - secs_at k < 86400 * days_before_month leap (Suc m)"
    "unat (DAY d) = (unat s - secs_at k) div 86400 - days_before_month leap m + 1"
    "unat (HOUR d) < 24" "unat (MINUTE d) < 60" "unat (SECOND d) < 60" "unat (MILLISEC d) = unat ms"
    "3600 * unat (HOUR d) + 60 * unat (MINUTE d) + unat (SECOND d) = (unat s - secs_at k) mod 86400"
    by (rule seconds_to_date_run [OF _ k(1,2,3) t(2) ms, folded leap_def])
  note day = day_in_month [OF d(6,4,5,7) t(1)]
  have ok: "date_ok d"
    unfolding date_ok_def valid_day_def d(2,3,8,12) leap_def [symmetric]
    using d(4,5,9-11) day(1) ms by simp
  define q where "q = (unat s - secs_at k) div 86400"
  have dq: "unat (DAY d) + days_before_month leap m = q + 1" using day(2) d(8) by (simp flip: q_def)
  have "1970 \<le> unat (YEAR d)" "unat (YEAR d) - 1970 = k" using d(2) by simp_all
  then have "date_seconds d + 86400 = secs_at k + 86400 * days_before_month leap m + 86400 * unat (DAY d)
    + (3600 * unat (HOUR d) + 60 * unat (MINUTE d) + unat (SECOND d))"
    using date_seconds_ok [OF ok] unfolding d(2,3) leap_def by simp
  also have "\<dots> = secs_at k + 86400 * (q + 1) + (unat s - secs_at k) mod 86400"
    unfolding d(13) dq [symmetric] by simp
  also have "\<dots> = secs_at k + (86400 * q + (unat s - secs_at k) mod 86400) + 86400" by simp
  also have "\<dots> = unat s + 86400"
    unfolding q_def mult_div_mod_eq le_add_diff_inverse [OF k(3)] ..
  finally have "date_seconds d = unat s" by simp
  then show thesis using that [OF d(1) ok d(2)] d(12) by simp
qed

text \<open>
  C29. \<open>_time_to_date\<close> and \<open>_time_from_date\<close> are inverse to each other: every time before 2100
  with at most 999 milliseconds and outside 1995 has a date in its ranges, that names the
  second of the time in the Gregorian calendar, and from which \<open>_time_from_date\<close> gets the
  time back.
\<close>

theorem time_to_date_roundtrip:
  assumes "SECONDS ts < 4102444800" "\<not> (788918400 \<le> SECONDS ts \<and> SECONDS ts < 820454400)"
    and "MILLISECONDS ts \<le> 999"
  shows "\<exists>d. time_to_date (Some ts) (Some d\<^sub>0) = Some (True, Some d) \<and> date_ok d \<and> date_seconds d = unat (SECONDS ts)
    \<and> time_from_date (Some d) (Some ts\<^sub>0) = Some (True, Some d, Some ts)"
proof -
  have x: "unat (SECONDS ts) < 4102444800" "\<not> (788918400 \<le> unat (SECONDS ts) \<and> unat (SECONDS ts) < 820454400)"
    and ms: "unat (MILLISECONDS ts) < 1000"
    using assms by (auto simp: word_less_nat_alt word_le_nat_alt)
  obtain k where k: "k < 130" "secs_at k \<le> unat (SECONDS ts)" "unat (SECONDS ts) < secs_at (Suc k)" "k \<noteq> 25"
    using year_of_seconds [OF x(1)] x(2) by metis
  obtain d where d: "seconds_to_date (SECONDS ts) (MILLISECONDS ts) = Some d" "date_ok d" "unat (YEAR d) = 1970 + k"
    "date_seconds d = unat (SECONDS ts)" "unat (MILLISEC d) = unat (MILLISECONDS ts)"
    using seconds_to_date_ok [OF k(1,4,2,3) ms] by metis
  have "time_to_date (Some ts) (Some d\<^sub>0) = Some (True, Some d)"
    using assms(1,3) d(1) by (simp add: time_to_date_def not_less)
  moreover have "time_from_date (Some d) (Some ts\<^sub>0) = Some (True, Some d, Some ts)"
  proof -
    have y: "1970 \<le> unat (YEAR d)" "unat (YEAR d) < 2100" using d(3) k(1) by simp_all
    have "YEAR d \<noteq> 1995" "\<not> 2239 < YEAR d" using d(3) k(1,4) by (auto simp: word_less_nat_alt)
    then have "date_to_seconds d = Some (SECONDS ts)"
      using date_to_seconds_ok [OF d(2) y] d(4) by simp
    moreover have "ucast (MILLISEC d) = MILLISECONDS ts"
      using d(5) by (simp add: ucast_of_nat16)
    ultimately show ?thesis
      using time_from_date_ok [OF d(2) y(1)] \<open>\<not> 2239 < YEAR d\<close> by simp
  qed
  ultimately show ?thesis using d(2,4) by blast
qed

theorem time_to_date_roundtrip_witness:
  "\<exists>d. time_to_date (Some \<lparr>SECONDS = 1330642801, MILLISECONDS = 500\<rparr>)
      (Some \<lparr>YEAR = 0, MONTH = 0, DAY = 0, HOUR = 0, MINUTE = 0, SECOND = 0, MILLISEC = 0\<rparr>) = Some (True, Some d) \<and> date_ok d
    \<and> date_seconds d = 1330642801
    \<and> time_from_date (Some d) (Some \<lparr>SECONDS = 0, MILLISECONDS = 0\<rparr>) =
        Some (True, Some d, Some \<lparr>SECONDS = 1330642801, MILLISECONDS = 500\<rparr>)"
  using time_to_date_roundtrip [of "\<lparr>SECONDS = 1330642801, MILLISECONDS = 500\<rparr>"
      "\<lparr>YEAR = 0, MONTH = 0, DAY = 0, HOUR = 0, MINUTE = 0, SECOND = 0, MILLISEC = 0\<rparr>"
      "\<lparr>SECONDS = 0, MILLISECONDS = 0\<rparr>"]
  by simp

text \<open>
  C33. The seconds of 1995. The table gives 1995 the first second of 1996, so that
  \<open>_time_to_date\<close> takes such a second for a day of December 1994 far beyond the 31st, which
  names the right day, and \<open>_time_from_date\<close>, given that date, returns TRUE and a time 365
  days later.
\<close>

theorem time_1995_shifted:
  assumes "788918400 \<le> SECONDS ts" "SECONDS ts < 820454400" "MILLISECONDS ts \<le> 999"
  shows "\<exists>d d'. time_to_date (Some ts) (Some d\<^sub>0) = Some (True, Some d)
    \<and> YEAR d = 1994 \<and> MONTH d = 12 \<and> unat (DAY d) = 32 + (unat (SECONDS ts) - 788918400) div 86400
    \<and> date_seconds d = unat (SECONDS ts)
    \<and> time_from_date (Some d) (Some ts\<^sub>0) = Some (True, Some d', Some (ts\<lparr>SECONDS := SECONDS ts + 31536000\<rparr>))"
proof -
  define x where "x = unat (SECONDS ts)"
  have x: "788918400 \<le> x" "x < 820454400" and ms: "unat (MILLISECONDS ts) < 1000"
    using assms by (auto simp: x_def word_less_nat_alt word_le_nat_alt)
  have sa: "secs_at 24 = 757382400" "secs_at 25 = 788918400" "secs_at 26 = 820454400"
    by (simp_all add: secs_at_eq)
  have fa: "first_above time_secs_before_year_internal (SECONDS ts) 1 = Some (Suc 24)"
    using year_search [of 25 "SECONDS ts"] x sa by (simp add: x_def)
  have b: "secs_at 24 \<le> unat (SECONDS ts)" "unat (SECONDS ts) < secs_at 24 + 86400 * 800"
    using x sa by (simp_all flip: x_def)
  have c: "24 < (130 :: nat)" "24 \<noteq> (25 :: nat)" "1970 + 24 = (1994 :: nat)" "leap_year 1994 = False"
    by (simp_all add: leap_year_def)
  obtain m d where d: "seconds_to_date (SECONDS ts) (MILLISECONDS ts) = Some d" "unat (YEAR d) = 1994"
    "unat (MONTH d) = m" "1 \<le> m" "m \<le> 12" "86400 * days_before_month False m \<le> x - 757382400"
    "m < 12 \<longrightarrow> x - 757382400 < 86400 * days_before_month False (Suc m)"
    "unat (DAY d) = (x - 757382400) div 86400 - days_before_month False m + 1"
    "unat (HOUR d) < 24" "unat (MINUTE d) < 60" "unat (SECOND d) < 60" "unat (MILLISEC d) = unat (MILLISECONDS ts)"
    "3600 * unat (HOUR d) + 60 * unat (MINUTE d) + unat (SECOND d) = (x - 757382400) mod 86400"
    by (rule seconds_to_date_run [OF fa c(1,2) b ms, unfolded c(3,4) sa(1), folded x_def])
  have "m = 12"
  proof (rule ccontr)
    assume "m \<noteq> 12"
    then have "days_before_month False (Suc m) \<le> 334" "m < 12"
      using d(5) days_before_month_mono [of "Suc m" 12 False] by simp_all
    then show False using d(7) x(1) by simp
  qed
  have t: "x - 757382400 = 86400 * 365 + (x - 788918400)" using x(1) by simp
  have day: "unat (DAY d) = 32 + (x - 788918400) div 86400"
    unfolding d(8) t \<open>m = 12\<close> by simp
  have "date_seconds d = 86400 * (day_number 1994 12 (unat (DAY d)) - 719529)
    + (3600 * unat (HOUR d) + 60 * unat (MINUTE d) + unat (SECOND d))"
    using d(2,3,12) \<open>m = 12\<close> ms by (simp add: date_seconds_def)
  moreover have "day_number 1994 12 (unat (DAY d)) = 728660 + (x - 788918400) div 86400"
    using days_before_year_from_1970 [of 24] c(4) day by (simp add: day_number_def)
  moreover have "(x - 757382400) mod 86400 = (x - 788918400) mod 86400"
    unfolding t by (rule mod_mult_self4)
  ultimately have secs: "date_seconds d = x"
    using d(13) mult_div_mod_eq [of 86400 "x - 788918400"] x(1) by simp
  have small: "(x - 788918400) div 86400 < 366" using x(2) by (simp add: div_less_iff_less_mult)
  obtain d' where d': "date_ok d'" "1970 \<le> unat (YEAR d')" "unat (YEAR d') < 2100" "date_seconds d' = x"
    "MILLISEC d' = MILLISEC d mod 1000"
    "time_from_date (Some d) (Some ts\<^sub>0) = Some (True, Some d',
       Some \<lparr>SECONDS = of_nat (x + (if YEAR d' = 1995 then 31536000 else 0)),
             MILLISECONDS = ucast (MILLISEC d mod 1000)\<rparr>)"
  proof (rule time_from_date_run [of d ts\<^sub>0, unfolded secs])
    show "date_fits d"
      using d(9-11) small by (simp add: date_fits_def day)
    show "1970 \<le> unat (YEAR d)" "1 \<le> unat (MONTH d)" "unat (MONTH d) \<le> 12 \<or> \<not> 12 dvd unat (MONTH d)"
      "1 \<le> unat (DAY d)" "x < 4102444800"
      using d(2,3) \<open>m = 12\<close> day x(2) by simp_all
  qed
  have "YEAR d' = 1995" using date_seconds_year [OF d'(1-3)] d'(4) x by simp
  have "MILLISEC d mod 1000 = MILLISEC d" using d(12) ms by (simp add: word_less_nat_alt)
  moreover have "ucast (MILLISEC d) = MILLISECONDS ts" using d(12) by (simp add: ucast_of_nat16)
  moreover have "(of_nat (x + 31536000) :: u32) = SECONDS ts + 31536000" by (simp add: x_def)
  ultimately have "time_from_date (Some d) (Some ts\<^sub>0) = Some (True, Some d', Some (ts\<lparr>SECONDS := SECONDS ts + 31536000\<rparr>))"
    using d'(6) \<open>YEAR d' = 1995\<close> by (cases ts) (simp del: of_nat_add)
  moreover have "time_to_date (Some ts) (Some d\<^sub>0) = Some (True, Some d)"
  proof -
    have "\<not> 4102444800 < SECONDS ts" "\<not> 999 < MILLISECONDS ts" using x ms by (auto simp: word_less_nat_alt x_def)
    then show ?thesis using d(1) by (simp add: time_to_date_def)
  qed
  moreover have "YEAR d = 1994" "MONTH d = 12" using d(2,3) \<open>m = 12\<close> by (simp_all add: word_unat_eq_iff)
  ultimately show ?thesis using day secs by (auto simp: x_def)
qed

theorem time_1995_shifted_witness:
  "\<exists>d d'. time_to_date (Some \<lparr>SECONDS = 800000000, MILLISECONDS = 0\<rparr>)
      (Some \<lparr>YEAR = 0, MONTH = 0, DAY = 0, HOUR = 0, MINUTE = 0, SECOND = 0, MILLISEC = 0\<rparr>) = Some (True, Some d)
    \<and> YEAR d = 1994 \<and> MONTH d = 12 \<and> unat (DAY d) = 160
    \<and> time_from_date (Some d) (Some \<lparr>SECONDS = 0, MILLISECONDS = 0\<rparr>) =
        Some (True, Some d', Some \<lparr>SECONDS = 831536000, MILLISECONDS = 0\<rparr>)"
  using time_1995_shifted [of "\<lparr>SECONDS = 800000000, MILLISECONDS = 0\<rparr>"
      "\<lparr>YEAR = 0, MONTH = 0, DAY = 0, HOUR = 0, MINUTE = 0, SECOND = 0, MILLISEC = 0\<rparr>"
      "\<lparr>SECONDS = 0, MILLISECONDS = 0\<rparr>"]
  by auto

end
