(* ===== verification/XDate.thy ===== *)
theory XDate
  imports CalendarProps
begin

text \<open>
  Extended dates: \<^verbatim>\<open>_time_normalize_xdate\<close>, \<^verbatim>\<open>_time_xdate_to_ticks\<close> and \<^verbatim>\<open>_time_ticks_to_xdate\<close> of
  \<^verbatim>\<open>src/mqx/source/kernel/time.c\<close>, with \<^verbatim>\<open>_psp_ticks_to_xdate\<close> of
  \<^verbatim>\<open>src/mqx/source/psp/cortex_m/psp_tixd.c\<close> and the tables of days. The conventions are those of
  \<open>Calendar\<close>; \<open>tps\<close> and \<open>hwtpt\<close> are the kernel variables \<open>TICKS_PER_SECOND\<close> and \<open>HW_TICKS_PER_TICK\<close>.
\<close>

section \<open>The tables of days\<close>

definition time_days_before_month_internal :: "bool \<Rightarrow> u16 list" where
  "time_days_before_month_internal leap =
     (if leap then [0, 31, 60, 91, 121, 152, 182, 213, 244, 274, 305, 335, 0xFFFF]
      else [0, 31, 59, 90, 120, 151, 181, 212, 243, 273, 304, 334, 0xFFFF])"

text \<open>A year \<open>y\<close> and a number \<open>n\<close> of leap days stand for \<open>(y - 1970) * DAYS_IN_YEAR + n\<close>.\<close>

definition days_before_year_entries :: "(nat \<times> nat) list" where
  "days_before_year_entries = [
    (1970, 0), (1971, 0), (1972, 0), (1973, 1), (1974, 1), (1975, 1), (1976, 1), (1977, 2),
    (1978, 2), (1979, 2), (1980, 2), (1981, 3), (1982, 3), (1983, 3), (1984, 3), (1985, 4),
    (1986, 4), (1987, 4), (1988, 4), (1989, 5), (1990, 5), (1991, 5), (1992, 5), (1993, 6),
    (1994, 6), (1995, 6), (1996, 6), (1997, 7), (1998, 7), (1999, 7), (2000, 7), (2001, 8),
    (2002, 8), (2003, 8), (2004, 8), (2005, 9), (2006, 9), (2007, 9), (2008, 9), (2009, 10),
    (2010, 10), (2011, 10), (2012, 10), (2013, 11), (2014, 11), (2015, 11), (2016, 11),
    (2017, 12), (2018, 12), (2019, 12), (2020, 12), (2021, 13), (2022, 13), (2023, 13),
    (2024, 13), (2025, 14), (2026, 14), (2027, 14), (2028, 14), (2029, 15), (2030, 15),
    (2031, 15), (2032, 15), (2033, 16), (2034, 16), (2035, 16), (2036, 16), (2037, 17),
    (2038, 17), (2039, 17), (2040, 17), (2041, 18), (2042, 18), (2043, 18), (2044, 18),
    (2045, 19), (2046, 19), (2047, 19), (2048, 19), (2049, 20), (2050, 20), (2051, 20),
    (2052, 20), (2053, 21), (2054, 21), (2055, 21), (2056, 21), (2057, 22), (2058, 22),
    (2059, 22), (2060, 22), (2061, 23), (2062, 23), (2063, 23), (2064, 23), (2065, 24),
    (2066, 24), (2067, 24), (2068, 24), (2069, 25), (2070, 25), (2071, 25), (2072, 25),
    (2073, 26), (2074, 26), (2075, 26), (2076, 26), (2077, 27), (2078, 27), (2079, 27),
    (2080, 27), (2081, 28), (2082, 28), (2083, 28), (2084, 28), (2085, 29), (2086, 29),
    (2087, 29), (2088, 29), (2089, 30), (2090, 30), (2091, 30), (2092, 30), (2093, 31),
    (2094, 31), (2095, 31), (2096, 31), (2097, 32), (2098, 32), (2099, 32), (2100, 32),
    (2101, 32), (2102, 32), (2103, 32), (2104, 32), (2105, 33), (2106, 33), (2107, 33),
    (2108, 33), (2109, 34), (2110, 34), (2111, 34), (2112, 34), (2113, 35), (2114, 35),
    (2115, 35), (2116, 35), (2117, 36), (2118, 36), (2119, 36), (2120, 36), (2121, 37),
    (2122, 37), (2123, 37), (2124, 37), (2125, 38), (2126, 38), (2127, 38), (2128, 38),
    (2129, 39), (2130, 39), (2131, 39), (2132, 39), (2133, 40), (2134, 40), (2135, 40),
    (2136, 40), (2137, 41), (2138, 41), (2139, 41), (2140, 41), (2141, 42), (2142, 42),
    (2143, 42), (2144, 42), (2145, 43), (2146, 43), (2147, 43), (2148, 43), (2149, 44),
    (2150, 44), (2151, 44), (2152, 44), (2153, 45), (2154, 45), (2155, 45), (2156, 45),
    (2157, 46), (2158, 46), (2159, 46), (2160, 46), (2161, 47), (2162, 47), (2163, 47),
    (2164, 47), (2165, 48), (2166, 48), (2167, 48), (2168, 48), (2169, 49), (2170, 49),
    (2171, 49), (2172, 49), (2173, 50), (2174, 50), (2175, 50), (2176, 50), (2177, 51),
    (2178, 51), (2179, 51), (2180, 51), (2181, 52), (2182, 52), (2183, 52), (2184, 52),
    (2185, 53), (2186, 53), (2187, 53), (2188, 53), (2189, 54), (2190, 54), (2191, 54),
    (2192, 54), (2193, 55), (2194, 55), (2195, 55), (2196, 55), (2197, 56), (2198, 56),
    (2199, 56), (2200, 56), (2201, 56), (2202, 56), (2203, 56), (2204, 56), (2205, 57),
    (2206, 57), (2207, 57), (2208, 57), (2209, 58), (2210, 58), (2211, 58), (2212, 58),
    (2213, 59), (2214, 59), (2215, 59), (2216, 59), (2217, 60), (2218, 60), (2219, 60),
    (2220, 60), (2221, 61), (2222, 61), (2223, 61), (2224, 61), (2225, 62), (2226, 62),
    (2227, 62), (2228, 62), (2229, 63), (2230, 63), (2231, 63), (2232, 63), (2233, 64),
    (2234, 64), (2235, 64), (2236, 64), (2237, 65), (2238, 65), (2239, 65), (2240, 65),
    (2241, 66), (2242, 66), (2243, 66), (2244, 66), (2245, 67), (2246, 67), (2247, 67),
    (2248, 67), (2249, 68), (2250, 68), (2251, 68), (2252, 68), (2253, 69), (2254, 69),
    (2255, 69), (2256, 69), (2257, 70), (2258, 70), (2259, 70), (2260, 70), (2261, 71),
    (2262, 71), (2263, 71), (2264, 71), (2265, 72), (2266, 72), (2267, 72), (2268, 72),
    (2269, 73), (2270, 73), (2271, 73), (2272, 73), (2273, 74), (2274, 74), (2275, 74),
    (2276, 74), (2277, 75), (2278, 75), (2279, 75), (2280, 75), (2281, 76), (2282, 76),
    (2283, 76), (2284, 76), (2285, 77), (2286, 77), (2287, 77), (2288, 77), (2289, 78),
    (2290, 78), (2291, 78), (2292, 78), (2293, 79), (2294, 79), (2295, 79), (2296, 79),
    (2297, 80), (2298, 80), (2299, 80), (2300, 80), (2301, 80), (2302, 80), (2303, 80),
    (2304, 80), (2305, 81), (2306, 81), (2307, 81), (2308, 81), (2309, 82), (2310, 82),
    (2311, 82), (2312, 82), (2313, 83), (2314, 83), (2315, 83), (2316, 83), (2317, 84),
    (2318, 84), (2319, 84), (2320, 84), (2321, 85), (2322, 85), (2323, 85), (2324, 85),
    (2325, 86), (2326, 86), (2327, 86), (2328, 86), (2329, 87), (2330, 87), (2331, 87),
    (2332, 87), (2333, 88), (2334, 88), (2335, 88), (2336, 88), (2337, 89), (2338, 89),
    (2339, 89), (2340, 89), (2341, 90), (2342, 90), (2343, 90), (2344, 90), (2345, 91),
    (2346, 91), (2347, 91), (2348, 91), (2349, 92), (2350, 92), (2351, 92), (2352, 92),
    (2353, 93), (2354, 93), (2355, 93), (2356, 93), (2357, 94), (2358, 94), (2359, 94),
    (2360, 94), (2361, 95), (2362, 95), (2363, 95), (2364, 95), (2365, 96), (2366, 96),
    (2367, 96), (2368, 96), (2369, 97), (2370, 97), (2371, 97), (2372, 97), (2373, 98),
    (2374, 98), (2375, 98), (2376, 98), (2377, 99), (2378, 99), (2379, 99), (2380, 99),
    (2381, 100), (2382, 100), (2383, 100), (2384, 100), (2385, 101), (2386, 101), (2387, 101),
    (2388, 101), (2389, 102), (2390, 102), (2391, 102), (2392, 102), (2393, 103), (2394, 103),
    (2395, 103), (2396, 103), (2397, 104), (2398, 104), (2399, 104), (2400, 104), (2401, 105),
    (2402, 105), (2403, 105), (2404, 105), (2405, 106), (2406, 106), (2407, 106), (2408, 106),
    (2409, 107), (2410, 107), (2411, 107), (2412, 107), (2413, 108), (2414, 108), (2415, 108),
    (2416, 108), (2417, 109), (2418, 109), (2419, 109), (2420, 109), (2421, 110), (2422, 110),
    (2423, 110), (2424, 110), (2425, 111), (2426, 111), (2427, 111), (2428, 111), (2429, 112),
    (2430, 112), (2431, 112), (2432, 112), (2433, 113), (2434, 113), (2435, 113), (2436, 113),
    (2437, 114), (2438, 114), (2439, 114), (2440, 114), (2441, 115), (2442, 115), (2443, 115),
    (2444, 115), (2445, 116), (2446, 116), (2447, 116), (2448, 116), (2449, 117), (2450, 117),
    (2451, 117), (2452, 117), (2453, 118), (2454, 118), (2455, 118), (2456, 118), (2457, 119),
    (2458, 119), (2459, 119), (2460, 119), (2461, 120), (2462, 120), (2463, 120), (2464, 120),
    (2465, 121), (2466, 121), (2467, 121), (2468, 121), (2469, 122), (2470, 122), (2471, 122),
    (2472, 122), (2473, 123), (2474, 123), (2475, 123), (2476, 123), (2477, 124), (2478, 124),
    (2479, 124), (2480, 124), (2481, 125)]"

definition time_days_before_year_internal :: "u32 list" where
  "time_days_before_year_internal =
     map (\<lambda>(y, n). of_nat ((y - 1970) * 365 + n)) days_before_year_entries @ [MAX_UINT_32]"

section \<open>Extended dates\<close>

record xdate_struct =
  X_YEAR :: u16
  X_MONTH :: u16
  MDAY :: u16
  X_HOUR :: u16
  X_MIN :: u16
  SEC :: u16
  MSEC :: u16
  USEC :: u16
  NSEC :: u16
  PSEC :: u16
  WDAY :: u16
  YDAY :: u16

definition carry_xfields :: "xdate_struct \<Rightarrow> xdate_struct" where
  "carry_xfields x =
     (let x = (if PSEC x \<ge> 1000 then x\<lparr>NSEC := NSEC x + PSEC x div 1000, PSEC := PSEC x mod 1000\<rparr> else x);
          x = (if NSEC x \<ge> 1000 then x\<lparr>USEC := USEC x + NSEC x div 1000, NSEC := NSEC x mod 1000\<rparr> else x);
          x = (if USEC x \<ge> 1000 then x\<lparr>MSEC := MSEC x + USEC x div 1000, USEC := USEC x mod 1000\<rparr> else x);
          x = (if MSEC x \<ge> 1000 then x\<lparr>SEC := SEC x + MSEC x div 1000, MSEC := MSEC x mod 1000\<rparr> else x);
          x = (if SEC x \<ge> 60 then x\<lparr>X_MIN := X_MIN x + SEC x div 60, SEC := SEC x mod 60\<rparr> else x);
          x = (if X_MIN x \<ge> 60 then x\<lparr>X_HOUR := X_HOUR x + X_MIN x div 60, X_MIN := X_MIN x mod 60\<rparr> else x)
      in if X_HOUR x \<ge> 24 then x\<lparr>MDAY := MDAY x + X_HOUR x div 24, X_HOUR := X_HOUR x mod 24\<rparr> else x)"

definition time_normalize_xdate :: "xdate_struct \<Rightarrow> (bool \<times> xdate_struct) option" where
  "time_normalize_xdate x =
     (if X_YEAR x < 1970 then Some (False, x)
      else
        (let x = carry_xfields x;
             x = (if X_MONTH x > 12
                  then x\<lparr>X_YEAR := X_YEAR x + (X_MONTH x - 1) div 12, X_MONTH := (X_MONTH x - 1) mod 12 + 1\<rparr>
                  else x)
         in case carry_days (X_YEAR x, X_MONTH x, MDAY x) of
              None \<Rightarrow> None
            | Some (year, month, day) \<Rightarrow>
                Some (\<not> year > 2481, x\<lparr>X_YEAR := year, X_MONTH := month, MDAY := day\<rparr>)))"

section \<open>Extended dates to ticks\<close>

text \<open>The days since 1970, in 32 bits, of a normalized date.\<close>

definition xdate_days :: "xdate_struct \<Rightarrow> u32 option" where
  "xdate_days x =
     (if unat (X_YEAR x) < 1970 \<or> X_MONTH x = 0 then None
      else
        (case (entry time_days_before_year_internal (unat (X_YEAR x) - 1970),
               entry (time_days_before_month_internal (time_check_if_leap (X_YEAR x))) (unat (X_MONTH x) - 1)) of
           (Some y, Some m) \<Rightarrow> Some (y + ucast m + (ucast (MDAY x) - 1))
         | _ \<Rightarrow> None))"

text \<open>A part of a second is converted and added only if it is not zero.\<close>

definition add_units :: "u32 \<Rightarrow> (u32 \<Rightarrow> tick_struct) \<Rightarrow> u16 \<Rightarrow> tick_struct \<Rightarrow> tick_struct" where
  "add_units hwtpt to_ticks n t = (if n \<noteq> 0 then psp_add_ticks hwtpt t (to_ticks (ucast n)) else t)"

definition xdate_ticks :: "u32 \<Rightarrow> u32 \<Rightarrow> u32 \<Rightarrow> xdate_struct \<Rightarrow> tick_struct" where
  "xdate_ticks tps hwtpt days x =
     (let time = days * 24 + ucast (X_HOUR x);
          t = \<lparr>TICKS = 3600 * ucast time, HW_TICKS = 0\<rparr>;
          tmp = ucast (SEC x) + ucast (X_MIN x) * 60 :: u32;
          t = t\<lparr>TICKS := TICKS t + ucast tmp\<rparr>;
          t = t\<lparr>TICKS := TICKS t * ucast tps\<rparr>;
          t = add_units hwtpt (psp_msecs_to_ticks tps hwtpt) (MSEC x) t;
          t = add_units hwtpt (psp_usecs_to_ticks tps hwtpt) (USEC x) t;
          t = add_units hwtpt (psp_nsecs_to_ticks tps hwtpt) (NSEC x) t
      in add_units hwtpt (psp_psecs_to_ticks tps hwtpt) (PSEC x) t)"

definition time_xdate_to_ticks ::
  "u32 \<Rightarrow> u32 \<Rightarrow> xdate_struct option \<Rightarrow> tick_struct option
    \<Rightarrow> (bool \<times> xdate_struct option \<times> tick_struct option) option" where
  "time_xdate_to_ticks tps hwtpt xdate_ptr tick_ptr =
     (case (xdate_ptr, tick_ptr) of
        (Some x, Some t) \<Rightarrow>
          (case time_normalize_xdate x of
             None \<Rightarrow> None
           | Some (ok, x) \<Rightarrow>
               if \<not> ok then Some (False, Some x, Some t)
               else
                 (case xdate_days x of
                    None \<Rightarrow> None
                  | Some days \<Rightarrow> Some (True, Some x, Some (xdate_ticks tps hwtpt days x))))
      | _ \<Rightarrow> Some (False, xdate_ptr, tick_ptr))"

section \<open>Ticks to extended dates\<close>

text \<open>
  The date of a number of days: the search for the year starts at \<open>days / 366\<close>, that for the
  month at \<open>days / 31\<close>. A number of days whose guess is beyond the table is refused.
\<close>

definition days_to_xdate :: "u32 \<Rightarrow> xdate_struct \<Rightarrow> (bool \<times> xdate_struct) option" where
  "days_to_xdate days x =
     (if days div 366 > 511 then Some (False, x)
      else
        (case first_above time_days_before_year_internal days (unat (days div 366) + 1) of
           None \<Rightarrow> None
         | Some i \<Rightarrow>
             (let wday = ucast ((days + 3 + 1) mod 7);
                  days = days - time_days_before_year_internal ! (i - 1);
                  year = of_nat (i - 1) + 1970;
                  table = map ucast (time_days_before_month_internal (time_check_if_leap year))
              in case first_above table days (unat (days div 31)) of
                   None \<Rightarrow> None
                 | Some month \<Rightarrow>
                     Some (True, x\<lparr>X_YEAR := year, X_MONTH := of_nat month,
                       MDAY := ucast (days - table ! (month - 1)) + 1, WDAY := wday, YDAY := ucast days\<rparr>))))"

text \<open>
  The parts of a second, out of what is left of the ticks: each is truncated, converted back and
  subtracted before the next one. The source ends early when there are no ticks left and the part
  just subtracted has no hardware ticks, and takes the picoseconds from the conversion to
  microseconds.
\<close>

definition split_unit :: "(tick_struct \<Rightarrow> u32 \<times> bool) \<Rightarrow> (u32 \<Rightarrow> tick_struct) \<Rightarrow> u32 \<Rightarrow> tick_struct
    \<Rightarrow> u32 \<times> tick_struct \<times> bool" where
  "split_unit trunc to_ticks hwtpt t =
     (let tmp = fst (trunc t);
          t2 = to_ticks tmp;
          t1 = psp_subtract_ticks hwtpt t t2
      in (tmp, t1, TICKS t1 = 0 \<and> HW_TICKS t2 = 0))"

definition xdate_subseconds :: "u32 \<Rightarrow> u32 \<Rightarrow> tick_struct \<Rightarrow> xdate_struct \<Rightarrow> xdate_struct" where
  "xdate_subseconds tps hwtpt t x =
     (let (ms, t, fin) = split_unit (psp_ticks_to_milliseconds_truncate tps hwtpt) (psp_msecs_to_ticks tps hwtpt) hwtpt t;
          x = x\<lparr>MSEC := ucast ms\<rparr>
      in if fin then x\<lparr>USEC := 0, NSEC := 0, PSEC := 0\<rparr>
         else
           (let (us, t, fin) = split_unit (psp_ticks_to_microseconds_truncate tps hwtpt) (psp_usecs_to_ticks tps hwtpt) hwtpt t;
                x = x\<lparr>USEC := ucast us\<rparr>
            in if fin then x\<lparr>NSEC := 0, PSEC := 0\<rparr>
               else
                 (let (ns, t, fin) = split_unit (psp_ticks_to_nanoseconds_truncate tps hwtpt) (psp_nsecs_to_ticks tps hwtpt) hwtpt t;
                      x = x\<lparr>NSEC := ucast ns\<rparr>
                  in if fin then x\<lparr>PSEC := 0\<rparr>
                     else x\<lparr>PSEC := ucast (fst (psp_ticks_to_microseconds_truncate tps hwtpt t))\<rparr>)))"

definition psp_ticks_to_xdate :: "u32 \<Rightarrow> u32 \<Rightarrow> tick_struct \<Rightarrow> xdate_struct \<Rightarrow> (bool \<times> xdate_struct) option" where
  "psp_ticks_to_xdate tps hwtpt t x =
     (let seconds = TICKS t div ucast tps;
          leftover_ticks = TICKS t mod ucast tps;
          tmp = ucast (seconds div 60) :: u32;
          x = x\<lparr>SEC := ucast (seconds mod 60), X_MIN := ucast (tmp mod 60)\<rparr>;
          tmp = tmp div 60;
          x = x\<lparr>X_HOUR := ucast (tmp mod 24)\<rparr>
      in case days_to_xdate (tmp div 24) x of
           None \<Rightarrow> None
         | Some (ok, x) \<Rightarrow>
             Some (ok, if ok then xdate_subseconds tps hwtpt (t\<lparr>TICKS := leftover_ticks\<rparr>) x else x))"

definition time_ticks_to_xdate ::
  "u32 \<Rightarrow> u32 \<Rightarrow> tick_struct option \<Rightarrow> xdate_struct option \<Rightarrow> (bool \<times> xdate_struct option) option" where
  "time_ticks_to_xdate tps hwtpt tick_ptr xdate_ptr =
     (case (tick_ptr, xdate_ptr) of
        (Some t, Some x) \<Rightarrow> map_option (\<lambda>(ok, x). (ok, Some x)) (psp_ticks_to_xdate tps hwtpt t x)
      | _ \<Rightarrow> Some (False, xdate_ptr))"

section \<open>The tables\<close>

lemma days_before_year_entries_eq:
  "days_before_year_entries = map (\<lambda>k. (1970 + k, (k + 1) div 4 - (k + 69) div 100 + (k + 369) div 400)) [0..<512]"
  by (simp add: days_before_year_entries_def upt_rec [of 0] upt_rec [of "Suc 0"] flip: numeral_2_eq_2)

definition days_at :: "nat \<Rightarrow> nat" where
  "days_at k = days_before_year (1970 + k) - 719528"

lemma days_before_year_at: "days_before_year (1970 + k) = 719528 + days_at k"
  using days_before_year_mono [of 1970 "1970 + k"] by (simp add: days_at_def days_before_1970)

lemma days_at_eq: "days_at k + (k + 69) div 100 = 365 * k + (k + 1) div 4 + (k + 369) div 400"
proof -
  have "(1970 + k + 99) div 100 = (k + 69) div 100 + 20" "(1970 + k + 3) div 4 = (k + 1) div 4 + 493"
    "(1970 + k + 399) div 400 = (k + 369) div 400 + 5"
    by simp_all
  then show ?thesis
    using days_before_year_gregorian [of "1970 + k"] days_before_year_at [of k] by simp
qed

lemma days_at_values: "days_at 0 = 0" "days_at 512 = 187005"
  using days_at_eq [of 0] days_at_eq [of 512] by simp_all

lemma days_at_mono: "i \<le> j \<Longrightarrow> days_at i + 365 * (j - i) \<le> days_at j"
  using days_before_year_mono [of "1970 + i" "1970 + j"] days_before_year_at [of i] days_before_year_at [of j] by simp

lemma days_at_le: "days_at k \<le> 366 * k"
proof (induction k)
  case (Suc k)
  have "days_before_year (1970 + Suc k) \<le> days_before_year (1970 + k) + 366"
    by (simp only: add_Suc_right days_before_year.simps) simp
  then show ?case using Suc days_before_year_at [of k] days_before_year_at [of "Suc k"] by simp
qed (simp add: days_at_values)

lemma days_table_length [simp]: "length time_days_before_year_internal = 513"
  by (simp add: time_days_before_year_internal_def days_before_year_entries_eq)

lemma days_table_nth:
  assumes "k < 512"
  shows "time_days_before_year_internal ! k = of_nat (days_at k)"
proof -
  have "(k + 69) div 100 \<le> (k + 1) div 4"
  proof (cases "k < 31")
    case False
    then have "(k + 69) div 100 \<le> (k + 69) div 25" by (intro div_le_mono2) simp_all
    also have "\<dots> \<le> (k + 1) div 4" using False assms by linarith
    finally show ?thesis .
  qed simp
  then have "365 * k + ((k + 1) div 4 - (k + 69) div 100 + (k + 369) div 400) = days_at k"
    using days_at_eq [of k] by simp
  then have "(1970 + k - 1970) * 365 + ((k + 1) div 4 - (k + 69) div 100 + (k + 369) div 400) = days_at k"
    by (simp only: diff_add_inverse mult.commute [of 365])
  then show ?thesis
    using assms by (simp add: time_days_before_year_internal_def days_before_year_entries_eq nth_append
        del: of_nat_add of_nat_mult)
qed

lemma days_table_last: "time_days_before_year_internal ! 512 = MAX_UINT_32"
  by (simp add: time_days_before_year_internal_def days_before_year_entries_eq nth_append)

lemma month_table_length [simp]: "length (time_days_before_month_internal leap) = 13"
  by (simp add: time_days_before_month_internal_def)

lemma month_table_nth:
  assumes "1 \<le> m" "m \<le> 12"
  shows "time_days_before_month_internal leap ! (m - 1) = of_nat (days_before_month leap m)"
  by (rule months_cases [OF assms]; simp add: time_days_before_month_internal_def del: One_nat_def)

lemma month_table_last: "time_days_before_month_internal leap ! 12 = 0xFFFF"
  by (simp add: time_days_before_month_internal_def)

section \<open>Normalization\<close>

text \<open>The picoseconds since 1970 that an extended date names.\<close>

definition xdate_day :: "xdate_struct \<Rightarrow> nat" where
  "xdate_day x = day_number (unat (X_YEAR x) + (unat (X_MONTH x) - 1) div 12) ((unat (X_MONTH x) - 1) mod 12 + 1)
     (unat (MDAY x)) - 719529"

definition xdate_picos :: "xdate_struct \<Rightarrow> nat" where
  "xdate_picos x = 1000000000000 * (86400 * xdate_day x + 3600 * unat (X_HOUR x) + 60 * unat (X_MIN x) + unat (SEC x))
     + 1000000000 * unat (MSEC x) + 1000000 * unat (USEC x) + 1000 * unat (NSEC x) + unat (PSEC x)"

definition xdate_fits :: "xdate_struct \<Rightarrow> bool" where
  "xdate_fits x \<longleftrightarrow> unat (NSEC x) \<le> 62000 \<and> unat (USEC x) \<le> 62000 \<and> unat (MSEC x) \<le> 62000 \<and> unat (SEC x) \<le> 62000
     \<and> unat (X_MIN x) \<le> 62000 \<and> unat (X_HOUR x) \<le> 62000 \<and> unat (MDAY x) \<le> 62000 \<and> unat (X_YEAR x) \<le> 50000"

definition xdate_ok :: "xdate_struct \<Rightarrow> bool" where
  "xdate_ok x \<longleftrightarrow> valid_day (unat (X_YEAR x)) (unat (X_MONTH x)) (unat (MDAY x)) \<and> unat (X_HOUR x) < 24
     \<and> unat (X_MIN x) < 60 \<and> unat (SEC x) < 60 \<and> unat (MSEC x) < 1000 \<and> unat (USEC x) < 1000
     \<and> unat (NSEC x) < 1000 \<and> unat (PSEC x) < 1000"

lemma xcarries_value:
  fixes h m s ms us ns ps :: nat
  assumes "ns' = ns + ps div 1000" "us' = us + ns' div 1000" "ms' = ms + us' div 1000" "s' = s + ms' div 1000"
    and "m' = m + s' div 60" "h' = h + m' div 60"
  shows "1000000000000 * (3600 * h + 60 * m + s) + 1000000000 * ms + 1000000 * us + 1000 * ns + ps =
    1000000000000 * (86400 * (h' div 24) + 3600 * (h' mod 24) + 60 * (m' mod 60) + s' mod 60)
      + 1000000000 * (ms' mod 1000) + 1000000 * (us' mod 1000) + 1000 * (ns' mod 1000) + ps mod 1000"
proof -
  note d = div_mult_mod_eq [symmetric, of ps 1000] div_mult_mod_eq [symmetric, of ns' 1000]
    div_mult_mod_eq [symmetric, of us' 1000] div_mult_mod_eq [symmetric, of ms' 1000]
  have a: "1000000000 * ms + 1000000 * us + 1000 * ns + ps =
      1000000000000 * (ms' div 1000) + 1000000000 * (ms' mod 1000) + 1000000 * (us' mod 1000)
      + 1000 * (ns' mod 1000) + ps mod 1000"
    using d assms(1-3) by linarith
  have b: "3600 * h + 60 * m + s + ms' div 1000 = 86400 * (h' div 24) + 3600 * (h' mod 24) + 60 * (m' mod 60) + s' mod 60"
    using carries_value [of h m s'] assms(4-6) by simp
  show ?thesis unfolding b [symmetric] distrib_left using a by simp
qed

lemma carry_xfields_steps:
  "(if PSEC x \<ge> 1000 then x\<lparr>NSEC := NSEC x + PSEC x div 1000, PSEC := PSEC x mod 1000\<rparr> else x) =
    x\<lparr>NSEC := NSEC x + PSEC x div 1000, PSEC := PSEC x mod 1000\<rparr>"
  "(if NSEC x \<ge> 1000 then x\<lparr>USEC := USEC x + NSEC x div 1000, NSEC := NSEC x mod 1000\<rparr> else x) =
    x\<lparr>USEC := USEC x + NSEC x div 1000, NSEC := NSEC x mod 1000\<rparr>"
  "(if USEC x \<ge> 1000 then x\<lparr>MSEC := MSEC x + USEC x div 1000, USEC := USEC x mod 1000\<rparr> else x) =
    x\<lparr>MSEC := MSEC x + USEC x div 1000, USEC := USEC x mod 1000\<rparr>"
  "(if MSEC x \<ge> 1000 then x\<lparr>SEC := SEC x + MSEC x div 1000, MSEC := MSEC x mod 1000\<rparr> else x) =
    x\<lparr>SEC := SEC x + MSEC x div 1000, MSEC := MSEC x mod 1000\<rparr>"
  "(if SEC x \<ge> 60 then x\<lparr>X_MIN := X_MIN x + SEC x div 60, SEC := SEC x mod 60\<rparr> else x) =
    x\<lparr>X_MIN := X_MIN x + SEC x div 60, SEC := SEC x mod 60\<rparr>"
  "(if X_MIN x \<ge> 60 then x\<lparr>X_HOUR := X_HOUR x + X_MIN x div 60, X_MIN := X_MIN x mod 60\<rparr> else x) =
    x\<lparr>X_HOUR := X_HOUR x + X_MIN x div 60, X_MIN := X_MIN x mod 60\<rparr>"
  "(if X_HOUR x \<ge> 24 then x\<lparr>MDAY := MDAY x + X_HOUR x div 24, X_HOUR := X_HOUR x mod 24\<rparr> else x) =
    x\<lparr>MDAY := MDAY x + X_HOUR x div 24, X_HOUR := X_HOUR x mod 24\<rparr>"
  by (simp_all add: not_le)

lemma carry_xfields_eq:
  "carry_xfields x =
     (let ns = NSEC x + PSEC x div 1000; us = USEC x + ns div 1000; ms = MSEC x + us div 1000;
          s = SEC x + ms div 1000; m = X_MIN x + s div 60; h = X_HOUR x + m div 60
      in x\<lparr>PSEC := PSEC x mod 1000, NSEC := ns mod 1000, USEC := us mod 1000, MSEC := ms mod 1000, SEC := s mod 60,
           X_MIN := m mod 60, X_HOUR := h mod 24, MDAY := MDAY x + h div 24\<rparr>)"
  unfolding carry_xfields_def carry_xfields_steps by (simp add: Let_def)

text \<open>The parts of the time of day, with the days that they carry over.\<close>

definition xdate_rest :: "xdate_struct \<Rightarrow> nat" where
  "xdate_rest x = 1000000000000 * (3600 * unat (X_HOUR x) + 60 * unat (X_MIN x) + unat (SEC x))
     + 1000000000 * unat (MSEC x) + 1000000 * unat (USEC x) + 1000 * unat (NSEC x) + unat (PSEC x)"

lemma carry_xfields_correct:
  assumes "xdate_fits x"
  shows "unat (MDAY x) \<le> unat (MDAY (carry_xfields x))"
    and "xdate_rest x = 86400000000000000 * (unat (MDAY (carry_xfields x)) - unat (MDAY x)) + xdate_rest (carry_xfields x)"
    and "unat (X_HOUR (carry_xfields x)) < 24" "unat (X_MIN (carry_xfields x)) < 60" "unat (SEC (carry_xfields x)) < 60"
      "unat (MSEC (carry_xfields x)) < 1000" "unat (USEC (carry_xfields x)) < 1000"
      "unat (NSEC (carry_xfields x)) < 1000" "unat (PSEC (carry_xfields x)) < 1000"
proof -
  define ns us ms s m h where defs: "ns = NSEC x + PSEC x div 1000" "us = USEC x + ns div 1000"
    "ms = MSEC x + us div 1000" "s = SEC x + ms div 1000" "m = X_MIN x + s div 60" "h = X_HOUR x + m div 60"
  have f: "unat (NSEC x) \<le> 62000" "unat (USEC x) \<le> 62000" "unat (MSEC x) \<le> 62000" "unat (SEC x) \<le> 62000"
    "unat (X_MIN x) \<le> 62000" "unat (X_HOUR x) \<le> 62000" "unat (MDAY x) \<le> 62000"
    using assms by (simp_all add: xdate_fits_def)
  have u: "unat ns = unat (NSEC x) + unat (PSEC x) div 1000" "unat us = unat (USEC x) + unat ns div 1000"
    "unat ms = unat (MSEC x) + unat us div 1000" "unat s = unat (SEC x) + unat ms div 1000"
    "unat m = unat (X_MIN x) + unat s div 60" "unat h = unat (X_HOUR x) + unat m div 60"
    "unat (MDAY x + h div 24) = unat (MDAY x) + unat h div 24"
    using f by (simp_all add: defs unat_carry16)
  have c: "carry_xfields x =
    x\<lparr>PSEC := PSEC x mod 1000, NSEC := ns mod 1000, USEC := us mod 1000, MSEC := ms mod 1000, SEC := s mod 60,
      X_MIN := m mod 60, X_HOUR := h mod 24, MDAY := MDAY x + h div 24\<rparr>"
    by (simp add: carry_xfields_eq Let_def defs)
  show "unat (MDAY x) \<le> unat (MDAY (carry_xfields x))" by (simp add: c u(7))
  show "unat (X_HOUR (carry_xfields x)) < 24" "unat (X_MIN (carry_xfields x)) < 60" "unat (SEC (carry_xfields x)) < 60"
    "unat (MSEC (carry_xfields x)) < 1000" "unat (USEC (carry_xfields x)) < 1000"
    "unat (NSEC (carry_xfields x)) < 1000" "unat (PSEC (carry_xfields x)) < 1000"
    by (simp_all add: c unat_mod)
  have n: "unat (1000 :: u16) = 1000" "unat (60 :: u16) = 60" "unat (24 :: u16) = 24" by simp_all
  show "xdate_rest x = 86400000000000000 * (unat (MDAY (carry_xfields x)) - unat (MDAY x)) + xdate_rest (carry_xfields x)"
    unfolding xdate_rest_def xcarries_value [OF u(1-6)] c
    by (simp add: u(7) unat_mod add_mult_distrib2 del: u(1-6))
qed

lemma xdate_picos_rest: "xdate_picos x = 86400000000000000 * xdate_day x + xdate_rest x"
  by (simp add: xdate_picos_def xdate_rest_def)

lemma xdate_rest_bound:
  assumes "xdate_ok x"
  shows "xdate_rest x < 86400000000000000"
proof -
  have "3600 * unat (X_HOUR x) + 60 * unat (X_MIN x) + unat (SEC x) \<le> 86399"
    "1000000000 * unat (MSEC x) + 1000000 * unat (USEC x) + 1000 * unat (NSEC x) + unat (PSEC x) < 1000000000000"
    using assms by (simp_all add: xdate_ok_def)
  then show ?thesis unfolding xdate_rest_def distrib_left by linarith
qed

text \<open>The last day of the table is that of 31 December 2481.\<close>

lemma xdate_in_range:
  assumes ok: "xdate_ok x" and year: "1970 \<le> unat (X_YEAR x)"
  shows "unat (X_YEAR x) < 2482 \<longleftrightarrow> xdate_day x < 187005"
    and "xdate_day x < 187005 \<longleftrightarrow> xdate_picos x < 187005 * 86400 * 1000000000000"
proof -
  have v: "valid_day (unat (X_YEAR x)) (unat (X_MONTH x)) (unat (MDAY x))" using ok by (simp add: xdate_ok_def)
  define n where "n = day_number (unat (X_YEAR x)) (unat (X_MONTH x)) (unat (MDAY x))"
  have "(unat (X_MONTH x) - 1) div 12 = 0" "(unat (X_MONTH x) - 1) mod 12 + 1 = unat (X_MONTH x)"
    using v by (auto simp: valid_day_def)
  then have d: "xdate_day x = n - 719529" by (simp add: xdate_day_def n_def)
  have "719529 \<le> n"
    using day_number_since_1970 [OF year, of "unat (MDAY x)" "unat (X_MONTH x)"] v by (simp add: n_def valid_day_def)
  have b: "days_before_year 2482 = 906533" using days_before_year_at [of 512] days_at_values by simp
  have "unat (X_YEAR x) < 2482 \<longleftrightarrow> n \<le> 906533"
  proof
    assume "unat (X_YEAR x) < 2482"
    then show "n \<le> 906533"
      using valid_day_iff_number(2) [OF v] days_before_year_mono [of "Suc (unat (X_YEAR x))" 2482] b by (simp add: n_def)
  next
    assume "n \<le> 906533"
    then show "unat (X_YEAR x) < 2482" using year_before_day [OF v, of 2482] b by (simp add: n_def)
  qed
  then show "unat (X_YEAR x) < 2482 \<longleftrightarrow> xdate_day x < 187005" using d \<open>719529 \<le> n\<close> by auto
  show "xdate_day x < 187005 \<longleftrightarrow> xdate_picos x < 187005 * 86400 * 1000000000000"
    unfolding xdate_picos_rest using xdate_rest_bound [OF ok] by (intro iffI; linarith)
qed

text \<open>
  C32. \<open>_time_normalize_xdate\<close> on any extended date from 1970 on, with months, days and smaller
  units beyond their range: it ends with every field in its range and the same moment, to the
  picosecond, and returns TRUE exactly when that moment is before 2482.
\<close>

theorem time_normalize_xdate_correct:
  assumes fits: "xdate_fits x" and year: "1970 \<le> unat (X_YEAR x)"
    and month: "1 \<le> unat (X_MONTH x)" and day: "1 \<le> unat (MDAY x)"
  shows "\<exists>x'. time_normalize_xdate x = Some (xdate_picos x < 187005 * 86400 * 1000000000000, x')
    \<and> xdate_ok x' \<and> xdate_picos x' = xdate_picos x"
proof -
  define c where "c = carry_xfields x"
  note cc = carry_xfields_correct [OF fits, folded c_def]
  have same: "X_YEAR c = X_YEAR x" "X_MONTH c = X_MONTH x" by (simp_all add: c_def carry_xfields_eq Let_def)
  define y where "y = unat (X_YEAR x) + (unat (X_MONTH x) - 1) div 12"
  define m where "m = (unat (X_MONTH x) - 1) mod 12 + 1"
  have m: "1 \<le> m" "m \<le> 12" by (simp_all add: m_def Suc_le_eq)
  have "(unat (X_MONTH x) - 1) div 12 \<le> 65535 div 12"
    using unat_lt16 [of "X_MONTH x"] by (intro div_le_mono) simp
  then have y: "1970 \<le> y" "y \<le> 56000" using fits year by (simp_all add: y_def xdate_fits_def)
  define c1 where "c1 = (if X_MONTH c > 12
    then c\<lparr>X_YEAR := X_YEAR c + (X_MONTH c - 1) div 12, X_MONTH := (X_MONTH c - 1) mod 12 + 1\<rparr> else c)"
  have ym: "unat (X_YEAR c1) = y \<and> unat (X_MONTH c1) = m"
  proof (cases "12 < X_MONTH x")
    case True
    have d: "unat (X_MONTH x - 1) = unat (X_MONTH x) - 1" using month by (simp add: unat_sub word_le_nat_alt)
    have "unat ((X_MONTH x - 1) mod 12 + 1) = (unat (X_MONTH x) - 1) mod 12 + 1"
      using d by (simp add: unat_add_lem [THEN iffD1] unat_mod less_imp_add_positive trans_less_add1)
    moreover have "unat (X_YEAR x + (X_MONTH x - 1) div 12) = y"
      using d y by (simp add: unat_add_lem [THEN iffD1] unat_div y_def)
    ultimately show ?thesis using True same by (simp add: c1_def m_def)
  next
    case False
    then show ?thesis using same month by (auto simp: c1_def y_def m_def word_less_nat_alt)
  qed
  have rest: "MDAY c1 = MDAY c" "X_HOUR c1 = X_HOUR c" "X_MIN c1 = X_MIN c" "SEC c1 = SEC c" "MSEC c1 = MSEC c"
    "USEC c1 = USEC c" "NSEC c1 = NSEC c" "PSEC c1 = PSEC c"
    by (simp_all add: c1_def)
  have dayc: "unat (MDAY x) \<le> unat (MDAY c)" by (rule cc(1))
  have "day_number y m (unat (MDAY c)) \<le> days_before_year 65535"
    using y m unat_lt16 [of "MDAY c"] by (intro days_bound) auto
  then obtain y' m' d' where carry: "carry_days (X_YEAR c1, X_MONTH c1, MDAY c1) = Some (y', m', d')"
    and valid: "valid_day (unat y') (unat m') (unat d')"
    and num: "day_number (unat y') (unat m') (unat d') = day_number y m (unat (MDAY c))"
    using carry_days_correct [of "X_MONTH c1" "MDAY c1" "X_YEAR c1"] ym m dayc day rest(1) by auto
  define r where "r = c1\<lparr>X_YEAR := y', X_MONTH := m', MDAY := d'\<rparr>"
  have m': "(unat m' - 1) div 12 = 0" "(unat m' - 1) mod 12 + 1 = unat m'" using valid by (auto simp: valid_day_def)
  have rday: "xdate_day r = day_number y m (unat (MDAY c)) - 719529"
    using m' num by (simp add: xdate_day_def r_def)
  have "day_number y m (unat (MDAY c)) = day_number y m (unat (MDAY x)) + (unat (MDAY c) - unat (MDAY x))"
    using dayc by (simp add: day_number_def)
  moreover have "719529 \<le> day_number y m (unat (MDAY x))"
    using day_number_since_1970 [OF y(1), of "unat (MDAY x)" m] day by simp
  moreover have "xdate_day x = day_number y m (unat (MDAY x)) - 719529"
    by (simp only: xdate_day_def y_def m_def)
  ultimately have days: "xdate_day r = xdate_day x + (unat (MDAY c) - unat (MDAY x))" unfolding rday by linarith
  have "xdate_rest r = xdate_rest c" by (simp add: xdate_rest_def r_def rest)
  then have picos: "xdate_picos r = xdate_picos x"
    unfolding xdate_picos_rest days cc(2) by (simp add: add_mult_distrib2)
  have ok: "xdate_ok r" using valid cc(3-9) by (simp add: xdate_ok_def r_def rest)
  have "\<not> 2481 < y' \<longleftrightarrow> xdate_picos x < 187005 * 86400 * 1000000000000"
  proof -
    have "X_YEAR c1 \<le> y'" using carry_days_correct [of "X_MONTH c1" "MDAY c1" "X_YEAR c1"] carry ym m dayc day rest(1)
      \<open>day_number y m (unat (MDAY c)) \<le> days_before_year 65535\<close> by auto
    then have "1970 \<le> unat (X_YEAR r)" using ym y by (auto simp: r_def word_le_nat_alt)
    then have "unat (X_YEAR r) < 2482 \<longleftrightarrow> xdate_picos x < 187005 * 86400 * 1000000000000"
      using xdate_in_range [OF ok] picos by simp
    then show ?thesis by (auto simp: r_def word_less_nat_alt not_less)
  qed
  moreover have "\<not> X_YEAR x < 1970" using year by (simp add: word_less_nat_alt)
  ultimately have "time_normalize_xdate x = Some (xdate_picos x < 187005 * 86400 * 1000000000000, r)"
    using carry by (simp add: time_normalize_xdate_def Let_def r_def flip: c_def c1_def)
  then show ?thesis using ok picos by blast
qed

theorem time_normalize_xdate_correct_witness:
  "\<exists>x'. time_normalize_xdate \<lparr>X_YEAR = 2011, X_MONTH = 24, MDAY = 90, X_HOUR = 47, X_MIN = 0, SEC = 0,
      MSEC = 0, USEC = 0, NSEC = 0, PSEC = 60001, WDAY = 0, YDAY = 0\<rparr> = Some (True, x')
    \<and> xdate_ok x' \<and> xdate_picos x' = xdate_picos \<lparr>X_YEAR = 2011, X_MONTH = 24, MDAY = 90, X_HOUR = 47, X_MIN = 0,
      SEC = 0, MSEC = 0, USEC = 0, NSEC = 0, PSEC = 60001, WDAY = 0, YDAY = 0\<rparr>"
proof -
  let ?x = "\<lparr>X_YEAR = 2011, X_MONTH = 24, MDAY = 90, X_HOUR = 47, X_MIN = 0, SEC = 0,
    MSEC = 0, USEC = 0, NSEC = 0, PSEC = 60001, WDAY = 0, YDAY = 0\<rparr> :: xdate_struct"
  have "days_before_year 2012 = 734868" using days_before_year_from_1970 [of 42] by simp
  then have "xdate_picos ?x < 187005 * 86400 * 1000000000000"
    by (simp add: xdate_picos_def xdate_day_def day_number_def)
  moreover have "xdate_fits ?x" by (simp add: xdate_fits_def)
  ultimately show ?thesis using time_normalize_xdate_correct [of ?x] by (simp only:) simp
qed

section \<open>Whole seconds and ticks\<close>

lemma carry_xfields_ok: "xdate_ok x \<Longrightarrow> carry_xfields x = x"
  unfolding carry_xfields_def by (simp add: xdate_ok_def word_le_nat_alt Let_def)

lemma normalize_ok:
  assumes "xdate_ok x" "1970 \<le> unat (X_YEAR x)" "unat (X_YEAR x) < 2482"
  shows "time_normalize_xdate x = Some (True, x)"
proof -
  have v: "valid_day (unat (X_YEAR x)) (unat (X_MONTH x)) (unat (MDAY x))" using assms(1) by (simp add: xdate_ok_def)
  then have "\<not> 12 < X_MONTH x" "\<not> X_YEAR x < 1970" "\<not> 2481 < X_YEAR x"
    using assms by (auto simp: valid_day_def word_less_nat_alt)
  then show ?thesis
    using carry_days_ok [OF v] carry_xfields_ok [OF assms(1)] by (simp add: time_normalize_xdate_def Let_def)
qed

lemma ucast_u32_of_nat: "n < 4294967296 \<Longrightarrow> ucast (of_nat n :: u32) = (of_nat n :: u64)"
  by (simp add: word_unat_eq_iff unat_of_nat)

lemma xdate_days_ok:
  assumes ok: "xdate_ok x" and year: "1970 \<le> unat (X_YEAR x)" "unat (X_YEAR x) < 2482"
  shows "xdate_days x = Some (of_nat (xdate_day x))"
proof -
  define k where "k = unat (X_YEAR x) - 1970"
  have k: "k < 512" "unat (X_YEAR x) = 1970 + k" using year by (auto simp: k_def)
  have v: "valid_day (unat (X_YEAR x)) (unat (X_MONTH x)) (unat (MDAY x))" using ok by (simp add: xdate_ok_def)
  have m: "1 \<le> unat (X_MONTH x)" "unat (X_MONTH x) \<le> 12" "X_MONTH x \<noteq> 0" "1 \<le> unat (MDAY x)"
    using v by (auto simp: valid_day_def)
  define b where "b = days_before_month (leap_year (unat (X_YEAR x))) (unat (X_MONTH x))"
  have "b \<le> days_before_month (leap_year (unat (X_YEAR x))) 12"
    unfolding b_def using m(2) by (rule days_before_month_mono)
  then have "b < 65536" by (simp split: if_splits)
  then have ub: "unat (of_nat b :: u16) = b" by (simp add: unat_of_nat)
  have ym: "entry time_days_before_year_internal k = Some (of_nat (days_at k))"
    "entry (time_days_before_month_internal (leap_year (unat (X_YEAR x)))) (unat (X_MONTH x) - 1) = Some (of_nat b)"
    using k(1) m month_table_nth [OF m(1,2)] days_table_nth [OF k(1)] by (simp_all add: entry_def b_def)
  have "(unat (X_MONTH x) - 1) div 12 = 0" "(unat (X_MONTH x) - 1) mod 12 + 1 = unat (X_MONTH x)" using m by auto
  then have "xdate_day x + 1 = days_at k + b + unat (MDAY x)"
    using days_before_year_at [of k] m(4) by (simp add: xdate_day_def day_number_def b_def k(2))
  then have "(of_nat (xdate_day x + 1) :: u32) = of_nat (days_at k + b + unat (MDAY x))" by simp
  then have "(of_nat (xdate_day x) :: u32) = of_nat (days_at k) + of_nat b + of_nat (unat (MDAY x)) - 1"
    by (simp only: of_nat_add of_nat_1 eq_diff_eq)
  then have "of_nat (days_at k) + of_nat b + (of_nat (unat (MDAY x)) - 1) = (of_nat (xdate_day x) :: u32)"
    by (simp only: add_diff_eq)
  moreover have "\<not> unat (X_YEAR x) < 1970" using year by simp
  ultimately show ?thesis
    using m(3) ym
    by (simp only: xdate_days_def time_check_if_leap_eq ucast_of_nat16 ub if_False simp_thms option.case prod.case
        k_def [symmetric])
qed

definition xdate_seconds :: "xdate_struct \<Rightarrow> nat" where
  "xdate_seconds x = 86400 * xdate_day x + 3600 * unat (X_HOUR x) + 60 * unat (X_MIN x) + unat (SEC x)"

definition whole_second :: "xdate_struct \<Rightarrow> bool" where
  "whole_second x \<longleftrightarrow> MSEC x = 0 \<and> USEC x = 0 \<and> NSEC x = 0 \<and> PSEC x = 0"

lemma xdate_ticks_whole:
  assumes "xdate_ok x" "whole_second x" "xdate_day x < 187005"
  shows "xdate_ticks tps hwtpt (of_nat (xdate_day x)) x = \<lparr>TICKS = of_nat (xdate_seconds x * unat tps), HW_TICKS = 0\<rparr>"
proof -
  have b: "unat (X_HOUR x) < 24" "unat (X_MIN x) < 60" "unat (SEC x) < 60" using assms(1) by (simp_all add: xdate_ok_def)
  define T where "T = xdate_day x * 24 + unat (X_HOUR x)"
  define M where "M = unat (SEC x) + unat (X_MIN x) * 60"
  have TM: "T < 4294967296" "M < 4294967296" using b assms(3) by (simp_all add: T_def M_def)
  have "(of_nat (xdate_day x) * 24 + ucast (X_HOUR x) :: u32) = of_nat T"
    "(ucast (SEC x) + ucast (X_MIN x) * 60 :: u32) = of_nat M"
    by (simp_all only: T_def M_def ucast_of_nat16 of_nat_mult of_nat_add of_nat_numeral)
  then have "ucast (of_nat (xdate_day x) * 24 + ucast (X_HOUR x) :: u32) = (of_nat T :: u64)"
    "ucast (ucast (SEC x) + ucast (X_MIN x) * 60 :: u32) = (of_nat M :: u64)"
    by (simp_all only: ucast_u32_of_nat [OF TM(1)] ucast_u32_of_nat [OF TM(2)])
  moreover have "(ucast tps :: u64) = of_nat (unat tps)"
    by (simp add: word_unat_eq_iff unat_of_nat)
  moreover have "xdate_seconds x * unat tps = (3600 * T + M) * unat tps"
    by (simp add: xdate_seconds_def T_def M_def)
  ultimately have "(3600 * ucast (of_nat (xdate_day x) * 24 + ucast (X_HOUR x) :: u32)
      + ucast (ucast (SEC x) + ucast (X_MIN x) * 60 :: u32)) * ucast tps = (of_nat (xdate_seconds x * unat tps) :: u64)"
    by (simp only: of_nat_mult of_nat_add of_nat_numeral)
  then show ?thesis
    using assms(2) unfolding xdate_ticks_def Let_def add_units_def whole_second_def
    by (simp only: simp_thms if_False tick_struct.simps)
qed

end
