(* ===== verification/XDateProps.thy ===== *)
theory XDateProps
  imports XDate
begin

text \<open>
  What the conversions between ticks and extended dates guarantee: \<open>_time_ticks_to_xdate\<close> finds the
  Gregorian date, the weekday and the day of the year of every tick count before 2482,
  \<open>_time_xdate_to_ticks\<close> is its inverse on whole seconds, and the parts of a second below the
  millisecond are lost when the millisecond is zero.
\<close>

section \<open>The date of a day\<close>

lemma first_above_year:
  fixes days :: u32
  assumes "unat days < 187005"
  obtains k where "k < 512" "days_at k \<le> unat days" "unat days < days_at (Suc k)"
    "first_above time_days_before_year_internal days (unat (days div 366) + 1) = Some (Suc k)"
    "unat (days div 366) < 512"
proof -
  obtain k where k: "k < 512" "days_at k \<le> unat days" "unat days < days_at (Suc k)"
    using bracket [of days_at 0 "unat days" 512] assms by (auto simp: days_at_values)
  have g: "unat (days div 366) = unat days div 366" by (simp add: unat_div)
  have "unat days < 366 * Suc k" using k(3) days_at_le [of "Suc k"] by linarith
  then have gk: "unat days div 366 < Suc k" by (simp add: div_less_iff_less_mult mult.commute)
  have small: "days_at j < 4294967296" if "j \<le> 512" for j
    using days_at_le [of j] that by simp
  have "first_above time_days_before_year_internal days (unat (days div 366) + 1) = Some (Suc k)"
  proof (rule first_above_finds)
    show "unat (days div 366) + 1 \<le> Suc k" using gk g by simp
    show "days < time_days_before_year_internal ! Suc k"
    proof (cases "k = 511")
      case True
      then show ?thesis using assms days_table_last by (simp add: word_less_nat_alt)
    next
      case False
      then show ?thesis using k(1,3) by (simp add: days_table_nth word_less_of_nat32 small)
    qed
  next
    fix j
    assume "unat (days div 366) + 1 \<le> j" "j < Suc k"
    then show "time_days_before_year_internal ! j \<le> days"
      using k(1,2) days_at_mono [of j k] by (simp add: days_table_nth of_nat_le_word32 small)
  qed (use k(1) in simp)
  then show thesis using that k gk g by simp
qed

lemma first_above_month:
  fixes days :: u32
  assumes "unat days < (if leap then 366 else 365)"
  obtains m where "1 \<le> m" "m \<le> 12" "days_before_month leap m \<le> unat days"
    "unat days < days_before_month leap m + month_days leap m"
    "first_above (map ucast (time_days_before_month_internal leap)) days (unat (days div 31)) = Some m"
proof -
  have "\<exists>m. 1 \<le> m \<and> m \<le> 12 \<and> days_before_month leap m \<le> unat days
    \<and> unat days < days_before_month leap m + month_days leap m"
  proof (cases "unat days < days_before_month leap 12")
    case True
    then show ?thesis
      using bracket [of "days_before_month leap" 1 "unat days" 12] by (auto simp: days_before_month_Suc)
  next
    case False
    then show ?thesis using assms by (intro exI [of _ 12]) (simp add: month_days_def split: if_splits)
  qed
  then obtain m where m: "1 \<le> m" "m \<le> 12" "days_before_month leap m \<le> unat days"
    "unat days < days_before_month leap m + month_days leap m" by blast
  have "days_before_month leap m + month_days leap m \<le> 31 * m"
    by (rule months_cases [OF m(1,2)]; simp add: month_days_def)
  then have "unat days div 31 < m" using m(4) by (simp add: div_less_iff_less_mult mult.commute)
  then have g: "unat (days div 31) \<le> m" by (simp add: unat_div)
  have nth: "map ucast (time_days_before_month_internal leap) ! j = (of_nat (days_before_month leap (Suc j)) :: u32)"
    "days_before_month leap (Suc j) < 4294967296" if "j < 12" for j
  proof -
    have d: "days_before_month leap (Suc j) < 65536"
      using days_before_month_mono [of "Suc j" 12 leap] that by (simp split: if_splits)
    then show "days_before_month leap (Suc j) < 4294967296" by simp
    show "map ucast (time_days_before_month_internal leap) ! j = (of_nat (days_before_month leap (Suc j)) :: u32)"
      using month_table_nth [of "Suc j" leap] that d by (simp add: ucast_of_nat16 unat_of_nat)
  qed
  have "first_above (map ucast (time_days_before_month_internal leap)) days (unat (days div 31)) = Some m"
  proof (rule first_above_finds [OF g])
    show "days < map ucast (time_days_before_month_internal leap) ! m"
    proof (cases "m = 12")
      case True
      then show ?thesis
        using assms month_table_last [of leap] by (simp add: word_less_nat_alt split: if_splits)
    next
      case False
      then have "m < 12" "unat days < days_before_month leap (Suc m)" using m by (simp_all add: days_before_month_Suc)
      then show ?thesis using m(2) nth [of m] by (simp add: word_less_of_nat32)
    qed
  next
    fix j
    assume "unat (days div 31) \<le> j" "j < m"
    then show "map ucast (time_days_before_month_internal leap) ! j \<le> days"
      using m(2,3) nth [of j] days_before_month_mono [of "Suc j" m leap] by (simp add: of_nat_le_word32)
  qed (use m in simp)
  then show thesis using that m by blast
qed

lemma unat_ucast16: "unat (w :: u32) < 65536 \<Longrightarrow> unat (ucast w :: u16) = unat w"
  by (simp add: unsigned_ucast_eq take_bit_nat_def)

lemma unat_ucast64_16: "unat (w :: u64) < 65536 \<Longrightarrow> unat (ucast w :: u16) = unat w"
  by (simp add: unsigned_ucast_eq take_bit_nat_def)

lemma days_to_xdate_ok:
  assumes "unat days < 187005"
  obtains x' where "days_to_xdate days x = Some (True, x')"
    "valid_day (unat (X_YEAR x')) (unat (X_MONTH x')) (unat (MDAY x'))" "1970 \<le> unat (X_YEAR x')"
    "xdate_day x' = unat days" "unat (WDAY x') = (unat days + 4) mod 7"
    "unat days = days_at (unat (X_YEAR x') - 1970) + unat (YDAY x')"
    "X_HOUR x' = X_HOUR x" "X_MIN x' = X_MIN x" "SEC x' = SEC x"
proof -
  obtain k where k: "k < 512" "days_at k \<le> unat days" "unat days < days_at (Suc k)"
    "first_above time_days_before_year_internal days (unat (days div 366) + 1) = Some (Suc k)"
    "unat (days div 366) < 512"
    by (rule first_above_year [OF assms])
  define leap where "leap = leap_year (1970 + k)"
  define e where "e = days - of_nat (days_at k)"
  have "days_at k < 4294967296" using k(2) assms by simp
  then have e: "unat e = unat days - days_at k"
    using k(2) by (simp add: e_def unat_sub of_nat_le_word32 unat_of_nat32)
  have suc: "days_at (Suc k) = days_at k + (if leap then 366 else 365)"
    using days_before_year_at [of k] days_before_year_at [of "Suc k"]
    by (simp only: add_Suc_right days_before_year.simps leap_def)
  have el: "unat e < (if leap then 366 else 365)" using e k(2,3) suc by (simp split: if_splits)
  obtain m where m: "1 \<le> m" "m \<le> 12" "days_before_month leap m \<le> unat e"
    "unat e < days_before_month leap m + month_days leap m"
    "first_above (map ucast (time_days_before_month_internal leap)) e (unat (e div 31)) = Some m"
    by (rule first_above_month [OF el])
  define b where "b = days_before_month leap m"
  have b: "b < 65536" using m(3) el by (simp add: b_def split: if_splits)
  have tm: "map ucast (time_days_before_month_internal leap) ! (m - 1) = (of_nat b :: u32)"
    using month_table_nth [OF m(1,2)] m b by (simp add: ucast_of_nat16 unat_of_nat b_def)
  define d where "d = e - of_nat b"
  have d: "unat d = unat e - b" using m(3) b by (simp add: d_def unat_sub of_nat_le_word32 unat_of_nat32 b_def)
  have d31: "unat d < 31" using d m(4) month_days_bounds(2) [of leap m] by (simp add: b_def)
  have y: "unat (of_nat k + 1970 :: u16) = 1970 + k"
    using k(1) by (subst add.commute) (simp add: unat_add_lem [THEN iffD1] unat_of_nat)
  define x' where "x' = x\<lparr>X_YEAR := of_nat k + 1970, X_MONTH := of_nat m, MDAY := ucast d + 1,
    WDAY := ucast ((days + 3 + 1) mod 7), YDAY := ucast e\<rparr>"
  have run: "days_to_xdate days x = Some (True, x')"
  proof -
    have "\<not> 511 < days div 366" using k(5) by (simp add: word_less_nat_alt)
    moreover have "time_days_before_year_internal ! k = of_nat (days_at k)" using k(1) by (rule days_table_nth)
    ultimately show ?thesis
      unfolding days_to_xdate_def k(4) option.case Let_def diff_Suc_1
      by (simp only: if_False e_def [symmetric] time_check_if_leap_eq y leap_def [symmetric] m(5) option.case tm
          d_def [symmetric] x'_def)
  qed
  have date: "unat (X_YEAR x') = 1970 + k" "unat (X_MONTH x') = m" "unat (MDAY x') = unat d + 1"
    using y m(2) d31 by (simp_all add: x'_def unat_of_nat unat_ucast16 unat_add_lem [THEN iffD1])
  have v: "valid_day (unat (X_YEAR x')) (unat (X_MONTH x')) (unat (MDAY x'))"
    using m(1-4) d unfolding valid_day_def date leap_def b_def by auto
  have "(m - 1) div 12 = 0" "(m - 1) mod 12 + 1 = m" using m by auto
  then have "xdate_day x' = days_before_year (1970 + k) + b + (unat d + 1) - 719529"
    unfolding xdate_day_def date by (simp add: day_number_def b_def leap_def)
  then have "xdate_day x' = unat days"
    using days_before_year_at [of k] d e m(3) k(2) by (simp add: b_def)
  moreover have "unat (WDAY x') = (unat days + 4) mod 7"
  proof -
    have "unat (days + 4) = unat days + 4" using assms by (simp add: unat_add_lem [THEN iffD1])
    moreover have "days + 3 + 1 = days + 4" by simp
    ultimately have "unat ((days + 3 + 1) mod 7) = (unat days + 4) mod 7" by (simp only: unat_mod) simp
    moreover have "(unat days + 4) mod 7 < 65536" by (rule less_trans [of _ 7]) simp_all
    ultimately show ?thesis by (simp add: x'_def unat_ucast16)
  qed
  moreover have "unat days = days_at (unat (X_YEAR x') - 1970) + unat (YDAY x')"
  proof -
    have "unat (YDAY x') = unat e" using el by (simp add: x'_def unat_ucast16 split: if_splits)
    then show ?thesis using e k(2) date(1) by simp
  qed
  ultimately show thesis using that [OF run v] date(1) by (simp add: x'_def)
qed

section \<open>Ticks to dates\<close>

lemma xdate_subseconds_frame [simp]:
  "X_YEAR (xdate_subseconds tps hwtpt t x) = X_YEAR x" "X_MONTH (xdate_subseconds tps hwtpt t x) = X_MONTH x"
  "MDAY (xdate_subseconds tps hwtpt t x) = MDAY x" "X_HOUR (xdate_subseconds tps hwtpt t x) = X_HOUR x"
  "X_MIN (xdate_subseconds tps hwtpt t x) = X_MIN x" "SEC (xdate_subseconds tps hwtpt t x) = SEC x"
  "WDAY (xdate_subseconds tps hwtpt t x) = WDAY x" "YDAY (xdate_subseconds tps hwtpt t x) = YDAY x"
  by (simp_all add: xdate_subseconds_def split_unit_def Let_def)

lemma xdate_subseconds_msec:
  "MSEC (xdate_subseconds tps hwtpt t x) = ucast (fst (psp_ticks_to_milliseconds_truncate tps hwtpt t))"
  by (simp add: xdate_subseconds_def split_unit_def Let_def)

text \<open>The milliseconds of what is left of a second.\<close>

lemma milliseconds_left:
  assumes "tps \<noteq> 0" "hwtpt \<noteq> 0" "unat (TICKS t) < unat tps" "HW_TICKS t < hwtpt"
  shows "unat (fst (psp_ticks_to_milliseconds_truncate tps hwtpt t)) = tick_value hwtpt t * 1000 div (unat tps * unat hwtpt)"
    and "tick_value hwtpt t * 1000 div (unat tps * unat hwtpt) < 1000"
proof -
  define R where "R = unat tps * unat hwtpt"
  have "0 < R" using assms(1,2) by (simp add: R_def unat_gt_0)
  have "Suc (unat (TICKS t)) * unat hwtpt \<le> R" unfolding R_def using assms(3) by (intro mult_le_mono1) simp
  then have v: "tick_value hwtpt t < R" using assms(4) by (simp add: tick_value_def word_less_nat_alt)
  then have ms: "tick_value hwtpt t * 1000 div R < 1000" using \<open>0 < R\<close> by (simp add: div_less_iff_less_mult)
  then show "tick_value hwtpt t * 1000 div (unat tps * unat hwtpt) < 1000" by (simp add: R_def)
  have "tick_value hwtpt t * 10000 div R div 10 = tick_value hwtpt t * 10000 div 10 div R"
    by (simp only: div_mult2_eq [symmetric] mult.commute)
  then have "tick_value hwtpt t * 10000 div R div 10 = tick_value hwtpt t * 1000 div R"
    by (simp add: mult.commute)
  then show "unat (fst (psp_ticks_to_milliseconds_truncate tps hwtpt t)) = tick_value hwtpt t * 1000 div (unat tps * unat hwtpt)"
    using to_milliseconds_val(1) [OF assms(1,2), of "tick_value hwtpt t * 1000 div R" t False] ms
    by (simp add: psp_ticks_to_milliseconds_truncate_def R_def)
qed

lemma time_of_day: "86400 * (s div 86400) + 3600 * (s div 3600 mod 24) + 60 * (s div 60 mod 60) + s mod 60 = (s :: nat)"
proof -
  have a: "s div 60 div 60 = s div 3600" "s div 3600 div 24 = s div 86400" by (simp_all flip: div_mult2_eq)
  have "3600 * (s div 3600) = 86400 * (s div 86400) + 3600 * (s div 3600 mod 24)"
    using mult_div_mod_eq [of 24 "s div 3600"] unfolding a by linarith
  moreover have "60 * (s div 60) = 3600 * (s div 3600) + 60 * (s div 60 mod 60)"
    using mult_div_mod_eq [of 60 "s div 60"] unfolding a by linarith
  ultimately show ?thesis using mult_div_mod_eq [of 60 s] by linarith
qed

lemma psp_ticks_to_xdate_run:
  assumes tps: "tps \<noteq> 0" and range: "unat (TICKS t) div unat tps < 187005 * 86400"
  obtains x' where "psp_ticks_to_xdate tps hwtpt t x =
      Some (True, xdate_subseconds tps hwtpt (t\<lparr>TICKS := TICKS t mod ucast tps\<rparr>) x')"
    "valid_day (unat (X_YEAR x')) (unat (X_MONTH x')) (unat (MDAY x'))" "1970 \<le> unat (X_YEAR x')"
    "unat (X_HOUR x') < 24" "unat (X_MIN x') < 60" "unat (SEC x') < 60"
    "xdate_seconds x' = unat (TICKS t) div unat tps" "unat (WDAY x') = (xdate_day x' + 4) mod 7"
    "xdate_day x' = days_at (unat (X_YEAR x') - 1970) + unat (YDAY x')"
proof -
  define S where "S = unat (TICKS t) div unat tps"
  define w where "w = TICKS t div ucast tps"
  have w: "unat w = S" by (simp add: w_def S_def unat_div)
  have S: "S < 16157232000" using range by (simp add: S_def)
  define m where "m = (ucast (w div 60) :: u32)"
  have m: "unat m = S div 60"
    using S by (simp add: m_def unat_ucast_down unat_div w div_less_iff_less_mult)
  define h where "h = m div 60"
  have h: "unat h = S div 3600" by (simp add: h_def unat_div m div_mult2_eq [symmetric])
  have d: "unat (h div 24) = S div 86400" by (simp add: unat_div h div_mult2_eq [symmetric])
  have "unat (h div 24) < 187005" unfolding d using S by (simp add: div_less_iff_less_mult)
  define y where "y = x\<lparr>SEC := ucast (w mod 60), X_MIN := ucast (m mod 60), X_HOUR := ucast (h mod 24)\<rparr>"
  have small: "unat (w mod 60) < 65536" "unat (m mod 60) < 65536" "unat (h mod 24) < 65536"
    using mod_less_divisor [of 60 "unat w"] mod_less_divisor [of 60 "unat m"] mod_less_divisor [of 24 "unat h"]
    by (simp_all add: unat_mod)
  have yv: "SEC y = ucast (w mod 60)" "X_MIN y = ucast (m mod 60)" "X_HOUR y = ucast (h mod 24)"
    by (simp_all add: y_def)
  have n: "unat (60 :: u64) = 60" "unat (60 :: u32) = 60" "unat (24 :: u32) = 24" by simp_all
  have "unat (ucast (w mod 60) :: u16) = S mod 60" "unat (ucast (m mod 60) :: u16) = S div 60 mod 60"
    "unat (ucast (h mod 24) :: u16) = S div 3600 mod 24"
    using unat_ucast64_16 [OF small(1)] unat_ucast16 [OF small(2)] unat_ucast16 [OF small(3)]
    unfolding unat_mod w m h n by blast+
  then have yf: "unat (SEC y) = S mod 60" "unat (X_MIN y) = S div 60 mod 60" "unat (X_HOUR y) = S div 3600 mod 24"
    by (simp_all only: yv)
  obtain x' where x': "days_to_xdate (h div 24) y = Some (True, x')"
    "valid_day (unat (X_YEAR x')) (unat (X_MONTH x')) (unat (MDAY x'))" "1970 \<le> unat (X_YEAR x')"
    "xdate_day x' = unat (h div 24)" "unat (WDAY x') = (unat (h div 24) + 4) mod 7"
    "unat (h div 24) = days_at (unat (X_YEAR x') - 1970) + unat (YDAY x')"
    "X_HOUR x' = X_HOUR y" "X_MIN x' = X_MIN y" "SEC x' = SEC y"
    by (rule days_to_xdate_ok [OF \<open>unat (h div 24) < 187005\<close>])
  have "psp_ticks_to_xdate tps hwtpt t x =
      Some (True, xdate_subseconds tps hwtpt (t\<lparr>TICKS := TICKS t mod ucast tps\<rparr>) x')"
  proof -
    have "x\<lparr>SEC := ucast (w mod 60), X_MIN := ucast (m mod 60)\<rparr>\<lparr>X_HOUR := ucast (h mod 24)\<rparr> = y" by (simp add: y_def)
    then show ?thesis
      unfolding psp_ticks_to_xdate_def Let_def w_def [symmetric] m_def [symmetric] h_def [symmetric]
      by (simp only: x'(1) option.case prod.case if_True)
  qed
  moreover have "xdate_seconds x' = S"
    by (simp only: xdate_seconds_def x'(4,7-9) yf d time_of_day)
  moreover have "unat (X_HOUR x') < 24" "unat (X_MIN x') < 60" "unat (SEC x') < 60"
    by (simp_all only: x'(7-9) yf mod_less_divisor zero_less_numeral)
  ultimately show thesis
    using that x'(2,3,5,6) unfolding x'(4) [symmetric] S_def by blast
qed

section \<open>Properties\<close>

lemma xdate_day_valid:
  assumes "valid_day (unat (X_YEAR x)) (unat (X_MONTH x)) (unat (MDAY x))" "1970 \<le> unat (X_YEAR x)"
  shows "xdate_day x + 719529 = day_number (unat (X_YEAR x)) (unat (X_MONTH x)) (unat (MDAY x))"
proof -
  have "(unat (X_MONTH x) - 1) div 12 = 0" "(unat (X_MONTH x) - 1) mod 12 + 1 = unat (X_MONTH x)" "1 \<le> unat (MDAY x)"
    using assms(1) by (auto simp: valid_day_def)
  then show ?thesis
    using day_number_since_1970 [OF assms(2), of "unat (MDAY x)" "unat (X_MONTH x)"] by (simp add: xdate_day_def)
qed

text \<open>
  C30. \<open>_time_ticks_to_xdate\<close> on every normalized tick time before 2482: it returns TRUE; the date
  is in its ranges and is the Gregorian date of the whole seconds of the time, with the day of
  the week (Sunday is 0, and 1 January 1970 a Thursday), the day of the year, and the
  milliseconds exactly those of the rest.
\<close>

theorem time_ticks_to_xdate_calendar:
  assumes "tps \<noteq> 0" "hwtpt \<noteq> 0" "HW_TICKS t < hwtpt" "unat (TICKS t) div unat tps < 187005 * 86400"
  shows "\<exists>x'. time_ticks_to_xdate tps hwtpt (Some t) (Some x) = Some (True, Some x')
    \<and> valid_day (unat (X_YEAR x')) (unat (X_MONTH x')) (unat (MDAY x'))
    \<and> unat (X_HOUR x') < 24 \<and> unat (X_MIN x') < 60 \<and> unat (SEC x') < 60
    \<and> 86400 * (day_number (unat (X_YEAR x')) (unat (X_MONTH x')) (unat (MDAY x')) - 719529)
        + 3600 * unat (X_HOUR x') + 60 * unat (X_MIN x') + unat (SEC x') = unat (TICKS t) div unat tps
    \<and> unat (WDAY x') = (day_number (unat (X_YEAR x')) (unat (X_MONTH x')) (unat (MDAY x')) - 719529 + 4) mod 7
    \<and> day_number (unat (X_YEAR x')) (unat (X_MONTH x')) (unat (MDAY x')) = day_number (unat (X_YEAR x')) 1 1 + unat (YDAY x')
    \<and> unat (MSEC x') = (unat (TICKS t) mod unat tps * unat hwtpt + unat (HW_TICKS t)) * 1000 div (unat tps * unat hwtpt)"
proof -
  obtain y where y: "psp_ticks_to_xdate tps hwtpt t x =
      Some (True, xdate_subseconds tps hwtpt (t\<lparr>TICKS := TICKS t mod ucast tps\<rparr>) y)"
    "valid_day (unat (X_YEAR y)) (unat (X_MONTH y)) (unat (MDAY y))" "1970 \<le> unat (X_YEAR y)"
    "unat (X_HOUR y) < 24" "unat (X_MIN y) < 60" "unat (SEC y) < 60"
    "xdate_seconds y = unat (TICKS t) div unat tps" "unat (WDAY y) = (xdate_day y + 4) mod 7"
    "xdate_day y = days_at (unat (X_YEAR y) - 1970) + unat (YDAY y)"
    by (rule psp_ticks_to_xdate_run [OF assms(1,4)])
  define l where "l = t\<lparr>TICKS := TICKS t mod ucast tps\<rparr>"
  define x' where "x' = xdate_subseconds tps hwtpt l y"
  have day: "day_number (unat (X_YEAR y)) (unat (X_MONTH y)) (unat (MDAY y)) - 719529 = xdate_day y"
    using xdate_day_valid [OF y(2,3)] by simp
  have n: "day_number (unat (X_YEAR y)) 1 1 = days_at (unat (X_YEAR y) - 1970) + 719529"
    using days_before_year_at [of "unat (X_YEAR y) - 1970"] y(3) by (simp add: day_number_def)
  have lv: "unat (TICKS l) = unat (TICKS t) mod unat tps" by (simp add: l_def unat_mod)
  have "unat (TICKS l) < unat tps" using assms(1) by (simp add: lv unat_gt_0)
  moreover have "HW_TICKS l < hwtpt" using assms(3) by (simp add: l_def)
  ultimately have "unat (fst (psp_ticks_to_milliseconds_truncate tps hwtpt l)) =
      tick_value hwtpt l * 1000 div (unat tps * unat hwtpt)"
    "tick_value hwtpt l * 1000 div (unat tps * unat hwtpt) < 1000"
    using milliseconds_left [OF assms(1,2)] by blast+
  moreover have "tick_value hwtpt l = unat (TICKS t) mod unat tps * unat hwtpt + unat (HW_TICKS t)"
    by (simp add: tick_value_def lv) (simp add: l_def)
  ultimately have ms: "unat (MSEC x') = (unat (TICKS t) mod unat tps * unat hwtpt + unat (HW_TICKS t)) * 1000
      div (unat tps * unat hwtpt)"
    by (simp add: x'_def xdate_subseconds_msec unat_ucast16)
  have "time_ticks_to_xdate tps hwtpt (Some t) (Some x) = Some (True, Some x')"
    using y(1) by (simp add: time_ticks_to_xdate_def x'_def l_def)
  then show ?thesis
    using y(2-9) n ms xdate_day_valid [OF y(2,3)]
    by (intro exI [of _ x']) (simp add: x'_def day xdate_seconds_def)
qed

text \<open>Noon of 29 February 2012, a Wednesday and day 59 of the year, at 200 ticks a second.\<close>

theorem time_ticks_to_xdate_calendar_witness:
  "\<exists>x'. time_ticks_to_xdate 200 240000 (Some \<lparr>TICKS = 266103360001, HW_TICKS = 120000\<rparr>)
      (Some \<lparr>X_YEAR = 0, X_MONTH = 0, MDAY = 0, X_HOUR = 0, X_MIN = 0, SEC = 0, MSEC = 0, USEC = 0, NSEC = 0,
        PSEC = 0, WDAY = 0, YDAY = 0\<rparr>) = Some (True, Some x')
    \<and> 86400 * (day_number (unat (X_YEAR x')) (unat (X_MONTH x')) (unat (MDAY x')) - 719529)
        + 3600 * unat (X_HOUR x') + 60 * unat (X_MIN x') + unat (SEC x') = 1330516800
    \<and> unat (MSEC x') = 7"
  using time_ticks_to_xdate_calendar [of 200 240000 "\<lparr>TICKS = 266103360001, HW_TICKS = 120000\<rparr>"
      "\<lparr>X_YEAR = 0, X_MONTH = 0, MDAY = 0, X_HOUR = 0, X_MIN = 0, SEC = 0, MSEC = 0, USEC = 0, NSEC = 0,
        PSEC = 0, WDAY = 0, YDAY = 0\<rparr>"]
  by simp blast

text \<open>Different dates have different numbers.\<close>

lemma day_number_inj:
  assumes "valid_day y m d" "valid_day y' m' d'" "day_number y m d = day_number y' m' d'"
  shows "y = y' \<and> m = m' \<and> d = d'"
proof -
  have "y = y'"
    using year_of_day [OF assms(1), of y'] year_of_day [OF assms(2), of y]
      valid_day_iff_number(1) [OF assms(1)] valid_day_iff_number(1) [OF assms(2)] assms(3) by simp
  define b where "b = days_before_month (leap_year y)"
  have eq: "b m + d = b m' + d'" using assms(3) \<open>y = y'\<close> by (simp add: day_number_def b_def)
  have step: "b i + e < b j + 1" if "valid_day y i e" "i < j" for i j e
    using that days_before_month_mono [of "Suc i" j "leap_year y"]
    by (simp add: valid_day_def b_def days_before_month_Suc)
  have "m = m'"
  proof (rule ccontr)
    assume "m \<noteq> m'"
    then consider "m < m'" | "m' < m" by linarith
    then show False
    proof cases
      case 1
      then show ?thesis using step [OF assms(1) 1] eq assms(2) by (simp add: valid_day_def)
    next
      case 2
      then show ?thesis using step [of m' d' m] eq assms(1,2) \<open>y = y'\<close> by (simp add: valid_day_def)
    qed
  qed
  then show ?thesis using eq \<open>y = y'\<close> by simp
qed

lemma xdate_seconds_split:
  assumes "unat (X_HOUR x) < 24" "unat (X_MIN x) < 60" "unat (SEC x) < 60"
  shows "xdate_day x = xdate_seconds x div 86400" "unat (X_HOUR x) = xdate_seconds x mod 86400 div 3600"
    "unat (X_MIN x) = xdate_seconds x mod 3600 div 60" "unat (SEC x) = xdate_seconds x mod 60"
proof -
  let ?h = "unat (X_HOUR x)" and ?m = "unat (X_MIN x)" and ?s = "unat (SEC x)"
  have r: "3600 * ?h + 60 * ?m + ?s < 86400" "60 * ?m + ?s < 3600" using assms by simp_all
  have s1: "xdate_seconds x = (3600 * ?h + 60 * ?m + ?s) + 86400 * xdate_day x" by (simp add: xdate_seconds_def)
  have s2: "xdate_seconds x = (60 * ?m + ?s) + 3600 * (24 * xdate_day x + ?h)" by (simp add: xdate_seconds_def)
  have s3: "xdate_seconds x = ?s + 60 * (1440 * xdate_day x + 60 * ?h + ?m)" by (simp add: xdate_seconds_def)
  have m1: "xdate_seconds x mod 86400 = 3600 * ?h + 60 * ?m + ?s"
    unfolding s1 mod_mult_self2 using r(1) by (rule mod_less)
  have m2: "xdate_seconds x mod 3600 = 60 * ?m + ?s"
    unfolding s2 mod_mult_self2 using r(2) by (rule mod_less)
  show "xdate_day x = xdate_seconds x div 86400" unfolding s1 using r(1) by (simp only: div_mult_self2)
  show "?s = xdate_seconds x mod 60" unfolding s3 mod_mult_self2 using assms(3) by simp
  show "?h = xdate_seconds x mod 86400 div 3600" unfolding m1 using r(2) by (intro div_nat_eqI [symmetric]) simp_all
  show "?m = xdate_seconds x mod 3600 div 60" unfolding m2 using assms(3) by (intro div_nat_eqI [symmetric]) simp_all
qed

text \<open>Nothing left of the second, and less than a millisecond left.\<close>

lemma xdate_subseconds_less:
  assumes "tps \<noteq> 0" "hwtpt \<noteq> 0" "TICKS t = 0" "HW_TICKS t < hwtpt" "unat (HW_TICKS t) * 1000 < unat tps * unat hwtpt"
  shows "xdate_subseconds tps hwtpt t x = x\<lparr>MSEC := 0, USEC := 0, NSEC := 0, PSEC := 0\<rparr>"
proof -
  have "unat (TICKS t) < unat tps" using assms(1,3) by (simp add: unat_gt_0)
  then have "unat (fst (psp_ticks_to_milliseconds_truncate tps hwtpt t)) = tick_value hwtpt t * 1000 div (unat tps * unat hwtpt)"
    using milliseconds_left(1) [OF assms(1,2) _ assms(4)] by blast
  then have "fst (psp_ticks_to_milliseconds_truncate tps hwtpt t) = 0"
    using assms(3,5) by (simp add: tick_value_def flip: unat_eq_0)
  moreover have "psp_msecs_to_ticks tps hwtpt 0 = \<lparr>TICKS = 0, HW_TICKS = 0\<rparr>"
    by (simp add: psp_msecs_to_ticks_def)
  ultimately show ?thesis
    using assms(3) by (simp add: xdate_subseconds_def split_unit_def psp_subtract_ticks_def)
qed

text \<open>
  C31. On whole seconds \<open>_time_xdate_to_ticks\<close> and \<open>_time_ticks_to_xdate\<close> are inverse to each other: for
  a date in its ranges up to 2481, with no part of a second, the ticks are the seconds of the
  Gregorian calendar times the tick rate, and turning them into a date gives every field back
  (and the day of the week and of the year besides).
\<close>

theorem xdate_ticks_roundtrip:
  assumes "xdate_ok x" "whole_second x" "1970 \<le> unat (X_YEAR x)" "unat (X_YEAR x) \<le> 2481"
    and "tps \<noteq> 0" "hwtpt \<noteq> 0" "xdate_seconds x * unat tps < 2 ^ 64"
  shows "\<exists>t wd yd. time_xdate_to_ticks tps hwtpt (Some x) (Some t\<^sub>0) = Some (True, Some x, Some t)
    \<and> unat (TICKS t) = xdate_seconds x * unat tps \<and> HW_TICKS t = 0
    \<and> time_ticks_to_xdate tps hwtpt (Some t) (Some x\<^sub>0) = Some (True, Some (x\<lparr>WDAY := wd, YDAY := yd\<rparr>))"
proof -
  have year: "unat (X_YEAR x) < 2482" using assms(4) by simp
  define t where "t = \<lparr>TICKS = of_nat (xdate_seconds x * unat tps), HW_TICKS = 0\<rparr>"
  have day: "xdate_day x < 187005" using xdate_in_range(1) [OF assms(1,3)] year by simp
  have there: "time_xdate_to_ticks tps hwtpt (Some x) (Some t\<^sub>0) = Some (True, Some x, Some t)"
    by (simp add: time_xdate_to_ticks_def normalize_ok [OF assms(1,3) year] xdate_days_ok [OF assms(1,3) year]
        xdate_ticks_whole [OF assms(1,2) day] t_def)
  have ut: "unat (TICKS t) = xdate_seconds x * unat tps"
    using assms(7) by (simp only: t_def tick_struct.simps unat_of_nat) simp
  have h: "unat (X_HOUR x) < 24" "unat (X_MIN x) < 60" "unat (SEC x) < 60" using assms(1) by (simp_all add: xdate_ok_def)
  have q: "unat (TICKS t) div unat tps = xdate_seconds x" using assms(5) by (simp add: ut unat_gt_0)
  have "xdate_seconds x < 187005 * 86400"
    using h day unfolding xdate_seconds_def by linarith
  then have "unat (TICKS t) div unat tps < 187005 * 86400" by (simp only: q)
  then obtain y where y: "psp_ticks_to_xdate tps hwtpt t x\<^sub>0 =
      Some (True, xdate_subseconds tps hwtpt (t\<lparr>TICKS := TICKS t mod ucast tps\<rparr>) y)"
    "valid_day (unat (X_YEAR y)) (unat (X_MONTH y)) (unat (MDAY y))" "1970 \<le> unat (X_YEAR y)"
    "unat (X_HOUR y) < 24" "unat (X_MIN y) < 60" "unat (SEC y) < 60"
    "xdate_seconds y = unat (TICKS t) div unat tps" "unat (WDAY y) = (xdate_day y + 4) mod 7"
    "xdate_day y = days_at (unat (X_YEAR y) - 1970) + unat (YDAY y)"
    by (rule psp_ticks_to_xdate_run [OF assms(5)])
  have s: "xdate_seconds y = xdate_seconds x" using y(7) q by simp
  have v: "valid_day (unat (X_YEAR x)) (unat (X_MONTH x)) (unat (MDAY x))" using assms(1) by (simp add: xdate_ok_def)
  have "xdate_day y = xdate_day x" using xdate_seconds_split(1) [OF h] xdate_seconds_split(1) [OF y(4-6)] s by simp
  then have ymd: "X_YEAR y = X_YEAR x" "X_MONTH y = X_MONTH x" "MDAY y = MDAY x"
    using day_number_inj [OF y(2) v] xdate_day_valid [OF y(2,3)] xdate_day_valid [OF v assms(3)]
    by (simp_all add: word_unat_eq_iff)
  have hms: "X_HOUR y = X_HOUR x" "X_MIN y = X_MIN x" "SEC y = SEC x"
    using xdate_seconds_split(2-4) [OF h] xdate_seconds_split(2-4) [OF y(4-6)] s by (simp_all add: word_unat_eq_iff)
  have same: "y\<lparr>MSEC := 0, USEC := 0, NSEC := 0, PSEC := 0\<rparr> = x\<lparr>WDAY := WDAY y, YDAY := YDAY y\<rparr>"
    using assms(2) by (intro xdate_struct.equality) (simp_all add: whole_second_def ymd hms)
  have "TICKS t mod ucast tps = 0"
    by (simp only: word_unat_eq_iff unat_mod ut) simp
  then have "xdate_subseconds tps hwtpt (t\<lparr>TICKS := TICKS t mod ucast tps\<rparr>) y =
      y\<lparr>MSEC := 0, USEC := 0, NSEC := 0, PSEC := 0\<rparr>"
    using assms(5,6) by (intro xdate_subseconds_less) (simp_all add: t_def unat_gt_0 word_gt_0)
  then have "time_ticks_to_xdate tps hwtpt (Some t) (Some x\<^sub>0) = Some (True, Some (x\<lparr>WDAY := WDAY y, YDAY := YDAY y\<rparr>))"
    unfolding time_ticks_to_xdate_def same by (simp only: y(1) option.case prod.case option.map)
  then show ?thesis
    using there ut by (intro exI [of _ t] exI conjI) (simp_all add: t_def)
qed

theorem xdate_ticks_roundtrip_witness:
  "\<exists>t wd yd. time_xdate_to_ticks 200 240000
      (Some \<lparr>X_YEAR = 2012, X_MONTH = 2, MDAY = 29, X_HOUR = 12, X_MIN = 0, SEC = 0, MSEC = 0, USEC = 0, NSEC = 0,
        PSEC = 0, WDAY = 0, YDAY = 0\<rparr>) (Some \<lparr>TICKS = 0, HW_TICKS = 0\<rparr>) =
      Some (True, Some \<lparr>X_YEAR = 2012, X_MONTH = 2, MDAY = 29, X_HOUR = 12, X_MIN = 0, SEC = 0, MSEC = 0, USEC = 0,
        NSEC = 0, PSEC = 0, WDAY = 0, YDAY = 0\<rparr>, Some t)
    \<and> unat (TICKS t) = 266103360000"
proof -
  let ?x = "\<lparr>X_YEAR = 2012, X_MONTH = 2, MDAY = 29, X_HOUR = 12, X_MIN = 0, SEC = 0, MSEC = 0, USEC = 0, NSEC = 0,
    PSEC = 0, WDAY = 0, YDAY = 0\<rparr> :: xdate_struct"
  have "days_before_year 2012 = 734868" using days_before_year_from_1970 [of 42] by simp
  then have s: "xdate_seconds ?x = 1330516800" by (simp add: xdate_seconds_def xdate_day_def day_number_def)
  have "xdate_ok ?x" "whole_second ?x"
    by (simp_all add: xdate_ok_def valid_day_def month_days_def leap_year_def whole_second_def)
  then show ?thesis
    using xdate_ticks_roundtrip [of ?x 200 240000 "\<lparr>TICKS = 0, HW_TICKS = 0\<rparr>" ?x] s by simp blast
qed

text \<open>
  The early ends of \<open>_psp_ticks_to_xdate\<close> look at the part that was just subtracted and not at what
  is left: when the seconds are whole in ticks and less than a millisecond is left, the
  subtracted part is zero, and the function reports no microseconds, however many there are.
\<close>

theorem ticks_to_xdate_drops_microseconds:
  assumes "tps \<noteq> 0" "hwtpt \<noteq> 0" "HW_TICKS t < hwtpt" "unat (TICKS t) div unat tps < 187005 * 86400"
    and "unat (TICKS t) mod unat tps = 0" "unat (HW_TICKS t) * 1000 < unat tps * unat hwtpt"
  shows "\<exists>x'. time_ticks_to_xdate tps hwtpt (Some t) (Some x) = Some (True, Some x')
    \<and> MSEC x' = 0 \<and> USEC x' = 0 \<and> NSEC x' = 0 \<and> PSEC x' = 0"
proof -
  obtain y where y: "psp_ticks_to_xdate tps hwtpt t x =
      Some (True, xdate_subseconds tps hwtpt (t\<lparr>TICKS := TICKS t mod ucast tps\<rparr>) y)"
    by (rule psp_ticks_to_xdate_run [OF assms(1,4)])
  have "TICKS t mod ucast tps = 0" using assms(5) by (simp add: unat_mod flip: unat_eq_0)
  then have "xdate_subseconds tps hwtpt (t\<lparr>TICKS := TICKS t mod ucast tps\<rparr>) y = y\<lparr>MSEC := 0, USEC := 0, NSEC := 0, PSEC := 0\<rparr>"
    using assms(3,6) by (intro xdate_subseconds_less [OF assms(1,2)]) simp_all
  then show ?thesis using y by (simp add: time_ticks_to_xdate_def)
qed

text \<open>Half a millisecond at 200 ticks a second of 1000 hardware ticks: 500 microseconds are lost.\<close>

theorem ticks_to_xdate_drops_microseconds_witness:
  "fst (psp_ticks_to_microseconds_truncate 200 1000 \<lparr>TICKS = 0, HW_TICKS = 100\<rparr>) = 500
    \<and> (\<exists>x'. time_ticks_to_xdate 200 1000 (Some \<lparr>TICKS = 0, HW_TICKS = 100\<rparr>)
        (Some \<lparr>X_YEAR = 0, X_MONTH = 0, MDAY = 0, X_HOUR = 0, X_MIN = 0, SEC = 0, MSEC = 0, USEC = 0, NSEC = 0,
          PSEC = 0, WDAY = 0, YDAY = 0\<rparr>) = Some (True, Some x') \<and> USEC x' = 0)"
proof -
  have "unat (fst (psp_ticks_to_microseconds_round 200 1000 False \<lparr>TICKS = 0, HW_TICKS = 100\<rparr>)) = 500"
    using to_microseconds_val(1) [of 200 1000 500 "\<lparr>TICKS = 0, HW_TICKS = 100\<rparr>" False] by (simp add: tick_value_def)
  then have "fst (psp_ticks_to_microseconds_truncate 200 1000 \<lparr>TICKS = 0, HW_TICKS = 100\<rparr>) = 500"
    by (simp add: psp_ticks_to_microseconds_truncate_def word_unat_eq_iff)
  then show ?thesis
    using ticks_to_xdate_drops_microseconds [of 200 1000 "\<lparr>TICKS = 0, HW_TICKS = 100\<rparr>"
        "\<lparr>X_YEAR = 0, X_MONTH = 0, MDAY = 0, X_HOUR = 0, X_MIN = 0, SEC = 0, MSEC = 0, USEC = 0, NSEC = 0,
          PSEC = 0, WDAY = 0, YDAY = 0\<rparr>"] by auto
qed

end
