(* ===== verification/LwTimer.thy ===== *)
theory LwTimer
  imports Prelude
begin

text \<open>
  Lightweight timers: \<^verbatim>\<open>src/mqx/source/kernel/lwtimer.c\<close>. A periodic queue holds timers in the order
  of their offsets; the tick calls \<open>_lwtimer_isr_internal\<close>, which counts the ticks of each period and
  calls the functions of the timers whose offset has come. Queues are lists of addresses, as in
  \<open>Kernel\<close>; \<open>TIMER_PTR\<close> is the last timer that was processed in this period, or the header of the
  queue. The functions of the timers belong to the application: they are a parameter \<open>call\<close>,
  which changes a state \<open>'w\<close> of the application and no timer.
\<close>

section \<open>State\<close>

record lwtimer =
  RELATIVE_TICKS :: u32
  LT_VALID :: u32
  TIMER_FUNCTION :: addr
  LT_PARAMETER :: addr
  PERIOD_PTR :: addr

record lwtimer_period =
  PERIOD :: u32
  EXPIRY :: u32
  WAIT :: u32
  TIMERS :: "addr list"
  TIMER_PTR :: addr
  LP_VALID :: u32

text \<open>\<open>LWTIMERS\<close> is \<open>None\<close> while its \<open>NEXT\<close> is \<open>NULL\<close>, before the first queue is created.\<close>

record lwtimer_data =
  LWTIMERS :: "addr list option"
  LWTIMER_ISR :: bool
  LWPERIODS :: "addr \<Rightarrow> lwtimer_period"
  LWTIMER :: "addr \<Rightarrow> lwtimer"

abbreviation LWTIMER_VALID :: u32 where "LWTIMER_VALID \<equiv> 0x6C777469"

text \<open>The address of the header of the timers of a queue.\<close>

definition LWTIMER_HEAD :: "addr \<Rightarrow> addr" where
  "LWTIMER_HEAD p = p + 20"

definition upd_period :: "addr \<Rightarrow> (lwtimer_period \<Rightarrow> lwtimer_period) \<Rightarrow> lwtimer_data \<Rightarrow> lwtimer_data" where
  "upd_period p f s = s\<lparr>LWPERIODS := (LWPERIODS s)(p := f (LWPERIODS s p))\<rparr>"

definition upd_lwtimer :: "addr \<Rightarrow> (lwtimer \<Rightarrow> lwtimer) \<Rightarrow> lwtimer_data \<Rightarrow> lwtimer_data" where
  "upd_lwtimer t f s = s\<lparr>LWTIMER := (LWTIMER s)(t := f (LWTIMER s t))\<rparr>"

section \<open>Operations\<close>

definition lwtimer_create_periodic_queue :: "addr \<Rightarrow> u32 \<Rightarrow> u32 \<Rightarrow> lwtimer_data \<Rightarrow> mqx_code \<times> lwtimer_data" where
  "lwtimer_create_periodic_queue p period wait_ticks s =
     (let s = upd_period p (\<lambda>P. P\<lparr>PERIOD := period, EXPIRY := 0, WAIT := wait_ticks, TIMERS := [],
                 TIMER_PTR := LWTIMER_HEAD p\<rparr>) s;
          s = (if LWTIMERS s = None then s\<lparr>LWTIMERS := Some [], LWTIMER_ISR := True\<rparr> else s);
          s = upd_period p (\<lambda>P. P\<lparr>LP_VALID := LWTIMER_VALID\<rparr>) s
      in (MQX_OK, s\<lparr>LWTIMERS := Some (the (LWTIMERS s) @ [p])\<rparr>))"

text \<open>The search for the place of a timer, and its insertion there.\<close>

fun lwtimer_insert :: "(addr \<Rightarrow> u32) \<Rightarrow> u32 \<Rightarrow> addr \<Rightarrow> addr list \<Rightarrow> addr list" where
  "lwtimer_insert rel ticks t [] = [t]"
| "lwtimer_insert rel ticks t (q # qs) = (if rel q \<ge> ticks then t # q # qs else q # lwtimer_insert rel ticks t qs)"

definition lwtimer_add_timer_to_queue ::
  "addr \<Rightarrow> addr \<Rightarrow> u32 \<Rightarrow> addr \<Rightarrow> addr \<Rightarrow> lwtimer_data \<Rightarrow> mqx_code \<times> lwtimer_data" where
  "lwtimer_add_timer_to_queue p t ticks func parameter s =
     (if LP_VALID (LWPERIODS s p) \<noteq> LWTIMER_VALID then (MQX_LWTIMER_INVALID, s)
      else if ticks \<ge> PERIOD (LWPERIODS s p) then (MQX_INVALID_PARAMETER, s)
      else
        (let s = upd_lwtimer t (\<lambda>T. T\<lparr>TIMER_FUNCTION := func, LT_PARAMETER := parameter, PERIOD_PTR := p,
                    RELATIVE_TICKS := ticks\<rparr>) s;
             qs = lwtimer_insert (\<lambda>q. RELATIVE_TICKS (LWTIMER s q)) ticks t (TIMERS (LWPERIODS s p));
             s = upd_lwtimer t (\<lambda>T. T\<lparr>LT_VALID := LWTIMER_VALID\<rparr>) s
         in (MQX_OK, upd_period p (\<lambda>P. P\<lparr>TIMERS := qs\<rparr>) s)))"

text \<open>The neighbours in the ring of a header \<open>h\<close> and a list.\<close>

fun ring_prev :: "addr \<Rightarrow> addr list \<Rightarrow> addr \<Rightarrow> addr" where
  "ring_prev h [] x = h"
| "ring_prev h (y # ys) x = (if y = x then h else ring_prev y ys x)"

definition lwtimer_cancel_timer :: "addr \<Rightarrow> lwtimer_data \<Rightarrow> mqx_code \<times> lwtimer_data" where
  "lwtimer_cancel_timer t s =
     (if LT_VALID (LWTIMER s t) \<noteq> LWTIMER_VALID then (MQX_LWTIMER_INVALID, s)
      else
        (let p = PERIOD_PTR (LWTIMER s t)
         in if LP_VALID (LWPERIODS s p) \<noteq> LWTIMER_VALID then (MQX_LWTIMER_INVALID, s)
            else
              (let s = upd_lwtimer t (\<lambda>T. T\<lparr>LT_VALID := 0\<rparr>) s;
                   s = (if t = TIMER_PTR (LWPERIODS s p)
                        then upd_period p (\<lambda>P. P\<lparr>TIMER_PTR := ring_prev (LWTIMER_HEAD p) (TIMERS P) t\<rparr>) s else s)
               in (MQX_OK, upd_period p (\<lambda>P. P\<lparr>TIMERS := remove1 t (TIMERS P)\<rparr>) s))))"

definition lwtimer_cancel_period :: "addr \<Rightarrow> lwtimer_data \<Rightarrow> mqx_code \<times> lwtimer_data" where
  "lwtimer_cancel_period p s =
     (if LP_VALID (LWPERIODS s p) \<noteq> LWTIMER_VALID then (MQX_LWTIMER_INVALID, s)
      else
        (let s = upd_period p (\<lambda>P. P\<lparr>LP_VALID := 0\<rparr>) s
         in (MQX_OK, s\<lparr>LWTIMERS := map_option (remove1 p) (LWTIMERS s)\<rparr>)))"

section \<open>The tick\<close>

text \<open>
  The timers behind the last processed one, and the loop over them: it ends at the first timer
  whose offset has not come, with the last timer that was processed.
\<close>

definition ring_after :: "addr \<Rightarrow> addr list \<Rightarrow> addr \<Rightarrow> addr list" where
  "ring_after h xs x = (if x = h then xs else tl (dropWhile (\<lambda>y. y \<noteq> x) xs))"

fun lwtimer_run :: "(addr \<Rightarrow> addr \<Rightarrow> 'w \<Rightarrow> 'w) \<Rightarrow> (addr \<Rightarrow> lwtimer) \<Rightarrow> u32 \<Rightarrow> addr list \<Rightarrow> addr \<Rightarrow> 'w \<Rightarrow> addr \<times> 'w" where
  "lwtimer_run call T expiry [] latest w = (latest, w)"
| "lwtimer_run call T expiry (t # ts) latest w =
     (if RELATIVE_TICKS (T t) > expiry then (latest, w)
      else lwtimer_run call T expiry ts t (call (TIMER_FUNCTION (T t)) (LT_PARAMETER (T t)) w))"

definition lwtimer_period_tick ::
  "(addr \<Rightarrow> addr \<Rightarrow> 'w \<Rightarrow> 'w) \<Rightarrow> addr \<Rightarrow> lwtimer_data \<times> 'w \<Rightarrow> lwtimer_data \<times> 'w" where
  "lwtimer_period_tick call p sw =
     (case sw of (s, w) \<Rightarrow>
        (let P = LWPERIODS s p
         in if WAIT P \<noteq> 0 then (upd_period p (\<lambda>P. P\<lparr>WAIT := WAIT P - 1\<rparr>) s, w)
            else
              (let (latest, w) = lwtimer_run call (LWTIMER s) (EXPIRY P)
                     (ring_after (LWTIMER_HEAD p) (TIMERS P) (TIMER_PTR P)) (TIMER_PTR P) w;
                   P = P\<lparr>TIMER_PTR := latest, EXPIRY := EXPIRY P + 1\<rparr>;
                   P = (if EXPIRY P = PERIOD P then P\<lparr>EXPIRY := 0, TIMER_PTR := LWTIMER_HEAD p\<rparr> else P)
               in (upd_period p (\<lambda>_. P) s, w))))"

definition lwtimer_isr_internal :: "(addr \<Rightarrow> addr \<Rightarrow> 'w \<Rightarrow> 'w) \<Rightarrow> lwtimer_data \<Rightarrow> 'w \<Rightarrow> lwtimer_data \<times> 'w" where
  "lwtimer_isr_internal call s w = fold (lwtimer_period_tick call) (the (LWTIMERS s)) (s, w)"

text \<open>What the tick of the kernel does for lightweight timers.\<close>

definition lwtimer_tick :: "(addr \<Rightarrow> addr \<Rightarrow> 'w \<Rightarrow> 'w) \<Rightarrow> lwtimer_data \<times> 'w \<Rightarrow> lwtimer_data \<times> 'w" where
  "lwtimer_tick call sw = (case sw of (s, w) \<Rightarrow> if LWTIMER_ISR s then lwtimer_isr_internal call s w else (s, w))"

text \<open>
  The test of the component: the result, the queue and the timer in error, and whether it returns
  with the interrupts disabled. The tests of the links are those of \<open>_queue_test\<close>, which pass for
  queues that are lists; theory \<open>Queue\<close> shows it for the pointers.
\<close>

fun lwtimer_test_periods :: "lwtimer_data \<Rightarrow> addr list \<Rightarrow> mqx_code \<times> addr \<times> addr \<times> bool" where
  "lwtimer_test_periods s [] = (MQX_OK, 0, 0, False)"
| "lwtimer_test_periods s (p # ps) =
     (if LP_VALID (LWPERIODS s p) \<noteq> LWTIMER_VALID then (MQX_LWTIMER_INVALID, p, 0, False)
      else
        (case List.find (\<lambda>t. LT_VALID (LWTIMER s t) \<noteq> LWTIMER_VALID) (TIMERS (LWPERIODS s p)) of
           Some t \<Rightarrow> (MQX_LWTIMER_INVALID, p, t, True)
         | None \<Rightarrow> lwtimer_test_periods s ps))"

definition lwtimer_test :: "lwtimer_data \<Rightarrow> mqx_code \<times> addr \<times> addr \<times> bool" where
  "lwtimer_test s = (case LWTIMERS s of None \<Rightarrow> (MQX_OK, 0, 0, False) | Some ps \<Rightarrow> lwtimer_test_periods s ps)"

section \<open>The invariant\<close>

text \<open>
  The timers of a queue are different, valid, belong to it, and stand in the order of their
  offsets, which are less than the period; the last processed timer is one of them or the header.
\<close>

definition period_ok :: "lwtimer_data \<Rightarrow> addr \<Rightarrow> bool" where
  "period_ok s p \<longleftrightarrow> LP_VALID (LWPERIODS s p) = LWTIMER_VALID
     \<and> distinct (TIMERS (LWPERIODS s p)) \<and> sorted (map (\<lambda>t. RELATIVE_TICKS (LWTIMER s t)) (TIMERS (LWPERIODS s p)))
     \<and> (\<forall>t \<in> set (TIMERS (LWPERIODS s p)). LT_VALID (LWTIMER s t) = LWTIMER_VALID \<and> PERIOD_PTR (LWTIMER s t) = p
          \<and> RELATIVE_TICKS (LWTIMER s t) < PERIOD (LWPERIODS s p))
     \<and> LWTIMER_HEAD p \<notin> set (TIMERS (LWPERIODS s p))
     \<and> TIMER_PTR (LWPERIODS s p) \<in> insert (LWTIMER_HEAD p) (set (TIMERS (LWPERIODS s p)))
     \<and> (PERIOD (LWPERIODS s p) = 0 \<or> EXPIRY (LWPERIODS s p) < PERIOD (LWPERIODS s p))"

definition periods :: "lwtimer_data \<Rightarrow> addr list" where
  "periods s = (case LWTIMERS s of None \<Rightarrow> [] | Some ps \<Rightarrow> ps)"

definition lwtimers_ok :: "lwtimer_data \<Rightarrow> bool" where
  "lwtimers_ok s \<longleftrightarrow> distinct (periods s) \<and> (\<forall>p \<in> set (periods s). period_ok s p)
     \<and> (\<forall>p. LP_VALID (LWPERIODS s p) = LWTIMER_VALID \<longrightarrow> p \<in> set (periods s))
     \<and> (LWTIMER_ISR s \<longleftrightarrow> LWTIMERS s \<noteq> None)"

lemma lwtimers_okD:
  assumes "lwtimers_ok s"
  shows "distinct (periods s)" "p \<in> set (periods s) \<Longrightarrow> period_ok s p"
    "LP_VALID (LWPERIODS s p) = LWTIMER_VALID \<Longrightarrow> p \<in> set (periods s)" "LWTIMER_ISR s \<longleftrightarrow> LWTIMERS s \<noteq> None"
  using assms by (simp_all add: lwtimers_ok_def)

lemma upd_period_simps [simp]:
  "LWPERIODS (upd_period p f s) q = (if q = p then f (LWPERIODS s p) else LWPERIODS s q)"
  "LWTIMER (upd_period p f s) = LWTIMER s" "LWTIMERS (upd_period p f s) = LWTIMERS s"
  "LWTIMER_ISR (upd_period p f s) = LWTIMER_ISR s" "periods (upd_period p f s) = periods s"
  by (simp_all add: upd_period_def periods_def)

lemma upd_lwtimer_simps [simp]:
  "LWTIMER (upd_lwtimer t f s) u = (if u = t then f (LWTIMER s t) else LWTIMER s u)"
  "LWPERIODS (upd_lwtimer t f s) = LWPERIODS s" "LWTIMERS (upd_lwtimer t f s) = LWTIMERS s"
  "LWTIMER_ISR (upd_lwtimer t f s) = LWTIMER_ISR s" "periods (upd_lwtimer t f s) = periods s"
  by (simp_all add: upd_lwtimer_def periods_def)

lemma period_ok_other:
  assumes "period_ok s p" "LWPERIODS s' p = LWPERIODS s p"
    and "\<And>t. t \<in> set (TIMERS (LWPERIODS s p)) \<Longrightarrow> LWTIMER s' t = LWTIMER s t"
  shows "period_ok s' p"
proof -
  have "map (\<lambda>t. RELATIVE_TICKS (LWTIMER s' t)) (TIMERS (LWPERIODS s p)) =
    map (\<lambda>t. RELATIVE_TICKS (LWTIMER s t)) (TIMERS (LWPERIODS s p))"
    using assms(3) by simp
  then have "sorted (map (\<lambda>t. RELATIVE_TICKS (LWTIMER s' t)) (TIMERS (LWPERIODS s p)))"
    using assms(1) by (simp only: period_ok_def)
  then show ?thesis using assms unfolding period_ok_def by simp
qed

lemma lwtimer_insert_cong:
  "(\<And>q. q \<in> set qs \<Longrightarrow> rel q = rel' q) \<Longrightarrow> lwtimer_insert rel ticks t qs = lwtimer_insert rel' ticks t qs"
  by (induction qs) auto

lemma set_lwtimer_insert [simp]: "set (lwtimer_insert rel ticks t qs) = insert t (set qs)"
  by (induction qs) auto

lemma distinct_lwtimer_insert [simp]: "distinct (lwtimer_insert rel ticks t qs) \<longleftrightarrow> t \<notin> set qs \<and> distinct qs"
  by (induction qs) auto

lemma sorted_lwtimer_insert:
  "sorted (map rel qs) \<Longrightarrow> rel t = ticks \<Longrightarrow> sorted (map rel (lwtimer_insert rel ticks t qs))"
  by (induction qs) (auto simp: not_le intro: order_trans less_imp_le)

lemma ring_prev_mem: "ring_prev h xs x \<in> insert h (set xs)"
  by (induction h xs x rule: ring_prev.induct) auto

lemma ring_prev_neq: "distinct xs \<Longrightarrow> x \<noteq> h \<Longrightarrow> ring_prev h xs x \<noteq> x"
  by (induction h xs x rule: ring_prev.induct) auto

section \<open>Every operation keeps the invariant\<close>

lemma create_ok:
  assumes ok: "lwtimers_ok s" and new: "p \<notin> set (periods s)"
  shows "lwtimers_ok (snd (lwtimer_create_periodic_queue p period wait_ticks s))"
proof -
  let ?s = "snd (lwtimer_create_periodic_queue p period wait_ticks s)"
  have l: "periods ?s = periods s @ [p]" "LWTIMERS ?s \<noteq> None" "LWTIMER_ISR ?s"
    using ok by (auto simp: lwtimer_create_periodic_queue_def Let_def periods_def lwtimers_ok_def split: option.split)
  have f: "LWPERIODS ?s q = (if q = p then \<lparr>PERIOD = period, EXPIRY = 0, WAIT = wait_ticks, TIMERS = [],
      TIMER_PTR = LWTIMER_HEAD p, LP_VALID = LWTIMER_VALID\<rparr> else LWPERIODS s q)" "LWTIMER ?s = LWTIMER s" for q
    by (simp_all add: lwtimer_create_periodic_queue_def Let_def)
  have "period_ok ?s p" by (simp add: period_ok_def f word_gt_0)
  moreover have "period_ok ?s q" if "q \<in> set (periods s)" for q
  proof (rule period_ok_other [OF lwtimers_okD(2) [OF ok that]])
    show "LWPERIODS ?s q = LWPERIODS s q" using that new by (auto simp: f(1))
  qed (simp add: f(2))
  moreover have "p = q \<or> q \<in> set (periods s)" if "LP_VALID (LWPERIODS ?s q) = LWTIMER_VALID" for q
    using that lwtimers_okD(3) [OF ok, of q] by (auto simp: f(1) split: if_splits)
  moreover have "distinct (periods ?s)" using ok new by (simp add: l lwtimers_ok_def)
  ultimately show ?thesis
    unfolding lwtimers_ok_def using l by auto
qed

lemma add_ok:
  assumes ok: "lwtimers_ok s" and t: "\<forall>q \<in> set (periods s). t \<notin> set (TIMERS (LWPERIODS s q))" "t \<noteq> LWTIMER_HEAD p"
  shows "lwtimers_ok (snd (lwtimer_add_timer_to_queue p t ticks func parameter s))"
proof (cases "LP_VALID (LWPERIODS s p) = LWTIMER_VALID \<and> ticks < PERIOD (LWPERIODS s p)")
  case False
  then show ?thesis using ok by (auto simp: lwtimer_add_timer_to_queue_def not_less)
next
  case True
  let ?s = "snd (lwtimer_add_timer_to_queue p t ticks func parameter s)"
  define T where "T = (LWTIMER s)(t := (LWTIMER s t)\<lparr>TIMER_FUNCTION := func, LT_PARAMETER := parameter, PERIOD_PTR := p,
    RELATIVE_TICKS := ticks, LT_VALID := LWTIMER_VALID\<rparr>)"
  have p: "p \<in> set (periods s)" "period_ok s p" using ok True by (auto simp: lwtimers_ok_def)
  then have tp: "t \<notin> set (TIMERS (LWPERIODS s p))" using t by blast
  define qs where "qs = lwtimer_insert (\<lambda>q. RELATIVE_TICKS (T q)) ticks t (TIMERS (LWPERIODS s p))"
  have ins: "lwtimer_insert rel ticks t (TIMERS (LWPERIODS s p)) = qs"
    if "\<forall>q. q \<noteq> t \<longrightarrow> rel q = RELATIVE_TICKS (LWTIMER s q)" for rel
    unfolding qs_def using that tp by (intro lwtimer_insert_cong) (auto simp: T_def)
  have run: "?s = upd_period p (\<lambda>P. P\<lparr>TIMERS := qs\<rparr>) (s\<lparr>LWTIMER := T\<rparr>)"
  proof -
    have "\<not> ticks \<ge> PERIOD (LWPERIODS s p)" using True by (simp add: not_le)
    then show ?thesis
      using True by (simp add: lwtimer_add_timer_to_queue_def Let_def ins) (simp add: upd_lwtimer_def T_def)
  qed
  have f: "LWPERIODS ?s q = (if q = p then (LWPERIODS s p)\<lparr>TIMERS := qs\<rparr> else LWPERIODS s q)"
    "LWTIMER ?s = T" "LWTIMERS ?s = LWTIMERS s" "LWTIMER_ISR ?s = LWTIMER_ISR s" for q
    unfolding run by simp_all
  have pp: "periods ?s = periods s" by (simp add: periods_def f)
  have eq: "map (\<lambda>q. RELATIVE_TICKS (T q)) (TIMERS (LWPERIODS s p)) = map (\<lambda>q. RELATIVE_TICKS (LWTIMER s q)) (TIMERS (LWPERIODS s p))"
    using tp by (auto simp: T_def)
  have "sorted (map (\<lambda>q. RELATIVE_TICKS (T q)) qs)"
    unfolding qs_def using p(2) by (intro sorted_lwtimer_insert) (simp_all add: eq period_ok_def, simp add: T_def)
  moreover have "set qs = insert t (set (TIMERS (LWPERIODS s p)))" "distinct qs"
    using p(2) tp by (simp_all add: qs_def period_ok_def)
  ultimately have "period_ok ?s p"
    using p(2) True t(2) unfolding period_ok_def f by (auto simp: T_def)
  moreover have "period_ok ?s q" if "q \<in> set (periods s)" "q \<noteq> p" for q
  proof (rule period_ok_other [OF lwtimers_okD(2) [OF ok that(1)]])
    show "LWTIMER ?s u = LWTIMER s u" if "u \<in> set (TIMERS (LWPERIODS s q))" for u
      using that t(1) \<open>q \<in> set (periods s)\<close> by (auto simp: f(2) T_def)
  qed (simp add: f(1) that(2))
  moreover have "q \<in> set (periods s)" if "LP_VALID (LWPERIODS ?s q) = LWTIMER_VALID" for q
    using that lwtimers_okD(3) [OF ok, of q] p(1) by (auto simp: f(1) split: if_splits)
  ultimately show ?thesis
    using lwtimers_okD(1,4) [OF ok] unfolding lwtimers_ok_def pp f(3,4) by blast
qed

lemma cancel_timer_ok:
  assumes ok: "lwtimers_ok s"
    and live: "LT_VALID (LWTIMER s t) = LWTIMER_VALID \<Longrightarrow> LP_VALID (LWPERIODS s (PERIOD_PTR (LWTIMER s t))) = LWTIMER_VALID
      \<Longrightarrow> t \<in> set (TIMERS (LWPERIODS s (PERIOD_PTR (LWTIMER s t))))"
  shows "lwtimers_ok (snd (lwtimer_cancel_timer t s))"
proof -
  define p where "p = PERIOD_PTR (LWTIMER s t)"
  show ?thesis
  proof (cases "LT_VALID (LWTIMER s t) = LWTIMER_VALID \<and> LP_VALID (LWPERIODS s p) = LWTIMER_VALID")
    case False
    then show ?thesis using ok by (auto simp: lwtimer_cancel_timer_def Let_def p_def)
  next
    case True
    let ?s = "snd (lwtimer_cancel_timer t s)"
    have p: "p \<in> set (periods s)" "period_ok s p"
      using lwtimers_okD(2,3) [OF ok, of p] True by blast+
    have t: "t \<in> set (TIMERS (LWPERIODS s p))" using live True by (simp add: p_def)
    define x where "x = (if t = TIMER_PTR (LWPERIODS s p) then ring_prev (LWTIMER_HEAD p) (TIMERS (LWPERIODS s p)) t
      else TIMER_PTR (LWPERIODS s p))"
    have f: "LWPERIODS ?s q = (if q = p then (LWPERIODS s p)\<lparr>TIMERS := remove1 t (TIMERS (LWPERIODS s p)), TIMER_PTR := x\<rparr>
        else LWPERIODS s q)"
      "LWTIMER ?s u = (if u = t then (LWTIMER s t)\<lparr>LT_VALID := 0\<rparr> else LWTIMER s u)"
      "LWTIMERS ?s = LWTIMERS s" "LWTIMER_ISR ?s = LWTIMER_ISR s" "periods ?s = periods s" for q u
      using True by (auto simp: lwtimer_cancel_timer_def Let_def x_def p_def [symmetric])
    have d: "distinct (TIMERS (LWPERIODS s p))" "LWTIMER_HEAD p \<noteq> t" using p(2) t by (auto simp: period_ok_def)
    have x: "x \<in> insert (LWTIMER_HEAD p) (set (TIMERS (LWPERIODS s p)))" "x \<noteq> t"
      using ring_prev_mem [of "LWTIMER_HEAD p" "TIMERS (LWPERIODS s p)" t] ring_prev_neq [OF d(1), of t "LWTIMER_HEAD p"]
        p(2) d(2) by (auto simp: x_def period_ok_def)
    have rel: "RELATIVE_TICKS (LWTIMER ?s u) = RELATIVE_TICKS (LWTIMER s u)" for u by (simp add: f(2))
    have "sorted (map (\<lambda>u. RELATIVE_TICKS (LWTIMER ?s u)) (remove1 t (TIMERS (LWPERIODS s p))))"
      using p(2) unfolding rel period_ok_def by (intro sorted_map_remove1) simp
    then have "period_ok ?s p"
      using p(2) x d(1) unfolding period_ok_def f(1) by (auto simp: f(2))
    moreover have "period_ok ?s q" if "q \<in> set (periods s)" "q \<noteq> p" for q
    proof (rule period_ok_other [OF lwtimers_okD(2) [OF ok that(1)]])
      show "LWTIMER ?s u = LWTIMER s u" if "u \<in> set (TIMERS (LWPERIODS s q))" for u
        using that lwtimers_okD(2) [OF ok \<open>q \<in> set (periods s)\<close>] \<open>q \<noteq> p\<close>
        by (auto simp: f(2) period_ok_def p_def)
    qed (simp add: f(1) that(2))
    moreover have "q \<in> set (periods s)" if "LP_VALID (LWPERIODS ?s q) = LWTIMER_VALID" for q
      using that lwtimers_okD(3) [OF ok, of q] p(1) by (auto simp: f(1) split: if_splits)
    ultimately show ?thesis
      using lwtimers_okD(1,4) [OF ok] unfolding lwtimers_ok_def f(3-5) by blast
  qed
qed

lemma cancel_period_ok:
  assumes ok: "lwtimers_ok s"
  shows "lwtimers_ok (snd (lwtimer_cancel_period p s))"
proof (cases "LP_VALID (LWPERIODS s p) = LWTIMER_VALID")
  case False
  then show ?thesis using ok by (simp add: lwtimer_cancel_period_def)
next
  case True
  let ?s = "snd (lwtimer_cancel_period p s)"
  have f: "LWPERIODS ?s q = (if q = p then (LWPERIODS s p)\<lparr>LP_VALID := 0\<rparr> else LWPERIODS s q)" "LWTIMER ?s = LWTIMER s"
    "LWTIMER_ISR ?s = LWTIMER_ISR s" "LWTIMERS ?s = None \<longleftrightarrow> LWTIMERS s = None" "periods ?s = remove1 p (periods s)" for q
    using True by (auto simp: lwtimer_cancel_period_def Let_def periods_def split: option.split)
  have "period_ok ?s q" if "q \<in> set (periods s)" "q \<noteq> p" for q
    by (rule period_ok_other [OF lwtimers_okD(2) [OF ok that(1)]]) (simp_all add: f(1,2) that(2))
  moreover have "q \<in> set (periods s) \<and> q \<noteq> p" if "LP_VALID (LWPERIODS ?s q) = LWTIMER_VALID" for q
    using that lwtimers_okD(3) [OF ok, of q] by (auto simp: f(1) split: if_splits)
  ultimately show ?thesis
    using lwtimers_okD(1,4) [OF ok] unfolding lwtimers_ok_def f(3-5) by (simp add: distinct_remove1)
qed

text \<open>A state with the invariant passes the test; an invalid timer leaves the interrupts disabled.\<close>

lemma lwtimer_test_passes: "lwtimers_ok s \<Longrightarrow> lwtimer_test s = (MQX_OK, 0, 0, False)"
proof -
  assume ok: "lwtimers_ok s"
  have "lwtimer_test_periods s ps = (MQX_OK, 0, 0, False)" if "set ps \<subseteq> set (periods s)" for ps
    using that
  proof (induction ps)
    case (Cons p ps)
    then have "period_ok s p" using lwtimers_okD(2) [OF ok, of p] by simp
    then have "List.find (\<lambda>t. LT_VALID (LWTIMER s t) \<noteq> LWTIMER_VALID) (TIMERS (LWPERIODS s p)) = None"
      "LP_VALID (LWPERIODS s p) = LWTIMER_VALID" by (simp_all add: find_None_iff period_ok_def)
    then show ?case using Cons by simp
  qed simp
  then show ?thesis by (auto simp: lwtimer_test_def periods_def split: option.split)
qed

lemma lwtimer_test_disabled: "lwtimer_test_periods s ps = (c, p, t, True) \<Longrightarrow> LT_VALID (LWTIMER s t) \<noteq> LWTIMER_VALID"
  by (induction ps) (auto simp: find_Some_iff split: if_splits option.splits)

section \<open>Timers that are on schedule\<close>

text \<open>The timers still to come in a period are those whose offset is not below \<open>EXPIRY\<close>.\<close>

definition on_schedule :: "lwtimer_data \<Rightarrow> addr \<Rightarrow> bool" where
  "on_schedule s p \<longleftrightarrow> ring_after (LWTIMER_HEAD p) (TIMERS (LWPERIODS s p)) (TIMER_PTR (LWPERIODS s p)) =
     filter (\<lambda>t. EXPIRY (LWPERIODS s p) \<le> RELATIVE_TICKS (LWTIMER s t)) (TIMERS (LWPERIODS s p))"

text \<open>The calls of a list of timers.\<close>

definition calls :: "(addr \<Rightarrow> addr \<Rightarrow> 'w \<Rightarrow> 'w) \<Rightarrow> (addr \<Rightarrow> lwtimer) \<Rightarrow> addr list \<Rightarrow> 'w \<Rightarrow> 'w" where
  "calls call T ts = fold (\<lambda>t. call (TIMER_FUNCTION (T t)) (LT_PARAMETER (T t))) ts"

lemma calls_append [simp]: "calls call T (xs @ ys) w = calls call T ys (calls call T xs w)"
  by (simp add: calls_def)

lemma lwtimer_run_takeWhile:
  "lwtimer_run call T e ts latest w =
    (let due = takeWhile (\<lambda>t. RELATIVE_TICKS (T t) \<le> e) ts in (if due = [] then latest else last due, calls call T due w))"
  by (induction call T e ts latest w rule: lwtimer_run.induct) (auto simp: Let_def calls_def not_le)

lemma takeWhile_sorted:
  "sorted (map f xs) \<Longrightarrow> takeWhile (\<lambda>x. f x \<le> e) xs = filter (\<lambda>x. f x \<le> e) xs"
  "sorted (map f xs) \<Longrightarrow> dropWhile (\<lambda>x. f x \<le> e) xs = filter (\<lambda>x. e < f x) xs"
  for f :: "'a \<Rightarrow> 'b :: linorder"
proof (induction xs)
  case (Cons a xs)
  {
    case 1
    have "filter (\<lambda>x. f x \<le> e) xs = []" if "\<not> f a \<le> e"
      using 1 that by (auto simp: filter_empty_conv dest: order_trans)
    then show ?case using 1 Cons(1) by simp
  next
    case 2
    have "filter (\<lambda>x. e < f x) xs = xs" if "\<not> f a \<le> e"
      using 2 that by (auto simp: filter_id_conv not_le intro: less_le_trans)
    then show ?case using 2 Cons(2) by (auto simp: not_le)
  }
qed simp_all

lemma ring_after_suffix:
  assumes "x \<in> insert h (set xs)"
  shows "\<exists>pre. xs = pre @ ring_after h xs x"
proof (cases "x = h")
  case False
  then obtain as bs where "xs = as @ x # bs" "x \<notin> set as" using assms split_list_first [of x xs] by auto
  then have "xs = (as @ [x]) @ ring_after h xs x" using False by (auto simp: ring_after_def dropWhile_append)
  then show ?thesis by blast
qed (simp add: ring_after_def)

lemma ring_after_last:
  assumes "distinct xs" "h \<notin> set xs" "x \<in> insert h (set xs)" "ring_after h xs x = ys @ zs" "ys \<noteq> []"
  shows "ring_after h xs (last ys) = zs"
proof -
  obtain pre where pre: "xs = pre @ ys @ zs" using ring_after_suffix [OF assms(3)] assms(4) by metis
  obtain bs b where ys: "ys = bs @ [b]" using assms(5) by (metis rev_exhaust)
  then have "b \<notin> set (pre @ bs)" "b \<noteq> h" using assms(1,2) pre by auto
  then have "dropWhile (\<lambda>y. y \<noteq> b) xs = b # zs" using pre ys by (subst pre) (auto simp: dropWhile_append)
  then show ?thesis using \<open>b \<noteq> h\<close> ys by (simp add: ring_after_def)
qed

lemma expiry_succ: "e < n \<Longrightarrow> unat (e + 1) = unat e + 1" for e n :: u32
proof -
  assume "e < n"
  then have "unat e < unat n" "unat n < 4294967296" using unat_lt32 [of n] by (auto simp: word_less_nat_alt)
  then have "unat e + unat (1 :: u32) < 4294967296" unfolding unsigned_1 by linarith
  then show ?thesis by (subst unat_add_noof32) simp_all
qed

lemma next_expiry: "n = 0 \<or> e < n \<Longrightarrow> e + 1 \<noteq> n \<Longrightarrow> n = 0 \<or> e + 1 < n" for e n :: u32
  using expiry_succ [of e n] by (auto simp: word_less_nat_alt word_unat_eq_iff)

lemma period_tick_on_schedule:
  assumes ok: "period_ok s p" and sch: "on_schedule s p"
  defines "due \<equiv> filter (\<lambda>t. WAIT (LWPERIODS s p) = 0 \<and> RELATIVE_TICKS (LWTIMER s t) = EXPIRY (LWPERIODS s p))
    (TIMERS (LWPERIODS s p))"
  obtains P where "lwtimer_period_tick call p (s, w) = (upd_period p (\<lambda>_. P) s, calls call (LWTIMER s) due w)"
    and "on_schedule (upd_period p (\<lambda>_. P) s) p" "period_ok (upd_period p (\<lambda>_. P) s) p"
    and "TIMERS P = TIMERS (LWPERIODS s p)" "PERIOD P = PERIOD (LWPERIODS s p)"
    and "WAIT P = WAIT (LWPERIODS s p) - (if WAIT (LWPERIODS s p) = 0 then 0 else 1)"
    and "EXPIRY P = (if WAIT (LWPERIODS s p) \<noteq> 0 then EXPIRY (LWPERIODS s p)
      else if EXPIRY (LWPERIODS s p) + 1 = PERIOD P then 0 else EXPIRY (LWPERIODS s p) + 1)"
proof (cases "WAIT (LWPERIODS s p) = 0")
  case False
  have "due = []" using False by (simp add: due_def)
  then show thesis
    using False sch ok
    by (intro that [of "(LWPERIODS s p)\<lparr>WAIT := WAIT (LWPERIODS s p) - 1\<rparr>"])
      (simp_all add: lwtimer_period_tick_def Let_def on_schedule_def period_ok_def calls_def, simp add: upd_period_def)
next
  case True
  define P where "P = LWPERIODS s p"
  define rel where "rel = (\<lambda>t. RELATIVE_TICKS (LWTIMER s t))"
  define h where "h = LWTIMER_HEAD p"
  have xs: "distinct (TIMERS P)" "sorted (map rel (TIMERS P))" "h \<notin> set (TIMERS P)"
    "TIMER_PTR P \<in> insert h (set (TIMERS P))" "\<forall>t \<in> set (TIMERS P). rel t < PERIOD P"
    "PERIOD P = 0 \<or> EXPIRY P < PERIOD P"
    using ok by (simp_all add: period_ok_def P_def rel_def h_def)
  have ra: "ring_after h (TIMERS P) (TIMER_PTR P) = filter (\<lambda>t. EXPIRY P \<le> rel t) (TIMERS P)"
    using sch by (simp add: on_schedule_def P_def rel_def h_def)
  have "takeWhile (\<lambda>t. rel t \<le> EXPIRY P) (filter (\<lambda>t. EXPIRY P \<le> rel t) (TIMERS P)) =
      filter (\<lambda>t. rel t \<le> EXPIRY P) (filter (\<lambda>t. EXPIRY P \<le> rel t) (TIMERS P))"
    by (rule takeWhile_sorted(1) [OF sorted_filter [OF xs(2)]])
  also have "\<dots> = due" using True by (auto simp: due_def P_def rel_def intro!: filter_cong)
  finally have tw: "takeWhile (\<lambda>t. rel t \<le> EXPIRY P) (filter (\<lambda>t. EXPIRY P \<le> rel t) (TIMERS P)) = due" .
  define l where "l = (if due = [] then TIMER_PTR P else last due)"
  define rest where "rest = dropWhile (\<lambda>t. rel t \<le> EXPIRY P) (filter (\<lambda>t. EXPIRY P \<le> rel t) (TIMERS P))"
  have split: "ring_after h (TIMERS P) (TIMER_PTR P) = due @ rest"
    unfolding ra rest_def tw [symmetric] by simp
  have rest: "ring_after h (TIMERS P) l = rest"
    using ring_after_last [OF xs(1,3,4) split] split by (simp add: l_def)
  have lmem: "l \<in> insert h (set (TIMERS P))"
  proof (cases "due = []")
    case False
    then have "last due \<in> set due" by (rule last_in_set)
    moreover have "set due \<subseteq> set (TIMERS P)" unfolding due_def P_def by (rule filter_is_subset)
    ultimately have "last due \<in> set (TIMERS P)" by blast
    then show ?thesis using False by (simp only: l_def if_False insert_iff) simp
  next
    case True
    then show ?thesis using xs(4) by (simp only: l_def if_True simp_thms)
  qed
  have run: "lwtimer_run call (LWTIMER s) (EXPIRY P) (ring_after h (TIMERS P) (TIMER_PTR P)) (TIMER_PTR P) w =
      (l, calls call (LWTIMER s) due w)"
    using tw by (simp add: lwtimer_run_takeWhile ra Let_def l_def rel_def)
  define P1 where "P1 = P\<lparr>TIMER_PTR := l, EXPIRY := EXPIRY P + 1\<rparr>"
  define P2 where "P2 = (if EXPIRY P1 = PERIOD P1 then P1\<lparr>EXPIRY := 0, TIMER_PTR := h\<rparr> else P1)"
  have tick: "lwtimer_period_tick call p (s, w) = (upd_period p (\<lambda>_. P2) s, calls call (LWTIMER s) due w)"
    using True run by (simp add: lwtimer_period_tick_def Let_def P2_def P1_def flip: P_def h_def)
  have "ring_after h (TIMERS P2) (TIMER_PTR P2) = filter (\<lambda>t. EXPIRY P2 \<le> rel t) (TIMERS P2)"
  proof (cases "EXPIRY P + 1 = PERIOD P")
    case True
    then show ?thesis by (simp add: P2_def P1_def ring_after_def)
  next
    case False
    have "rest = filter (\<lambda>t. EXPIRY P < rel t) (filter (\<lambda>t. EXPIRY P \<le> rel t) (TIMERS P))"
    unfolding rest_def by (rule takeWhile_sorted(2) [OF sorted_filter [OF xs(2)]])
    also have "\<dots> = filter (\<lambda>t. EXPIRY P + 1 \<le> rel t) (TIMERS P)"
      unfolding filter_filter
    proof (rule filter_cong [OF refl])
      fix t
      assume "t \<in> set (TIMERS P)"
      then have "rel t < PERIOD P" using xs(5) by blast
      then have "EXPIRY P < PERIOD P" using xs(6) by auto
      then show "(EXPIRY P \<le> rel t \<and> EXPIRY P < rel t) = (EXPIRY P + 1 \<le> rel t)"
        using expiry_succ [of "EXPIRY P" "PERIOD P"] by (auto simp: word_le_nat_alt word_less_nat_alt)
    qed
    finally show ?thesis using False rest by (simp add: P2_def P1_def)
  qed
  then have sch2: "on_schedule (upd_period p (\<lambda>_. P2) s) p" by (simp add: on_schedule_def rel_def h_def)
  have "PERIOD P2 = 0 \<or> EXPIRY P2 < PERIOD P2"
    using next_expiry [OF xs(6)] by (auto simp: P2_def P1_def word_gt_0)
  then have "period_ok (upd_period p (\<lambda>_. P2) s) p"
    using ok lmem unfolding period_ok_def by (auto simp: P2_def P1_def P_def h_def)
  then show thesis
    using that [OF tick sch2] True by (simp add: P2_def P1_def P_def)
qed

text \<open>What a tick does to a queue, whether or not its timers are on schedule.\<close>

definition advanced :: "lwtimer_period \<Rightarrow> lwtimer_period \<Rightarrow> bool" where
  "advanced P P' \<longleftrightarrow> TIMERS P' = TIMERS P \<and> PERIOD P' = PERIOD P
     \<and> WAIT P' = WAIT P - (if WAIT P = 0 then 0 else 1)
     \<and> EXPIRY P' = (if WAIT P \<noteq> 0 then EXPIRY P else if EXPIRY P + 1 = PERIOD P then 0 else EXPIRY P + 1)"

definition due :: "lwtimer_data \<Rightarrow> addr \<Rightarrow> addr list" where
  "due s p = filter (\<lambda>t. WAIT (LWPERIODS s p) = 0 \<and> RELATIVE_TICKS (LWTIMER s t) = EXPIRY (LWPERIODS s p))
     (TIMERS (LWPERIODS s p))"

text \<open>The tick that ends a period and starts the next.\<close>

definition period_ends :: "lwtimer_data \<Rightarrow> addr \<Rightarrow> bool" where
  "period_ends s p \<longleftrightarrow> WAIT (LWPERIODS s p) = 0 \<and> EXPIRY (LWPERIODS s p) + 1 = PERIOD (LWPERIODS s p)"

lemma lwtimer_run_mem: "fst (lwtimer_run call T e ts latest w) \<in> insert latest (set ts)"
  by (induction call T e ts latest w rule: lwtimer_run.induct) auto

lemma period_tick_ok:
  assumes ok: "period_ok s p"
  obtains P w' where "lwtimer_period_tick call p (s, w) = (upd_period p (\<lambda>_. P) s, w')"
    and "period_ok (upd_period p (\<lambda>_. P) s) p" "advanced (LWPERIODS s p) P"
    and "on_schedule s p \<or> period_ends s p \<Longrightarrow> on_schedule (upd_period p (\<lambda>_. P) s) p"
    and "on_schedule s p \<Longrightarrow> w' = calls call (LWTIMER s) (due s p) w"
proof (cases "on_schedule s p")
  case True
  obtain P where P: "lwtimer_period_tick call p (s, w) = (upd_period p (\<lambda>_. P) s, calls call (LWTIMER s) (due s p) w)"
    "on_schedule (upd_period p (\<lambda>_. P) s) p" "period_ok (upd_period p (\<lambda>_. P) s) p"
    "TIMERS P = TIMERS (LWPERIODS s p)" "PERIOD P = PERIOD (LWPERIODS s p)"
    "WAIT P = WAIT (LWPERIODS s p) - (if WAIT (LWPERIODS s p) = 0 then 0 else 1)"
    "EXPIRY P = (if WAIT (LWPERIODS s p) \<noteq> 0 then EXPIRY (LWPERIODS s p)
      else if EXPIRY (LWPERIODS s p) + 1 = PERIOD P then 0 else EXPIRY (LWPERIODS s p) + 1)"
    unfolding due_def by (rule period_tick_on_schedule [OF ok True])
  then show thesis using that [OF P(1,3)] by (simp add: advanced_def)
next
  case False
  define P where "P = LWPERIODS s p"
  define h where "h = LWTIMER_HEAD p"
  show thesis
  proof (cases "WAIT P = 0")
    case False
    then show thesis
      using that [of "P\<lparr>WAIT := WAIT P - 1\<rparr>" w] ok \<open>\<not> on_schedule s p\<close>
      by (simp add: lwtimer_period_tick_def period_ok_def advanced_def period_ends_def P_def) (simp add: upd_period_def)
  next
    case True
    obtain l w' where r: "lwtimer_run call (LWTIMER s) (EXPIRY P) (ring_after h (TIMERS P) (TIMER_PTR P)) (TIMER_PTR P) w = (l, w')"
      by fastforce
    have "TIMER_PTR P \<in> insert h (set (TIMERS P))" using ok by (simp add: period_ok_def P_def h_def)
    moreover from this have "set (ring_after h (TIMERS P) (TIMER_PTR P)) \<subseteq> set (TIMERS P)"
      using ring_after_suffix [of "TIMER_PTR P" h "TIMERS P"] by (metis set_append sup_ge2)
    ultimately have l: "l \<in> insert h (set (TIMERS P))"
      using lwtimer_run_mem [of call "LWTIMER s" "EXPIRY P" "ring_after h (TIMERS P) (TIMER_PTR P)" "TIMER_PTR P" w]
      unfolding r fst_conv by blast
    define P1 where "P1 = P\<lparr>TIMER_PTR := l, EXPIRY := EXPIRY P + 1\<rparr>"
    define P2 where "P2 = (if EXPIRY P1 = PERIOD P1 then P1\<lparr>EXPIRY := 0, TIMER_PTR := h\<rparr> else P1)"
    have tick: "lwtimer_period_tick call p (s, w) = (upd_period p (\<lambda>_. P2) s, w')"
      using True r by (simp add: lwtimer_period_tick_def Let_def P2_def P1_def flip: P_def h_def)
    have "PERIOD P2 = 0 \<or> EXPIRY P2 < PERIOD P2"
      using next_expiry [of "PERIOD P" "EXPIRY P"] ok by (auto simp: P2_def P1_def word_gt_0 period_ok_def P_def)
    then have "period_ok (upd_period p (\<lambda>_. P2) s) p"
      using ok l unfolding period_ok_def by (auto simp: P2_def P1_def P_def h_def)
    moreover have "on_schedule (upd_period p (\<lambda>_. P2) s) p" if "period_ends s p"
      using that by (simp add: period_ends_def on_schedule_def ring_after_def P2_def P1_def P_def h_def)
    ultimately show thesis
      using that [OF tick] True \<open>\<not> on_schedule s p\<close> by (simp add: advanced_def P2_def P1_def P_def)
  qed
qed

lemma on_schedule_other:
  assumes "LWPERIODS s' p = LWPERIODS s p" "\<And>t. t \<in> set (TIMERS (LWPERIODS s p)) \<Longrightarrow> LWTIMER s' t = LWTIMER s t"
  shows "on_schedule s' p \<longleftrightarrow> on_schedule s p"
proof -
  have "filter (\<lambda>t. EXPIRY (LWPERIODS s p) \<le> RELATIVE_TICKS (LWTIMER s' t)) (TIMERS (LWPERIODS s p)) =
    filter (\<lambda>t. EXPIRY (LWPERIODS s p) \<le> RELATIVE_TICKS (LWTIMER s t)) (TIMERS (LWPERIODS s p))"
    using assms(2) by (intro filter_cong) simp_all
  then show ?thesis by (simp add: on_schedule_def assms(1))
qed

text \<open>The loop over the queues.\<close>

lemma isr_fold:
  assumes "distinct ps" "\<forall>p \<in> set ps. period_ok s p"
  shows "\<exists>s' w'. fold (lwtimer_period_tick call) ps (s, w) = (s', w')
    \<and> LWTIMER s' = LWTIMER s \<and> LWTIMERS s' = LWTIMERS s \<and> LWTIMER_ISR s' = LWTIMER_ISR s
    \<and> (\<forall>q. q \<notin> set ps \<longrightarrow> LWPERIODS s' q = LWPERIODS s q)
    \<and> (\<forall>q \<in> set ps. period_ok s' q \<and> advanced (LWPERIODS s q) (LWPERIODS s' q))
    \<and> (\<forall>q \<in> set ps. on_schedule s q \<or> period_ends s q \<longrightarrow> on_schedule s' q)
    \<and> ((\<forall>p \<in> set ps. on_schedule s p) \<longrightarrow> w' = calls call (LWTIMER s) (concat (map (due s) ps)) w)"
  using assms
proof (induction ps arbitrary: s w)
  case Nil
  then show ?case by (simp add: calls_def)
next
  case (Cons p ps)
  obtain P w1 where t: "lwtimer_period_tick call p (s, w) = (upd_period p (\<lambda>_. P) s, w1)"
    "period_ok (upd_period p (\<lambda>_. P) s) p" "advanced (LWPERIODS s p) P"
    "on_schedule s p \<or> period_ends s p \<Longrightarrow> on_schedule (upd_period p (\<lambda>_. P) s) p"
    "on_schedule s p \<Longrightarrow> w1 = calls call (LWTIMER s) (due s p) w"
    using period_tick_ok [of s p call w] Cons.prems(2) by auto
  define s1 where "s1 = upd_period p (\<lambda>_. P) s"
  have same: "LWPERIODS s1 q = LWPERIODS s q" "LWTIMER s1 = LWTIMER s" if "q \<noteq> p" for q
    using that by (simp_all add: s1_def)
  have other: "period_ok s q \<Longrightarrow> period_ok s1 q" "on_schedule s1 q \<longleftrightarrow> on_schedule s q" "due s1 q = due s q"
      "period_ends s1 q \<longleftrightarrow> period_ends s q" if "q \<noteq> p" for q
    using period_ok_other [of s q s1] on_schedule_other [of s1 q s] same [OF that] by (simp_all add: due_def period_ends_def)
  have np: "p \<notin> set ps" and "distinct ps" using Cons.prems(1) by auto
  have "\<forall>q \<in> set ps. period_ok s1 q" using Cons.prems(2) np other(1) by (metis list.set_intros(2))
  from Cons.IH [OF \<open>distinct ps\<close> this, of w1] obtain s' w' where
    f: "fold (lwtimer_period_tick call) ps (s1, w1) = (s', w')" "LWTIMER s' = LWTIMER s1" "LWTIMERS s' = LWTIMERS s1"
      "LWTIMER_ISR s' = LWTIMER_ISR s1" "\<forall>q. q \<notin> set ps \<longrightarrow> LWPERIODS s' q = LWPERIODS s1 q"
      "\<forall>q \<in> set ps. period_ok s' q \<and> advanced (LWPERIODS s1 q) (LWPERIODS s' q)"
      "\<forall>q \<in> set ps. on_schedule s1 q \<or> period_ends s1 q \<longrightarrow> on_schedule s' q"
      "(\<forall>p \<in> set ps. on_schedule s1 p) \<longrightarrow> w' = calls call (LWTIMER s1) (concat (map (due s1) ps)) w1"
    by blast
  have p': "LWPERIODS s' p = P" using f(5) np by (simp add: s1_def)
  have pok: "period_ok s' p" "on_schedule s' p \<longleftrightarrow> on_schedule s1 p"
    using period_ok_other [of s1 p s'] t(2) on_schedule_other [of s' p s1] f(2,5) np by (auto simp: s1_def)
  have dues: "map (due s1) ps = map (due s) ps" using np other(3) by (metis map_cong)
  show ?case
  proof (intro exI conjI)
    show "fold (lwtimer_period_tick call) (p # ps) (s, w) = (s', w')" using t(1) f(1) by (simp add: s1_def)
    show "LWTIMER s' = LWTIMER s" "LWTIMERS s' = LWTIMERS s" "LWTIMER_ISR s' = LWTIMER_ISR s"
      using f(2-4) by (simp_all add: s1_def)
    show "\<forall>q. q \<notin> set (p # ps) \<longrightarrow> LWPERIODS s' q = LWPERIODS s q" using f(5) same by simp
    show "\<forall>q \<in> set (p # ps). period_ok s' q \<and> advanced (LWPERIODS s q) (LWPERIODS s' q)"
      using f(6) pok(1) t(3) p' np same by (metis set_ConsD)
    have "on_schedule s' q" if "q \<in> set ps" "on_schedule s q \<or> period_ends s q" for q
      using f(7) that other(2,4) [of q] np by metis
    then show "\<forall>q \<in> set (p # ps). on_schedule s q \<or> period_ends s q \<longrightarrow> on_schedule s' q"
      using pok(2) t(4) by (simp add: s1_def)
    show "(\<forall>q \<in> set (p # ps). on_schedule s q) \<longrightarrow> w' = calls call (LWTIMER s) (concat (map (due s) (p # ps))) w"
    proof
      assume a: "\<forall>q \<in> set (p # ps). on_schedule s q"
      then have "w1 = calls call (LWTIMER s) (due s p) w" using t(5) by simp
      moreover have "\<forall>q \<in> set ps. on_schedule s1 q" using a np other(2) by (metis list.set_intros(2))
      moreover have "LWTIMER s1 = LWTIMER s" by (simp add: s1_def)
      ultimately show "w' = calls call (LWTIMER s) (concat (map (due s) (p # ps))) w"
        using f(8) dues by simp
    qed
  qed
qed

end
