(* ===== verification/LwTimerProps.thy ===== *)
theory LwTimerProps
  imports LwTimer
begin

text \<open>
  The calls on lightweight timers as one step relation, the invariant of its reachable states, and
  the schedule: as long as no timer is added with an offset that has passed in the running period,
  every timer is called exactly at its offset in every period.
\<close>

section \<open>Reachable states\<close>

text \<open>
  A queue is created in memory that is no queue in use, a timer is added that is in no queue, and a
  timer that passes the checks of the cancellation is in the queue it names, which the source does
  not check. With
  \<open>timely\<close>, a timer is added only with an offset that has not passed. The calls of the functions do
  not matter here; see \<open>lwtimer_tick_state\<close>.
\<close>

inductive lwtimer_reachable :: "bool \<Rightarrow> lwtimer_data \<Rightarrow> bool" for timely where
  init: "LWTIMERS s = None \<Longrightarrow> \<not> LWTIMER_ISR s \<Longrightarrow> (\<And>p. LP_VALID (LWPERIODS s p) \<noteq> LWTIMER_VALID)
    \<Longrightarrow> lwtimer_reachable timely s"
| create: "lwtimer_reachable timely s \<Longrightarrow> p \<notin> set (periods s)
    \<Longrightarrow> lwtimer_reachable timely (snd (lwtimer_create_periodic_queue p period wait_ticks s))"
| add: "lwtimer_reachable timely s \<Longrightarrow> \<forall>q \<in> set (periods s). t \<notin> set (TIMERS (LWPERIODS s q)) \<Longrightarrow> t \<noteq> LWTIMER_HEAD p
    \<Longrightarrow> (timely \<Longrightarrow> EXPIRY (LWPERIODS s p) \<le> ticks)
    \<Longrightarrow> lwtimer_reachable timely (snd (lwtimer_add_timer_to_queue p t ticks func parameter s))"
| cancel_timer: "lwtimer_reachable timely s
    \<Longrightarrow> (LT_VALID (LWTIMER s t) = LWTIMER_VALID \<Longrightarrow> LP_VALID (LWPERIODS s (PERIOD_PTR (LWTIMER s t))) = LWTIMER_VALID
      \<Longrightarrow> t \<in> set (TIMERS (LWPERIODS s (PERIOD_PTR (LWTIMER s t)))))
    \<Longrightarrow> lwtimer_reachable timely (snd (lwtimer_cancel_timer t s))"
| cancel_period: "lwtimer_reachable timely s \<Longrightarrow> lwtimer_reachable timely (snd (lwtimer_cancel_period p s))"
| tick: "lwtimer_reachable timely s \<Longrightarrow> lwtimer_reachable timely (fst (lwtimer_tick (\<lambda>_ _ w. w) (s, ())))"

lemma lwtimer_run_state: "fst (lwtimer_run call T e ts latest w) = fst (lwtimer_run call' T e ts latest w')"
  by (induction call T e ts latest w arbitrary: w' rule: lwtimer_run.induct) auto

lemma period_tick_state:
  "fst (lwtimer_period_tick call p (s, w)) = fst (lwtimer_period_tick call' p (s, w'))"
  using lwtimer_run_state [of call "LWTIMER s" "EXPIRY (LWPERIODS s p)" _ _ w call' w']
  by (simp add: lwtimer_period_tick_def Let_def split: prod.split) (metis fst_conv)

lemma lwtimer_tick_state: "fst (lwtimer_tick call (s, w)) = fst (lwtimer_tick call' (s, w'))"
proof -
  have "fst (fold (lwtimer_period_tick call) ps (s, w)) = fst (fold (lwtimer_period_tick call') ps (s, w'))" for ps
  proof (induction ps arbitrary: s w w')
    case (Cons p ps)
    obtain s1 w1 where 1: "lwtimer_period_tick call p (s, w) = (s1, w1)" by fastforce
    moreover obtain w2 where "lwtimer_period_tick call' p (s, w') = (s1, w2)"
      using period_tick_state [of call p s w call' w'] 1 by (metis fst_conv surj_pair)
    ultimately show ?case using Cons [of s1 w1 w2] by simp
  qed simp
  then show ?thesis by (simp add: lwtimer_tick_def lwtimer_isr_internal_def)
qed

text \<open>Where the last processed timer stands in its queue.\<close>

definition ring_pos :: "addr \<Rightarrow> addr list \<Rightarrow> addr \<Rightarrow> bool" where
  "ring_pos h pre x \<longleftrightarrow> (if pre = [] then x = h else x = last pre)"

lemma ring_after_pos:
  assumes "x \<in> insert h (set xs)"
  shows "\<exists>pre. xs = pre @ ring_after h xs x \<and> ring_pos h pre x"
proof (cases "x = h")
  case False
  then obtain as bs where "xs = as @ x # bs" "x \<notin> set as" using assms split_list_first [of x xs] by auto
  then have "xs = (as @ [x]) @ ring_after h xs x" using False by (auto simp: ring_after_def dropWhile_append)
  then show ?thesis by (intro exI [of _ "as @ [x]"]) (simp add: ring_pos_def)
qed (simp add: ring_after_def ring_pos_def)

lemma ring_after_append:
  assumes "distinct (pre @ ys)" "h \<notin> set (pre @ ys)" "ring_pos h pre x"
  shows "ring_after h (pre @ ys) x = ys"
proof (cases "pre = []")
  case False
  then obtain bs where "pre = bs @ [x]" using assms(3) by (metis append_butlast_last_id ring_pos_def)
  then show ?thesis using assms(1,2) by (auto simp: ring_after_def dropWhile_append)
qed (use assms(3) in \<open>simp add: ring_pos_def ring_after_def\<close>)

lemma on_schedule_split:
  assumes ok: "period_ok s p" and sch: "on_schedule s p"
  obtains pre zs where "TIMERS (LWPERIODS s p) = pre @ zs" "ring_pos (LWTIMER_HEAD p) pre (TIMER_PTR (LWPERIODS s p))"
    "\<forall>t \<in> set pre. RELATIVE_TICKS (LWTIMER s t) < EXPIRY (LWPERIODS s p)"
    "\<forall>t \<in> set zs. EXPIRY (LWPERIODS s p) \<le> RELATIVE_TICKS (LWTIMER s t)"
proof -
  define zs where "zs = filter (\<lambda>t. EXPIRY (LWPERIODS s p) \<le> RELATIVE_TICKS (LWTIMER s t)) (TIMERS (LWPERIODS s p))"
  obtain pre where pre: "TIMERS (LWPERIODS s p) = pre @ zs" "ring_pos (LWTIMER_HEAD p) pre (TIMER_PTR (LWPERIODS s p))"
    using ring_after_pos [of "TIMER_PTR (LWPERIODS s p)" "LWTIMER_HEAD p" "TIMERS (LWPERIODS s p)"] ok sch
    by (auto simp: on_schedule_def period_ok_def zs_def)
  have zz: "\<forall>t \<in> set zs. EXPIRY (LWPERIODS s p) \<le> RELATIVE_TICKS (LWTIMER s t)" by (simp add: zs_def)
  then have "zs = filter (\<lambda>t. EXPIRY (LWPERIODS s p) \<le> RELATIVE_TICKS (LWTIMER s t)) pre @ zs"
    using zs_def unfolding pre(1) filter_append by (simp add: filter_id_conv)
  then have "\<forall>t \<in> set pre. RELATIVE_TICKS (LWTIMER s t) < EXPIRY (LWPERIODS s p)"
    by (simp add: filter_empty_conv not_le)
  then show thesis using that pre zz by blast
qed

lemma on_scheduleI:
  assumes "period_ok s p" "TIMERS (LWPERIODS s p) = pre @ zs" "ring_pos (LWTIMER_HEAD p) pre (TIMER_PTR (LWPERIODS s p))"
    and "\<forall>t \<in> set pre. RELATIVE_TICKS (LWTIMER s t) < EXPIRY (LWPERIODS s p)"
    and "\<forall>t \<in> set zs. EXPIRY (LWPERIODS s p) \<le> RELATIVE_TICKS (LWTIMER s t)"
  shows "on_schedule s p"
proof -
  have "ring_after (LWTIMER_HEAD p) (pre @ zs) (TIMER_PTR (LWPERIODS s p)) = zs"
    using assms(1-3) by (intro ring_after_append) (simp_all add: period_ok_def)
  moreover have "filter (\<lambda>t. EXPIRY (LWPERIODS s p) \<le> RELATIVE_TICKS (LWTIMER s t)) (pre @ zs) = zs"
    using assms(4,5) by (simp add: filter_empty_conv filter_id_conv not_le)
  ultimately show ?thesis by (simp only: on_schedule_def assms(2))
qed


section \<open>Every operation keeps the schedule\<close>

definition lwtimers_on_schedule :: "lwtimer_data \<Rightarrow> bool" where
  "lwtimers_on_schedule s \<longleftrightarrow> (\<forall>p \<in> set (periods s). on_schedule s p)"

lemma create_on_schedule:
  assumes "lwtimers_on_schedule s" "p \<notin> set (periods s)"
  shows "lwtimers_on_schedule (snd (lwtimer_create_periodic_queue p period wait_ticks s))"
proof -
  let ?s = "snd (lwtimer_create_periodic_queue p period wait_ticks s)"
  have l: "periods ?s = periods s @ [p]"
    by (auto simp: lwtimer_create_periodic_queue_def Let_def periods_def split: option.split)
  have f: "LWPERIODS ?s q = (if q = p then \<lparr>PERIOD = period, EXPIRY = 0, WAIT = wait_ticks, TIMERS = [],
      TIMER_PTR = LWTIMER_HEAD p, LP_VALID = LWTIMER_VALID\<rparr> else LWPERIODS s q)" "LWTIMER ?s = LWTIMER s" for q
    by (simp_all add: lwtimer_create_periodic_queue_def Let_def)
  have "on_schedule ?s p" by (simp add: on_schedule_def f ring_after_def)
  moreover have "on_schedule ?s q" if "q \<in> set (periods s)" for q
  proof -
    have "LWPERIODS ?s q = LWPERIODS s q" using that assms(2) by (auto simp: f(1))
    then show ?thesis using assms(1) that on_schedule_other [of ?s q s] f(2) by (simp add: lwtimers_on_schedule_def)
  qed
  ultimately show ?thesis by (auto simp: lwtimers_on_schedule_def l)
qed

lemma lwtimer_insert_append:
  "\<forall>q \<in> set pre. rel q < ticks \<Longrightarrow> lwtimer_insert rel ticks t (pre @ zs) = pre @ lwtimer_insert rel ticks t zs"
  by (induction pre) auto

text \<open>The fields after a timer was added.\<close>

lemma lwtimer_add_fields:
  fixes s p t ticks func parameter
  defines "s' \<equiv> snd (lwtimer_add_timer_to_queue p t ticks func parameter s)"
  assumes "LP_VALID (LWPERIODS s p) = LWTIMER_VALID" "ticks < PERIOD (LWPERIODS s p)"
    and "t \<notin> set (TIMERS (LWPERIODS s p))"
  shows "LWPERIODS s' q = (if q = p then (LWPERIODS s p)\<lparr>TIMERS :=
      lwtimer_insert (\<lambda>q. RELATIVE_TICKS (LWTIMER s q)) ticks t (TIMERS (LWPERIODS s p))\<rparr> else LWPERIODS s q)"
    and "LWTIMER s' u = (if u = t then \<lparr>RELATIVE_TICKS = ticks, LT_VALID = LWTIMER_VALID, TIMER_FUNCTION = func,
      LT_PARAMETER = parameter, PERIOD_PTR = p\<rparr> else LWTIMER s u)"
    and "LWTIMERS s' = LWTIMERS s" "periods s' = periods s"
proof -
  have ins: "lwtimer_insert (\<lambda>q. RELATIVE_TICKS (if q = t then T else LWTIMER s q)) ticks t (TIMERS (LWPERIODS s p)) =
      lwtimer_insert (\<lambda>q. RELATIVE_TICKS (LWTIMER s q)) ticks t (TIMERS (LWPERIODS s p))" for T
    using assms(4) by (intro lwtimer_insert_cong) auto
  have "\<not> ticks \<ge> PERIOD (LWPERIODS s p)" using assms(3) by (simp add: not_le)
  note d = lwtimer_add_timer_to_queue_def Let_def assms(2) this
  show "LWPERIODS s' q = (if q = p then (LWPERIODS s p)\<lparr>TIMERS :=
      lwtimer_insert (\<lambda>q. RELATIVE_TICKS (LWTIMER s q)) ticks t (TIMERS (LWPERIODS s p))\<rparr> else LWPERIODS s q)"
    by (simp add: s'_def d ins)
  show "LWTIMER s' u = (if u = t then \<lparr>RELATIVE_TICKS = ticks, LT_VALID = LWTIMER_VALID, TIMER_FUNCTION = func,
      LT_PARAMETER = parameter, PERIOD_PTR = p\<rparr> else LWTIMER s u)"
    by (simp add: s'_def d)
  show "LWTIMERS s' = LWTIMERS s" "periods s' = periods s" by (simp_all add: s'_def d)
qed

lemma add_on_schedule:
  assumes ok: "lwtimers_ok s" and sch: "lwtimers_on_schedule s"
    and t: "\<forall>q \<in> set (periods s). t \<notin> set (TIMERS (LWPERIODS s q))" "t \<noteq> LWTIMER_HEAD p"
    and late: "EXPIRY (LWPERIODS s p) \<le> ticks"
  shows "lwtimers_on_schedule (snd (lwtimer_add_timer_to_queue p t ticks func parameter s))"
proof (cases "LP_VALID (LWPERIODS s p) = LWTIMER_VALID \<and> ticks < PERIOD (LWPERIODS s p)")
  case False
  then show ?thesis using sch by (auto simp: lwtimer_add_timer_to_queue_def not_less)
next
  case True
  let ?s = "snd (lwtimer_add_timer_to_queue p t ticks func parameter s)"
  let ?rel = "\<lambda>q. RELATIVE_TICKS (LWTIMER s q)"
  have p: "p \<in> set (periods s)" "period_ok s p" "on_schedule s p"
    using lwtimers_okD(2,3) [OF ok, of p] True sch by (auto simp: lwtimers_on_schedule_def)
  have tp: "t \<notin> set (TIMERS (LWPERIODS s p))" using t(1) p(1) by blast
  have "LP_VALID (LWPERIODS s p) = LWTIMER_VALID" "ticks < PERIOD (LWPERIODS s p)" using True by auto
  note f = lwtimer_add_fields [OF this tp, of func parameter]
  have ok': "lwtimers_ok ?s" by (rule add_ok [OF ok t])
  obtain pre zs where z: "TIMERS (LWPERIODS s p) = pre @ zs" "ring_pos (LWTIMER_HEAD p) pre (TIMER_PTR (LWPERIODS s p))"
    "\<forall>t \<in> set pre. ?rel t < EXPIRY (LWPERIODS s p)" "\<forall>t \<in> set zs. EXPIRY (LWPERIODS s p) \<le> ?rel t"
    by (rule on_schedule_split [OF p(2,3)])
  have ins: "lwtimer_insert ?rel ticks t (pre @ zs) = pre @ lwtimer_insert ?rel ticks t zs"
    using z(3) late by (intro lwtimer_insert_append) (auto intro: less_le_trans)
  have "on_schedule ?s p"
  proof (rule on_scheduleI [of _ _ pre "lwtimer_insert ?rel ticks t zs"])
    show "period_ok ?s p" using lwtimers_okD(2) [OF ok', of p] p(1) by (simp add: f(4))
    show "TIMERS (LWPERIODS ?s p) = pre @ lwtimer_insert ?rel ticks t zs" by (simp add: f(1) z(1) ins)
    show "ring_pos (LWTIMER_HEAD p) pre (TIMER_PTR (LWPERIODS ?s p))" using z(2) by (simp add: f(1))
    show "\<forall>u \<in> set pre. RELATIVE_TICKS (LWTIMER ?s u) < EXPIRY (LWPERIODS ?s p)"
      using z(1,3) tp by (auto simp: f(1,2))
    show "\<forall>u \<in> set (lwtimer_insert ?rel ticks t zs). EXPIRY (LWPERIODS ?s p) \<le> RELATIVE_TICKS (LWTIMER ?s u)"
      using z(4) late by (auto simp: f(1,2))
  qed
  moreover have "on_schedule ?s q" if "q \<in> set (periods s)" "q \<noteq> p" for q
  proof -
    have "LWTIMER ?s u = LWTIMER s u" if "u \<in> set (TIMERS (LWPERIODS s q))" for u
      using that t(1) \<open>q \<in> set (periods s)\<close> by (auto simp: f(2))
    then show ?thesis
      using that sch on_schedule_other [of ?s q s] f(1) [of q] by (simp add: lwtimers_on_schedule_def)
  qed
  ultimately show ?thesis by (auto simp: lwtimers_on_schedule_def f(4))
qed

lemma ring_prev_append:
  "t \<notin> set bs \<Longrightarrow> ring_prev h (bs @ t # ys) t = (if bs = [] then h else last bs)"
  by (induction bs arbitrary: h) auto

lemma ring_pos_remove1:
  assumes "distinct pre" "h \<notin> set pre" "t \<in> set pre" "ring_pos h pre y"
  shows "ring_pos h (remove1 t pre) (if t = y then ring_prev h (pre @ zs) t else y)"
proof -
  obtain bs r where s: "pre = bs @ t # r" "t \<notin> set bs" using assms(3) by (auto dest: split_list_first)
  then have r: "remove1 t pre = bs @ r" by (simp add: remove1_append)
  have y: "y = last (t # r)" using assms(4) by (simp add: ring_pos_def s)
  show ?thesis
  proof (cases "r = []")
    case True
    then show ?thesis using s ring_prev_append [of t bs h zs] by (auto simp: ring_pos_def r y)
  next
    case False
    then have "last r \<in> set r" by (rule last_in_set)
    then show ?thesis using False assms(1) s r y by (auto simp: ring_pos_def)
  qed
qed


lemma cancel_timer_on_schedule:
  assumes ok: "lwtimers_ok s" and sch: "lwtimers_on_schedule s"
    and live: "LT_VALID (LWTIMER s t) = LWTIMER_VALID \<Longrightarrow> LP_VALID (LWPERIODS s (PERIOD_PTR (LWTIMER s t))) = LWTIMER_VALID
      \<Longrightarrow> t \<in> set (TIMERS (LWPERIODS s (PERIOD_PTR (LWTIMER s t))))"
  shows "lwtimers_on_schedule (snd (lwtimer_cancel_timer t s))"
proof -
  define p where "p = PERIOD_PTR (LWTIMER s t)"
  show ?thesis
  proof (cases "LT_VALID (LWTIMER s t) = LWTIMER_VALID \<and> LP_VALID (LWPERIODS s p) = LWTIMER_VALID")
    case False
    then show ?thesis using sch by (auto simp: lwtimer_cancel_timer_def Let_def p_def)
  next
    case True
    let ?s = "snd (lwtimer_cancel_timer t s)"
    have p: "p \<in> set (periods s)" "period_ok s p" "on_schedule s p"
      using lwtimers_okD(2,3) [OF ok, of p] True sch by (auto simp: lwtimers_on_schedule_def)
    define y where "y = TIMER_PTR (LWPERIODS s p)"
    define x where "x = (if t = y then ring_prev (LWTIMER_HEAD p) (TIMERS (LWPERIODS s p)) t else y)"
    have f: "LWPERIODS ?s q = (if q = p then (LWPERIODS s p)\<lparr>TIMERS := remove1 t (TIMERS (LWPERIODS s p)), TIMER_PTR := x\<rparr>
        else LWPERIODS s q)"
      "LWTIMER ?s u = (if u = t then (LWTIMER s t)\<lparr>LT_VALID := 0\<rparr> else LWTIMER s u)" "periods ?s = periods s" for q u
      using True by (auto simp: lwtimer_cancel_timer_def Let_def x_def y_def p_def [symmetric])
    have ok': "period_ok ?s p"
      using cancel_timer_ok [OF ok, of t] live lwtimers_okD(2) [of ?s p] p(1) f(3) by simp
    have rel: "RELATIVE_TICKS (LWTIMER ?s u) = RELATIVE_TICKS (LWTIMER s u)" for u by (simp add: f(2))
    have d: "distinct (TIMERS (LWPERIODS s p))" "LWTIMER_HEAD p \<notin> set (TIMERS (LWPERIODS s p))"
      using p(2) by (auto simp: period_ok_def)
    have tm: "t \<in> set (TIMERS (LWPERIODS s p))" using live True by (simp add: p_def)
    obtain pre zs where z: "TIMERS (LWPERIODS s p) = pre @ zs" "ring_pos (LWTIMER_HEAD p) pre y"
      "\<forall>t \<in> set pre. RELATIVE_TICKS (LWTIMER s t) < EXPIRY (LWPERIODS s p)"
      "\<forall>t \<in> set zs. EXPIRY (LWPERIODS s p) \<le> RELATIVE_TICKS (LWTIMER s t)"
      unfolding y_def by (rule on_schedule_split [OF p(2,3)])
    have "on_schedule ?s p"
    proof (cases "t \<in> set pre")
      case True
      then have "ring_pos (LWTIMER_HEAD p) (remove1 t pre) x"
        using ring_pos_remove1 [of pre "LWTIMER_HEAD p" t y zs] d z(2) unfolding x_def z(1) by simp
      moreover have "remove1 t (pre @ zs) = remove1 t pre @ zs" using True by (simp add: remove1_append)
      moreover have "set (remove1 t pre) \<subseteq> set pre" by (rule set_remove1_subset)
      ultimately show ?thesis
        using on_scheduleI [OF ok', of "remove1 t pre" zs] z(1,3,4) by (auto simp: f(1) rel)
    next
      case False
      have "y \<in> insert (LWTIMER_HEAD p) (set pre)" using z(2) by (auto simp: ring_pos_def split: if_splits)
      then have "t \<noteq> y" using False tm d(2) by auto
      moreover have "remove1 t (pre @ zs) = pre @ remove1 t zs" using False by (simp add: remove1_append)
      moreover have "set (remove1 t zs) \<subseteq> set zs" by (rule set_remove1_subset)
      ultimately show ?thesis
        using on_scheduleI [OF ok', of pre "remove1 t zs"] z by (auto simp: f(1) rel x_def)
    qed
    moreover have "on_schedule ?s q" if "q \<in> set (periods s)" "q \<noteq> p" for q
    proof -
      have "t \<notin> set (TIMERS (LWPERIODS s q))"
        using that lwtimers_okD(2) [OF ok that(1)] by (auto simp: period_ok_def p_def)
      then have "LWTIMER ?s u = LWTIMER s u" if "u \<in> set (TIMERS (LWPERIODS s q))" for u
        using that by (auto simp: f(2))
      then show ?thesis
        using that sch on_schedule_other [of ?s q s] f(1) [of q] by (simp add: lwtimers_on_schedule_def)
    qed
    ultimately show ?thesis by (auto simp: lwtimers_on_schedule_def f(3))
  qed
qed

lemma cancel_period_on_schedule:
  assumes ok: "lwtimers_ok s" and sch: "lwtimers_on_schedule s"
  shows "lwtimers_on_schedule (snd (lwtimer_cancel_period p s))"
proof (cases "LP_VALID (LWPERIODS s p) = LWTIMER_VALID")
  case False
  then show ?thesis using sch by (simp add: lwtimer_cancel_period_def)
next
  case True
  let ?s = "snd (lwtimer_cancel_period p s)"
  have f: "LWPERIODS ?s q = (if q = p then (LWPERIODS s p)\<lparr>LP_VALID := 0\<rparr> else LWPERIODS s q)" "LWTIMER ?s = LWTIMER s"
    "periods ?s = remove1 p (periods s)" for q
    using True by (auto simp: lwtimer_cancel_period_def Let_def periods_def split: option.split)
  have "on_schedule ?s q" if "q \<in> set (remove1 p (periods s))" for q
  proof -
    have q: "q \<in> set (periods s)" "q \<noteq> p" using that lwtimers_okD(1) [OF ok] by auto
    then show ?thesis
      using sch on_schedule_other [of ?s q s] f(1) [of q] f(2) by (simp add: lwtimers_on_schedule_def)
  qed
  then show ?thesis by (simp add: lwtimers_on_schedule_def f(3))
qed

section \<open>One tick, and many\<close>

lemma lwtimer_tick_step:
  assumes "lwtimers_ok s"
  obtains s' w' where "lwtimer_tick call (s, w) = (s', w')" "lwtimers_ok s'" "LWTIMER s' = LWTIMER s"
    "periods s' = periods s" "\<And>p. p \<in> set (periods s) \<Longrightarrow> advanced (LWPERIODS s p) (LWPERIODS s' p)"
    "\<And>p. p \<in> set (periods s) \<Longrightarrow> on_schedule s p \<or> period_ends s p \<Longrightarrow> on_schedule s' p"
    "lwtimers_on_schedule s \<Longrightarrow> w' = calls call (LWTIMER s) (concat (map (due s) (periods s))) w"
proof (cases "LWTIMERS s")
  case None
  then have n: "\<not> LWTIMER_ISR s" "periods s = []" using lwtimers_okD(4) [OF assms] by (simp_all add: periods_def)
  then show thesis using that [of s w] assms by (simp add: lwtimer_tick_def calls_def)
next
  case (Some ps)
  then have n: "LWTIMER_ISR s" "periods s = ps" using lwtimers_okD(4) [OF assms] by (simp_all add: periods_def)
  have d: "distinct ps" "\<forall>p \<in> set ps. period_ok s p" using lwtimers_okD(1,2) [OF assms] n by simp_all
  from isr_fold [OF d, of call w] obtain s' w' where
    f: "fold (lwtimer_period_tick call) ps (s, w) = (s', w')" "LWTIMER s' = LWTIMER s" "LWTIMERS s' = LWTIMERS s"
      "LWTIMER_ISR s' = LWTIMER_ISR s" "\<forall>q. q \<notin> set ps \<longrightarrow> LWPERIODS s' q = LWPERIODS s q"
      "\<forall>q \<in> set ps. period_ok s' q \<and> advanced (LWPERIODS s q) (LWPERIODS s' q)"
      "\<forall>q \<in> set ps. on_schedule s q \<or> period_ends s q \<longrightarrow> on_schedule s' q"
      "(\<forall>p \<in> set ps. on_schedule s p) \<longrightarrow> w' = calls call (LWTIMER s) (concat (map (due s) ps)) w"
    by blast
  have t: "lwtimer_tick call (s, w) = (s', w')"
    using f(1) n Some by (simp add: lwtimer_tick_def lwtimer_isr_internal_def)
  have pp: "periods s' = ps" using f(3) Some by (simp add: periods_def)
  have "lwtimers_ok s'"
    unfolding lwtimers_ok_def pp f(3,4)
  proof (intro conjI)
    show "\<forall>p. LP_VALID (LWPERIODS s' p) = LWTIMER_VALID \<longrightarrow> p \<in> set ps"
      using f(5) lwtimers_okD(3) [OF assms] n(2) by metis
  qed (use d(1) f(6) lwtimers_okD(4) [OF assms] in blast)+
  then show thesis using that [OF t] f n pp by (simp add: lwtimers_on_schedule_def)
qed

lemma lwtimer_reachable_ok:
  "lwtimer_reachable timely s \<Longrightarrow> lwtimers_ok s \<and> (timely \<longrightarrow> lwtimers_on_schedule s)"
proof (induction rule: lwtimer_reachable.induct)
  case (init s)
  then show ?case by (simp add: lwtimers_ok_def lwtimers_on_schedule_def periods_def)
next
  case (create s p period wait_ticks)
  then show ?case using create_ok create_on_schedule by blast
next
  case (add s t p ticks func parameter)
  then show ?case using add_ok add_on_schedule by blast
next
  case (cancel_timer s t)
  then show ?case using cancel_timer_ok [of s t] cancel_timer_on_schedule [of s t] by blast
next
  case (cancel_period s p)
  then show ?case using cancel_period_ok cancel_period_on_schedule by blast
next
  case (tick s)
  then have "lwtimers_ok s" by blast
  then obtain s' w' where "lwtimer_tick (\<lambda>_ _ w. w) (s, ()) = (s', w')" "lwtimers_ok s'" "periods s' = periods s"
    "\<And>p. p \<in> set (periods s) \<Longrightarrow> on_schedule s p \<or> period_ends s p \<Longrightarrow> on_schedule s' p"
    using lwtimer_tick_step [of s "\<lambda>_ _ w. w" "()"] by metis
  then have "lwtimers_ok s'" "lwtimers_on_schedule s \<Longrightarrow> lwtimers_on_schedule s'"
    by (simp_all add: lwtimers_on_schedule_def)
  then show ?case using tick \<open>lwtimer_tick _ _ = _\<close> by simp
qed


text \<open>Where a queue stands after \<open>n\<close> ticks.\<close>

definition phase :: "nat \<Rightarrow> lwtimer_period \<Rightarrow> lwtimer_period \<Rightarrow> bool" where
  "phase n P P' \<longleftrightarrow> TIMERS P' = TIMERS P \<and> PERIOD P' = PERIOD P \<and> unat (WAIT P') = unat (WAIT P) - n
     \<and> (PERIOD P \<noteq> 0 \<longrightarrow> unat (EXPIRY P') = (unat (EXPIRY P) + (n - unat (WAIT P))) mod unat (PERIOD P))"

lemma phase_Suc:
  assumes "phase n P P'" "advanced P' P''" "PERIOD P = 0 \<or> EXPIRY P' < PERIOD P"
  shows "phase (Suc n) P P''"
proof -
  have w: "unat (WAIT P'') = unat (WAIT P) - Suc n"
  proof (cases "WAIT P' = 0")
    case False
    then have "unat (WAIT P' - 1) = unat (WAIT P') - 1" using unat_minus_one by blast
    then show ?thesis using assms(1,2) False by (simp add: phase_def advanced_def)
  qed (use assms(1,2) in \<open>simp add: phase_def advanced_def\<close>)
  have "unat (EXPIRY P'') = (unat (EXPIRY P) + (Suc n - unat (WAIT P))) mod unat (PERIOD P)" if "PERIOD P \<noteq> 0"
  proof (cases "WAIT P' = 0")
    case False
    then have "unat (WAIT P') \<noteq> 0" by (simp only: unat_eq_zero not_False_eq_True)
    moreover have "unat (WAIT P') = unat (WAIT P) - n" using assms(1) unfolding phase_def by blast
    ultimately have "unat (WAIT P) - n \<noteq> 0" by (simp only: not_False_eq_True)
    then have z: "Suc n - unat (WAIT P) = 0" "n - unat (WAIT P) = 0" by simp_all
    have e: "EXPIRY P'' = EXPIRY P'" using assms(2) False by (simp add: advanced_def)
    have "unat (EXPIRY P') = (unat (EXPIRY P) + (n - unat (WAIT P))) mod unat (PERIOD P)"
      using assms(1) that unfolding phase_def by blast
    then show ?thesis by (simp only: e z)
  next
    case True
    then have "unat (WAIT P) \<le> n" using assms(1) by (simp add: phase_def)
    then have "(unat (EXPIRY P) + (Suc n - unat (WAIT P))) mod unat (PERIOD P) =
        Suc (unat (EXPIRY P) + (n - unat (WAIT P))) mod unat (PERIOD P)" by (simp add: Suc_diff_le)
    also have "\<dots> = (if Suc (unat (EXPIRY P')) = unat (PERIOD P) then 0 else Suc (unat (EXPIRY P')))"
      using assms(1) that by (simp add: mod_Suc phase_def)
    also have "\<dots> = unat (EXPIRY P'')"
    proof -
      have e: "unat (EXPIRY P' + 1) = Suc (unat (EXPIRY P'))" using expiry_succ assms(3) that by fastforce
      then have "EXPIRY P' + 1 = PERIOD P \<longleftrightarrow> Suc (unat (EXPIRY P')) = unat (PERIOD P)"
        by (simp only: word_unat_eq_iff)
      then show ?thesis using assms(1,2) True e by (simp add: advanced_def phase_def)
    qed
    finally show ?thesis by simp
  qed
  then show ?thesis using w assms(1,2) by (simp add: phase_def advanced_def)
qed

lemma phase_0: "PERIOD P = 0 \<or> EXPIRY P < PERIOD P \<Longrightarrow> phase 0 P P"
  by (auto simp: phase_def word_less_nat_alt)

text \<open>The timers of a queue that are due at tick \<open>k\<close> from now.\<close>

definition lwtimer_due_at :: "lwtimer_data \<Rightarrow> nat \<Rightarrow> addr \<Rightarrow> addr list" where
  "lwtimer_due_at s k p = filter (\<lambda>t. unat (WAIT (LWPERIODS s p)) \<le> k
      \<and> (unat (EXPIRY (LWPERIODS s p)) + (k - unat (WAIT (LWPERIODS s p)))) mod unat (PERIOD (LWPERIODS s p)) =
        unat (RELATIVE_TICKS (LWTIMER s t))) (TIMERS (LWPERIODS s p))"

lemma due_phase:
  assumes "period_ok s p" "phase k (LWPERIODS s p) (LWPERIODS s' p)" "LWTIMER s' = LWTIMER s"
  shows "due s' p = lwtimer_due_at s k p"
  unfolding due_def lwtimer_due_at_def
proof -
  define P where "P = LWPERIODS s p"
  have ph: "phase k P (LWPERIODS s' p)" using assms(2) by (simp add: P_def)
  have "WAIT (LWPERIODS s' p) = 0 \<longleftrightarrow> unat (WAIT P) \<le> k" using ph by (simp add: phase_def flip: unat_eq_zero)
  moreover have "RELATIVE_TICKS (LWTIMER s t) = EXPIRY (LWPERIODS s' p) \<longleftrightarrow>
      (unat (EXPIRY P) + (k - unat (WAIT P))) mod unat (PERIOD P) = unat (RELATIVE_TICKS (LWTIMER s t))"
    if "t \<in> set (TIMERS P)" for t
  proof -
    have "PERIOD P \<noteq> 0" using assms(1) that by (auto simp: period_ok_def P_def)
    then show ?thesis using ph by (auto simp: phase_def word_unat_eq_iff)
  qed
  ultimately show "filter (\<lambda>t. WAIT (LWPERIODS s' p) = 0 \<and> RELATIVE_TICKS (LWTIMER s' t) = EXPIRY (LWPERIODS s' p))
      (TIMERS (LWPERIODS s' p)) = filter (\<lambda>t. unat (WAIT (LWPERIODS s p)) \<le> k
      \<and> (unat (EXPIRY (LWPERIODS s p)) + (k - unat (WAIT (LWPERIODS s p)))) mod unat (PERIOD (LWPERIODS s p)) =
        unat (RELATIVE_TICKS (LWTIMER s t))) (TIMERS (LWPERIODS s p))"
    using ph assms(3) by (simp add: phase_def cong: filter_cong flip: P_def)
qed

lemma lwtimer_ticks:
  assumes ok: "lwtimers_ok s"
  shows "\<exists>s' w'. (lwtimer_tick call ^^ n) (s, w) = (s', w') \<and> lwtimers_ok s' \<and> LWTIMER s' = LWTIMER s \<and> periods s' = periods s
    \<and> (\<forall>p \<in> set (periods s). phase n (LWPERIODS s p) (LWPERIODS s' p))
    \<and> (lwtimers_on_schedule s \<longrightarrow> lwtimers_on_schedule s'
        \<and> w' = calls call (LWTIMER s) (concat (map (\<lambda>k. concat (map (lwtimer_due_at s k) (periods s))) [0..<n])) w)"
proof (induction n)
  case 0
  have "phase 0 (LWPERIODS s p) (LWPERIODS s p)" if "p \<in> set (periods s)" for p
    using lwtimers_okD(2) [OF ok that] by (intro phase_0) (simp add: period_ok_def)
  then show ?case using ok by (simp add: calls_def)
next
  case (Suc n)
  then obtain s1 w1 where 1: "(lwtimer_tick call ^^ n) (s, w) = (s1, w1)" "lwtimers_ok s1" "LWTIMER s1 = LWTIMER s"
    "periods s1 = periods s" "\<forall>p \<in> set (periods s). phase n (LWPERIODS s p) (LWPERIODS s1 p)"
    "lwtimers_on_schedule s \<longrightarrow> lwtimers_on_schedule s1
        \<and> w1 = calls call (LWTIMER s) (concat (map (\<lambda>k. concat (map (lwtimer_due_at s k) (periods s))) [0..<n])) w"
    by blast
  obtain s2 w2 where 2: "lwtimer_tick call (s1, w1) = (s2, w2)" "lwtimers_ok s2" "LWTIMER s2 = LWTIMER s1"
    "periods s2 = periods s1" "\<And>p. p \<in> set (periods s1) \<Longrightarrow> advanced (LWPERIODS s1 p) (LWPERIODS s2 p)"
    "\<And>p. p \<in> set (periods s1) \<Longrightarrow> on_schedule s1 p \<or> period_ends s1 p \<Longrightarrow> on_schedule s2 p"
    "lwtimers_on_schedule s1 \<Longrightarrow> w2 = calls call (LWTIMER s1) (concat (map (due s1) (periods s1))) w1"
    by (rule lwtimer_tick_step [OF 1(2), of call w1]) blast
  have dues: "map (due s1) (periods s) = map (lwtimer_due_at s n) (periods s)"
    using 1(3,5) due_phase lwtimers_okD(2) [OF ok] by simp
  show ?case
  proof (intro exI conjI)
    show "(lwtimer_tick call ^^ Suc n) (s, w) = (s2, w2)" using 1(1) 2(1) by simp
    show "LWTIMER s2 = LWTIMER s" "periods s2 = periods s" using 1(3,4) 2(3,4) by simp_all
    show "\<forall>p \<in> set (periods s). phase (Suc n) (LWPERIODS s p) (LWPERIODS s2 p)"
    proof
      fix p
      assume p: "p \<in> set (periods s)"
      then have ph: "phase n (LWPERIODS s p) (LWPERIODS s1 p)" using 1(5) by blast
      moreover have "PERIOD (LWPERIODS s p) = 0 \<or> EXPIRY (LWPERIODS s1 p) < PERIOD (LWPERIODS s p)"
        using lwtimers_okD(2) [OF 1(2), of p] p 1(4) ph by (auto simp: period_ok_def phase_def)
      ultimately show "phase (Suc n) (LWPERIODS s p) (LWPERIODS s2 p)" using phase_Suc 2(5) p 1(4) by metis
    qed
    show "lwtimers_on_schedule s \<longrightarrow> lwtimers_on_schedule s2
        \<and> w2 = calls call (LWTIMER s) (concat (map (\<lambda>k. concat (map (lwtimer_due_at s k) (periods s))) [0..<Suc n])) w"
    proof
      assume a: "lwtimers_on_schedule s"
      then have "lwtimers_on_schedule s2" using 1(6) 2(4,6) by (simp add: lwtimers_on_schedule_def)
      moreover have "w2 = calls call (LWTIMER s) (concat (map (lwtimer_due_at s n) (periods s))) w1"
        using 1(3,4,6) 2(7) a dues by simp
      ultimately show "lwtimers_on_schedule s2
        \<and> w2 = calls call (LWTIMER s) (concat (map (\<lambda>k. concat (map (lwtimer_due_at s k) (periods s))) [0..<Suc n])) w"
        using 1(6) a by simp
    qed
  qed (use 2(2) in simp)
qed


text \<open>A period that ends puts its queue back on schedule.\<close>

lemma on_schedule_empty: "TIMERS (LWPERIODS s p) = [] \<Longrightarrow> on_schedule s p"
  by (simp add: on_schedule_def ring_after_def)

lemma period_ends_phase:
  assumes "phase m (LWPERIODS s p) (LWPERIODS s' p)" "PERIOD (LWPERIODS s p) \<noteq> 0"
    and "EXPIRY (LWPERIODS s p) < PERIOD (LWPERIODS s p)"
    and "Suc m = unat (WAIT (LWPERIODS s p)) + (unat (PERIOD (LWPERIODS s p)) - unat (EXPIRY (LWPERIODS s p)))"
  shows "period_ends s' p"
proof -
  define P where "P = LWPERIODS s p"
  define P' where "P' = LWPERIODS s' p"
  have lt: "unat (EXPIRY P) < unat (PERIOD P)" using assms(3) by (simp add: word_less_nat_alt P_def)
  then have m: "m - unat (WAIT P) = unat (PERIOD P) - 1 - unat (EXPIRY P)" "unat (WAIT P) \<le> m"
    using assms(4) by (simp_all add: P_def)
  have ph: "PERIOD P' = PERIOD P" "unat (WAIT P') = unat (WAIT P) - m"
    "unat (EXPIRY P') = (unat (EXPIRY P) + (m - unat (WAIT P))) mod unat (PERIOD P)"
    using assms(1,2) unfolding phase_def P_def P'_def by blast+
  have "unat (EXPIRY P') = unat (PERIOD P) - 1" using ph(3) m(1) lt by simp
  then have "unat (EXPIRY P') < unat (PERIOD P)" and e: "Suc (unat (EXPIRY P')) = unat (PERIOD P)"
    using lt by simp_all
  then have "EXPIRY P' < PERIOD P" by (simp only: word_less_nat_alt)
  from expiry_succ [OF this] have "unat (EXPIRY P' + 1) = unat (PERIOD P)" using e by simp
  then have "EXPIRY P' + 1 = PERIOD P" by (simp only: word_unat_eq_iff)
  moreover have "unat (WAIT P') = 0" using ph(2) m(2) by simp
  ultimately show ?thesis using ph(1) by (simp add: period_ends_def unat_eq_zero flip: P'_def)
qed

lemma lwtimer_recovers_period:
  assumes ok: "lwtimers_ok s" and p: "p \<in> set (periods s)"
    and N: "unat (WAIT (LWPERIODS s p)) + (unat (PERIOD (LWPERIODS s p)) - unat (EXPIRY (LWPERIODS s p))) \<le> N"
  shows "on_schedule (fst ((lwtimer_tick call ^^ N) (s, w))) p"
proof -
  define P where "P = LWPERIODS s p"
  define st where "st = (\<lambda>n. fst ((lwtimer_tick call ^^ n) (s, w)))"
  have st: "lwtimers_ok (st n)" "periods (st n) = periods s" "phase n P (LWPERIODS (st n) p)" for n
    using lwtimer_ticks [OF ok, where call = call and n = n and w = w] p by (auto simp: st_def P_def)
  have step: "on_schedule (st (Suc n)) p" if "on_schedule (st n) p \<or> period_ends (st n) p" for n
    using lwtimer_tick_step [OF st(1) [of n], of call "snd ((lwtimer_tick call ^^ n) (s, w))"] that p st(2) [of n]
    unfolding st_def funpow.simps comp_def by (metis prod.collapse fst_conv)
  have pok: "period_ok s p" by (rule lwtimers_okD(2) [OF ok p])
  have "on_schedule (st N) p"
  proof (cases "PERIOD P = 0")
    case True
    then have "TIMERS P = []" using pok by (cases "TIMERS P") (auto simp: period_ok_def P_def)
    then show ?thesis using st(3) [of N] by (intro on_schedule_empty) (simp add: phase_def)
  next
    case False
    then have e: "EXPIRY P < PERIOD P" using pok by (simp add: period_ok_def P_def)
    then have "unat (EXPIRY P) < unat (PERIOD P)" by (simp only: word_less_nat_alt)
    then obtain m where m: "Suc m = unat (WAIT P) + (unat (PERIOD P) - unat (EXPIRY P))"
      by (metis add_gr_0 gr0_conv_Suc zero_less_diff)
    have "period_ends (st m) p"
      using period_ends_phase [of m s p "st m"] st(3) [of m] False e m by (simp add: P_def)
    then have "on_schedule (st (Suc m + j)) p" for j
      by (induction j) (use step in \<open>simp_all\<close>)
    from this [of "N - Suc m"] show ?thesis using N m by (simp add: P_def)
  qed
  then show ?thesis by (simp add: st_def)
qed

section \<open>A timer whose offset has passed\<close>

lemma lwtimer_insert_early:
  assumes "\<exists>q \<in> set pre. rel q \<ge> ticks"
  shows "lwtimer_insert rel ticks t (pre @ zs) = lwtimer_insert rel ticks t pre @ zs
    \<and> last (lwtimer_insert rel ticks t pre) = last pre"
  using assms
proof (induction pre)
  case (Cons a pre)
  show ?case
  proof (cases "rel a \<ge> ticks")
    case False
    then have "pre \<noteq> []" "lwtimer_insert rel ticks t pre \<noteq> []"
      using Cons.prems by (auto, metis lwtimer_insert.elims list.distinct(1))
    then show ?thesis using Cons False by auto
  qed simp
qed simp

lemma calls_cong: "(\<And>u. u \<in> set ts \<Longrightarrow> T u = T' u) \<Longrightarrow> calls call T ts w = calls call T' ts w"
  unfolding calls_def by (induction ts arbitrary: w) auto

lemma period_tick_calls:
  assumes "WAIT (LWPERIODS s p) = 0"
  shows "snd (lwtimer_period_tick call p (s, w)) = calls call (LWTIMER s)
    (takeWhile (\<lambda>t. RELATIVE_TICKS (LWTIMER s t) \<le> EXPIRY (LWPERIODS s p))
      (ring_after (LWTIMER_HEAD p) (TIMERS (LWPERIODS s p)) (TIMER_PTR (LWPERIODS s p)))) w"
  using assms by (simp add: lwtimer_period_tick_def Let_def lwtimer_run_takeWhile)

lemma late_timer:
  fixes s p t ticks func parameter
  defines "s' \<equiv> snd (lwtimer_add_timer_to_queue p t ticks func parameter s)"
  assumes ok: "lwtimers_ok s" and sch: "on_schedule s p" and p: "p \<in> set (periods s)"
    and now: "WAIT (LWPERIODS s p) = 0" "ticks < EXPIRY (LWPERIODS s p)" "ticks < PERIOD (LWPERIODS s p)"
    and t: "\<forall>q \<in> set (periods s). t \<notin> set (TIMERS (LWPERIODS s q))" "t \<noteq> LWTIMER_HEAD p"
  shows "snd (lwtimer_period_tick call p (s', w)) = calls call (LWTIMER s) (due s p)
    (if \<exists>q \<in> set (TIMERS (LWPERIODS s p)). ticks \<le> RELATIVE_TICKS (LWTIMER s q)
        \<and> RELATIVE_TICKS (LWTIMER s q) < EXPIRY (LWPERIODS s p) then w else call func parameter w)"
proof -
  let ?rel = "\<lambda>q. RELATIVE_TICKS (LWTIMER s q)"
  let ?e = "EXPIRY (LWPERIODS s p)"
  have pok: "period_ok s p" by (rule lwtimers_okD(2) [OF ok p])
  have tp: "t \<notin> set (TIMERS (LWPERIODS s p))" using t(1) p by blast
  have val: "LP_VALID (LWPERIODS s p) = LWTIMER_VALID" using pok by (simp add: period_ok_def)
  note f = lwtimer_add_fields [OF val now(3) tp, of func parameter, folded s'_def]
  have pok': "period_ok s' p"
    using lwtimers_okD(2) [OF add_ok [OF ok t, of ticks func parameter], of p] p by (simp add: f(4) flip: s'_def)
  obtain pre zs where z: "TIMERS (LWPERIODS s p) = pre @ zs" "ring_pos (LWTIMER_HEAD p) pre (TIMER_PTR (LWPERIODS s p))"
    "\<forall>t \<in> set pre. ?rel t < ?e" "\<forall>t \<in> set zs. ?e \<le> ?rel t"
    by (rule on_schedule_split [OF pok sch])
  have tn: "t \<notin> set pre" "t \<notin> set zs" using tp z(1) by auto
  have rel': "RELATIVE_TICKS (LWTIMER s' u) = (if u = t then ticks else ?rel u)" for u by (simp add: f(2))
  have due: "due s p = filter (\<lambda>u. ?rel u \<le> ?e) zs"
  proof -
    have "filter (\<lambda>u. ?rel u = ?e) pre = []" using z(3) by (auto simp: filter_empty_conv)
    moreover have "filter (\<lambda>u. ?rel u = ?e) zs = filter (\<lambda>u. ?rel u \<le> ?e) zs"
      using z(4) by (intro filter_cong) auto
    ultimately show ?thesis by (simp add: due_def now(1) z(1))
  qed
  have same: "calls call (LWTIMER s') (due s p) v = calls call (LWTIMER s) (due s p) v" for v
    using tn by (intro calls_cong) (auto simp: due f(2))
  have "sorted (map ?rel zs)" using pok z(1) by (simp add: period_ok_def sorted_append)
  then have tw: "takeWhile (\<lambda>u. ?rel u \<le> ?e) zs = due s p" by (simp only: due takeWhile_sorted(1))
  have tw': "takeWhile (\<lambda>u. RELATIVE_TICKS (LWTIMER s' u) \<le> ?e) zs = due s p"
  proof -
    have "takeWhile (\<lambda>u. RELATIVE_TICKS (LWTIMER s' u) \<le> ?e) zs = takeWhile (\<lambda>u. ?rel u \<le> ?e) zs"
      using tn by (intro takeWhile_cong) (auto simp: rel')
    then show ?thesis using tw by simp
  qed
  have tick: "snd (lwtimer_period_tick call p (s', w)) = calls call (LWTIMER s')
    (takeWhile (\<lambda>u. RELATIVE_TICKS (LWTIMER s' u) \<le> ?e)
      (ring_after (LWTIMER_HEAD p) (lwtimer_insert ?rel ticks t (pre @ zs)) (TIMER_PTR (LWPERIODS s p)))) w"
    by (subst period_tick_calls) (simp_all add: f(1) now(1) z(1))
  have ring: "distinct (lwtimer_insert ?rel ticks t (pre @ zs))" "LWTIMER_HEAD p \<notin> set (lwtimer_insert ?rel ticks t (pre @ zs))"
    using pok' by (simp_all add: period_ok_def f(1) z(1))
  show ?thesis
  proof (cases "\<exists>q \<in> set pre. ?rel q \<ge> ticks")
    case True
    then have i: "lwtimer_insert ?rel ticks t (pre @ zs) = lwtimer_insert ?rel ticks t pre @ zs"
      "last (lwtimer_insert ?rel ticks t pre) = last pre" by (simp_all add: lwtimer_insert_early)
    have "pre \<noteq> []" "lwtimer_insert ?rel ticks t pre \<noteq> []"
      using True set_lwtimer_insert [of ?rel ticks t pre] by (auto simp del: set_lwtimer_insert)
    then have "ring_pos (LWTIMER_HEAD p) (lwtimer_insert ?rel ticks t pre) (TIMER_PTR (LWPERIODS s p))"
      using z(2) i(2) by (simp add: ring_pos_def)
    then have "snd (lwtimer_period_tick call p (s', w)) = calls call (LWTIMER s') (due s p) w"
      using tick ring ring_after_append tw' unfolding i(1) by metis
    moreover have "\<exists>q \<in> set (TIMERS (LWPERIODS s p)). ticks \<le> ?rel q \<and> ?rel q < ?e" using True z(1,3) by auto
    ultimately show ?thesis using same by simp
  next
    case False
    then have pre: "\<forall>q \<in> set pre. ?rel q < ticks" by auto
    have "lwtimer_insert ?rel ticks t zs = t # zs" using z(4) now(2) by (cases zs) auto
    then have i: "lwtimer_insert ?rel ticks t (pre @ zs) = pre @ t # zs"
      using lwtimer_insert_append [OF pre] by simp
    have "ring_after (LWTIMER_HEAD p) (pre @ t # zs) (TIMER_PTR (LWPERIODS s p)) = t # zs"
      using ring_after_append ring z(2) unfolding i by metis
    then have "snd (lwtimer_period_tick call p (s', w)) = calls call (LWTIMER s') (t # due s p) w"
      using tick tw' now(2) by (simp add: i rel' less_imp_le)
    also have "\<dots> = calls call (LWTIMER s) (due s p) (call func parameter w)"
      using same by (simp add: calls_def f(2))
    moreover have "\<not> (\<exists>q \<in> set (TIMERS (LWPERIODS s p)). ticks \<le> ?rel q \<and> ?rel q < ?e)"
      using pre z(1,4) by (auto simp: not_le dest: leD)
    ultimately show ?thesis by (simp only: if_False)
  qed
qed


section \<open>Properties\<close>

definition lwtimer_init :: lwtimer_data where
  "lwtimer_init = \<lparr>LWTIMERS = None, LWTIMER_ISR = False,
     LWPERIODS = \<lambda>_. \<lparr>PERIOD = 0, EXPIRY = 0, WAIT = 0, TIMERS = [], TIMER_PTR = 0, LP_VALID = 0\<rparr>,
     LWTIMER = \<lambda>_. \<lparr>RELATIVE_TICKS = 0, LT_VALID = 0, TIMER_FUNCTION = 0, LT_PARAMETER = 0, PERIOD_PTR = 0\<rparr>\<rparr>"

text \<open>A queue of period 3 that waits one tick, with timers at the offsets 2 and 0.\<close>

definition lwtimer_example :: lwtimer_data where
  "lwtimer_example = snd (lwtimer_add_timer_to_queue 0x100 0x300 0 9 20 (snd (lwtimer_add_timer_to_queue 0x100 0x200 2 8 10
     (snd (lwtimer_create_periodic_queue 0x100 3 1 lwtimer_init)))))"

lemma lwtimer_example_reachable: "lwtimer_reachable timely lwtimer_example"
  unfolding lwtimer_example_def
  by (intro lwtimer_reachable.intros)
    (simp_all add: lwtimer_init_def lwtimer_create_periodic_queue_def lwtimer_add_timer_to_queue_def
      Let_def periods_def LWTIMER_HEAD_def upd_period_def upd_lwtimer_def)

text \<open>The same after two ticks.\<close>

definition lwtimer_example2 :: lwtimer_data where
  "lwtimer_example2 = fst (lwtimer_tick (\<lambda>_ _ w. w) (fst (lwtimer_tick (\<lambda>_ _ w. w) (lwtimer_example, ())), ()))"

lemma lwtimer_example2_reachable: "lwtimer_reachable timely lwtimer_example2"
  unfolding lwtimer_example2_def by (intro lwtimer_reachable.tick lwtimer_example_reachable)

lemma lwtimer_example_eval:
  "periods lwtimer_example = [0x100]"
  "LWPERIODS lwtimer_example 0x100 = \<lparr>PERIOD = 3, EXPIRY = 0, WAIT = 1, TIMERS = [0x300, 0x200], TIMER_PTR = 0x114,
     LP_VALID = LWTIMER_VALID\<rparr>"
  "LWTIMER lwtimer_example 0x300 = \<lparr>RELATIVE_TICKS = 0, LT_VALID = LWTIMER_VALID, TIMER_FUNCTION = 9, LT_PARAMETER = 20,
     PERIOD_PTR = 0x100\<rparr>"
  "LWTIMER lwtimer_example 0x200 = \<lparr>RELATIVE_TICKS = 2, LT_VALID = LWTIMER_VALID, TIMER_FUNCTION = 8, LT_PARAMETER = 10,
     PERIOD_PTR = 0x100\<rparr>"
  by code_simp+

lemma lwtimer_example2_eval:
  "periods lwtimer_example2 = [0x100]"
  "LWPERIODS lwtimer_example2 0x100 = \<lparr>PERIOD = 3, EXPIRY = 1, WAIT = 0, TIMERS = [0x300, 0x200], TIMER_PTR = 0x300,
     LP_VALID = LWTIMER_VALID\<rparr>"
  by code_simp+

text \<open>
  C27. The invariant of lightweight timers: in every state the calls can reach, the queues in use are
  the valid ones, each once, and the timers of a queue are different valid timers that belong to it,
  in the order of their offsets, which are below the period; if no timer is ever added with an
  offset that has passed, every queue is on schedule; and \<^verbatim>\<open>_lwtimer_test\<close> finds no error.
\<close>

theorem lwtimer_queues_ok:
  "lwtimer_reachable timely s \<Longrightarrow> lwtimers_ok s \<and> (timely \<longrightarrow> lwtimers_on_schedule s)
    \<and> lwtimer_test s = (MQX_OK, 0, 0, False)"
  using lwtimer_reachable_ok lwtimer_test_passes by blast

theorem lwtimer_queues_ok_witness:
  "lwtimers_ok lwtimer_example2 \<and> lwtimers_on_schedule lwtimer_example2 \<and> lwtimer_test lwtimer_example2 = (MQX_OK, 0, 0, False)"
  using lwtimer_queues_ok [OF lwtimer_example2_reachable [of True]] by simp

text \<open>
  C24. Lightweight timers fire on schedule: if no timer is added with an offset that has passed, the next
  \<open>n\<close> ticks call exactly these functions in this order: at each tick, queue by queue, those of
  the timers whose offset is the time in the period of their queue, after its initial wait.
\<close>

theorem lwtimer_fires_on_schedule:
  assumes "lwtimer_reachable True s"
  shows "snd ((lwtimer_tick call ^^ n) (s, w)) =
    calls call (LWTIMER s) (concat (map (\<lambda>k. concat (map (lwtimer_due_at s k) (periods s))) [0..<n])) w"
  using lwtimer_ticks [of s, where call = call and n = n and w = w] lwtimer_reachable_ok [OF assms] by auto

theorem lwtimer_fires_on_schedule_witness:
  "lwtimer_reachable True lwtimer_example
    \<and> snd ((lwtimer_tick (\<lambda>f x w. w @ [(f, x)]) ^^ 7) (lwtimer_example, [])) = [(9, 20), (8, 10), (9, 20), (8, 10)]"
  unfolding lwtimer_fires_on_schedule [OF lwtimer_example_reachable]
  by (simp add: lwtimer_example_reachable lwtimer_example_eval lwtimer_due_at_def calls_def upt_rec)


definition lwtimer_example3 :: lwtimer_data where
  "lwtimer_example3 = ((\<lambda>s. fst (lwtimer_tick (\<lambda>_ _ w. w) (s, ()))) ^^ 2)
     (snd (lwtimer_create_periodic_queue 0x100 3 0 lwtimer_init))"

lemma lwtimer_example3_reachable: "lwtimer_reachable timely lwtimer_example3"
  unfolding lwtimer_example3_def numeral_2_eq_2 funpow.simps comp_def id_def
  by (intro lwtimer_reachable.intros) (simp_all add: lwtimer_init_def periods_def)

lemma lwtimer_example3_eval:
  "periods lwtimer_example3 = [0x100]"
  "LWPERIODS lwtimer_example3 0x100 = \<lparr>PERIOD = 3, EXPIRY = 2, WAIT = 0, TIMERS = [], TIMER_PTR = 0x114,
     LP_VALID = LWTIMER_VALID\<rparr>"
  by code_simp+


text \<open>
  C25. Lightweight timers recover: whatever timers were added late, once every queue has been through
  the end of its wait and of its period, every later tick calls exactly the timers that are due.
\<close>

theorem lwtimer_schedule_recovers:
  assumes "lwtimer_reachable timely s"
    and "\<forall>p \<in> set (periods s). unat (WAIT (LWPERIODS s p))
      + (unat (PERIOD (LWPERIODS s p)) - unat (EXPIRY (LWPERIODS s p))) \<le> N"
    and "(lwtimer_tick call ^^ N) (s, w) = (s', w')"
  shows "snd ((lwtimer_tick call ^^ n) (s', w')) =
    calls call (LWTIMER s') (concat (map (\<lambda>k. concat (map (lwtimer_due_at s' k) (periods s'))) [0..<n])) w'"
proof -
  have ok: "lwtimers_ok s" using lwtimer_reachable_ok [OF assms(1)] by blast
  then have s': "lwtimers_ok s'" "periods s' = periods s"
    using lwtimer_ticks [of s, where call = call and n = N and w = w] assms(3) by auto
  have "lwtimers_on_schedule s'"
    using lwtimer_recovers_period [OF ok, where call = call and N = N and w = w] assms(2,3)
    by (simp add: lwtimers_on_schedule_def s'(2))
  then show ?thesis using lwtimer_ticks [OF s'(1), where call = call and n = n and w = w'] by auto
qed

text \<open>A timer that was added late.\<close>

definition lwtimer_example4 :: lwtimer_data where
  "lwtimer_example4 = snd (lwtimer_add_timer_to_queue 0x100 0x200 1 8 10 lwtimer_example3)"

lemma lwtimer_example4_reachable: "lwtimer_reachable False lwtimer_example4"
  unfolding lwtimer_example4_def
  by (intro lwtimer_reachable.add lwtimer_example3_reachable) (simp_all add: lwtimer_example3_eval LWTIMER_HEAD_def)

lemma lwtimer_example4_eval:
  "periods lwtimer_example4 = [0x100]" "PERIOD (LWPERIODS lwtimer_example4 0x100) = 3"
  "EXPIRY (LWPERIODS lwtimer_example4 0x100) = 2" "WAIT (LWPERIODS lwtimer_example4 0x100) = 0"
  by code_simp+

theorem lwtimer_schedule_recovers_witness:
  "lwtimer_reachable False lwtimer_example4
    \<and> snd ((lwtimer_tick (\<lambda>f x w. w @ [(f, x)]) ^^ 6)
        ((lwtimer_tick (\<lambda>f x w. w @ [(f, x)]) ^^ 1) (lwtimer_example4, []))) = [(8, 10), (8, 10), (8, 10)]"
proof -
  let ?c = "\<lambda>f x w. w @ [(f :: addr, x :: addr)]"
  obtain s' w' where s: "(lwtimer_tick ?c ^^ 1) (lwtimer_example4, []) = (s', w')" by fastforce
  have "w' = snd ((lwtimer_tick ?c ^^ 1) (lwtimer_example4, []))" "s' = fst ((lwtimer_tick ?c ^^ 1) (lwtimer_example4, []))"
    unfolding s by (rule refl snd_conv [symmetric] fst_conv [symmetric])+
  then have e: "w' = [(8, 10)]" "periods s' = [0x100]" "LWTIMER s' 0x200 = \<lparr>RELATIVE_TICKS = 1, LT_VALID = LWTIMER_VALID,
      TIMER_FUNCTION = 8, LT_PARAMETER = 10, PERIOD_PTR = 0x100\<rparr>"
    "LWPERIODS s' 0x100 = \<lparr>PERIOD = 3, EXPIRY = 0, WAIT = 0, TIMERS = [0x200], TIMER_PTR = 0x114, LP_VALID = LWTIMER_VALID\<rparr>"
    by (simp_all only:) code_simp+
  have "snd ((lwtimer_tick ?c ^^ 6) (s', w')) = [(8, 10), (8, 10), (8, 10)]"
    by (subst lwtimer_schedule_recovers [OF lwtimer_example4_reachable _ s])
      (simp_all add: lwtimer_example4_eval e lwtimer_due_at_def calls_def upt_rec)
  then show ?thesis using s lwtimer_example4_reachable by simp
qed

end
