(* ===== verification/Partition.thy ===== *)
theory Partition
  imports LwMemPool
begin

text \<open>
  Partitions: blocks of one size, \<^verbatim>\<open>src/mqx/source/kernel/partition.c\<close> with \<^verbatim>\<open>partition_prv.h\<close>. The
  headers of the blocks are words of the memory of theory \<open>LwMem\<close>: \<open>LINK\<close> at a block, \<open>CHECKSUM\<close>
  and \<open>TASK_ID\<close> behind it; the free list goes through \<open>LINK\<close>. The descriptors of a partition and of its areas
  are records at their addresses, the queue of all partitions is a list; its \<open>None\<close> is the
  component that is not created. The memory that dynamic partitions grow into comes from the
  lightweight memory manager, the allocator of the small configurations. Creating the component
  takes a semaphore of the kernel; here it is free.
\<close>

section \<open>State\<close>

record partarea =
  NEXT_POOL_PTR :: addr
  PA_VALID :: u32
  NUMBER_OF_BLOCKS :: u32
  FIRST_IBLOCK_PTR :: addr

record partpool =
  BLOCK_SIZE :: u32
  AVAILABLE :: u32
  FREE_LIST_PTR :: addr
  TOTAL_BLOCKS :: u32
  MAX_BLOCKS_USED :: u32
  GROW_BLOCKS :: u32
  MAXIMUM_BLOCKS :: u32
  PARTITION_TYPE :: u32
  TEST_FREE_PTR :: addr

record parts =
  LW :: lwmem
  PARTPOOLS :: "addr \<Rightarrow> partpool"
  AREAS :: "addr \<Rightarrow> partarea"
  PARTITIONS :: "addr list option"

abbreviation (input) PARTITION_VALID :: u32 where "PARTITION_VALID \<equiv> 0x70617274"
abbreviation (input) PARTITION_DYNAMIC :: u32 where "PARTITION_DYNAMIC \<equiv> 2"
abbreviation (input) PARTITION_STATIC :: u32 where "PARTITION_STATIC \<equiv> 4"
abbreviation (input) sizeof_IBLOCK :: u32 where "sizeof_IBLOCK \<equiv> 12"
abbreviation (input) sizeof_PARTPOOL :: u32 where "sizeof_PARTPOOL \<equiv> 60"
abbreviation (input) sizeof_PARTPOOL_BLOCK :: u32 where "sizeof_PARTPOOL_BLOCK \<equiv> 16"

text \<open>The field \<open>POOL\<close> of a partition is its first area.\<close>

definition PPOOL :: "addr \<Rightarrow> addr" where "PPOOL p = p + 44"

definition upd_partpool :: "addr \<Rightarrow> (partpool \<Rightarrow> partpool) \<Rightarrow> parts \<Rightarrow> parts" where
  "upd_partpool p f s = s\<lparr>PARTPOOLS := (PARTPOOLS s)(p := f (PARTPOOLS s p))\<rparr>"

definition upd_area :: "addr \<Rightarrow> (partarea \<Rightarrow> partarea) \<Rightarrow> parts \<Rightarrow> parts" where
  "upd_area a f s = s\<lparr>AREAS := (AREAS s)(a := f (AREAS s a))\<rparr>"

definition on_lw :: "(lwmem \<Rightarrow> lwmem) \<Rightarrow> parts \<Rightarrow> parts" where
  "on_lw f s = s\<lparr>LW := f (LW s)\<rparr>"

definition part_error :: "mqx_code \<Rightarrow> parts \<Rightarrow> parts" where
  "part_error c = on_lw (task_set_error c)"

text \<open>The headers of blocks.\<close>

definition LINK :: "parts \<Rightarrow> addr \<Rightarrow> u32" where "LINK s b = MEM (LW s) b"
definition CHECKSUM :: "parts \<Rightarrow> addr \<Rightarrow> u32" where "CHECKSUM s b = MEM (LW s) (b + 4)"
definition TASK_ID :: "parts \<Rightarrow> addr \<Rightarrow> u32" where "TASK_ID s b = MEM (LW s) (b + 8)"

definition set_LINK :: "addr \<Rightarrow> u32 \<Rightarrow> parts \<Rightarrow> parts" where "set_LINK b v = on_lw (wr b v)"
definition set_TASK_ID :: "addr \<Rightarrow> u32 \<Rightarrow> parts \<Rightarrow> parts" where "set_TASK_ID b v = on_lw (wr (b + 8) v)"

definition CALC_PARTITION_CHECKSUM :: "addr \<Rightarrow> parts \<Rightarrow> parts" where
  "CALC_PARTITION_CHECKSUM b s = on_lw (wr (b + 4) (LINK s b + TASK_ID s b)) s"

definition VALID_PARTITION_CHECKSUM :: "addr \<Rightarrow> parts \<Rightarrow> bool" where
  "VALID_PARTITION_CHECKSUM b s \<longleftrightarrow> CHECKSUM s b = LINK s b + TASK_ID s b"

definition pvalid :: "addr \<Rightarrow> parts \<Rightarrow> bool" where
  "pvalid p s \<longleftrightarrow> PA_VALID (AREAS s (PPOOL p)) = PARTITION_VALID"

section \<open>Blocks of an area\<close>

text \<open>One block that becomes the head of the free list, as the loops do.\<close>

definition link_block :: "addr \<Rightarrow> addr \<Rightarrow> parts \<Rightarrow> parts" where
  "link_block p b s =
     (let s = set_LINK b (FREE_LIST_PTR (PARTPOOLS s p)) s;
          s = CALC_PARTITION_CHECKSUM b s
      in upd_partpool p (\<lambda>P. P\<lparr>FREE_LIST_PTR := b\<rparr>) s)"

fun create_blocks :: "addr \<Rightarrow> u32 \<Rightarrow> nat \<Rightarrow> addr \<Rightarrow> parts \<Rightarrow> parts" where
  "create_blocks p bs 0 b s = s"
| "create_blocks p bs (Suc n) b s = create_blocks p bs n (b + bs) (link_block p b s)"

fun extend_blocks :: "addr \<Rightarrow> nat \<Rightarrow> addr \<Rightarrow> parts \<Rightarrow> parts" where
  "extend_blocks p 0 b s = s"
| "extend_blocks p (Suc n) b s =
     (let s = upd_partpool p (\<lambda>P. P\<lparr>AVAILABLE := AVAILABLE P + 1\<rparr>) (link_block p b s)
      in extend_blocks p n (b + BLOCK_SIZE (PARTPOOLS s p)) s)"

definition partition_extend_internal :: "addr \<Rightarrow> addr \<Rightarrow> u32 \<Rightarrow> parts \<Rightarrow> parts" where
  "partition_extend_internal p a number_of_blocks s =
     (let s = upd_area a (\<lambda>A. A\<lparr>PA_VALID := PARTITION_VALID, NUMBER_OF_BLOCKS := number_of_blocks\<rparr>) s;
          b = ALIGN_ADDR_TO_HIGHER_MEM (a + sizeof_PARTPOOL_BLOCK);
          s = upd_area a (\<lambda>A. A\<lparr>FIRST_IBLOCK_PTR := b\<rparr>) s;
          s = extend_blocks p (unat number_of_blocks) b s;
          s = upd_area a (\<lambda>A. A\<lparr>NEXT_POOL_PTR := NEXT_POOL_PTR (AREAS s (PPOOL p))\<rparr>) s
      in upd_area (PPOOL p) (\<lambda>A. A\<lparr>NEXT_POOL_PTR := a\<rparr>) s)"

section \<open>Allocation\<close>

text \<open>The attempt to grow a dynamic partition.\<close>

definition partition_grow :: "addr \<Rightarrow> parts \<Rightarrow> parts option" where
  "partition_grow p s =
     (let P = PARTPOOLS s p
      in if PARTITION_TYPE P = PARTITION_DYNAMIC \<and> GROW_BLOCKS P \<noteq> 0
           \<and> (MAXIMUM_BLOCKS P = 0 \<or> TOTAL_BLOCKS P < MAXIMUM_BLOCKS P)
         then
           (let n = (if MAXIMUM_BLOCKS P \<noteq> 0 \<and> GROW_BLOCKS P > MAXIMUM_BLOCKS P - TOTAL_BLOCKS P
                     then MAXIMUM_BLOCKS P - TOTAL_BLOCKS P else GROW_BLOCKS P);
                s = upd_partpool p (\<lambda>P. P\<lparr>TOTAL_BLOCKS := TOTAL_BLOCKS P + n\<rparr>) s
            in case lwmem_alloc_system (sizeof_PARTPOOL_BLOCK + PSP_MEMORY_ALIGNMENT + BLOCK_SIZE P * n) (LW s) of
                 None \<Rightarrow> None
               | Some (a, lw) \<Rightarrow>
                   (let s = s\<lparr>LW := lw\<rparr>
                    in Some (if a \<noteq> NULL
                         then partition_extend_internal p a n (on_lw (\<lambda>lw. snd (lwmem_set_type a 8 lw)) s)
                         else upd_partpool p (\<lambda>P. P\<lparr>TOTAL_BLOCKS := TOTAL_BLOCKS P - n\<rparr>) s)))
         else Some s)"

text \<open>Taking the head of the free list for the task \<open>td\<close>.\<close>

definition partition_take :: "addr \<Rightarrow> u32 \<Rightarrow> addr \<Rightarrow> parts \<Rightarrow> parts" where
  "partition_take p td b s =
     (let s = upd_partpool p (\<lambda>P. P\<lparr>FREE_LIST_PTR := LINK s b, AVAILABLE := AVAILABLE P - 1\<rparr>) s;
          s = upd_partpool p (\<lambda>P. if TOTAL_BLOCKS P - AVAILABLE P > MAX_BLOCKS_USED P
                then P\<lparr>MAX_BLOCKS_USED := TOTAL_BLOCKS P - AVAILABLE P\<rparr> else P) s;
          s = set_TASK_ID b td s;
          s = set_LINK b p s;
          s = CALC_PARTITION_CHECKSUM b s
      in upd_partpool p (\<lambda>P. P\<lparr>TEST_FREE_PTR := FREE_LIST_PTR P\<rparr>) s)"

definition partition_alloc_internal :: "addr \<Rightarrow> u32 \<Rightarrow> parts \<Rightarrow> (addr \<times> parts) option" where
  "partition_alloc_internal p td s =
     (if p = NULL \<or> \<not> pvalid p s then Some (NULL, part_error PARTITION_INVALID s)
      else
        (case if AVAILABLE (PARTPOOLS s p) = 0 then partition_grow p s else Some s of
           None \<Rightarrow> None
         | Some s \<Rightarrow>
             if AVAILABLE (PARTPOOLS s p) = 0 then Some (NULL, part_error PARTITION_OUT_OF_BLOCKS s)
             else
               (let b = FREE_LIST_PTR (PARTPOOLS s p)
                in if \<not> VALID_PARTITION_CHECKSUM b s then Some (NULL, part_error PARTITION_BLOCK_INVALID_CHECKSUM s)
                   else Some (b + sizeof_IBLOCK, partition_take p td b s))))"

definition partition_alloc :: "addr \<Rightarrow> parts \<Rightarrow> (addr \<times> parts) option" where
  "partition_alloc p s = partition_alloc_internal p (ACTIVE_TASK_ID (LW s)) s"

definition partition_alloc_system :: "addr \<Rightarrow> parts \<Rightarrow> (addr \<times> parts) option" where
  "partition_alloc_system p s = partition_alloc_internal p (SYSTEM_TASK_ID (LW s)) s"

text \<open>The variants that clear the block.\<close>

definition clear_block :: "addr \<Rightarrow> addr \<times> parts \<Rightarrow> addr \<times> parts" where
  "clear_block p rs =
     (case rs of (r, s) \<Rightarrow>
        if r = NULL then (r, s) else (r, on_lw (mem_zero r (BLOCK_SIZE (PARTPOOLS s p) - sizeof_IBLOCK)) s))"

definition partition_alloc_zero :: "addr \<Rightarrow> parts \<Rightarrow> (addr \<times> parts) option" where
  "partition_alloc_zero p s = map_option (clear_block p) (partition_alloc_internal p (ACTIVE_TASK_ID (LW s)) s)"

definition partition_alloc_system_zero :: "addr \<Rightarrow> parts \<Rightarrow> (addr \<times> parts) option" where
  "partition_alloc_system_zero p s = map_option (clear_block p) (partition_alloc_internal p (SYSTEM_TASK_ID (LW s)) s)"

section \<open>Freeing and changing the owner\<close>

definition partition_free :: "addr \<Rightarrow> parts \<Rightarrow> mqx_code \<times> parts" where
  "partition_free mem_ptr s =
     (let b = mem_ptr - sizeof_IBLOCK
      in if \<not> VALID_PARTITION_CHECKSUM b s then (PARTITION_BLOCK_INVALID_CHECKSUM, s)
         else if TASK_ID s b \<noteq> SYSTEM_TASK_ID (LW s) \<and> TASK_ID s b \<noteq> ACTIVE_TASK_ID (LW s)
         then (MQX_NOT_RESOURCE_OWNER, s)
         else
           (let p = LINK s b
            in if \<not> pvalid p s then (PARTITION_INVALID, s)
               else
                 (let s = set_TASK_ID b 0 s;
                      s = set_LINK b (FREE_LIST_PTR (PARTPOOLS s p)) s;
                      s = upd_partpool p (\<lambda>P. P\<lparr>FREE_LIST_PTR := b, AVAILABLE := AVAILABLE P + 1\<rparr>) s
                  in (MQX_OK, CALC_PARTITION_CHECKSUM b s))))"

definition partition_transfer :: "addr \<Rightarrow> u32 \<Rightarrow> parts \<Rightarrow> mqx_code \<times> parts" where
  "partition_transfer mem_ptr new_owner_id s =
     (let b = mem_ptr - sizeof_IBLOCK
      in if \<not> VALID_PARTITION_CHECKSUM b s then (PARTITION_BLOCK_INVALID_CHECKSUM, s)
         else if task_get_td new_owner_id (LW s) = None then (PARTITION_INVALID_TASK_ID, s)
         else (MQX_OK, CALC_PARTITION_CHECKSUM b (set_TASK_ID b new_owner_id s)))"


section \<open>Creating, extending and destroying\<close>

definition partition_create_component :: "parts \<Rightarrow> (mqx_code \<times> parts) option" where
  "partition_create_component s =
     (if IN_ISR (LW s) \<noteq> 0 then Some (MQX_CANNOT_CALL_FUNCTION_FROM_ISR, s)
      else if PARTITIONS s \<noteq> None then Some (MQX_OK, s)
      else
        (case lwmem_alloc_system_zero 16 (LW s) of
           None \<Rightarrow> None
         | Some (c, lw) \<Rightarrow>
             (let s = s\<lparr>LW := lw\<rparr>
              in if c = NULL then Some (MQX_OUT_OF_MEMORY, s)
                 else Some (MQX_OK, (on_lw (\<lambda>lw. snd (lwmem_set_type c 6 lw)) s)\<lparr>PARTITIONS := Some []\<rparr>))))"

definition partition_create_internal :: "addr \<Rightarrow> u32 \<Rightarrow> u32 \<Rightarrow> parts \<Rightarrow> (mqx_code \<times> parts) option" where
  "partition_create_internal p actual_size initial_blocks s =
     (case if PARTITIONS s = None then partition_create_component s else Some (MQX_OK, s) of
        None \<Rightarrow> None
      | Some (result, s) \<Rightarrow>
          if PARTITIONS s = None then Some (result, s)
          else
            (let b = ALIGN_ADDR_TO_HIGHER_MEM (p + sizeof_PARTPOOL);
                 s = upd_partpool p (\<lambda>_. \<lparr>BLOCK_SIZE = actual_size, AVAILABLE = initial_blocks, FREE_LIST_PTR = NULL,
                       TOTAL_BLOCKS = initial_blocks, MAX_BLOCKS_USED = 0, GROW_BLOCKS = 0, MAXIMUM_BLOCKS = 0,
                       PARTITION_TYPE = 0, TEST_FREE_PTR = NULL\<rparr>) s;
                 s = upd_area (PPOOL p) (\<lambda>_. \<lparr>NEXT_POOL_PTR = NULL, PA_VALID = PARTITION_VALID,
                       NUMBER_OF_BLOCKS = initial_blocks, FIRST_IBLOCK_PTR = b\<rparr>) s;
                 s = create_blocks p actual_size (unat initial_blocks) b s
             in Some (MQX_OK, s\<lparr>PARTITIONS := Some (the (PARTITIONS s) @ [p])\<rparr>)))"

text \<open>The result of the creations is \<open>NULL\<close> when they fail.\<close>

definition partition_create_at :: "addr \<Rightarrow> u32 \<Rightarrow> u32 \<Rightarrow> parts \<Rightarrow> (addr \<times> parts) option" where
  "partition_create_at partition_location partition_size block_size s =
     (if block_size = 0 then Some (NULL, part_error MQX_INVALID_PARAMETER s)
      else if partition_size < sizeof_PARTPOOL then Some (NULL, part_error MQX_INVALID_PARAMETER s)
      else
        (let block_size = MEMORY_ALIGN_VAL_LARGER (block_size + sizeof_IBLOCK);
             p = ALIGN_ADDR_TO_HIGHER_MEM partition_location;
             firstblock_ptr = ALIGN_ADDR_TO_HIGHER_MEM (p + sizeof_PARTPOOL);
             partition_size = partition_size - (firstblock_ptr - partition_location);
             number_of_blocks = partition_size div block_size
         in if number_of_blocks = 0 then Some (NULL, s)
            else
              (case partition_create_internal p block_size number_of_blocks s of
                 None \<Rightarrow> None
               | Some (result, s) \<Rightarrow>
                   if result \<noteq> MQX_OK then Some (NULL, s)
                   else Some (p, upd_partpool p (\<lambda>P. P\<lparr>PARTITION_TYPE := PARTITION_STATIC\<rparr>) s))))"

definition partition_create :: "u32 \<Rightarrow> u32 \<Rightarrow> u32 \<Rightarrow> u32 \<Rightarrow> parts \<Rightarrow> (addr \<times> parts) option" where
  "partition_create block_size initial_blocks grow_blocks maximum_blocks s =
     (if IN_ISR (LW s) \<noteq> 0 then Some (NULL, part_error MQX_CANNOT_CALL_FUNCTION_FROM_ISR s)
      else if block_size = 0 then Some (NULL, part_error MQX_INVALID_PARAMETER s)
      else
        (let actual_size = MEMORY_ALIGN_VAL_LARGER (sizeof_IBLOCK + block_size)
         in case lwmem_alloc_system (sizeof_PARTPOOL + PSP_MEMORY_ALIGNMENT + actual_size * initial_blocks) (LW s) of
              None \<Rightarrow> None
            | Some (p, lw) \<Rightarrow>
                (let s = s\<lparr>LW := lw\<rparr>
                 in if p = NULL then Some (NULL, s)
                    else
                      (case partition_create_internal p actual_size initial_blocks
                              (on_lw (\<lambda>lw. snd (lwmem_set_type p 7 lw)) s) of
                         None \<Rightarrow> None
                       | Some (result, s) \<Rightarrow>
                           if result \<noteq> MQX_OK
                           then map_option (\<lambda>(_, lw). (NULL, s\<lparr>LW := lw\<rparr>)) (lwmem_free p (LW s))
                           else Some (p, upd_partpool p (\<lambda>P. P\<lparr>PARTITION_TYPE := PARTITION_DYNAMIC,
                                  GROW_BLOCKS := grow_blocks, MAXIMUM_BLOCKS := maximum_blocks\<rparr>) s)))))"

definition partition_extend :: "addr \<Rightarrow> addr \<Rightarrow> u32 \<Rightarrow> parts \<Rightarrow> mqx_code \<times> parts" where
  "partition_extend p partition_location partition_size s =
     (if \<not> pvalid p s then (PARTITION_INVALID, s)
      else if PARTITION_TYPE (PARTPOOLS s p) = PARTITION_DYNAMIC then (MQX_INVALID_PARAMETER, s)
      else
        (let a = ALIGN_ADDR_TO_HIGHER_MEM partition_location;
             partition_size = (partition_size - a + partition_location) AND PSP_MEMORY_ALIGNMENT_MASK
         in if partition_size < sizeof_PARTPOOL_BLOCK then (MQX_INVALID_PARAMETER, s)
            else
              (let b = ALIGN_ADDR_TO_HIGHER_MEM (a + sizeof_PARTPOOL_BLOCK);
                   number_of_blocks = (partition_size - (b - a)) div BLOCK_SIZE (PARTPOOLS s p)
               in if number_of_blocks \<le> 0 then (MQX_INVALID_PARAMETER, s)
                  else (MQX_OK, partition_extend_internal p a number_of_blocks
                         (upd_partpool p (\<lambda>P. P\<lparr>TOTAL_BLOCKS := TOTAL_BLOCKS P + number_of_blocks\<rparr>) s)))))"

text \<open>The areas of a partition behind the first are given back.\<close>

partial_function (option) free_areas :: "addr \<Rightarrow> parts \<Rightarrow> parts option" where
  "free_areas a s =
     (if a = NULL then Some s
      else
        (let next_ptr = NEXT_POOL_PTR (AREAS s a)
         in case lwmem_free a (LW s) of
              None \<Rightarrow> None
            | Some (_, lw) \<Rightarrow> free_areas next_ptr (s\<lparr>LW := lw\<rparr>)))"

definition partition_destroy :: "addr \<Rightarrow> parts \<Rightarrow> (mqx_code \<times> parts) option" where
  "partition_destroy p s =
     (if PARTITIONS s = None then Some (MQX_COMPONENT_DOES_NOT_EXIST, s)
      else if \<not> pvalid p s then Some (MQX_INVALID_PARAMETER, s)
      else if PARTITION_TYPE (PARTPOOLS s p) \<noteq> PARTITION_DYNAMIC then Some (PARTITION_INVALID_TYPE, s)
      else if TOTAL_BLOCKS (PARTPOOLS s p) \<noteq> AVAILABLE (PARTPOOLS s p) then Some (PARTITION_ALL_BLOCKS_NOT_FREE, s)
      else
        (let s = s\<lparr>PARTITIONS := map_option (remove1 p) (PARTITIONS s)\<rparr>;
             s = upd_area (PPOOL p) (\<lambda>A. A\<lparr>PA_VALID := 0\<rparr>) s
         in case free_areas (NEXT_POOL_PTR (AREAS s (PPOOL p))) s of
              None \<Rightarrow> None
            | Some s \<Rightarrow> map_option (\<lambda>(c, lw). (c, s\<lparr>LW := lw\<rparr>)) (lwmem_free p (LW s))))"

section \<open>Cleaning up after a task\<close>

fun cleanup_blocks :: "addr \<Rightarrow> u32 \<Rightarrow> nat \<Rightarrow> addr \<Rightarrow> parts \<Rightarrow> parts" where
  "cleanup_blocks p td 0 b s = s"
| "cleanup_blocks p td (Suc n) b s =
     (let s = (if TASK_ID s b = td \<and> LINK s b = p
               then (let s = set_LINK b (FREE_LIST_PTR (PARTPOOLS s p)) s;
                         s = upd_partpool p (\<lambda>P. P\<lparr>FREE_LIST_PTR := b, AVAILABLE := AVAILABLE P + 1\<rparr>) s
                     in CALC_PARTITION_CHECKSUM b s)
               else s)
      in cleanup_blocks p td n (b + BLOCK_SIZE (PARTPOOLS s p)) s)"

partial_function (option) cleanup_areas :: "addr \<Rightarrow> u32 \<Rightarrow> addr \<Rightarrow> parts \<Rightarrow> parts option" where
  "cleanup_areas p td a s =
     (if a = NULL \<or> PA_VALID (AREAS s a) \<noteq> PARTITION_VALID then Some s
      else cleanup_areas p td (NEXT_POOL_PTR (AREAS s a))
             (cleanup_blocks p td (unat (NUMBER_OF_BLOCKS (AREAS s a))) (FIRST_IBLOCK_PTR (AREAS s a)) s))"

fun cleanup_partitions :: "u32 \<Rightarrow> addr list \<Rightarrow> parts \<Rightarrow> parts option" where
  "cleanup_partitions td [] s = Some s"
| "cleanup_partitions td (p # ps) s =
     (case cleanup_areas p td (PPOOL p) s of None \<Rightarrow> None | Some s \<Rightarrow> cleanup_partitions td ps s)"

definition partition_cleanup :: "u32 \<Rightarrow> parts \<Rightarrow> parts option" where
  "partition_cleanup td s = (case PARTITIONS s of None \<Rightarrow> Some s | Some ps \<Rightarrow> cleanup_partitions td ps s)"

section \<open>Queries and calculations\<close>

definition partition_get_free_blocks :: "addr \<Rightarrow> parts \<Rightarrow> u32 \<times> parts" where
  "partition_get_free_blocks p s =
     (if \<not> pvalid p s then (MAX_MQX_UINT, part_error PARTITION_INVALID s) else (AVAILABLE (PARTPOOLS s p), s))"

definition partition_get_max_used_blocks :: "addr \<Rightarrow> parts \<Rightarrow> u32 \<times> parts" where
  "partition_get_max_used_blocks p s =
     (if \<not> pvalid p s then (0, part_error PARTITION_INVALID s) else (MAX_BLOCKS_USED (PARTPOOLS s p), s))"

definition partition_get_total_blocks :: "addr \<Rightarrow> parts \<Rightarrow> u32 \<times> parts" where
  "partition_get_total_blocks p s =
     (if \<not> pvalid p s then (0, part_error PARTITION_INVALID s) else (TOTAL_BLOCKS (PARTPOOLS s p), s))"

definition partition_get_block_size :: "addr \<Rightarrow> parts \<Rightarrow> u32 \<times> parts" where
  "partition_get_block_size p s =
     (if \<not> pvalid p s then (0, part_error PARTITION_INVALID s)
      else (BLOCK_SIZE (PARTPOOLS s p) - sizeof_IBLOCK, s))"

partial_function (option) area_sizes :: "addr \<Rightarrow> u32 \<Rightarrow> parts \<Rightarrow> u32 option" where
  "area_sizes a n s =
     (if a = NULL then Some n
      else area_sizes (NEXT_POOL_PTR (AREAS s a)) (n + (ALIGN_ADDR_TO_HIGHER_MEM (a + sizeof_PARTPOOL_BLOCK) - a)) s)"

definition partition_get_total_size :: "addr \<Rightarrow> parts \<Rightarrow> (u32 \<times> parts) option" where
  "partition_get_total_size p s =
     (if \<not> pvalid p s then Some (0, part_error PARTITION_INVALID s)
      else map_option (\<lambda>n. (n + (ALIGN_ADDR_TO_HIGHER_MEM (p + sizeof_PARTPOOL) - p)
               + BLOCK_SIZE (PARTPOOLS s p) * TOTAL_BLOCKS (PARTPOOLS s p), s))
             (area_sizes (NEXT_POOL_PTR (AREAS s (PPOOL p))) 0 s))"

definition partition_calculate_size :: "u32 \<Rightarrow> u32 \<Rightarrow> u32" where
  "partition_calculate_size number_of_blocks block_size =
     sizeof_PARTPOOL + PSP_MEMORY_ALIGNMENT + MEMORY_ALIGN_VAL_LARGER (sizeof_IBLOCK + block_size) * number_of_blocks"

definition partition_calculate_blocks :: "u32 \<Rightarrow> u32 \<Rightarrow> u32" where
  "partition_calculate_blocks partition_size block_size =
     (partition_size - MEMORY_ALIGN_VAL_LARGER sizeof_PARTPOOL) div MEMORY_ALIGN_VAL_LARGER (sizeof_IBLOCK + block_size)"

definition partition_get_number_of :: "parts \<Rightarrow> u32" where
  "partition_get_number_of s = (case PARTITIONS s of None \<Rightarrow> 0 | Some ps \<Rightarrow> of_nat (length ps))"

section \<open>The test\<close>

text \<open>
  The results are the partition, the area and the block in error, and an error of the links of the
  queue cannot arise for a list. The first loop is over the blocks of an area, the second over the
  free list, where the place of the walk is kept in \<open>TEST_FREE_PTR\<close>.
\<close>

fun test_blocks :: "addr \<Rightarrow> nat \<Rightarrow> addr \<Rightarrow> parts \<Rightarrow> (mqx_code \<times> addr) option" where
  "test_blocks p 0 b s = None"
| "test_blocks p (Suc n) b s =
     (if \<not> pvalid p s then Some (PARTITION_INVALID, NULL)
      else if \<not> VALID_PARTITION_CHECKSUM b s then Some (PARTITION_BLOCK_INVALID_CHECKSUM, b + sizeof_IBLOCK)
      else test_blocks p n (b + BLOCK_SIZE (PARTPOOLS s p)) s)"

partial_function (option) test_areas :: "addr \<Rightarrow> addr \<Rightarrow> addr \<Rightarrow> parts \<Rightarrow> (addr \<times> (mqx_code \<times> addr) option) option" where
  "test_areas p a area_in_error s =
     (if a = NULL then Some (area_in_error, None)
      else
        (case test_blocks p (unat (NUMBER_OF_BLOCKS (AREAS s a))) (FIRST_IBLOCK_PTR (AREAS s a)) s of
           Some e \<Rightarrow> Some (a, Some e)
         | None \<Rightarrow> test_areas p (NEXT_POOL_PTR (AREAS s a)) a s))"

partial_function (option) test_free :: "addr \<Rightarrow> addr \<Rightarrow> parts \<Rightarrow> ((mqx_code \<times> addr) option \<times> parts) option" where
  "test_free p b s =
     (if b = NULL then Some (None, s)
      else
        (let s = upd_partpool p (\<lambda>P. P\<lparr>TEST_FREE_PTR := b\<rparr>) s
         in if \<not> VALID_PARTITION_CHECKSUM b s then Some (Some (PARTITION_BLOCK_INVALID_CHECKSUM, b + sizeof_IBLOCK), s)
            else test_free p (LINK s b) s))"

fun test_partitions :: "addr list \<Rightarrow> addr \<Rightarrow> addr \<Rightarrow> parts \<Rightarrow> (mqx_code \<times> addr \<times> addr \<times> addr \<times> parts) option" where
  "test_partitions [] pe ae s = Some (MQX_OK, pe, ae, NULL, s)"
| "test_partitions (p # ps) pe ae s =
     (case test_areas p (PPOOL p) ae s of
        None \<Rightarrow> None
      | Some (ae, Some (c, be)) \<Rightarrow> Some (c, p, ae, be, s)
      | Some (ae, None) \<Rightarrow>
          (case test_free p (FREE_LIST_PTR (PARTPOOLS s p)) s of
             None \<Rightarrow> None
           | Some (Some (c, be), s) \<Rightarrow> Some (c, p, ae, be, s)
           | Some (None, s) \<Rightarrow> test_partitions ps p ae s))"

definition partition_test :: "parts \<Rightarrow> (mqx_code \<times> addr \<times> addr \<times> addr \<times> parts) option" where
  "partition_test s =
     (case PARTITIONS s of None \<Rightarrow> Some (MQX_OK, NULL, NULL, NULL, s) | Some ps \<Rightarrow> test_partitions ps NULL NULL s)"

end
