(* ===== verification/PartitionProps.thy ===== *)
theory PartitionProps
  imports Partition
begin

text \<open>
  A well-formed partition, and what allocating, freeing, creating and cleaning up do to it. A
  partition at a fixed place is an \<open>allocator\<close>, the contract of theory \<open>LwMemPool\<close>.
\<close>

section \<open>Frames\<close>

lemma parts_upd_simps [simp]:
  "PARTPOOLS (upd_partpool p f s) q = (if q = p then f (PARTPOOLS s p) else PARTPOOLS s q)"
  "AREAS (upd_partpool p f s) = AREAS s" "LW (upd_partpool p f s) = LW s" "PARTITIONS (upd_partpool p f s) = PARTITIONS s"
  "AREAS (upd_area a g s) b = (if b = a then g (AREAS s a) else AREAS s b)"
  "PARTPOOLS (upd_area a g s) = PARTPOOLS s" "LW (upd_area a g s) = LW s" "PARTITIONS (upd_area a g s) = PARTITIONS s"
  "LW (on_lw h s) = h (LW s)" "PARTPOOLS (on_lw h s) = PARTPOOLS s" "AREAS (on_lw h s) = AREAS s"
  "PARTITIONS (on_lw h s) = PARTITIONS s"
  by (simp_all add: upd_partpool_def upd_area_def on_lw_def)

lemma parts_set_simps [simp]:
  "PARTPOOLS (set_LINK b v s) = PARTPOOLS s" "AREAS (set_LINK b v s) = AREAS s" "PARTITIONS (set_LINK b v s) = PARTITIONS s"
  "PARTPOOLS (set_TASK_ID b v s) = PARTPOOLS s" "AREAS (set_TASK_ID b v s) = AREAS s" "PARTITIONS (set_TASK_ID b v s) = PARTITIONS s"
  "PARTPOOLS (CALC_PARTITION_CHECKSUM b s) = PARTPOOLS s" "AREAS (CALC_PARTITION_CHECKSUM b s) = AREAS s"
  "PARTITIONS (CALC_PARTITION_CHECKSUM b s) = PARTITIONS s"
  "PARTPOOLS (part_error c s) = PARTPOOLS s" "AREAS (part_error c s) = AREAS s" "PARTITIONS (part_error c s) = PARTITIONS s"
  by (simp_all add: set_LINK_def set_TASK_ID_def CALC_PARTITION_CHECKSUM_def part_error_def)

lemma task_set_error_MEM [simp]: "MEM (task_set_error c l) = MEM l"
  by (simp add: task_set_error_def Let_def)

lemma ids_simps [simp]:
  "ACTIVE_TASK_ID (wr a v l) = ACTIVE_TASK_ID l" "SYSTEM_TASK_ID (wr a v l) = SYSTEM_TASK_ID l"
  "ACTIVE_TASK_ID (task_set_error c l) = ACTIVE_TASK_ID l" "SYSTEM_TASK_ID (task_set_error c l) = SYSTEM_TASK_ID l"
  by (simp_all add: wr_def task_set_error_def Let_def)

lemma ids_set_simps [simp]:
  "ACTIVE_TASK_ID (LW (set_LINK b v s)) = ACTIVE_TASK_ID (LW s)" "SYSTEM_TASK_ID (LW (set_LINK b v s)) = SYSTEM_TASK_ID (LW s)"
  "ACTIVE_TASK_ID (LW (set_TASK_ID b v s)) = ACTIVE_TASK_ID (LW s)"
  "SYSTEM_TASK_ID (LW (set_TASK_ID b v s)) = SYSTEM_TASK_ID (LW s)"
  "ACTIVE_TASK_ID (LW (CALC_PARTITION_CHECKSUM b s)) = ACTIVE_TASK_ID (LW s)"
  "SYSTEM_TASK_ID (LW (CALC_PARTITION_CHECKSUM b s)) = SYSTEM_TASK_ID (LW s)"
  "ACTIVE_TASK_ID (LW (part_error c s)) = ACTIVE_TASK_ID (LW s)" "SYSTEM_TASK_ID (LW (part_error c s)) = SYSTEM_TASK_ID (LW s)"
  by (simp_all add: set_LINK_def set_TASK_ID_def CALC_PARTITION_CHECKSUM_def part_error_def)

lemma header_frame [simp]:
  "LINK (upd_partpool p f s) = LINK s" "CHECKSUM (upd_partpool p f s) = CHECKSUM s" "TASK_ID (upd_partpool p f s) = TASK_ID s"
  "LINK (upd_area a g s) = LINK s" "CHECKSUM (upd_area a g s) = CHECKSUM s" "TASK_ID (upd_area a g s) = TASK_ID s"
  "LINK (part_error c s) = LINK s" "CHECKSUM (part_error c s) = CHECKSUM s" "TASK_ID (part_error c s) = TASK_ID s"
  "LINK (s\<lparr>PARTITIONS := ps\<rparr>) = LINK s" "CHECKSUM (s\<lparr>PARTITIONS := ps\<rparr>) = CHECKSUM s" "TASK_ID (s\<lparr>PARTITIONS := ps\<rparr>) = TASK_ID s"
  by (simp_all add: LINK_def CHECKSUM_def TASK_ID_def part_error_def fun_eq_iff)

text \<open>The fields of the headers at aligned addresses do not meet.\<close>

lemma header_simps [simp]:
  assumes "aligned b" "aligned c"
  shows "LINK (set_LINK b v s) c = (if c = b then v else LINK s c)" "CHECKSUM (set_LINK b v s) c = CHECKSUM s c"
    "TASK_ID (set_LINK b v s) c = TASK_ID s c"
    "LINK (set_TASK_ID b v s) c = LINK s c" "CHECKSUM (set_TASK_ID b v s) c = CHECKSUM s c"
    "TASK_ID (set_TASK_ID b v s) c = (if c = b then v else TASK_ID s c)"
    "LINK (CALC_PARTITION_CHECKSUM b s) c = LINK s c" "TASK_ID (CALC_PARTITION_CHECKSUM b s) c = TASK_ID s c"
    "CHECKSUM (CALC_PARTITION_CHECKSUM b s) c = (if c = b then LINK s b + TASK_ID s b else CHECKSUM s c)"
  using slot_neq [OF assms] slot_neq [OF assms(2,1)]
  by (auto simp: LINK_def CHECKSUM_def TASK_ID_def set_LINK_def set_TASK_ID_def CALC_PARTITION_CHECKSUM_def wr_def)

section \<open>Well-formed partitions\<close>

fun achain :: "(addr \<Rightarrow> partarea) \<Rightarrow> addr \<Rightarrow> addr list \<Rightarrow> bool" where
  "achain A x [] \<longleftrightarrow> x = NULL"
| "achain A x (y # ys) \<longleftrightarrow> x = y \<and> x \<noteq> NULL \<and> achain A (NEXT_POOL_PTR (A y)) ys"

fun lpath :: "(addr \<Rightarrow> u32) \<Rightarrow> addr \<Rightarrow> addr list \<Rightarrow> bool" where
  "lpath L x [] \<longleftrightarrow> x = NULL"
| "lpath L x (y # ys) \<longleftrightarrow> x = y \<and> x \<noteq> NULL \<and> lpath L (L y) ys"

lemma achain_unique: "achain A x xs \<Longrightarrow> achain A x ys \<Longrightarrow> xs = ys"
proof (induction xs arbitrary: x ys)
  case Nil
  then show ?case by (cases ys) auto
next
  case (Cons a xs)
  then show ?case by (cases ys) auto
qed

lemma lpath_unique: "lpath L x xs \<Longrightarrow> lpath L x ys \<Longrightarrow> xs = ys"
proof (induction xs arbitrary: x ys)
  case Nil
  then show ?case by (cases ys) auto
next
  case (Cons a xs)
  then show ?case by (cases ys) auto
qed

lemma lpath_cong: "(\<And>x. x \<in> set xs \<Longrightarrow> L x = L' x) \<Longrightarrow> lpath L a xs = lpath L' a xs"
  by (induction xs arbitrary: a) auto

text \<open>The addresses of \<open>n\<close> blocks from \<open>b\<close> on.\<close>

fun iblocks :: "u32 \<Rightarrow> nat \<Rightarrow> addr \<Rightarrow> addr list" where
  "iblocks bs 0 b = []"
| "iblocks bs (Suc n) b = b # iblocks bs n (b + bs)"

definition area_blocks :: "u32 \<Rightarrow> partarea \<Rightarrow> addr list" where
  "area_blocks bs A = iblocks bs (unat (NUMBER_OF_BLOCKS A)) (FIRST_IBLOCK_PTR A)"

definition blocks :: "parts \<Rightarrow> addr \<Rightarrow> addr list \<Rightarrow> addr list" where
  "blocks s p as = concat (map (\<lambda>a. area_blocks (BLOCK_SIZE (PARTPOOLS s p)) (AREAS s a)) as)"

text \<open>Aligned blocks of \<open>bs\<close> bytes that do not overlap.\<close>

definition spaced :: "u32 \<Rightarrow> addr list \<Rightarrow> bool" where
  "spaced bs xs \<longleftrightarrow> distinct xs \<and> 16 \<le> unat bs \<and> (\<forall>b \<in> set xs. aligned b \<and> b \<noteq> NULL \<and> unat b + unat bs < 2 ^ 32)
     \<and> (\<forall>b \<in> set xs. \<forall>c \<in> set xs. b \<noteq> c \<longrightarrow> unat b + unat bs \<le> unat c \<or> unat c + unat bs \<le> unat b)"

definition part_wf :: "parts \<Rightarrow> addr \<Rightarrow> addr list \<Rightarrow> addr list \<Rightarrow> bool" where
  "part_wf s p as fs \<longleftrightarrow> p \<noteq> NULL \<and> pvalid p s \<and> achain (AREAS s) (PPOOL p) as \<and> (\<forall>a \<in> set as. PA_VALID (AREAS s a) = PARTITION_VALID)
     \<and> spaced (BLOCK_SIZE (PARTPOOLS s p)) (blocks s p as) \<and> p \<notin> set (blocks s p as)
     \<and> distinct fs \<and> set fs \<subseteq> set (blocks s p as) \<and> lpath (LINK s) (FREE_LIST_PTR (PARTPOOLS s p)) fs
     \<and> (\<forall>b \<in> set (blocks s p as). VALID_PARTITION_CHECKSUM b s \<and> (b \<notin> set fs \<longrightarrow> LINK s b = p))
     \<and> unat (AVAILABLE (PARTPOOLS s p)) = length fs \<and> unat (TOTAL_BLOCKS (PARTPOOLS s p)) = length (blocks s p as)
     \<and> length (blocks s p as) - length fs \<le> unat (MAX_BLOCKS_USED (PARTPOOLS s p))
     \<and> MAX_BLOCKS_USED (PARTPOOLS s p) \<le> TOTAL_BLOCKS (PARTPOOLS s p)"

lemma part_wf_unique: "part_wf s p as fs \<Longrightarrow> part_wf s p as' fs' \<Longrightarrow> as = as' \<and> fs = fs'"
  unfolding part_wf_def by (metis achain_unique lpath_unique)


text \<open>The fields of a state that a partition depends on, when its headers and descriptor change.\<close>

lemma part_wfI:
  assumes wf: "part_wf s p as fs" and A: "AREAS s' = AREAS s" and bs: "BLOCK_SIZE (PARTPOOLS s' p) = BLOCK_SIZE (PARTPOOLS s p)"
    and fs: "distinct fs'" "set fs' \<subseteq> set (blocks s p as)" "lpath (LINK s') (FREE_LIST_PTR (PARTPOOLS s' p)) fs'"
    and h: "\<And>b. b \<in> set (blocks s p as) \<Longrightarrow> VALID_PARTITION_CHECKSUM b s' \<and> (b \<notin> set fs' \<longrightarrow> LINK s' b = p)"
    and n: "unat (AVAILABLE (PARTPOOLS s' p)) = length fs'" "TOTAL_BLOCKS (PARTPOOLS s' p) = TOTAL_BLOCKS (PARTPOOLS s p)"
      "length (blocks s p as) - length fs' \<le> unat (MAX_BLOCKS_USED (PARTPOOLS s' p))"
      "MAX_BLOCKS_USED (PARTPOOLS s' p) \<le> TOTAL_BLOCKS (PARTPOOLS s' p)"
  shows "part_wf s' p as fs'"
proof -
  have "blocks s' p as = blocks s p as" by (simp add: blocks_def A bs)
  then show ?thesis using assms unfolding part_wf_def pvalid_def by simp
qed

lemma part_wfD:
  assumes "part_wf s p as fs"
  shows "p \<noteq> NULL" "pvalid p s" "spaced (BLOCK_SIZE (PARTPOOLS s p)) (blocks s p as)" "p \<notin> set (blocks s p as)"
    "distinct fs" "set fs \<subseteq> set (blocks s p as)" "lpath (LINK s) (FREE_LIST_PTR (PARTPOOLS s p)) fs"
    "unat (AVAILABLE (PARTPOOLS s p)) = length fs" "unat (TOTAL_BLOCKS (PARTPOOLS s p)) = length (blocks s p as)"
    "length (blocks s p as) - length fs \<le> unat (MAX_BLOCKS_USED (PARTPOOLS s p))"
    "MAX_BLOCKS_USED (PARTPOOLS s p) \<le> TOTAL_BLOCKS (PARTPOOLS s p)" "length fs \<le> length (blocks s p as)"
    "b \<in> set (blocks s p as) \<Longrightarrow> VALID_PARTITION_CHECKSUM b s"
    "b \<in> set (blocks s p as) \<Longrightarrow> b \<notin> set fs \<Longrightarrow> LINK s b = p"
    "b \<in> set (blocks s p as) \<Longrightarrow> aligned b" "b \<in> set (blocks s p as) \<Longrightarrow> b \<noteq> NULL"
proof -
  have "distinct fs" "set fs \<subseteq> set (blocks s p as)" using assms by (simp_all add: part_wf_def)
  then have "length fs \<le> card (set (blocks s p as))" by (metis card_mono distinct_card finite_set)
  also have "\<dots> \<le> length (blocks s p as)" by (rule card_length)
  finally show "length fs \<le> length (blocks s p as)" .
qed (use assms in \<open>auto simp: part_wf_def spaced_def\<close>)

lemma part_wf_error [simp]: "part_wf (part_error c s) p as fs \<longleftrightarrow> part_wf s p as fs"
  by (simp add: part_wf_def blocks_def pvalid_def VALID_PARTITION_CHECKSUM_def)

section \<open>Taking and giving back a block\<close>

lemma partition_take_headers:
  assumes "aligned f" "aligned c"
  shows "LINK (partition_take p td f s) c = (if c = f then p else LINK s c)"
    "TASK_ID (partition_take p td f s) c = (if c = f then td else TASK_ID s c)"
    "CHECKSUM (partition_take p td f s) c = (if c = f then p + td else CHECKSUM s c)"
  using assms by (simp_all add: partition_take_def Let_def)

lemma partition_take_fields:
  "AREAS (partition_take p td f s) = AREAS s" "PARTITIONS (partition_take p td f s) = PARTITIONS s"
  "ACTIVE_TASK_ID (LW (partition_take p td f s)) = ACTIVE_TASK_ID (LW s)"
  "SYSTEM_TASK_ID (LW (partition_take p td f s)) = SYSTEM_TASK_ID (LW s)"
  "PARTPOOLS (partition_take p td f s) q = (if q = p then
     (let P = PARTPOOLS s p; n = AVAILABLE P - 1
      in P\<lparr>FREE_LIST_PTR := LINK s f, AVAILABLE := n, TEST_FREE_PTR := LINK s f,
           MAX_BLOCKS_USED := max (MAX_BLOCKS_USED P) (TOTAL_BLOCKS P - n)\<rparr>) else PARTPOOLS s q)"
  by (simp_all add: partition_take_def Let_def max_def not_less not_le)

lemma partition_take_wf:
  assumes wf: "part_wf s p as (f # fs)"
  shows "part_wf (partition_take p td f s) p as fs"
proof (rule part_wfI [OF wf])
  note d = part_wfD [OF wf]
  let ?s = "partition_take p td f s" and ?P = "PARTPOOLS s p"
  have f: "f \<in> set (blocks s p as)" "aligned f" "f \<notin> set fs" "distinct fs" using d(5,6) d(15) by auto
  have al: "aligned b" if "b \<in> set (blocks s p as)" for b using d(15) that by blast
  show "distinct fs" "set fs \<subseteq> set (blocks s p as)" using d(5,6) by auto
  have "lpath (LINK s) (LINK s f) fs" using d(7) by simp
  moreover have "LINK s x = LINK ?s x" if "x \<in> set fs" for x
    using that f d(6) al by (auto simp: partition_take_headers)
  ultimately show "lpath (LINK ?s) (FREE_LIST_PTR (PARTPOOLS ?s p)) fs"
    using lpath_cong [of fs "LINK s" "LINK ?s"] by (simp add: partition_take_fields(5) Let_def)
  show "VALID_PARTITION_CHECKSUM b ?s \<and> (b \<notin> set fs \<longrightarrow> LINK ?s b = p)" if "b \<in> set (blocks s p as)" for b
    using d(13,14) [OF that] that f al by (auto simp: VALID_PARTITION_CHECKSUM_def partition_take_headers)
  have "AVAILABLE ?P \<noteq> 0" using d(8) by auto
  then have u: "unat (AVAILABLE ?P - 1) = length fs" using d(8) by (simp add: unat_minus_one)
  then show "unat (AVAILABLE (PARTPOOLS ?s p)) = length fs" by (simp add: partition_take_fields(5) Let_def)
  have "unat (AVAILABLE ?P - 1) \<le> unat (TOTAL_BLOCKS ?P)" using u d(9,12) by simp
  then have v: "unat (TOTAL_BLOCKS ?P - (AVAILABLE ?P - 1)) = length (blocks s p as) - length fs"
    using u d(9) by (simp add: unat_sub_noof)
  show "length (blocks s p as) - length fs \<le> unat (MAX_BLOCKS_USED (PARTPOOLS ?s p))"
    by (simp add: partition_take_fields(5) Let_def max_def v word_le_nat_alt)
  have "TOTAL_BLOCKS ?P - (AVAILABLE ?P - 1) \<le> TOTAL_BLOCKS ?P" using v d(9) by (simp add: word_le_nat_alt)
  then show "MAX_BLOCKS_USED (PARTPOOLS ?s p) \<le> TOTAL_BLOCKS (PARTPOOLS ?s p)"
    using d(11) by (simp add: partition_take_fields(5) Let_def)
qed (simp_all add: partition_take_fields Let_def)

lemma alloc_takes:
  assumes wf: "part_wf s p as (f # fs)"
  shows "partition_alloc_internal p td s = Some (f + 12, partition_take p td f s)"
proof -
  note d = part_wfD [OF wf]
  have "FREE_LIST_PTR (PARTPOOLS s p) = f" "AVAILABLE (PARTPOOLS s p) \<noteq> 0" "VALID_PARTITION_CHECKSUM f s"
    using d(6,7,8) d(13) [of f] by auto
  then show ?thesis using d(1,2) by (simp add: partition_alloc_internal_def)
qed

lemma alloc_none:
  assumes wf: "part_wf s p as []" and "PARTITION_TYPE (PARTPOOLS s p) \<noteq> PARTITION_DYNAMIC"
  shows "partition_alloc_internal p td s = Some (NULL, part_error PARTITION_OUT_OF_BLOCKS s)"
proof -
  note d = part_wfD [OF wf]
  have "AVAILABLE (PARTPOOLS s p) = 0" using d(8) by (simp add: unat_eq_zero)
  then show ?thesis using d(1,2) assms(2) by (simp add: partition_alloc_internal_def partition_grow_def Let_def)
qed

definition may_free :: "parts \<Rightarrow> addr \<Rightarrow> bool" where
  "may_free s b \<longleftrightarrow> TASK_ID s b = SYSTEM_TASK_ID (LW s) \<or> TASK_ID s b = ACTIVE_TASK_ID (LW s)"

text \<open>A block of the task \<open>v\<close> that becomes the head of the free list.\<close>

definition give_back :: "addr \<Rightarrow> addr \<Rightarrow> u32 \<Rightarrow> parts \<Rightarrow> parts" where
  "give_back p b v s = CALC_PARTITION_CHECKSUM b (upd_partpool p (\<lambda>P. P\<lparr>FREE_LIST_PTR := b, AVAILABLE := AVAILABLE P + 1\<rparr>)
     (set_LINK b (FREE_LIST_PTR (PARTPOOLS s p)) (set_TASK_ID b v s)))"

lemma give_back_headers:
  assumes "aligned b" "aligned c"
  shows "LINK (give_back p b v s) c = (if c = b then FREE_LIST_PTR (PARTPOOLS s p) else LINK s c)"
    "TASK_ID (give_back p b v s) c = (if c = b then v else TASK_ID s c)"
    "CHECKSUM (give_back p b v s) c = (if c = b then FREE_LIST_PTR (PARTPOOLS s p) + v else CHECKSUM s c)"
  using assms by (simp_all add: give_back_def)

lemma give_back_fields [simp]:
  "AREAS (give_back p b v s) = AREAS s" "PARTITIONS (give_back p b v s) = PARTITIONS s"
  "ACTIVE_TASK_ID (LW (give_back p b v s)) = ACTIVE_TASK_ID (LW s)" "SYSTEM_TASK_ID (LW (give_back p b v s)) = SYSTEM_TASK_ID (LW s)"
  "PARTPOOLS (give_back p b v s) q = (if q = p then (PARTPOOLS s p)\<lparr>FREE_LIST_PTR := b, AVAILABLE := AVAILABLE (PARTPOOLS s p) + 1\<rparr>
     else PARTPOOLS s q)"
  by (simp_all add: give_back_def)

lemma give_back_wf:
  assumes wf: "part_wf s p as fs" and b: "b \<in> set (blocks s p as)" "b \<notin> set fs"
  shows "part_wf (give_back p b v s) p as (b # fs)"
proof (rule part_wfI [OF wf])
  note d = part_wfD [OF wf]
  let ?P = "PARTPOOLS s p" and ?s = "give_back p b v s"
  have al: "aligned c" if "c \<in> set (blocks s p as)" for c using d(15) that by blast
  note h = give_back_headers [OF al [OF b(1)]]
  have lt: "length fs < length (blocks s p as)"
  proof -
    have "insert b (set fs) \<subseteq> set (blocks s p as)" using b(1) d(6) by blast
    then have "card (insert b (set fs)) \<le> card (set (blocks s p as))" by (simp add: card_mono)
    then have "Suc (length fs) \<le> card (set (blocks s p as))" using b(2) d(5) by (simp add: distinct_card)
    then show ?thesis using card_length [of "blocks s p as"] by linarith
  qed
  show "lpath (LINK ?s) (FREE_LIST_PTR (PARTPOOLS ?s p)) (b # fs)"
  proof -
    have "LINK s x = LINK ?s x" if "x \<in> set fs" for x using that d(6) al b(2) by (auto simp: h)
    then have "lpath (LINK ?s) (FREE_LIST_PTR ?P) fs" using d(7) lpath_cong [of fs "LINK s" "LINK ?s"] by blast
    then show ?thesis using d(16) [OF b(1)] by (simp add: h(1) [OF al [OF b(1)]])
  qed
  show "VALID_PARTITION_CHECKSUM c ?s \<and> (c \<notin> set (b # fs) \<longrightarrow> LINK ?s c = p)" if "c \<in> set (blocks s p as)" for c
    using d(13,14) [OF that] h [OF al [OF that]] by (simp add: VALID_PARTITION_CHECKSUM_def)
  have "unat (AVAILABLE ?P) + 1 < 4294967296" using d(8,9) lt unat_lt32 [of "TOTAL_BLOCKS ?P"] by linarith
  then have "unat (AVAILABLE ?P + 1) = unat (AVAILABLE ?P) + 1" by (subst unat_add_noof32) simp_all
  then show "unat (AVAILABLE (PARTPOOLS ?s p)) = length (b # fs)" using d(8) by simp
  show "length (blocks s p as) - length (b # fs) \<le> unat (MAX_BLOCKS_USED (PARTPOOLS ?s p))" using d(10) by simp
  show "MAX_BLOCKS_USED (PARTPOOLS ?s p) \<le> TOTAL_BLOCKS (PARTPOOLS ?s p)" using d(11) by simp
qed (use b part_wfD(5,6) [OF wf] in simp_all)

lemma free_gives_back:
  assumes wf: "part_wf s p as fs" and b: "b \<in> set (blocks s p as)" "b \<notin> set fs" "may_free s b"
  shows "partition_free (b + 12) s = (MQX_OK, give_back p b 0 s)"
proof -
  note d = part_wfD [OF wf]
  have "aligned b" using d(15) b(1) by blast
  then show ?thesis
    using b d(2) d(13,14) [of b] by (auto simp: partition_free_def give_back_def may_free_def Let_def)
qed

section \<open>A static partition is an allocator\<close>

definition part_ok :: "addr \<Rightarrow> parts \<Rightarrow> bool" where
  "part_ok p s \<longleftrightarrow> (\<exists>as fs. part_wf s p as fs) \<and> PARTITION_TYPE (PARTPOOLS s p) \<noteq> PARTITION_DYNAMIC"

definition part_live :: "addr \<Rightarrow> parts \<Rightarrow> addr set" where
  "part_live p s = {b + 12 | b as fs. part_wf s p as fs \<and> b \<in> set (blocks s p as) - set fs}"

definition part_avail :: "addr \<Rightarrow> parts \<Rightarrow> nat" where
  "part_avail p s = unat (AVAILABLE (PARTPOOLS s p))"

definition part_mine :: "parts \<Rightarrow> addr \<Rightarrow> bool" where
  "part_mine s q = may_free s (q - 12)"

text \<open>A request of the active task or of the system.\<close>

definition part_alloc :: "addr \<Rightarrow> bool \<Rightarrow> parts \<Rightarrow> (addr \<times> parts) option" where
  "part_alloc p system s = (if system then partition_alloc_system p s else partition_alloc p s)"

lemma part_live_wf: "part_wf s p as fs \<Longrightarrow> part_live p s = (\<lambda>b. b + 12) ` (set (blocks s p as) - set fs)"
  by (auto simp: part_live_def dest: part_wf_unique)

lemma part_alloc_law:
  assumes "part_ok p s"
  shows "\<exists>q s'. part_alloc p r s = Some (q, s') \<and> part_ok p s' \<and>
      (if q = NULL then part_live p s' = part_live p s \<and> part_avail p s' = part_avail p s
       else q \<notin> part_live p s \<and> part_live p s' = insert q (part_live p s) \<and> part_avail p s' + 1 = part_avail p s
         \<and> part_mine s' q) \<and> (q = NULL \<longleftrightarrow> part_avail p s = 0) \<and>
      (\<forall>q \<in> part_live p s. part_mine s' q = part_mine s q)"
proof -
  obtain as fs where wf: "part_wf s p as fs" and ty: "PARTITION_TYPE (PARTPOOLS s p) \<noteq> PARTITION_DYNAMIC"
    using assms by (auto simp: part_ok_def)
  define td where "td = (if r then SYSTEM_TASK_ID (LW s) else ACTIVE_TASK_ID (LW s))"
  have a: "part_alloc p r s = partition_alloc_internal p td s"
    by (simp add: part_alloc_def partition_alloc_def partition_alloc_system_def td_def)
  note d = part_wfD [OF wf]
  show ?thesis
  proof (cases fs)
    case Nil
    then have "part_alloc p r s = Some (NULL, part_error PARTITION_OUT_OF_BLOCKS s)"
      using alloc_none [of s p as td] wf ty a by simp
    moreover have "part_avail p s = 0" using d(8) Nil by (simp add: part_avail_def)
    moreover have "part_ok p (part_error PARTITION_OUT_OF_BLOCKS s)"
      unfolding part_ok_def using ty by (intro conjI exI [of _ as] exI [of _ fs]) (simp_all add: wf)
    ultimately show ?thesis
      by (simp add: part_live_def part_avail_def part_mine_def may_free_def blocks_def)
  next
    case (Cons f gs)
    define s' where "s' = partition_take p td f s"
    have wf': "part_wf s' p as gs" using partition_take_wf [of s p as f gs td] wf Cons by (simp add: s'_def)
    have f: "f \<in> set (blocks s p as)" "f \<notin> set gs" using d(5,6) Cons by auto
    have al: "aligned b" if "b \<in> set (blocks s p as)" for b using d(15) that by blast
    have bl: "blocks s' p as = blocks s p as" by (simp add: blocks_def s'_def partition_take_fields Let_def)
    have h: "may_free s' b \<longleftrightarrow> (if b = f then True else may_free s b)" if "aligned b" for b
      using partition_take_headers(2) [OF al [OF f(1)] that, of p td s]
      by (auto simp: may_free_def s'_def partition_take_fields td_def)
    have "unat (f + 12) = unat f + 12" using unat_slots(3) [OF al [OF f(1)]] .
    then have nz: "f + 12 \<noteq> NULL" by (metis add_is_0 unat_0 zero_neq_numeral)
    have ok: "part_ok p s'" using wf' ty by (auto simp: part_ok_def s'_def partition_take_fields Let_def)
    have al': "part_alloc p r s = Some (f + 12, s')" using alloc_takes [of s p as f gs td] wf a Cons by (simp add: s'_def)
    have live: "part_live p s' = insert (f + 12) (part_live p s)" "f + 12 \<notin> part_live p s"
      using f Cons by (auto simp: part_live_wf [OF wf] part_live_wf [OF wf'] bl)
    have av: "part_avail p s' + 1 = part_avail p s" "part_avail p s \<noteq> 0"
      using d(8) part_wfD(8) [OF wf'] Cons by (simp_all add: part_avail_def)
    have "part_mine s' q = part_mine s q" if "q \<in> part_live p s" for q
      using that h al Cons by (auto simp: part_live_wf [OF wf] part_mine_def)
    moreover have "part_mine s' (f + 12)" using h [OF al [OF f(1)]] by (simp add: part_mine_def)
    ultimately show ?thesis using al' ok live av nz by simp
  qed
qed

lemma part_release_law:
  assumes "part_ok p s" "q \<in> part_live p s" "part_mine s q"
  shows "\<exists>s'. partition_free q s = (MQX_OK, s') \<and> part_ok p s' \<and> part_live p s' = part_live p s - {q}
    \<and> part_avail p s' = part_avail p s + 1 \<and> (\<forall>r \<in> part_live p s - {q}. part_mine s' r = part_mine s r)"
proof -
  obtain as fs where wf: "part_wf s p as fs" and ty: "PARTITION_TYPE (PARTPOOLS s p) \<noteq> PARTITION_DYNAMIC"
    using assms(1) by (auto simp: part_ok_def)
  note d = part_wfD [OF wf]
  obtain b where b: "q = b + 12" "b \<in> set (blocks s p as)" "b \<notin> set fs" "may_free s b"
    using assms(2,3) by (auto simp: part_live_wf [OF wf] part_mine_def)
  define s' where "s' = give_back p b 0 s"
  have free: "partition_free (b + 12) s = (MQX_OK, s')" unfolding s'_def by (rule free_gives_back [OF wf b(2-4)])
  have wf': "part_wf s' p as (b # fs)" unfolding s'_def by (rule give_back_wf [OF wf b(2,3)])
  have bl: "blocks s' p as = blocks s p as" by (simp add: blocks_def s'_def)
  have "part_live p s' = part_live p s - {q}"
    using b by (auto simp: part_live_wf [OF wf] part_live_wf [OF wf'] bl)
  moreover have "part_avail p s' = part_avail p s + 1"
    using d(8) part_wfD(8) [OF wf'] by (simp add: part_avail_def)
  moreover have "part_mine s' r = part_mine s r" if r: "r \<in> part_live p s - {q}" for r
  proof -
    obtain c where c: "r = c + 12" "c \<in> set (blocks s p as)" "c \<noteq> b" using r b(1) by (auto simp: part_live_wf [OF wf])
    then show ?thesis using give_back_headers(2) [OF d(15) [OF b(2)] d(15) [OF c(2)]] by (simp add: part_mine_def may_free_def s'_def)
  qed
  moreover have "part_ok p s'" using wf' ty by (auto simp: part_ok_def s'_def)
  ultimately show ?thesis using free b(1) by simp
qed

interpretation part: allocator "part_ok p" "part_live p" "part_avail p" "\<lambda>_ _. 1" part_mine
  NULL "\<lambda>_. True" "part_alloc p" "\<lambda>q s. Some (partition_free q s)" for p
proof unfold_locales
  fix s r
  assume "part_ok p s"
  then show "\<exists>q s'. part_alloc p r s = Some (q, s') \<and> part_ok p s' \<and>
      (if q = NULL then part_live p s' = part_live p s \<and> part_avail p s' = part_avail p s
       else q \<notin> part_live p s \<and> part_live p s' = insert q (part_live p s) \<and> part_avail p s' + 1 = part_avail p s
         \<and> part_mine s' q) \<and> (\<forall>q \<in> part_live p s. 1 = (1::nat) \<and> part_mine s' q = part_mine s q)"
    using part_alloc_law [of p s r] by blast
next
  fix s q
  assume "part_ok p s" "q \<in> part_live p s" "part_mine s q"
  then show "\<exists>s'. Some (partition_free q s) = Some (MQX_OK, s') \<and> part_ok p s' \<and> part_live p s' = part_live p s - {q}
    \<and> part_avail p s' = part_avail p s + 1 \<and> (\<forall>r \<in> part_live p s - {q}. 1 = (1::nat) \<and> part_mine s' r = part_mine s r)"
    using part_release_law [of p s q] by simp
qed

text \<open>As many requests succeed as there are free blocks.\<close>

lemma part_alloc_all_length:
  "part_ok p s \<Longrightarrow> part.alloc_all p rs s = Some (ps, s') \<Longrightarrow> length ps = min (length rs) (part_avail p s)"
proof (induction rs arbitrary: s ps s')
  case (Cons r rs)
  obtain q s1 where q: "part_alloc p r s = Some (q, s1)" "part_ok p s1"
    "if q = NULL then part_avail p s1 = part_avail p s else part_avail p s1 + 1 = part_avail p s"
    "q = NULL \<longleftrightarrow> part_avail p s = 0"
    using part_alloc_law [OF Cons.prems(1), of r] by (auto split: if_splits)
  obtain qs where qs: "part.alloc_all p rs s1 = Some (qs, s')" "ps = (if q = NULL then qs else q # qs)"
    using Cons.prems(2) q(1) by (auto split: option.splits)
  show ?case using Cons.IH [OF q(2) qs(1)] qs(2) q(3,4) by (auto split: if_splits)
qed simp

section \<open>Creating a partition\<close>

lemma iblocks_range:
  "unat b + n * unat bs < 4294967296 \<Longrightarrow> x \<in> set (iblocks bs n b) \<Longrightarrow>
   unat b \<le> unat x \<and> unat x + unat bs \<le> unat b + n * unat bs"
proof (induction n arbitrary: b)
  case (Suc n)
  have u: "unat (b + bs) = unat b + unat bs" using Suc.prems(1) by (intro unat_add_noof32) simp
  show ?case
  proof (cases "x = b")
    case False
    then show ?thesis using Suc.IH [of "b + bs"] Suc.prems u by (auto simp: add.assoc)
  qed (simp add: add.assoc)
qed simp

lemma length_iblocks [simp]: "length (iblocks bs n b) = n"
  by (induction n arbitrary: b) auto

lemma iblocks_spaced:
  assumes "aligned b" "aligned bs" "16 \<le> unat bs" "b \<noteq> NULL" "unat b + n * unat bs < 4294967296"
  shows "spaced bs (iblocks bs n b)"
  using assms
proof (induction n arbitrary: b)
  case (Suc n)
  have u: "unat (b + bs) = unat b + unat bs" using Suc.prems(5) by (intro unat_add_noof32) simp
  then have "aligned (b + bs)" using Suc.prems(1,2,5) by (intro aligned_add) simp_all
  moreover have "b + bs \<noteq> NULL" using u Suc.prems(3) by (metis add_is_0 not_numeral_le_zero unat_0)
  moreover have le: "unat (b + bs) + n * unat bs < 4294967296" using u Suc.prems(5) by simp
  ultimately have IH: "spaced bs (iblocks bs n (b + bs))" using Suc.IH Suc.prems(2,3) by blast
  have r: "unat b + unat bs \<le> unat x" if "x \<in> set (iblocks bs n (b + bs))" for x
    using iblocks_range [OF le that] u by simp
  then have "b \<notin> set (iblocks bs n (b + bs))" using Suc.prems(3) by fastforce
  moreover have "unat b + unat bs < 4294967296" using u unat_lt32 [of "b + bs"] by simp
  ultimately show ?case using IH r Suc.prems(1,3,4) by (auto simp: spaced_def)
qed (simp add: spaced_def)

lemma spaced_rev [simp]: "spaced bs (rev xs) \<longleftrightarrow> spaced bs xs"
  by (simp add: spaced_def)

lemma link_block_fields [simp]:
  "AREAS (link_block p b s) = AREAS s" "PARTITIONS (link_block p b s) = PARTITIONS s"
  "PARTPOOLS (link_block p b s) q = (if q = p then (PARTPOOLS s p)\<lparr>FREE_LIST_PTR := b\<rparr> else PARTPOOLS s q)"
  "ACTIVE_TASK_ID (LW (link_block p b s)) = ACTIVE_TASK_ID (LW s)" "SYSTEM_TASK_ID (LW (link_block p b s)) = SYSTEM_TASK_ID (LW s)"
  by (simp_all add: link_block_def Let_def)

lemma link_block_headers:
  assumes "aligned b" "aligned c"
  shows "LINK (link_block p b s) c = (if c = b then FREE_LIST_PTR (PARTPOOLS s p) else LINK s c)"
    "TASK_ID (link_block p b s) c = TASK_ID s c"
    "CHECKSUM (link_block p b s) c = (if c = b then FREE_LIST_PTR (PARTPOOLS s p) + TASK_ID s b else CHECKSUM s c)"
  using assms by (simp_all add: link_block_def Let_def)

lemma create_blocks_fields:
  "AREAS (create_blocks p bs n b s) = AREAS s" "PARTITIONS (create_blocks p bs n b s) = PARTITIONS s"
  "ACTIVE_TASK_ID (LW (create_blocks p bs n b s)) = ACTIVE_TASK_ID (LW s)"
  "SYSTEM_TASK_ID (LW (create_blocks p bs n b s)) = SYSTEM_TASK_ID (LW s)"
  "BLOCK_SIZE (PARTPOOLS (create_blocks p bs n b s) q) = BLOCK_SIZE (PARTPOOLS s q)"
  "AVAILABLE (PARTPOOLS (create_blocks p bs n b s) q) = AVAILABLE (PARTPOOLS s q)"
  "TOTAL_BLOCKS (PARTPOOLS (create_blocks p bs n b s) q) = TOTAL_BLOCKS (PARTPOOLS s q)"
  "MAX_BLOCKS_USED (PARTPOOLS (create_blocks p bs n b s) q) = MAX_BLOCKS_USED (PARTPOOLS s q)"
  by (induction n arbitrary: b s) simp_all

lemma create_blocks_spec:
  assumes "spaced bs (iblocks bs n b)" "lpath (LINK s) (FREE_LIST_PTR (PARTPOOLS s p)) fs"
    and "\<forall>x \<in> set fs. aligned x \<and> x \<notin> set (iblocks bs n b)"
  shows "lpath (LINK (create_blocks p bs n b s)) (FREE_LIST_PTR (PARTPOOLS (create_blocks p bs n b s) p)) (rev (iblocks bs n b) @ fs)
    \<and> (\<forall>c. aligned c \<longrightarrow> (c \<in> set (iblocks bs n b) \<longrightarrow> VALID_PARTITION_CHECKSUM c (create_blocks p bs n b s))
        \<and> (c \<notin> set (iblocks bs n b) \<longrightarrow> LINK (create_blocks p bs n b s) c = LINK s c
          \<and> CHECKSUM (create_blocks p bs n b s) c = CHECKSUM s c) \<and> TASK_ID (create_blocks p bs n b s) c = TASK_ID s c)"
  using assms
proof (induction n arbitrary: b s fs)
  case (Suc n)
  let ?s = "link_block p b s"
  have b: "aligned b" "b \<noteq> NULL" "b \<notin> set (iblocks bs n (b + bs))" "spaced bs (iblocks bs n (b + bs))"
    using Suc.prems(1) by (auto simp: spaced_def)
  have "lpath (LINK ?s) (FREE_LIST_PTR (PARTPOOLS s p)) fs"
    using Suc.prems(2,3) b(1) lpath_cong [of fs "LINK s" "LINK ?s"] by (auto simp: link_block_headers)
  then have "lpath (LINK ?s) (FREE_LIST_PTR (PARTPOOLS ?s p)) (b # fs)"
    using b(1,2) by (simp add: link_block_headers)
  moreover have "\<forall>x \<in> set (b # fs). aligned x \<and> x \<notin> set (iblocks bs n (b + bs))" using Suc.prems(3) b(1,3) by simp
  ultimately have IH: "lpath (LINK (create_blocks p bs n (b + bs) ?s)) (FREE_LIST_PTR (PARTPOOLS (create_blocks p bs n (b + bs) ?s) p))
      (rev (iblocks bs n (b + bs)) @ b # fs)"
    "\<And>c. aligned c \<Longrightarrow> (c \<in> set (iblocks bs n (b + bs)) \<longrightarrow> VALID_PARTITION_CHECKSUM c (create_blocks p bs n (b + bs) ?s))
        \<and> (c \<notin> set (iblocks bs n (b + bs)) \<longrightarrow> LINK (create_blocks p bs n (b + bs) ?s) c = LINK ?s c
          \<and> CHECKSUM (create_blocks p bs n (b + bs) ?s) c = CHECKSUM ?s c)
        \<and> TASK_ID (create_blocks p bs n (b + bs) ?s) c = TASK_ID ?s c"
    using Suc.IH [OF b(4), of ?s "b # fs"] by blast+
  show ?case
  proof (intro conjI allI impI)
    show "lpath (LINK (create_blocks p bs (Suc n) b s)) (FREE_LIST_PTR (PARTPOOLS (create_blocks p bs (Suc n) b s) p))
      (rev (iblocks bs (Suc n) b) @ fs)" using IH(1) by simp
  next
    fix c
    assume "aligned c" "c \<in> set (iblocks bs (Suc n) b)"
    then show "VALID_PARTITION_CHECKSUM c (create_blocks p bs (Suc n) b s)"
      using IH(2) [of c] b(1,3) by (auto simp: VALID_PARTITION_CHECKSUM_def link_block_headers)
  next
    fix c
    assume "aligned c" "c \<notin> set (iblocks bs (Suc n) b)"
    then show "LINK (create_blocks p bs (Suc n) b s) c = LINK s c" "CHECKSUM (create_blocks p bs (Suc n) b s) c = CHECKSUM s c"
      using IH(2) [of c] b(1) by (auto simp: link_block_headers)
  next
    fix c
    assume "aligned c"
    then show "TASK_ID (create_blocks p bs (Suc n) b s) c = TASK_ID s c"
      using IH(2) [of c] b(1) by (auto simp: link_block_headers)
  qed
qed simp


text \<open>How far the first block lies behind the start of the region.\<close>

definition create_offset :: "addr \<Rightarrow> u32" where
  "create_offset loc = ALIGN_ADDR_TO_HIGHER_MEM (ALIGN_ADDR_TO_HIGHER_MEM loc + 60) - loc"

lemma unat_align_up:
  "unat x + 15 < 4294967296 \<Longrightarrow> unat (ALIGN_ADDR_TO_HIGHER_MEM x) = (unat x + 15) div 16 * 16"
  unfolding ALIGN_ADDR_TO_HIGHER_MEM_def and_mask_unat by (subst unat_add_noof32) simp_all

lemma aligned_up [simp]: "aligned (ALIGN_ADDR_TO_HIGHER_MEM x)"
  by (simp add: ALIGN_ADDR_TO_HIGHER_MEM_def)

lemma unat_align_larger:
  "unat x + 15 < 4294967296 \<Longrightarrow> unat (MEMORY_ALIGN_VAL_LARGER x) = (unat x + 15) div 16 * 16"
  unfolding MEMORY_ALIGN_VAL_LARGER_def and_mask_unat by (subst unat_add_noof32) simp_all

lemma aligned_larger [simp]: "aligned (MEMORY_ALIGN_VAL_LARGER x)"
  by (simp add: MEMORY_ALIGN_VAL_LARGER_def)

lemma create_offset_unat:
  assumes "unat loc + 90 < 4294967296"
  shows "unat (ALIGN_ADDR_TO_HIGHER_MEM loc) = (unat loc + 15) div 16 * 16"
    "unat (ALIGN_ADDR_TO_HIGHER_MEM (ALIGN_ADDR_TO_HIGHER_MEM loc + 60)) = (unat loc + 15) div 16 * 16 + 64"
    "unat (create_offset loc) = (unat loc + 15) div 16 * 16 + 64 - unat loc"
proof -
  show a: "unat (ALIGN_ADDR_TO_HIGHER_MEM loc) = (unat loc + 15) div 16 * 16"
    using assms by (intro unat_align_up) simp
  have le: "(unat loc + 15) div 16 * 16 \<le> unat loc + 15" by simp
  have s: "unat (ALIGN_ADDR_TO_HIGHER_MEM loc + 60) = (unat loc + 15) div 16 * 16 + 60"
    using a le assms by (subst unat_add_noof32) simp_all
  have "unat (ALIGN_ADDR_TO_HIGHER_MEM (ALIGN_ADDR_TO_HIGHER_MEM loc + 60)) = ((unat loc + 15) div 16 * 16 + 75) div 16 * 16"
    using s le assms by (subst unat_align_up) simp_all
  also have "\<dots> = (unat loc + 15) div 16 * 16 + 64" by presburger
  finally show b: "unat (ALIGN_ADDR_TO_HIGHER_MEM (ALIGN_ADDR_TO_HIGHER_MEM loc + 60)) = (unat loc + 15) div 16 * 16 + 64" .
  have "unat loc \<le> (unat loc + 15) div 16 * 16" by presburger
  then show "unat (create_offset loc) = (unat loc + 15) div 16 * 16 + 64 - unat loc"
    using b unfolding create_offset_def by (subst unat_sub_noof) simp_all
qed

text \<open>What \<open>_partition_create_internal\<close> leaves when its region does not wrap around.\<close>

lemma create_internal_spec:
  fixes p bs n s
  defines "b \<equiv> ALIGN_ADDR_TO_HIGHER_MEM (p + 60)"
  assumes comp: "PARTITIONS s = Some ps" and bs: "aligned bs" "16 \<le> unat bs" and n: "n \<noteq> 0" and p: "p \<noteq> NULL" "PPOOL p \<noteq> NULL"
    and b: "b \<noteq> NULL" "unat b + unat n * unat bs < 4294967296" "unat p < unat b"
  obtains s' where "partition_create_internal p bs n s = Some (MQX_OK, s')" "part_wf s' p [PPOOL p] (rev (iblocks bs (unat n) b))"
    "blocks s' p [PPOOL p] = iblocks bs (unat n) b" "PARTITIONS s' = Some (ps @ [p])" "BLOCK_SIZE (PARTPOOLS s' p) = bs"
proof -
  define s1 where "s1 = upd_area (PPOOL p) (\<lambda>_. \<lparr>NEXT_POOL_PTR = NULL, PA_VALID = PARTITION_VALID,
      NUMBER_OF_BLOCKS = n, FIRST_IBLOCK_PTR = b\<rparr>) (upd_partpool p (\<lambda>_. \<lparr>BLOCK_SIZE = bs, AVAILABLE = n, FREE_LIST_PTR = NULL,
        TOTAL_BLOCKS = n, MAX_BLOCKS_USED = 0, GROW_BLOCKS = 0, MAXIMUM_BLOCKS = 0, PARTITION_TYPE = 0, TEST_FREE_PTR = NULL\<rparr>) s)"
  define s2 where "s2 = create_blocks p bs (unat n) b s1"
  define s' where "s' = s2\<lparr>PARTITIONS := Some (ps @ [p])\<rparr>"
  have ex: "partition_create_internal p bs n s = Some (MQX_OK, s')"
    using comp by (simp add: partition_create_internal_def s'_def s2_def s1_def b_def Let_def create_blocks_fields)
  have sp: "spaced bs (iblocks bs (unat n) b)"
    using bs b by (intro iblocks_spaced) (simp_all add: b_def)
  have A: "AREAS s' (PPOOL p) = \<lparr>NEXT_POOL_PTR = NULL, PA_VALID = PARTITION_VALID, NUMBER_OF_BLOCKS = n, FIRST_IBLOCK_PTR = b\<rparr>"
    by (simp add: s'_def s2_def create_blocks_fields s1_def)
  have P: "BLOCK_SIZE (PARTPOOLS s' p) = bs" "AVAILABLE (PARTPOOLS s' p) = n" "TOTAL_BLOCKS (PARTPOOLS s' p) = n"
    "MAX_BLOCKS_USED (PARTPOOLS s' p) = 0"
    by (simp_all add: s'_def s2_def create_blocks_fields s1_def)
  have bl: "blocks s' p [PPOOL p] = iblocks bs (unat n) b" by (simp add: blocks_def area_blocks_def A P)
  have "lpath (LINK s1) (FREE_LIST_PTR (PARTPOOLS s1 p)) []" by (simp add: s1_def)
  from create_blocks_spec [OF sp this] have c: "lpath (LINK s2) (FREE_LIST_PTR (PARTPOOLS s2 p)) (rev (iblocks bs (unat n) b))"
    "\<And>c. aligned c \<Longrightarrow> c \<in> set (iblocks bs (unat n) b) \<Longrightarrow> VALID_PARTITION_CHECKSUM c s2"
    by (simp_all add: s2_def)
  have np: "p \<notin> set (iblocks bs (unat n) b)"
    using iblocks_range [OF b(2), of p] b(3) by auto
  have "part_wf s' p [PPOOL p] (rev (iblocks bs (unat n) b))"
    unfolding part_wf_def bl P
  proof (intro conjI)
    show "lpath (LINK s') (FREE_LIST_PTR (PARTPOOLS s' p)) (rev (iblocks bs (unat n) b))" using c(1) by (simp add: s'_def)
    show "\<forall>x \<in> set (iblocks bs (unat n) b). VALID_PARTITION_CHECKSUM x s' \<and>
        (x \<notin> set (rev (iblocks bs (unat n) b)) \<longrightarrow> LINK s' x = p)"
      using c(2) sp by (auto simp: spaced_def s'_def VALID_PARTITION_CHECKSUM_def)
  qed (use sp np p n A in \<open>auto simp: spaced_def pvalid_def\<close>)
  then show thesis using that ex bl P(1) by (simp add: s'_def)
qed


section \<open>Cleaning up\<close>

lemma set_TASK_ID_same: "set_TASK_ID b (TASK_ID s b) s = s"
  by (simp add: set_TASK_ID_def on_lw_def wr_def TASK_ID_def)

lemma lpath_next: "lpath L x xs \<Longrightarrow> y \<in> set xs \<Longrightarrow> L y = NULL \<or> L y \<in> set xs"
proof (induction xs arbitrary: x)
  case (Cons a xs)
  then show ?case by (cases xs) auto
qed simp

text \<open>The blocks of a list that the task \<open>td\<close> holds.\<close>

definition held :: "parts \<Rightarrow> u32 \<Rightarrow> addr list \<Rightarrow> addr list \<Rightarrow> addr list" where
  "held s td fs xs = filter (\<lambda>b. TASK_ID s b = td \<and> b \<notin> set fs) xs"

text \<open>What the loops change: headers of the blocks of \<open>p\<close> but no owner, and the free list of \<open>p\<close>.\<close>

definition cleaned :: "addr \<Rightarrow> addr set \<Rightarrow> parts \<Rightarrow> parts \<Rightarrow> bool" where
  "cleaned p B s s' \<longleftrightarrow> AREAS s' = AREAS s \<and> PARTITIONS s' = PARTITIONS s
     \<and> (\<forall>q. q \<noteq> p \<longrightarrow> PARTPOOLS s' q = PARTPOOLS s q) \<and> BLOCK_SIZE (PARTPOOLS s' p) = BLOCK_SIZE (PARTPOOLS s p)
     \<and> (\<forall>c. aligned c \<longrightarrow> TASK_ID s' c = TASK_ID s c \<and> (c \<notin> B \<longrightarrow> LINK s' c = LINK s c \<and> CHECKSUM s' c = CHECKSUM s c))"

lemma cleaned_refl: "cleaned p B s s"
  by (simp add: cleaned_def)

lemma cleaned_trans: "cleaned p B s s' \<Longrightarrow> cleaned p B s' s'' \<Longrightarrow> cleaned p B s s''"
  unfolding cleaned_def by metis

lemma cleaned_give_back:
  assumes "aligned b" "b \<in> B"
  shows "cleaned p B s (give_back p b (TASK_ID s b) s)"
  using assms give_back_headers [OF assms(1)] by (auto simp: cleaned_def)

lemma cleanup_blocks_wf:
  assumes "part_wf s p as fs" "set xs \<subseteq> set (blocks s p as)" "distinct xs" "xs = iblocks (BLOCK_SIZE (PARTPOOLS s p)) n b"
  shows "part_wf (cleanup_blocks p td n b s) p as (rev (held s td fs xs) @ fs)
    \<and> cleaned p (set (blocks s p as)) s (cleanup_blocks p td n b s)"
  using assms
proof (induction n arbitrary: s b fs xs)
  case 0
  then show ?case by (simp add: held_def cleaned_refl)
next
  case (Suc n)
  define ys where "ys = iblocks (BLOCK_SIZE (PARTPOOLS s p)) n (b + BLOCK_SIZE (PARTPOOLS s p))"
  have xs: "xs = b # ys" using Suc.prems(4) by (simp add: ys_def)
  note d = part_wfD [OF Suc.prems(1)]
  have b: "b \<in> set (blocks s p as)" "aligned b" using Suc.prems(2) d(15) by (auto simp: xs)
  have cond: "TASK_ID s b = td \<and> LINK s b = p \<longleftrightarrow> TASK_ID s b = td \<and> b \<notin> set fs"
  proof -
    have "LINK s b \<noteq> p" if "b \<in> set fs" using lpath_next [OF d(7) that] d(1,4,6) by auto
    then show ?thesis using d(14) [OF b(1)] by auto
  qed
  define s1 where "s1 = (if TASK_ID s b = td \<and> b \<notin> set fs then give_back p b (TASK_ID s b) s else s)"
  define gs where "gs = (if TASK_ID s b = td \<and> b \<notin> set fs then b # fs else fs)"
  have step: "cleanup_blocks p td (Suc n) b s = cleanup_blocks p td n (b + BLOCK_SIZE (PARTPOOLS s p)) s1"
    using cond by (auto simp: s1_def Let_def give_back_def set_TASK_ID_same)
  have wf1: "part_wf s1 p as gs" using give_back_wf [OF Suc.prems(1) b(1)] Suc.prems(1) by (simp add: s1_def gs_def)
  have cl1: "cleaned p (set (blocks s p as)) s s1"
    unfolding s1_def by (auto simp only: cleaned_give_back [OF b(2,1)] cleaned_refl split: if_split)
  have same: "blocks s1 p as = blocks s p as" "BLOCK_SIZE (PARTPOOLS s1 p) = BLOCK_SIZE (PARTPOOLS s p)"
    using cl1 by (simp_all add: cleaned_def blocks_def)
  have ysp: "set ys \<subseteq> set (blocks s1 p as)" "distinct ys" "b \<notin> set ys" using Suc.prems(2,3) same by (auto simp: xs)
  have IH: "part_wf (cleanup_blocks p td n (b + BLOCK_SIZE (PARTPOOLS s p)) s1) p as (rev (held s1 td gs ys) @ gs)
    \<and> cleaned p (set (blocks s1 p as)) s1 (cleanup_blocks p td n (b + BLOCK_SIZE (PARTPOOLS s p)) s1)"
    by (rule Suc.IH [OF wf1 ysp(1,2)]) (simp add: ys_def same)
  have "held s1 td gs ys = held s td fs ys"
    unfolding held_def
  proof (rule filter_cong [OF refl])
    fix x
    assume "x \<in> set ys"
    then have "aligned x" "x \<noteq> b" using ysp same d(15) by auto
    then show "(TASK_ID s1 x = td \<and> x \<notin> set gs) = (TASK_ID s x = td \<and> x \<notin> set fs)"
      using cl1 by (simp add: cleaned_def gs_def)
  qed
  moreover have "rev (held s td fs xs) @ fs = rev (held s td fs ys) @ gs" by (simp add: held_def xs gs_def)
  ultimately show ?case using IH cleaned_trans [OF cl1] step same(1) by simp
qed

lemma cleanup_areas_wf:
  assumes "part_wf s p as0 fs" "achain (AREAS s) a as" "\<forall>a \<in> set as. PA_VALID (AREAS s a) = PARTITION_VALID"
    and "set (blocks s p as) \<subseteq> set (blocks s p as0)" "distinct (blocks s p as)"
  shows "\<exists>s'. cleanup_areas p td a s = Some s' \<and> part_wf s' p as0 (rev (held s td fs (blocks s p as)) @ fs)
    \<and> cleaned p (set (blocks s p as0)) s s'"
  using assms
proof (induction as arbitrary: a s fs)
  case Nil
  then show ?case by (simp add: cleanup_areas.simps held_def blocks_def cleaned_refl)
next
  case (Cons x as)
  define xs where "xs = area_blocks (BLOCK_SIZE (PARTPOOLS s p)) (AREAS s x)"
  have bl: "blocks s p (x # as) = xs @ blocks s p as" by (simp add: blocks_def xs_def)
  define s1 where "s1 = cleanup_blocks p td (unat (NUMBER_OF_BLOCKS (AREAS s x))) (FIRST_IBLOCK_PTR (AREAS s x)) s"
  have 1: "part_wf s1 p as0 (rev (held s td fs xs) @ fs) \<and> cleaned p (set (blocks s p as0)) s s1"
    unfolding s1_def
    by (rule cleanup_blocks_wf [OF Cons.prems(1)])
      (use Cons.prems(4,5) in \<open>simp_all add: bl, simp add: xs_def area_blocks_def\<close>)
  then have A: "AREAS s1 = AREAS s" and same: "blocks s1 p bs = blocks s p bs" for bs by (simp_all add: cleaned_def blocks_def)
  have step: "cleanup_areas p td a s = cleanup_areas p td (NEXT_POOL_PTR (AREAS s x)) s1"
  proof -
    have "a = x" "x \<noteq> NULL" "PA_VALID (AREAS s x) = PARTITION_VALID" using Cons.prems(2,3) by auto
    then show ?thesis by (subst cleanup_areas.simps) (simp add: s1_def)
  qed
  have "\<exists>s'. cleanup_areas p td (NEXT_POOL_PTR (AREAS s x)) s1 = Some s'
    \<and> part_wf s' p as0 (rev (held s1 td (rev (held s td fs xs) @ fs) (blocks s1 p as)) @ rev (held s td fs xs) @ fs)
    \<and> cleaned p (set (blocks s1 p as0)) s1 s'"
    using Cons.prems 1 by (intro Cons.IH) (auto simp: A same bl)
  then obtain s' where s': "cleanup_areas p td a s = Some s'" "cleaned p (set (blocks s p as0)) s1 s'"
    "part_wf s' p as0 (rev (held s1 td (rev (held s td fs xs) @ fs) (blocks s p as)) @ rev (held s td fs xs) @ fs)"
    unfolding step same by blast
  have "held s1 td (rev (held s td fs xs) @ fs) (blocks s p as) = held s td fs (blocks s p as)"
    unfolding held_def
  proof (rule filter_cong [OF refl])
    fix c
    assume c: "c \<in> set (blocks s p as)"
    then have "aligned c" "c \<notin> set xs" using part_wfD(15) [OF Cons.prems(1)] Cons.prems(4,5) by (auto simp: bl)
    then show "(TASK_ID s1 c = td \<and> c \<notin> set (rev (filter (\<lambda>b. TASK_ID s b = td \<and> b \<notin> set fs) xs) @ fs)) =
      (TASK_ID s c = td \<and> c \<notin> set fs)"
      using 1 by (auto simp: cleaned_def)
  qed
  then have "part_wf s' p as0 (rev (held s td fs (blocks s p (x # as))) @ fs)"
    using s'(3) by (simp add: bl held_def)
  then show ?case using s'(1) cleaned_trans [OF _ s'(2)] 1 by blast
qed


lemma cleanup_partition:
  assumes wf: "part_wf s p as fs"
  shows "\<exists>s'. cleanup_areas p td (PPOOL p) s = Some s' \<and> part_wf s' p as (rev (held s td fs (blocks s p as)) @ fs)
    \<and> cleaned p (set (blocks s p as)) s s'"
  using cleanup_areas_wf [OF wf, of "PPOOL p" as td] wf by (simp add: part_wf_def spaced_def)

text \<open>A partition that the change of another one leaves alone.\<close>

lemma part_wf_cleaned:
  assumes wf: "part_wf s q as fs" and cl: "cleaned p B s s'" and "q \<noteq> p" "set (blocks s q as) \<inter> B = {}"
  shows "part_wf s' q as fs" "blocks s' q as = blocks s q as" "held s' td fs (blocks s q as) = held s td fs (blocks s q as)"
proof -
  note d = part_wfD [OF wf]
  have q: "PARTPOOLS s' q = PARTPOOLS s q" "AREAS s' = AREAS s" using cl assms(3) by (simp_all add: cleaned_def)
  have h: "LINK s' b = LINK s b" "CHECKSUM s' b = CHECKSUM s b" "TASK_ID s' b = TASK_ID s b" if "b \<in> set (blocks s q as)" for b
    using cl d(15) [OF that] that assms(4) by (auto simp: cleaned_def)
  show "part_wf s' q as fs"
  proof (rule part_wfI [OF wf q(2)])
    have "LINK s x = LINK s' x" if "x \<in> set fs" for x using h(1) [of x] that d(6) by auto
    then show "lpath (LINK s') (FREE_LIST_PTR (PARTPOOLS s' q)) fs"
      using d(7) q(1) lpath_cong [of fs "LINK s" "LINK s'"] by simp
  qed (use d h q(1) in \<open>simp_all add: VALID_PARTITION_CHECKSUM_def\<close>)
  show "blocks s' q as = blocks s q as" by (simp add: blocks_def q)
  show "held s' td fs (blocks s q as) = held s td fs (blocks s q as)"
    unfolding held_def using h(3) by (intro filter_cong) simp_all
qed

lemma cleanup_partitions_wf:
  assumes "distinct ps" "\<forall>p \<in> set ps. part_wf s p (As p) (Fs p)"
    and "\<forall>p \<in> set ps. \<forall>q \<in> set ps. p \<noteq> q \<longrightarrow> set (blocks s p (As p)) \<inter> set (blocks s q (As q)) = {}"
  shows "\<exists>s'. cleanup_partitions td ps s = Some s'
    \<and> (\<forall>p \<in> set ps. part_wf s' p (As p) (rev (held s td (Fs p) (blocks s p (As p))) @ Fs p))
    \<and> (\<forall>q as fs. q \<notin> set ps \<longrightarrow> part_wf s q as fs \<longrightarrow> (\<forall>p \<in> set ps. set (blocks s q as) \<inter> set (blocks s p (As p)) = {}) \<longrightarrow>
        part_wf s' q as fs)"
  using assms
proof (induction ps arbitrary: s)
  case (Cons p ps)
  obtain s1 where s1: "cleanup_areas p td (PPOOL p) s = Some s1"
    "part_wf s1 p (As p) (rev (held s td (Fs p) (blocks s p (As p))) @ Fs p)" "cleaned p (set (blocks s p (As p))) s s1"
    using cleanup_partition [of s p "As p" "Fs p" td] Cons.prems(2) by auto
  have np: "p \<notin> set ps" using Cons.prems(1) by simp
  have blp: "blocks s1 p as = blocks s p as" for as using s1(3) by (simp add: cleaned_def blocks_def)
  have o: "part_wf s1 q (As q) (Fs q)" "blocks s1 q (As q) = blocks s q (As q)"
    "held s1 td (Fs q) (blocks s q (As q)) = held s td (Fs q) (blocks s q (As q))" if "q \<in> set ps" for q
    using part_wf_cleaned [OF _ s1(3), of q "As q" "Fs q"] that np Cons.prems(2,3) by auto
  have "\<exists>s'. cleanup_partitions td ps s1 = Some s'
    \<and> (\<forall>p \<in> set ps. part_wf s' p (As p) (rev (held s1 td (Fs p) (blocks s1 p (As p))) @ Fs p))
    \<and> (\<forall>q as fs. q \<notin> set ps \<longrightarrow> part_wf s1 q as fs \<longrightarrow> (\<forall>p \<in> set ps. set (blocks s1 q as) \<inter> set (blocks s1 p (As p)) = {}) \<longrightarrow>
        part_wf s' q as fs)"
    using Cons.prems o by (intro Cons.IH) simp_all
  then obtain s' where s': "cleanup_partitions td ps s1 = Some s'"
    "\<forall>p \<in> set ps. part_wf s' p (As p) (rev (held s1 td (Fs p) (blocks s1 p (As p))) @ Fs p)"
    "\<And>q as fs. q \<notin> set ps \<Longrightarrow> part_wf s1 q as fs \<Longrightarrow> (\<forall>p \<in> set ps. set (blocks s1 q as) \<inter> set (blocks s1 p (As p)) = {}) \<Longrightarrow>
        part_wf s' q as fs"
    by blast
  show ?case
  proof (intro exI conjI ballI allI impI)
    show "cleanup_partitions td (p # ps) s = Some s'" using s1(1) s'(1) by simp
  next
    fix q
    assume q: "q \<in> set (p # ps)"
    show "part_wf s' q (As q) (rev (held s td (Fs q) (blocks s q (As q))) @ Fs q)"
    proof (cases "q = p")
      case True
      have "set (blocks s1 p (As p)) \<inter> set (blocks s1 r (As r)) = {}" if "r \<in> set ps" for r
        using that np Cons.prems(3) o(2) [OF that] by (auto simp: blp)
      then show ?thesis using s'(3) [OF np s1(2)] True by blast
    next
      case False
      then have "q \<in> set ps" using q by simp
      then show ?thesis using s'(2) o by simp
    qed
  next
    fix q as fs
    assume q: "q \<notin> set (p # ps)" "part_wf s q as fs" "\<forall>p \<in> set (p # ps). set (blocks s q as) \<inter> set (blocks s p (As p)) = {}"
    then have "part_wf s1 q as fs" "blocks s1 q as = blocks s q as" using part_wf_cleaned [OF _ s1(3)] by simp_all
    then show "part_wf s' q as fs" using s'(3) [of q as fs] q o(2) by simp
  qed
qed simp

section \<open>Properties\<close>

text \<open>A partition of three free blocks of 32 bytes; and the same when task 1 has taken the first.\<close>

definition demo_parts0 :: parts where
  "demo_parts0 = \<lparr>LW = demo_pool\<lparr>ACTIVE_TASK_ID := 1, SYSTEM_TASK_ID := 0x10000\<rparr>,
     PARTPOOLS = \<lambda>_. \<lparr>BLOCK_SIZE = 0, AVAILABLE = 0, FREE_LIST_PTR = 0, TOTAL_BLOCKS = 0, MAX_BLOCKS_USED = 0,
       GROW_BLOCKS = 0, MAXIMUM_BLOCKS = 0, PARTITION_TYPE = 0, TEST_FREE_PTR = 0\<rparr>,
     AREAS = \<lambda>_. \<lparr>NEXT_POOL_PTR = 0, PA_VALID = 0, NUMBER_OF_BLOCKS = 0, FIRST_IBLOCK_PTR = 0\<rparr>, PARTITIONS = Some []\<rparr>"

definition demo_part :: parts where
  "demo_part = (create_blocks 0x2000 32 3 0x2040
     (upd_area 0x202C (\<lambda>_. \<lparr>NEXT_POOL_PTR = 0, PA_VALID = PARTITION_VALID, NUMBER_OF_BLOCKS = 3, FIRST_IBLOCK_PTR = 0x2040\<rparr>)
       (upd_partpool 0x2000 (\<lambda>P. P\<lparr>BLOCK_SIZE := 32, AVAILABLE := 3, TOTAL_BLOCKS := 3, PARTITION_TYPE := PARTITION_STATIC\<rparr>)
         demo_parts0)))\<lparr>PARTITIONS := Some [0x2000]\<rparr>"

lemma aligned_numerals [simp]: "aligned 0x2040" "aligned 0x2060" "aligned 0x2080"
  by (simp_all add: aligned_def)

lemma demo_part_fields:
  "PARTPOOLS demo_part 0x2000 = \<lparr>BLOCK_SIZE = 32, AVAILABLE = 3, FREE_LIST_PTR = 0x2080, TOTAL_BLOCKS = 3, MAX_BLOCKS_USED = 0,
     GROW_BLOCKS = 0, MAXIMUM_BLOCKS = 0, PARTITION_TYPE = PARTITION_STATIC, TEST_FREE_PTR = 0\<rparr>"
  "AREAS demo_part 0x202C = \<lparr>NEXT_POOL_PTR = 0, PA_VALID = PARTITION_VALID, NUMBER_OF_BLOCKS = 3, FIRST_IBLOCK_PTR = 0x2040\<rparr>"
  "PARTITIONS demo_part = Some [0x2000]" "ACTIVE_TASK_ID (LW demo_part) = 1" "SYSTEM_TASK_ID (LW demo_part) = 0x10000"
  by (simp_all add: demo_part_def demo_parts0_def numeral_3_eq_3)

lemma demo_part_blocks: "blocks demo_part 0x2000 [0x202C] = [0x2040, 0x2060, 0x2080]"
  by (simp add: blocks_def area_blocks_def demo_part_fields) (simp add: numeral_3_eq_3)

lemma demo_part_headers:
  "LINK demo_part 0x2040 = 0" "LINK demo_part 0x2060 = 0x2040" "LINK demo_part 0x2080 = 0x2060"
  "b \<in> {0x2040, 0x2060, 0x2080} \<Longrightarrow> CHECKSUM demo_part b = LINK demo_part b + TASK_ID demo_part b"
  by (auto simp: demo_part_def demo_parts0_def numeral_3_eq_3 link_block_headers)

lemma demo_part_wf: "part_wf demo_part 0x2000 [0x202C] [0x2080, 0x2060, 0x2040]"
  by (simp add: part_wf_def demo_part_blocks pvalid_def PPOOL_def demo_part_fields spaced_def demo_part_headers
      VALID_PARTITION_CHECKSUM_def)

lemma demo_part_ok: "part_ok 0x2000 demo_part"
  unfolding part_ok_def using demo_part_wf by (auto simp: demo_part_fields)

definition demo_part1 :: parts where
  "demo_part1 = partition_take 0x2000 1 0x2080 demo_part"

lemma demo_part1_wf: "part_wf demo_part1 0x2000 [0x202C] [0x2060, 0x2040]"
  unfolding demo_part1_def by (rule partition_take_wf [OF demo_part_wf])

lemma demo_part1_fields:
  "blocks demo_part1 0x2000 [0x202C] = [0x2040, 0x2060, 0x2080]" "TASK_ID demo_part1 0x2080 = 1"
  "PARTITIONS demo_part1 = Some [0x2000]" "ACTIVE_TASK_ID (LW demo_part1) = 1" "SYSTEM_TASK_ID (LW demo_part1) = 0x10000"
  "b \<in> {0x2040, 0x2060} \<Longrightarrow> TASK_ID demo_part1 b = TASK_ID demo_part b"
  using demo_part_blocks
  by (auto simp: demo_part1_def blocks_def partition_take_fields Let_def partition_take_headers demo_part_fields)

text \<open>
  C12. Allocating from a partition: when a block is free, the head of the free list goes to the active
  task, marked with its owner and its partition, the partition stays well formed and no other block
  changes; a static partition without a free block returns \<open>NULL\<close> and sets the task error.
\<close>

theorem partition_alloc_correct:
  assumes "part_wf s p as fs" "fs = [] \<longrightarrow> PARTITION_TYPE (PARTPOOLS s p) \<noteq> PARTITION_DYNAMIC"
  shows "case fs of [] \<Rightarrow> partition_alloc p s = Some (NULL, part_error PARTITION_OUT_OF_BLOCKS s)
    | f # gs \<Rightarrow> (\<exists>s'. partition_alloc p s = Some (f + 12, s') \<and> part_wf s' p as gs
        \<and> TASK_ID s' f = ACTIVE_TASK_ID (LW s) \<and> LINK s' f = p
        \<and> (\<forall>b \<in> set (blocks s p as) - {f}. LINK s' b = LINK s b \<and> CHECKSUM s' b = CHECKSUM s b \<and> TASK_ID s' b = TASK_ID s b))"
proof (cases fs)
  case Nil
  then show ?thesis using alloc_none [of s p as "ACTIVE_TASK_ID (LW s)"] assms by (simp add: partition_alloc_def)
next
  case (Cons f gs)
  let ?s = "partition_take p (ACTIVE_TASK_ID (LW s)) f s"
  note d = part_wfD [OF assms(1)]
  have "f \<in> set (blocks s p as)" using d(6) Cons by simp
  then have "TASK_ID ?s f = ACTIVE_TASK_ID (LW s)" "LINK ?s f = p"
    "\<forall>b \<in> set (blocks s p as) - {f}. LINK ?s b = LINK s b \<and> CHECKSUM ?s b = CHECKSUM s b \<and> TASK_ID ?s b = TASK_ID s b"
    using partition_take_headers [OF d(15)] d(15) by auto
  then show ?thesis
    using alloc_takes [of s p as f gs] partition_take_wf [of s p as f gs] assms(1) Cons by (auto simp: partition_alloc_def)
qed

theorem partition_alloc_correct_witness:
  "\<exists>s'. partition_alloc 0x2000 demo_part = Some (0x208C, s') \<and> part_wf s' 0x2000 [0x202C] [0x2060, 0x2040] \<and> TASK_ID s' 0x2080 = 1"
  using partition_alloc_correct [OF demo_part_wf] by (auto simp: demo_part_fields)

text \<open>
  Clearing a block: \<open>_partition_alloc_zero\<close> clears the words of the block it returns and no word outside it.
\<close>

theorem partition_alloc_zero_clears:
  assumes "part_wf s p as (f # fs)"
  shows "\<exists>s'. partition_alloc_zero p s = Some (f + 12, s')
    \<and> (\<forall>i < (unat (BLOCK_SIZE (PARTPOOLS s p)) - 12) div 4. MEM (LW s') (f + 12 + of_nat (4 * i)) = 0)
    \<and> (\<forall>a. unat a < unat f \<or> unat f + unat (BLOCK_SIZE (PARTPOOLS s p)) \<le> unat a \<longrightarrow> MEM (LW s') a = MEM (LW s) a)"
proof -
  note d = part_wfD [OF assms]
  let ?bs = "BLOCK_SIZE (PARTPOOLS s p)"
  define s1 where "s1 = partition_take p (ACTIVE_TASK_ID (LW s)) f s"
  have f: "f \<in> set (blocks s p as)" using d(6) by simp
  then have al: "aligned f" and b: "16 \<le> unat ?bs" "unat f + unat ?bs < 4294967296"
    using d(3) d(15) by (auto simp: spaced_def)
  have u: "unat (f + 12) = unat f + 12" "unat (?bs - 12) = unat ?bs - 12"
    using unat_slots(3) [OF al] b(1) by (simp_all add: unat_sub_noof)
  then have nz: "f + 12 \<noteq> NULL" by (metis add_is_0 unat_0 zero_neq_numeral)
  have bs: "BLOCK_SIZE (PARTPOOLS s1 p) = ?bs" by (simp add: s1_def partition_take_fields Let_def)
  have ex: "partition_alloc_zero p s = Some (f + 12, on_lw (mem_zero (f + 12) (?bs - 12)) s1)"
    using alloc_takes [OF assms, of "ACTIVE_TASK_ID (LW s)"] nz bs by (simp add: partition_alloc_zero_def clear_block_def s1_def)
  moreover have "MEM (mem_zero (f + 12) (?bs - 12) (LW s1)) (f + 12 + of_nat (4 * i)) = 0" if "i < (unat ?bs - 12) div 4" for i
  proof -
    have "4 * ((unat ?bs - 12) div 4) \<le> unat ?bs - 12" by simp
    then have "unat (f + 12) + 4 * ((unat ?bs - 12) div 4) < 4294967296" using b u(1) by linarith
    from zero_words_in [OF this that] show ?thesis by (simp add: mem_zero_def unat_drop2 u(2))
  qed
  moreover have "MEM (mem_zero (f + 12) (?bs - 12) (LW s1)) a = MEM (LW s) a"
    if "unat a < unat f \<or> unat f + unat ?bs \<le> unat a" for a
  proof -
    have "MEM (mem_zero (f + 12) (?bs - 12) (LW s1)) a = MEM (LW s1) a"
      using that b u by (intro mem_zero_other) auto
    moreover have "a \<noteq> f" "a \<noteq> f + 4" "a \<noteq> f + 8" using that b(1) unat_slots(1,2) [OF al] by auto
    then have "MEM (LW s1) a = MEM (LW s) a"
      by (simp add: s1_def partition_take_def Let_def set_TASK_ID_def set_LINK_def CALC_PARTITION_CHECKSUM_def wr_def)
    ultimately show ?thesis by simp
  qed
  ultimately show ?thesis by auto
qed

theorem partition_alloc_zero_clears_witness:
  "\<exists>s'. partition_alloc_zero 0x2000 demo_part = Some (0x208C, s') \<and> MEM (LW s') 0x2090 = 0"
proof -
  obtain s' where s': "partition_alloc_zero 0x2000 demo_part = Some (0x2080 + 12, s')"
    "\<forall>i < (unat (BLOCK_SIZE (PARTPOOLS demo_part 0x2000)) - 12) div 4. MEM (LW s') (0x2080 + 12 + of_nat (4 * i)) = 0"
    using partition_alloc_zero_clears [OF demo_part_wf] by blast
  have "1 < (unat (BLOCK_SIZE (PARTPOOLS demo_part 0x2000)) - 12) div 4" by (simp add: demo_part_fields)
  then have "MEM (LW s') (0x2080 + 12 + of_nat (4 * 1)) = 0" using s'(2) by blast
  then show ?thesis using s'(1) by simp
qed

text \<open>
  C11. Nothing leaks from a static partition: any sequence of requests, of the active task and of the system, gets
  different blocks that were not live, exactly as many as there were free ones, and freeing these in any order succeeds
  and restores the live blocks and the number of free ones.
\<close>

theorem partition_no_leak:
  assumes "part_ok p s"
  shows "\<exists>qs s'. part.alloc_all p rs s = Some (qs, s') \<and> distinct qs \<and> set qs \<inter> part_live p s = {}
    \<and> length qs = min (length rs) (part_avail p s)
    \<and> (\<forall>us. mset us = mset qs \<longrightarrow> (\<exists>s''. part.release_all us s' = Some s'' \<and> part_ok p s''
        \<and> part_live p s'' = part_live p s \<and> part_avail p s'' = part_avail p s))"
proof -
  have f: "\<forall>r \<in> set rs. True" by simp
  obtain qs s' where a: "part.alloc_all p rs s = Some (qs, s')" "distinct qs" "set qs \<inter> part_live p s = {}"
    using part.alloc_all_law [OF assms f] by blast
  moreover have "length qs = min (length rs) (part_avail p s)" by (rule part_alloc_all_length [OF assms a(1)])
  ultimately show ?thesis using part.no_leak [OF assms f a(1)] by blast
qed

theorem partition_no_leak_witness:
  "\<exists>qs s'. part.alloc_all 0x2000 [False, True, False, False] demo_part = Some (qs, s') \<and> distinct qs \<and> length qs = 3
    \<and> (\<exists>s''. part.release_all (rev qs) s' = Some s'' \<and> part_avail 0x2000 s'' = 3)"
proof -
  have a: "part_avail 0x2000 demo_part = 3" by (simp add: part_avail_def demo_part_fields)
  obtain qs s' where q: "part.alloc_all 0x2000 [False, True, False, False] demo_part = Some (qs, s')" "distinct qs"
    "length qs = min 4 (part_avail 0x2000 demo_part)"
    "\<forall>us. mset us = mset qs \<longrightarrow> (\<exists>s''. part.release_all us s' = Some s'' \<and> part_ok 0x2000 s''
        \<and> part_live 0x2000 s'' = part_live 0x2000 demo_part \<and> part_avail 0x2000 s'' = part_avail 0x2000 demo_part)"
    using partition_no_leak [OF demo_part_ok, of "[False, True, False, False]"] by auto
  have "mset (rev qs) = mset qs" by simp
  then obtain s'' where "part.release_all (rev qs) s' = Some s''" "part_avail 0x2000 s'' = 3" using q(4) a by metis
  moreover have "length qs = 3" using q(3) a by simp
  ultimately show ?thesis using q(1,2) by blast
qed

text \<open>
  A block cannot be freed twice: after \<open>_partition_free\<close> has succeeded for it, a second call finds a block
  without owner, returns \<open>MQX_NOT_RESOURCE_OWNER\<close> and changes nothing.
\<close>

theorem partition_double_free:
  assumes "part_wf s p as fs" "b \<in> set (blocks s p as)" "b \<notin> set fs" "may_free s b"
    and "ACTIVE_TASK_ID (LW s) \<noteq> 0" "SYSTEM_TASK_ID (LW s) \<noteq> 0"
  shows "\<exists>s'. partition_free (b + 12) s = (MQX_OK, s') \<and> part_wf s' p as (b # fs)
    \<and> partition_free (b + 12) s' = (MQX_NOT_RESOURCE_OWNER, s')"
proof (intro exI conjI)
  have al: "aligned b" using part_wfD(15) [OF assms(1,2)] .
  show "partition_free (b + 12) s = (MQX_OK, give_back p b 0 s)" by (rule free_gives_back [OF assms(1-4)])
  show "part_wf (give_back p b 0 s) p as (b # fs)" by (rule give_back_wf [OF assms(1-3)])
  show "partition_free (b + 12) (give_back p b 0 s) = (MQX_NOT_RESOURCE_OWNER, give_back p b 0 s)"
    using assms(5,6) give_back_headers [OF al al, of p 0 s] by (simp add: partition_free_def VALID_PARTITION_CHECKSUM_def)
qed


theorem partition_double_free_witness:
  "\<exists>s'. partition_free 0x208C demo_part1 = (MQX_OK, s') \<and> partition_free 0x208C s' = (MQX_NOT_RESOURCE_OWNER, s')"
proof -
  have "\<exists>s'. partition_free (0x2080 + 12) demo_part1 = (MQX_OK, s') \<and> part_wf s' 0x2000 [0x202C] (0x2080 # [0x2060, 0x2040])
    \<and> partition_free (0x2080 + 12) s' = (MQX_NOT_RESOURCE_OWNER, s')"
    by (rule partition_double_free [OF demo_part1_wf]) (simp_all add: demo_part1_fields may_free_def)
  then show ?thesis by auto
qed

lemma align_up_ge: "unat x + 15 < 4294967296 \<Longrightarrow> unat x \<le> unat (ALIGN_ADDR_TO_HIGHER_MEM x)"
  by (simp add: unat_align_up)

lemma larger_bounds:
  assumes "bs \<noteq> 0" "unat bs + 27 < 4294967296"
  shows "16 \<le> unat (MEMORY_ALIGN_VAL_LARGER (bs + 12))" "unat bs + 12 \<le> unat (MEMORY_ALIGN_VAL_LARGER (bs + 12))"
proof -
  have u: "unat (bs + 12) = unat bs + 12" using assms(2) by (subst unat_add_noof32) simp_all
  have "unat (MEMORY_ALIGN_VAL_LARGER (bs + 12)) = (unat bs + 27) div 16 * 16"
    using u assms(2) by (subst unat_align_larger) simp_all
  moreover have "unat bs \<noteq> 0" using assms(1) by (simp add: unat_eq_zero)
  ultimately show "16 \<le> unat (MEMORY_ALIGN_VAL_LARGER (bs + 12))" "unat bs + 12 \<le> unat (MEMORY_ALIGN_VAL_LARGER (bs + 12))"
    by presburger+
qed

lemma PPOOL_nonzero: "aligned p \<Longrightarrow> PPOOL p \<noteq> NULL"
proof
  assume "aligned p" "PPOOL p = NULL"
  then have "unat p mod 16 = 0" "p = - 44" by (simp_all add: aligned_def PPOOL_def eq_neg_iff_add_eq_0)
  then show False by simp
qed

text \<open>The call of \<open>_partition_create_at\<close> behind its checks.\<close>

lemma create_at_unfold:
  fixes loc sz bs
  assumes "bs \<noteq> 0" "60 \<le> sz"
  defines "n \<equiv> (sz - create_offset loc) div MEMORY_ALIGN_VAL_LARGER (bs + 12)"
  shows "partition_create_at loc sz bs s = (if n = 0 then Some (NULL, s) else
    (case partition_create_internal (ALIGN_ADDR_TO_HIGHER_MEM loc) (MEMORY_ALIGN_VAL_LARGER (bs + 12)) n s of
       None \<Rightarrow> None
     | Some (result, s) \<Rightarrow>
         if result \<noteq> MQX_OK then Some (NULL, s)
         else Some (ALIGN_ADDR_TO_HIGHER_MEM loc, upd_partpool (ALIGN_ADDR_TO_HIGHER_MEM loc) (\<lambda>P. P\<lparr>PARTITION_TYPE := PARTITION_STATIC\<rparr>) s)))"
proof -
  have "\<not> sz < 60" using assms(2) by (simp only: not_less)
  then show ?thesis using assms(1) by (simp add: partition_create_at_def Let_def n_def create_offset_def)
qed

lemma part_wf_static:
  "part_wf (upd_partpool p (\<lambda>P. P\<lparr>PARTITION_TYPE := t\<rparr>) s) p as fs \<longleftrightarrow> part_wf s p as fs"
  by (simp add: part_wf_def blocks_def pvalid_def VALID_PARTITION_CHECKSUM_def)

lemma create_at_fits:
  fixes loc sz bs
  defines "size' \<equiv> MEMORY_ALIGN_VAL_LARGER (bs + 12)" and "p \<equiv> ALIGN_ADDR_TO_HIGHER_MEM loc"
  assumes comp: "PARTITIONS s = Some ps" and bs: "bs \<noteq> 0" "unat bs + 27 < 4294967296"
    and loc: "loc \<noteq> NULL" "unat loc + 90 < 4294967296" "unat loc + unat sz < 4294967296"
    and fits: "unat (create_offset loc) + unat size' \<le> unat sz"
  obtains s' fs where "partition_create_at loc sz bs s = Some (p, s')" "part_wf s' p [PPOOL p] fs" "part_ok p s'"
    "length fs = (unat sz - unat (create_offset loc)) div unat size'" "set fs = set (blocks s' p [PPOOL p])"
    "\<And>b. b \<in> set fs \<Longrightarrow> unat loc + 60 \<le> unat b \<and> unat b + unat size' \<le> unat loc + unat sz"
    "BLOCK_SIZE (PARTPOOLS s' p) = size'" "PARTITIONS s' = Some (ps @ [p])"
proof -
  define n where "n = (sz - create_offset loc) div size'"
  define b where "b = ALIGN_ADDR_TO_HIGHER_MEM (p + 60)"
  note off = create_offset_unat [OF loc(2), folded p_def, folded b_def]
  have l: "unat loc \<le> (unat loc + 15) div 16 * 16" "0 < (unat loc + 15) div 16 * 16"
    using loc(1) unat_gt_0 [of loc] by presburger+
  have sz: "16 \<le> unat size'" using larger_bounds(1) [OF bs] by (simp add: size'_def)
  have ge: "unat (create_offset loc) \<le> unat sz" using fits by simp
  have un: "unat n = (unat sz - unat (create_offset loc)) div unat size'"
    using ge by (simp add: n_def unat_div unat_sub_noof)
  have "unat size' \<le> unat sz - unat (create_offset loc)" using fits by simp
  then have "unat n \<noteq> 0" using sz unfolding un by (simp add: div_eq_0_iff)
  then have n0: "n \<noteq> 0" by (metis unat_0)
  have "unat n * unat size' \<le> unat sz - unat (create_offset loc)" unfolding un by simp
  then have nb: "unat b + unat n * unat size' \<le> unat loc + unat sz" using off(2,3) ge l(1) by linarith
  have "60 \<le> unat sz" using ge off(3) l(1) by linarith
  then have sz60: "60 \<le> sz" by (simp add: word_le_nat_alt)
  have p: "p \<noteq> NULL" "aligned p" using off(1) l(2) by (auto simp: p_def)
  have pb: "unat p < unat b" "b \<noteq> NULL" using off(1,2) by auto
  have al: "aligned size'" by (simp add: size'_def)
  have lt: "unat b + unat n * unat size' < 4294967296" using nb loc(3) by simp
  obtain s1 where s1: "partition_create_internal p size' n s = Some (MQX_OK, s1)"
    "part_wf s1 p [PPOOL p] (rev (iblocks size' (unat n) b))" "blocks s1 p [PPOOL p] = iblocks size' (unat n) b"
    "PARTITIONS s1 = Some (ps @ [p])" "BLOCK_SIZE (PARTPOOLS s1 p) = size'"
    by (rule create_internal_spec [OF comp al sz n0 p(1) PPOOL_nonzero [OF p(2)], folded b_def, OF pb(2) lt pb(1)])
  define s' where "s' = upd_partpool p (\<lambda>P. P\<lparr>PARTITION_TYPE := PARTITION_STATIC\<rparr>) s1"
  have ex: "partition_create_at loc sz bs s = Some (p, s')"
    using create_at_unfold [OF bs(1) sz60, of loc s] n0 s1(1) by (simp add: n_def size'_def p_def s'_def)
  have wf: "part_wf s' p [PPOOL p] (rev (iblocks size' (unat n) b))" using s1(2) by (simp add: s'_def part_wf_static)
  have bl: "blocks s' p [PPOOL p] = iblocks size' (unat n) b" using s1(3) by (simp add: s'_def blocks_def)
  have "part_ok p s'" unfolding part_ok_def using wf by (auto simp: s'_def)
  moreover have "unat loc + 60 \<le> unat x \<and> unat x + unat size' \<le> unat loc + unat sz"
    if "x \<in> set (rev (iblocks size' (unat n) b))" for x
    using iblocks_range [of b "unat n" size' x] that nb loc(3) off(2) l(1) by simp
  ultimately show thesis
    using that [OF ex wf] bl un s1(4,5) by (simp add: s'_def)
qed

text \<open>
  C14. Creating a static partition: when the region holds the header and a block, \<open>_partition_create_at\<close> makes a
  well-formed partition of as many blocks as fit behind the aligned header, all of them free and inside
  the region.
\<close>

theorem partition_create_at_establishes:
  assumes "PARTITIONS s = Some ps" "bs \<noteq> 0" "unat bs + 27 < 4294967296"
    and "loc \<noteq> NULL" "unat loc + 90 < 4294967296" "unat loc + unat sz < 4294967296"
    and "unat (create_offset loc) + unat (MEMORY_ALIGN_VAL_LARGER (bs + 12)) \<le> unat sz"
  shows "\<exists>s' fs. partition_create_at loc sz bs s = Some (ALIGN_ADDR_TO_HIGHER_MEM loc, s')
    \<and> part_wf s' (ALIGN_ADDR_TO_HIGHER_MEM loc) [PPOOL (ALIGN_ADDR_TO_HIGHER_MEM loc)] fs
    \<and> set fs = set (blocks s' (ALIGN_ADDR_TO_HIGHER_MEM loc) [PPOOL (ALIGN_ADDR_TO_HIGHER_MEM loc)])
    \<and> length fs = (unat sz - unat (create_offset loc)) div unat (MEMORY_ALIGN_VAL_LARGER (bs + 12))
    \<and> (\<forall>b \<in> set fs. unat loc + 60 \<le> unat b \<and> unat b + unat (MEMORY_ALIGN_VAL_LARGER (bs + 12)) \<le> unat loc + unat sz)"
  using create_at_fits [OF assms] by metis

theorem partition_create_at_establishes_witness:
  "\<exists>s' fs. partition_create_at 0x2004 160 20 demo_parts0 = Some (0x2010, s') \<and> part_wf s' 0x2010 [PPOOL 0x2010] fs \<and> length fs = 2"
proof -
  have e: "create_offset 0x2004 = 76" "MEMORY_ALIGN_VAL_LARGER (20 + 12) = 32" "ALIGN_ADDR_TO_HIGHER_MEM 0x2004 = 0x2010"
    by (simp_all add: create_offset_def ALIGN_ADDR_TO_HIGHER_MEM_def MEMORY_ALIGN_VAL_LARGER_def)
  have "\<exists>s' fs. partition_create_at 0x2004 160 20 demo_parts0 = Some (ALIGN_ADDR_TO_HIGHER_MEM 0x2004, s')
    \<and> part_wf s' (ALIGN_ADDR_TO_HIGHER_MEM 0x2004) [PPOOL (ALIGN_ADDR_TO_HIGHER_MEM 0x2004)] fs
    \<and> set fs = set (blocks s' (ALIGN_ADDR_TO_HIGHER_MEM 0x2004) [PPOOL (ALIGN_ADDR_TO_HIGHER_MEM 0x2004)])
    \<and> length fs = (unat (160 :: u32) - unat (create_offset 0x2004)) div unat (MEMORY_ALIGN_VAL_LARGER (20 + 12))
    \<and> (\<forall>b \<in> set fs. unat (0x2004 :: u32) + 60 \<le> unat b
        \<and> unat b + unat (MEMORY_ALIGN_VAL_LARGER (20 + 12)) \<le> unat (0x2004 :: u32) + unat (160 :: u32))"
    by (rule partition_create_at_establishes [where ps = "[]"]) (simp_all only: e, simp_all add: demo_parts0_def)
  then show ?thesis unfolding e by auto
qed

lemma pad_up:
  fixes x :: nat
  shows "x \<le> (x + 15) div 16 * 16" "(x + 15) div 16 * 16 - x = (16 - x mod 16) mod 16"
    "(x + 15) div 16 * 16 - x \<le> 15" "11 < (x + 15) div 16 * 16 - x \<longleftrightarrow> x mod 16 \<in> {1..4}"
proof -
  define q where "q = x div 16"
  define d where "d = x mod 16"
  have x: "x = 16 * q + d" "d < 16" by (simp_all add: q_def d_def)
  have "(16 * q + d + 15) div 16 = q + (d + 15) div 16" by simp
  moreover have "(d + 15) div 16 = (if d = 0 then 0 else 1)" using x(2) by auto
  ultimately have u: "(x + 15) div 16 * 16 = 16 * q + (if d = 0 then 0 else 16)" by (simp add: x(1))
  show "x \<le> (x + 15) div 16 * 16" unfolding u using x by simp
  show "(x + 15) div 16 * 16 - x = (16 - x mod 16) mod 16" unfolding u using x by (auto simp: d_def [symmetric])
  show "(x + 15) div 16 * 16 - x \<le> 15" unfolding u using x by auto
  show "11 < (x + 15) div 16 * 16 - x \<longleftrightarrow> x mod 16 \<in> {1..4}" unfolding u d_def [symmetric] using x by auto
qed



text \<open>
  \<open>_partition_calculate_size\<close> allows for a misaligned region only in part: a partition created in a region of the size it
  gives for \<open>n\<close> blocks has \<open>n\<close> blocks, but one less when the region starts at an address that is 1 to 4 modulo 16.
\<close>

theorem partition_calculate_size_blocks:
  assumes "PARTITIONS s = Some ps" "bs \<noteq> 0" "unat bs + 27 < 4294967296" "loc \<noteq> NULL" "2 \<le> unat n"
    and "unat loc + 90 + unat n * unat (MEMORY_ALIGN_VAL_LARGER (bs + 12)) < 4294967296"
  shows "\<exists>s'. partition_create_at loc (partition_calculate_size n bs) bs s = Some (ALIGN_ADDR_TO_HIGHER_MEM loc, s')
    \<and> partition_get_free_blocks (ALIGN_ADDR_TO_HIGHER_MEM loc) s' =
        (if unat loc mod 16 \<in> {1..4} then n - 1 else n, s')"
proof -
  define size' where "size' = MEMORY_ALIGN_VAL_LARGER (bs + 12)"
  define p where "p = ALIGN_ADDR_TO_HIGHER_MEM loc"
  have "unat loc + 90 < 4294967296" using assms(6) by simp
  note off = create_offset_unat [OF this]
  define pad where "pad = (unat loc + 15) div 16 * 16 - unat loc"
  have "unat (create_offset loc) = 64 + pad" using off(3) pad_up(1) [of "unat loc"] unfolding pad_def by linarith
  moreover have "pad \<le> 15" "11 < pad \<longleftrightarrow> unat loc mod 16 \<in> {1..4}" unfolding pad_def by (rule pad_up)+
  ultimately have pad: "unat (create_offset loc) = 64 + pad" "pad \<le> 15" "unat loc mod 16 \<in> {1..4} \<longleftrightarrow> 11 < pad" by blast+
  have sz: "16 \<le> unat size'" using larger_bounds(1) [OF assms(2,3)] by (simp add: size'_def)
  have m: "unat (size' * n) = unat n * unat size'"
    using assms(6) by (subst unat_mult_noof) (simp_all add: size'_def mult.commute)
  have calc: "unat (partition_calculate_size n bs) = 75 + unat n * unat size'"
  proof -
    have "partition_calculate_size n bs = 75 + size' * n" by (simp add: partition_calculate_size_def size'_def add.commute)
    then show ?thesis using m assms(6) by (simp add: size'_def) (subst unat_add_noof32, simp_all)
  qed
  have two: "2 * unat size' \<le> unat n * unat size'" using assms(5) by (intro mult_right_mono) simp_all
  have fits: "unat (create_offset loc) + unat size' \<le> unat (partition_calculate_size n bs)"
    using two sz pad(1,2) unfolding calc by linarith
  have wrap: "unat loc + 90 < 4294967296" "unat loc + unat (partition_calculate_size n bs) < 4294967296"
    using assms(6) by (simp_all add: calc size'_def)
  obtain s' fs where s': "partition_create_at loc (partition_calculate_size n bs) bs s = Some (p, s')"
    "part_wf s' p [PPOOL p] fs"
    "length fs = (unat (partition_calculate_size n bs) - unat (create_offset loc)) div unat size'"
    using create_at_fits [OF assms(1-4) wrap, folded size'_def, folded p_def] fits by metis
  have len: "length fs = (75 + unat n * unat size' - (64 + pad)) div unat size'" using s'(3) by (simp only: calc pad(1))
  have "length fs = (if unat loc mod 16 \<in> {1..4} then unat n - 1 else unat n)"
  proof (cases "11 < pad")
    case True
    have "unat n * unat size' = (unat n - 1) * unat size' + unat size'"
      using assms(5) by (metis Suc_diff_1 add.commute less_le_trans mult_Suc zero_less_numeral)
    then have "75 + unat n * unat size' - (64 + pad) = (unat size' - (pad - 11)) + (unat n - 1) * unat size'"
      using True sz pad(2) by linarith
    moreover have "unat size' - (pad - 11) < unat size'" using True sz by simp
    ultimately show ?thesis using True pad(3) sz unfolding len by simp
  next
    case False
    then have "75 + unat n * unat size' - (64 + pad) = (11 - pad) + unat n * unat size'" by simp
    then have "length fs = (11 - pad + unat n * unat size') div unat size'" unfolding len by (rule arg_cong)
    also have "\<dots> = unat n" using sz by (subst div_mult_self1) simp_all
    finally show ?thesis using False pad(3) by auto
  qed
  then have "unat (AVAILABLE (PARTPOOLS s' p)) = (if unat loc mod 16 \<in> {1..4} then unat n - 1 else unat n)"
    using part_wfD(8) [OF s'(2)] by simp
  moreover have "unat (n - 1) = unat n - 1" using assms(5) by (intro unat_minus_one) auto
  ultimately have "AVAILABLE (PARTPOOLS s' p) = (if unat loc mod 16 \<in> {1..4} then n - 1 else n)"
    by (simp add: word_unat_eq_iff split: if_splits)
  then show ?thesis using s'(1) part_wfD(2) [OF s'(2)] by (simp add: partition_get_free_blocks_def p_def)
qed

theorem partition_calculate_size_blocks_witness:
  "\<exists>s'. partition_create_at 0x2004 (partition_calculate_size 3 20) 20 demo_parts0 = Some (0x2010, s')
    \<and> partition_get_free_blocks 0x2010 s' = (2, s')"
proof -
  have e: "MEMORY_ALIGN_VAL_LARGER (20 + 12) = 32" "ALIGN_ADDR_TO_HIGHER_MEM 0x2004 = 0x2010"
    by (simp_all add: ALIGN_ADDR_TO_HIGHER_MEM_def MEMORY_ALIGN_VAL_LARGER_def)
  have "\<exists>s'. partition_create_at 0x2004 (partition_calculate_size 3 20) 20 demo_parts0 = Some (ALIGN_ADDR_TO_HIGHER_MEM 0x2004, s')
    \<and> partition_get_free_blocks (ALIGN_ADDR_TO_HIGHER_MEM 0x2004) s' =
        (if unat (0x2004 :: u32) mod 16 \<in> {1..4} then 3 - 1 else 3, s')"
    by (rule partition_calculate_size_blocks [where ps = "[]"]) (simp_all only: e, simp_all add: demo_parts0_def)
  then show ?thesis unfolding e by auto
qed

text \<open>
  C13. Cleaning up after a task: in every partition exactly the blocks that the task holds become free, whatever their
  number, and all partitions stay well formed.
\<close>

theorem partition_cleanup_releases:
  assumes "PARTITIONS s = Some ps" "distinct ps" "\<forall>p \<in> set ps. part_wf s p (As p) (Fs p)"
    and "\<forall>p \<in> set ps. \<forall>q \<in> set ps. p \<noteq> q \<longrightarrow> set (blocks s p (As p)) \<inter> set (blocks s q (As q)) = {}"
  shows "\<exists>s'. partition_cleanup td s = Some s'
    \<and> (\<forall>p \<in> set ps. part_wf s' p (As p)
        (rev (filter (\<lambda>b. TASK_ID s b = td \<and> b \<notin> set (Fs p)) (blocks s p (As p))) @ Fs p))"
  using cleanup_partitions_wf [OF assms(2-4), of td] assms(1) by (auto simp: partition_cleanup_def held_def)

theorem partition_cleanup_releases_witness:
  "\<exists>s' fs. partition_cleanup 1 demo_part1 = Some s' \<and> part_wf s' 0x2000 [0x202C] fs \<and> 0x2080 \<in> set fs"
proof -
  have "\<exists>s'. partition_cleanup 1 demo_part1 = Some s' \<and> (\<forall>p \<in> set [0x2000]. part_wf s' p [0x202C]
      (rev (filter (\<lambda>b. TASK_ID demo_part1 b = 1 \<and> b \<notin> set [0x2060, 0x2040]) (blocks demo_part1 p [0x202C])) @ [0x2060, 0x2040]))"
    by (rule partition_cleanup_releases [where As = "\<lambda>_. [0x202C]" and Fs = "\<lambda>_. [0x2060, 0x2040]"])
      (simp_all add: demo_part1_fields demo_part1_wf)
  then obtain s' where "partition_cleanup 1 demo_part1 = Some s'" "part_wf s' 0x2000 [0x202C]
      (rev (filter (\<lambda>b. TASK_ID demo_part1 b = 1 \<and> b \<notin> set [0x2060, 0x2040]) (blocks demo_part1 0x2000 [0x202C])) @ [0x2060, 0x2040])"
    by auto
  then show ?thesis by (intro exI conjI) (assumption, assumption, simp add: demo_part1_fields)
qed

end
