(* ===== verification/Kernel.thy ===== *)
theory Kernel
  imports Ticks
begin

text \<open>
  The kernel state and the scheduling primitives: task descriptors, ready queues, the timeout
  queue and the queues of waiting tasks, with the macros of
  \<^verbatim>\<open>src/mqx/source/include/mqx_prv.h\<close>, the dispatcher of
  \<^verbatim>\<open>src/mqx/source/psp/cortex_m/core/M4/dispatch.S\<close>, and the task lookup and error
  functions of \<^verbatim>\<open>src/mqx/source/kernel/task.c\<close>.

  A task descriptor is named by its address. The rings that the descriptors are linked into
  are the lists of their members (theory \<open>Queue\<close> shows that the pointer operations implement
  the list operations). The ready queues are numbered by their priority: the source keeps them
  in an array in which a higher priority (a smaller number) has the higher address, so
  comparing \<open>READY_Q_STRUCT\<close> pointers is comparing numbers the other way round.

  A queue of waiting tasks is named by the address of its \<open>TD_QUEUE\<close> header, the address a
  blocked task keeps in \<open>INFO\<close>. Interrupt masking (\<open>TASK_SR\<close>, \<open>ACTIVE_SR\<close>,
  \<open>DISABLED_LEVEL\<close>) is not modelled: each operation is one atomic step.
\<close>

section \<open>Constants\<close>

abbreviation (input) IS_BLOCKED :: u32 where "IS_BLOCKED \<equiv> 0x001"
abbreviation (input) IS_ON_TIMEOUT_Q :: u32 where "IS_ON_TIMEOUT_Q \<equiv> 0x100"
abbreviation (input) TD_IS_ON_QUEUE :: u32 where "TD_IS_ON_QUEUE \<equiv> 0x200"
abbreviation (input) TD_IS_ON_AUX_QUEUE :: u32 where "TD_IS_ON_AUX_QUEUE \<equiv> 0x400"
abbreviation (input) READY :: u32 where "READY \<equiv> 0x002"
abbreviation (input) BLOCKED :: u32 where "BLOCKED \<equiv> 0x003"
abbreviation (input) TASK_QUEUE_BLOCKED :: u32 where "TASK_QUEUE_BLOCKED \<equiv> 0x229"
abbreviation (input) MUTEX_BLOCKED :: u32 where "MUTEX_BLOCKED \<equiv> 0x223"
abbreviation (input) LWSEM_BLOCKED :: u32 where "LWSEM_BLOCKED \<equiv> 0x42B"
abbreviation (input) LWEVENT_BLOCKED :: u32 where "LWEVENT_BLOCKED \<equiv> 0x42D"
abbreviation (input) LWMSGQ_READ_BLOCKED :: u32 where "LWMSGQ_READ_BLOCKED \<equiv> 0x431"
abbreviation (input) LWMSGQ_WRITE_BLOCKED :: u32 where "LWMSGQ_WRITE_BLOCKED \<equiv> 0x433"

abbreviation (input) MQX_TIME_SLICE_TASK :: u32 where "MQX_TIME_SLICE_TASK \<equiv> 0x4"
abbreviation (input) TASK_LWEVENT_ALL_BITS_WANTED :: u32 where "TASK_LWEVENT_ALL_BITS_WANTED \<equiv> 0x80"
abbreviation (input) TASK_PREEMPTION_DISABLED :: u32 where "TASK_PREEMPTION_DISABLED \<equiv> 0x1000"
abbreviation (input) TASK_PRIORITY_BOOSTED :: u32 where "TASK_PRIORITY_BOOSTED \<equiv> 0x8000"

abbreviation (input) MQX_NULL_TASK_ID :: u32 where "MQX_NULL_TASK_ID \<equiv> 0"
abbreviation (input) MQX_DEFAULT_TASK_ID :: u32 where "MQX_DEFAULT_TASK_ID \<equiv> 0xFFFFFFFF"
abbreviation (input) MQX_SCHED_FIFO :: u32 where "MQX_SCHED_FIFO \<equiv> 1"
abbreviation (input) MQX_SCHED_RR :: u32 where "MQX_SCHED_RR \<equiv> 2"

section \<open>State\<close>

record td =
  STATE :: u32
  TASK_ID :: u32
  MY_QUEUE :: nat
  HOME_QUEUE :: nat
  FLAGS :: u32
  INFO :: addr
  TIMEOUT :: tick_struct
  BOOSTED :: u32
  TASK_ERROR_CODE :: mqx_code
  LWEVENT_BITS :: u32
  TIME_SLICE :: tick_struct
  CURRENT_TIME_SLICE :: tick_struct

text \<open>
  \<open>LWSEM_STRUCT\<close>, \<open>TASK_QUEUE_STRUCT\<close>, \<open>LWEVENT_STRUCT\<close> and \<open>LWMSGQ_STRUCT\<close> without their
  links and queue headers; \<open>SEM_VALUE\<close> is a signed \<open>_mqx_int\<close>, read with \<open>sint\<close>.
\<close>

record lwsem =
  SEM_VALID :: u32
  SEM_VALUE :: u32

record task_queue =
  TQ_VALID :: u32
  TQ_POLICY :: u32

record lwevent =
  EV_VALID :: u32
  EV_VALUE :: u32
  EV_FLAGS :: u32
  EV_AUTO :: u32

record lwmsgq =
  MQ_VALID :: u32
  MQ_MSG_SIZE :: u32
  MQ_MAX_SIZE :: u32
  MQ_CURRENT_SIZE :: u32
  MQ_WRITE_LOC :: addr
  MQ_READ_LOC :: addr
  MQ_START_LOC :: addr
  MQ_END_LOC :: addr

text \<open>\<open>MUTEX_STRUCT\<close>; its priority ceiling is a priority, so a natural number like the others.\<close>

record mutex =
  MX_PROTOCOLS :: u32
  MX_VALID :: u32
  MX_PRIORITY_CEILING :: nat
  MX_COUNT :: u32
  MX_LOCK :: u8
  MX_OWNER_TD :: addr
  MX_BOOSTED :: u32

text \<open>
  \<open>INTERRUPT_CONTEXT\<close> is the stack of error codes of the nested interrupt contexts, innermost
  first; \<open>WAITQ\<close> maps the address of a header of waiting tasks to the tasks on it; \<open>MEM\<close> is the
  memory that messages are copied from and to, by word addresses. \<open>MUTEX_COMPONENT\<close> is the
  validation stamp of the mutex component, \<open>None\<close> before it is created.
\<close>

record kernel =
  TDS :: "addr \<Rightarrow> td"
  TD_LIST :: "addr list"
  SYSTEM_TD :: addr
  READYQ :: "nat \<Rightarrow> addr list"
  CURRENT_READY_Q :: nat
  LOWEST_TASK_PRIORITY :: nat
  ACTIVE_PTR :: addr
  TIMEOUT_QUEUE :: "addr list"
  TIME :: tick_struct
  TICKS_PER_SECOND :: u32
  HW_TICKS_PER_TICK :: u32
  WAITQ :: "addr \<Rightarrow> addr list"
  LWSEMS :: "addr \<Rightarrow> lwsem"
  LWSEM_LIST :: "addr list"
  TASK_QUEUES :: "addr \<Rightarrow> task_queue"
  KERNEL_TASK_QUEUES :: "addr list"
  LWEVENTS :: "addr \<Rightarrow> lwevent"
  LWEVENT_LIST :: "addr list"
  LWMSGQS :: "addr \<Rightarrow> lwmsgq"
  LWMSGQ_LIST :: "addr list"
  MUTEXES :: "addr \<Rightarrow> mutex"
  MUTEX_LIST :: "addr list"
  MUTEX_COMPONENT :: "u32 option"
  MEM :: "addr \<Rightarrow> u32"
  IN_ISR :: u16
  INTERRUPT_CONTEXT :: "mqx_code list"
  SCHED_POLICY :: u32
  SCHED_TIME_SLICE :: tick_struct
  QUICK_CACHE :: quick_cache

definition upd_td :: "addr \<Rightarrow> (td \<Rightarrow> td) \<Rightarrow> kernel \<Rightarrow> kernel" where
  "upd_td t f s = s\<lparr>TDS := (TDS s)(t := f (TDS s t))\<rparr>"

text \<open>The key of the timeout queue: \<open>PSP_CMP_TICKS\<close> compares \<open>TICKS\<close> only.\<close>

definition wake_time :: "kernel \<Rightarrow> addr \<Rightarrow> u64" where
  "wake_time s t = TICKS (TIMEOUT (TDS s t))"

section \<open>Macros\<close>

definition ZERO_TICK_STRUCT :: tick_struct where
  "ZERO_TICK_STRUCT = \<lparr>TICKS = 0, HW_TICKS = 0\<rparr>"

text \<open>
  \<open>_QUEUE_UNLINK\<close> of a task descriptor from the ready queue it is linked into. Unlinking a
  descriptor a second time rewrites the same two pointers, so it changes nothing.
\<close>

definition UNLINK_READY :: "addr \<Rightarrow> kernel \<Rightarrow> kernel" where
  "UNLINK_READY t s = s\<lparr>READYQ := (\<lambda>p. remove1 t (READYQ s p))\<rparr>"

definition TASK_READY :: "addr \<Rightarrow> kernel \<Rightarrow> kernel" where
  "TASK_READY t s =
     (let q = MY_QUEUE (TDS s t);
          s = (if q < CURRENT_READY_Q s then s\<lparr>CURRENT_READY_Q := q\<rparr> else s);
          s = upd_td t (\<lambda>d. d\<lparr>STATE := READY\<rparr>) s;
          s = s\<lparr>READYQ := (READYQ s)(q := READYQ s q @ [t])\<rparr>
      in upd_td t (\<lambda>d. d\<lparr>CURRENT_TIME_SLICE := ZERO_TICK_STRUCT\<rparr>) s)"

definition TIME_DEQUEUE :: "addr \<Rightarrow> kernel \<Rightarrow> kernel" where
  "TIME_DEQUEUE t s =
     (if STATE (TDS s t) AND IS_ON_TIMEOUT_Q \<noteq> 0 then
        (let s = s\<lparr>TIMEOUT_QUEUE := remove1 t (TIMEOUT_QUEUE s)\<rparr>;
             s = upd_td t (\<lambda>d. d\<lparr>STATE := STATE d AND NOT IS_ON_TIMEOUT_Q\<rparr>) s
         in upd_td t (\<lambda>d. d\<lparr>STATE := STATE d OR BLOCKED\<rparr>) s)
      else s)"

section \<open>The dispatcher\<close>

text \<open>
  The search for the first ready queue with a task, downwards from \<open>CURRENT_READY_Q\<close>. The
  queue after the lowest priority belongs to the idle task. When every queue is empty the
  processor waits for an interrupt: nothing changes.
\<close>

definition find_noempty_que :: "kernel \<Rightarrow> nat option" where
  "find_noempty_que s =
     List.find (\<lambda>p. READYQ s p \<noteq> []) [CURRENT_READY_Q s ..< LOWEST_TASK_PRIORITY s + 2]"

definition sched_execute_scheduler_internal :: "kernel \<Rightarrow> kernel" where
  "sched_execute_scheduler_internal s =
     (case find_noempty_que s of
        None \<Rightarrow> s
      | Some p \<Rightarrow> s\<lparr>CURRENT_READY_Q := p, ACTIVE_PTR := hd (READYQ s p)\<rparr>)"

definition sched_check_scheduler_internal :: "kernel \<Rightarrow> kernel" where
  "sched_check_scheduler_internal s =
     (if IN_ISR s \<noteq> 0 then s
      else if CURRENT_READY_Q s = MY_QUEUE (TDS s (ACTIVE_PTR s)) then s
      else sched_execute_scheduler_internal s)"

text \<open>Entry and exit of the kernel interrupt handler around the interrupt service routine.\<close>

definition int_kernel_isr_enter :: "kernel \<Rightarrow> kernel" where
  "int_kernel_isr_enter s =
     s\<lparr>IN_ISR := IN_ISR s + 1, INTERRUPT_CONTEXT := MQX_OK # INTERRUPT_CONTEXT s\<rparr>"

definition int_kernel_isr_return :: "kernel \<Rightarrow> kernel" where
  "int_kernel_isr_return s =
     (let s = s\<lparr>INTERRUPT_CONTEXT := tl (INTERRUPT_CONTEXT s)\<rparr>;
          s = s\<lparr>IN_ISR := IN_ISR s - 1\<rparr>
      in if FLAGS (TDS s (ACTIVE_PTR s)) AND TASK_PREEMPTION_DISABLED \<noteq> 0 then s
         else if IN_ISR s \<noteq> 0 then s
         else (case READYQ s (CURRENT_READY_Q s) of
                 t # _ \<Rightarrow> if t = ACTIVE_PTR s then s else sched_execute_scheduler_internal s
               | [] \<Rightarrow> sched_execute_scheduler_internal s))"

text \<open>\<open>_task_block\<close>: the supervisor call that takes the active task off its ready queue.\<close>

definition task_block :: "kernel \<Rightarrow> kernel" where
  "task_block s =
     (let t = ACTIVE_PTR s;
          s = upd_td t (\<lambda>d. d\<lparr>STATE := STATE d OR IS_BLOCKED\<rparr>) s;
          s = UNLINK_READY t s
      in sched_execute_scheduler_internal s)"

lemmas dispatch_defs [kernel_defs] = Let_def upd_td_def UNLINK_READY_def find_noempty_que_def
  sched_execute_scheduler_internal_def task_block_def int_kernel_isr_enter_def

section \<open>Lookup and errors\<close>

definition task_get_td :: "u32 \<Rightarrow> kernel \<Rightarrow> addr" where
  "task_get_td task_id s =
     (if task_id = MQX_NULL_TASK_ID then ACTIVE_PTR s
      else if task_id = TASK_ID (TDS s (SYSTEM_TD s)) then SYSTEM_TD s
      else case List.find (\<lambda>t. TASK_ID (TDS s t) = task_id) (TD_LIST s) of
             Some t \<Rightarrow> t
           | None \<Rightarrow> NULL)"

definition task_get_error :: "kernel \<Rightarrow> mqx_code" where
  "task_get_error s =
     (if IN_ISR s \<noteq> 0 then hd (INTERRUPT_CONTEXT s) else TASK_ERROR_CODE (TDS s (ACTIVE_PTR s)))"

definition task_set_error :: "mqx_code \<Rightarrow> kernel \<Rightarrow> mqx_code \<times> kernel" where
  "task_set_error new_error_code s =
     (let old_error_code = task_get_error s
      in if new_error_code = MQX_OK \<or> old_error_code = MQX_OK then
           (if IN_ISR s \<noteq> 0
            then (old_error_code, s\<lparr>INTERRUPT_CONTEXT := new_error_code # tl (INTERRUPT_CONTEXT s)\<rparr>)
            else (old_error_code, upd_td (ACTIVE_PTR s) (\<lambda>d. d\<lparr>TASK_ERROR_CODE := new_error_code\<rparr>) s))
         else (old_error_code, s))"

definition task_get_id :: "kernel \<Rightarrow> u32" where
  "task_get_id s = TASK_ID (TDS s (ACTIVE_PTR s))"

definition task_get_id_from_td :: "addr \<Rightarrow> kernel \<Rightarrow> u32" where
  "task_get_id_from_td t s = (if t = NULL then MQX_NULL_TASK_ID else TASK_ID (TDS s t))"

end
