(* ===== verification/KernelInv.thy ===== *)
theory KernelInv
  imports Kernel
begin

text \<open>
  The invariant of the kernel state: every task is on exactly the queues that its \<open>STATE\<close>
  says, and the queues are in order. The lemmas show what each scheduling primitive does to
  it. Inside an operation a task may be in transit between two queues: \<open>kinv X\<close> is the
  invariant with the tasks of \<open>X\<close> on no queue.
\<close>

section \<open>The invariant\<close>

definition legal_state :: "u32 \<Rightarrow> bool" where
  "legal_state w \<longleftrightarrow> w = READY \<or> w = BLOCKED \<or> w = READY OR IS_ON_TIMEOUT_Q
     \<or> w = TASK_QUEUE_BLOCKED \<or> w = LWMSGQ_WRITE_BLOCKED \<or> w = MUTEX_BLOCKED
     \<or> (\<exists>b \<in> {LWSEM_BLOCKED, LWEVENT_BLOCKED, LWMSGQ_READ_BLOCKED}.
           w = b \<or> w = b OR IS_ON_TIMEOUT_Q)"

definition on_timeout :: "u32 \<Rightarrow> bool" where
  "on_timeout w \<longleftrightarrow> w AND IS_ON_TIMEOUT_Q \<noteq> 0"

definition on_waitq :: "u32 \<Rightarrow> bool" where
  "on_waitq w \<longleftrightarrow> w AND (TD_IS_ON_QUEUE OR TD_IS_ON_AUX_QUEUE) \<noteq> 0"

definition tasks :: "kernel \<Rightarrow> addr set" where
  "tasks s = insert (SYSTEM_TD s) (set (TD_LIST s))"

definition placed :: "kernel \<Rightarrow> addr \<Rightarrow> bool" where
  "placed s t \<longleftrightarrow> legal_state (STATE (TDS s t))
     \<and> (\<forall>p. t \<in> set (READYQ s p) \<longleftrightarrow> STATE (TDS s t) = READY \<and> MY_QUEUE (TDS s t) = p)
     \<and> (t \<in> set (TIMEOUT_QUEUE s) \<longleftrightarrow> on_timeout (STATE (TDS s t)))
     \<and> (\<forall>h. t \<in> set (WAITQ s h) \<longleftrightarrow> on_waitq (STATE (TDS s t)) \<and> INFO (TDS s t) = h)"

definition loose :: "kernel \<Rightarrow> addr \<Rightarrow> bool" where
  "loose s t \<longleftrightarrow> (\<forall>p. t \<notin> set (READYQ s p)) \<and> t \<notin> set (TIMEOUT_QUEUE s)
     \<and> (\<forall>h. t \<notin> set (WAITQ s h))"

definition queues_ok :: "kernel \<Rightarrow> bool" where
  "queues_ok s \<longleftrightarrow> (\<forall>p. distinct (READYQ s p)) \<and> distinct (TIMEOUT_QUEUE s)
     \<and> (\<forall>h. distinct (WAITQ s h)) \<and> sorted (map (wake_time s) (TIMEOUT_QUEUE s))
     \<and> (\<forall>p < CURRENT_READY_Q s. READYQ s p = [])
     \<and> (\<forall>t \<in> tasks s. MY_QUEUE (TDS s t) \<le> LOWEST_TASK_PRIORITY s + 1
           \<and> HOME_QUEUE (TDS s t) \<le> LOWEST_TASK_PRIORITY s + 1)"

definition kinv :: "addr set \<Rightarrow> kernel \<Rightarrow> bool" where
  "kinv X s \<longleftrightarrow> queues_ok s \<and> (\<forall>t. if t \<in> tasks s - X then placed s t else loose s t)"

lemma legal_states [simp]:
  "on_timeout READY = False" "on_timeout BLOCKED = False" "on_timeout 0x102 = True"
  "on_timeout TASK_QUEUE_BLOCKED = False" "on_timeout LWMSGQ_WRITE_BLOCKED = False" "on_timeout MUTEX_BLOCKED = False"
  "on_timeout LWSEM_BLOCKED = False" "on_timeout 0x52B = True"
  "on_timeout LWEVENT_BLOCKED = False" "on_timeout 0x52D = True"
  "on_timeout LWMSGQ_READ_BLOCKED = False" "on_timeout 0x531 = True"
  "on_waitq READY = False" "on_waitq BLOCKED = False" "on_waitq 0x102 = False"
  "on_waitq TASK_QUEUE_BLOCKED = True" "on_waitq LWMSGQ_WRITE_BLOCKED = True" "on_waitq MUTEX_BLOCKED = True"
  "on_waitq LWSEM_BLOCKED = True" "on_waitq 0x52B = True"
  "on_waitq LWEVENT_BLOCKED = True" "on_waitq 0x52D = True"
  "on_waitq LWMSGQ_READ_BLOCKED = True" "on_waitq 0x531 = True"
  by (simp_all add: on_timeout_def on_waitq_def)

lemma legal_state_intros [simp]:
  "legal_state READY" "legal_state BLOCKED" "legal_state 0x102"
  "legal_state TASK_QUEUE_BLOCKED" "legal_state LWMSGQ_WRITE_BLOCKED" "legal_state MUTEX_BLOCKED"
  "legal_state LWSEM_BLOCKED" "legal_state 0x52B" "legal_state LWEVENT_BLOCKED"
  "legal_state 0x52D" "legal_state LWMSGQ_READ_BLOCKED" "legal_state 0x531"
  by (simp_all add: legal_state_def)

text \<open>A state in which a task enters a wait queue, and one in which it may enter the timeout queue.\<close>

definition enters_waitq :: "u32 \<Rightarrow> bool" where
  "enters_waitq w \<longleftrightarrow> w = TASK_QUEUE_BLOCKED \<or> w = LWMSGQ_WRITE_BLOCKED \<or> w = LWSEM_BLOCKED
     \<or> w = LWEVENT_BLOCKED \<or> w = LWMSGQ_READ_BLOCKED \<or> w = MUTEX_BLOCKED"

definition enters_timeout :: "u32 \<Rightarrow> bool" where
  "enters_timeout w \<longleftrightarrow> w = READY \<or> w = LWSEM_BLOCKED \<or> w = LWEVENT_BLOCKED \<or> w = LWMSGQ_READ_BLOCKED"

lemma enters_intros [simp]:
  "enters_waitq TASK_QUEUE_BLOCKED" "enters_waitq LWMSGQ_WRITE_BLOCKED" "enters_waitq LWSEM_BLOCKED"
  "enters_waitq LWEVENT_BLOCKED" "enters_waitq LWMSGQ_READ_BLOCKED" "enters_waitq MUTEX_BLOCKED"
  "enters_timeout READY" "enters_timeout LWSEM_BLOCKED" "enters_timeout LWEVENT_BLOCKED"
  "enters_timeout LWMSGQ_READ_BLOCKED"
  by (simp_all add: enters_waitq_def enters_timeout_def)

lemma enters_waitqD:
  "enters_waitq w \<Longrightarrow> legal_state w \<and> on_waitq w \<and> \<not> on_timeout w \<and> w \<noteq> READY"
  by (auto simp: enters_waitq_def)

lemma enters_timeoutD:
  "enters_timeout w \<Longrightarrow> \<not> on_timeout w \<and> legal_state (w OR IS_ON_TIMEOUT_Q)
     \<and> on_timeout (w OR IS_ON_TIMEOUT_Q) \<and> (on_waitq (w OR IS_ON_TIMEOUT_Q) \<longleftrightarrow> on_waitq w)
     \<and> w OR IS_ON_TIMEOUT_Q \<noteq> READY"
  by (auto simp: enters_timeout_def)

lemma legal_timeout_states:
  "legal_state w \<Longrightarrow> on_timeout w \<Longrightarrow> w = 0x102 \<or> w = 0x52B \<or> w = 0x52D \<or> w = 0x531"
  by (auto simp: legal_state_def)

lemma kinv_placed: "kinv X s \<Longrightarrow> t \<in> tasks s \<Longrightarrow> t \<notin> X \<Longrightarrow> placed s t"
  unfolding kinv_def by (metis DiffI)

lemma kinv_loose: "kinv X s \<Longrightarrow> t \<in> X \<or> t \<notin> tasks s \<Longrightarrow> loose s t"
  unfolding kinv_def by (metis DiffE)

lemma kinv_queues: "kinv X s \<Longrightarrow> queues_ok s"
  by (simp add: kinv_def)

lemma kinvI:
  "queues_ok s \<Longrightarrow> (\<And>t. t \<in> tasks s \<Longrightarrow> t \<notin> X \<Longrightarrow> placed s t) \<Longrightarrow>
   (\<And>t. t \<in> X \<or> t \<notin> tasks s \<Longrightarrow> loose s t) \<Longrightarrow> kinv X s"
  unfolding kinv_def by auto

text \<open>Membership in a queue determines the state.\<close>

lemma kinv_ready_mem:
  "kinv X s \<Longrightarrow> t \<in> set (READYQ s p) \<Longrightarrow>
   t \<in> tasks s \<and> t \<notin> X \<and> STATE (TDS s t) = READY \<and> MY_QUEUE (TDS s t) = p"
  using kinv_placed [of X s t] kinv_loose [of X s t] by (auto simp: placed_def loose_def)

lemma kinv_timeout_mem:
  "kinv X s \<Longrightarrow> t \<in> set (TIMEOUT_QUEUE s) \<Longrightarrow>
   t \<in> tasks s \<and> t \<notin> X \<and> on_timeout (STATE (TDS s t)) \<and> legal_state (STATE (TDS s t))"
  using kinv_placed [of X s t] kinv_loose [of X s t] by (auto simp: placed_def loose_def)

lemma kinv_waitq_mem:
  "kinv X s \<Longrightarrow> t \<in> set (WAITQ s h) \<Longrightarrow>
   t \<in> tasks s \<and> t \<notin> X \<and> on_waitq (STATE (TDS s t)) \<and> INFO (TDS s t) = h
     \<and> legal_state (STATE (TDS s t))"
  using kinv_placed [of X s t] kinv_loose [of X s t] by (auto simp: placed_def loose_def)

section \<open>What the primitives leave alone\<close>

lemma upd_td_simps [simp]:
  "TDS (upd_td t f s) = (TDS s)(t := f (TDS s t))" "TD_LIST (upd_td t f s) = TD_LIST s"
  "SYSTEM_TD (upd_td t f s) = SYSTEM_TD s" "READYQ (upd_td t f s) = READYQ s"
  "CURRENT_READY_Q (upd_td t f s) = CURRENT_READY_Q s"
  "LOWEST_TASK_PRIORITY (upd_td t f s) = LOWEST_TASK_PRIORITY s"
  "ACTIVE_PTR (upd_td t f s) = ACTIVE_PTR s" "TIMEOUT_QUEUE (upd_td t f s) = TIMEOUT_QUEUE s"
  "TIME (upd_td t f s) = TIME s" "WAITQ (upd_td t f s) = WAITQ s"
  "LWSEMS (upd_td t f s) = LWSEMS s" "TASK_QUEUES (upd_td t f s) = TASK_QUEUES s"
  "LWEVENTS (upd_td t f s) = LWEVENTS s"
  "LWMSGQS (upd_td t f s) = LWMSGQS s"
  "MUTEXES (upd_td t f s) = MUTEXES s"
  "MEM (upd_td t f s) = MEM s"
  "LWSEM_LIST (upd_td t f s) = LWSEM_LIST s" "IN_ISR (upd_td t f s) = IN_ISR s"
  "HW_TICKS_PER_TICK (upd_td t f s) = HW_TICKS_PER_TICK s" "tasks (upd_td t f s) = tasks s"
  by (simp_all add: upd_td_def tasks_def)

lemma UNLINK_READY_simps [simp]:
  "TDS (UNLINK_READY t s) = TDS s" "TD_LIST (UNLINK_READY t s) = TD_LIST s"
  "SYSTEM_TD (UNLINK_READY t s) = SYSTEM_TD s"
  "READYQ (UNLINK_READY t s) = (\<lambda>p. remove1 t (READYQ s p))"
  "CURRENT_READY_Q (UNLINK_READY t s) = CURRENT_READY_Q s"
  "LOWEST_TASK_PRIORITY (UNLINK_READY t s) = LOWEST_TASK_PRIORITY s"
  "ACTIVE_PTR (UNLINK_READY t s) = ACTIVE_PTR s"
  "TIMEOUT_QUEUE (UNLINK_READY t s) = TIMEOUT_QUEUE s"
  "TIME (UNLINK_READY t s) = TIME s" "WAITQ (UNLINK_READY t s) = WAITQ s"
  "LWSEMS (UNLINK_READY t s) = LWSEMS s" "TASK_QUEUES (UNLINK_READY t s) = TASK_QUEUES s"
  "LWEVENTS (UNLINK_READY t s) = LWEVENTS s"
  "LWMSGQS (UNLINK_READY t s) = LWMSGQS s"
  "MUTEXES (UNLINK_READY t s) = MUTEXES s"
  "MEM (UNLINK_READY t s) = MEM s"
  "LWSEM_LIST (UNLINK_READY t s) = LWSEM_LIST s" "IN_ISR (UNLINK_READY t s) = IN_ISR s"
  "HW_TICKS_PER_TICK (UNLINK_READY t s) = HW_TICKS_PER_TICK s"
  "tasks (UNLINK_READY t s) = tasks s"
  by (simp_all add: UNLINK_READY_def tasks_def)

lemma TASK_READY_simps [simp]:
  "TDS (TASK_READY t s) =
     (TDS s)(t := (TDS s t)\<lparr>STATE := READY, CURRENT_TIME_SLICE := ZERO_TICK_STRUCT\<rparr>)"
  "TD_LIST (TASK_READY t s) = TD_LIST s" "SYSTEM_TD (TASK_READY t s) = SYSTEM_TD s"
  "READYQ (TASK_READY t s) =
     (READYQ s)(MY_QUEUE (TDS s t) := READYQ s (MY_QUEUE (TDS s t)) @ [t])"
  "CURRENT_READY_Q (TASK_READY t s) = min (MY_QUEUE (TDS s t)) (CURRENT_READY_Q s)"
  "LOWEST_TASK_PRIORITY (TASK_READY t s) = LOWEST_TASK_PRIORITY s"
  "ACTIVE_PTR (TASK_READY t s) = ACTIVE_PTR s" "TIMEOUT_QUEUE (TASK_READY t s) = TIMEOUT_QUEUE s"
  "TIME (TASK_READY t s) = TIME s" "WAITQ (TASK_READY t s) = WAITQ s"
  "LWSEMS (TASK_READY t s) = LWSEMS s" "TASK_QUEUES (TASK_READY t s) = TASK_QUEUES s"
  "LWEVENTS (TASK_READY t s) = LWEVENTS s"
  "LWMSGQS (TASK_READY t s) = LWMSGQS s"
  "MUTEXES (TASK_READY t s) = MUTEXES s"
  "MEM (TASK_READY t s) = MEM s"
  "LWSEM_LIST (TASK_READY t s) = LWSEM_LIST s" "IN_ISR (TASK_READY t s) = IN_ISR s"
  "HW_TICKS_PER_TICK (TASK_READY t s) = HW_TICKS_PER_TICK s"
  "tasks (TASK_READY t s) = tasks s"
  by (simp_all add: TASK_READY_def upd_td_def tasks_def Let_def)

lemma exec_simps [simp]:
  "TDS (sched_execute_scheduler_internal s) = TDS s"
  "TD_LIST (sched_execute_scheduler_internal s) = TD_LIST s"
  "SYSTEM_TD (sched_execute_scheduler_internal s) = SYSTEM_TD s"
  "READYQ (sched_execute_scheduler_internal s) = READYQ s"
  "LOWEST_TASK_PRIORITY (sched_execute_scheduler_internal s) = LOWEST_TASK_PRIORITY s"
  "TIMEOUT_QUEUE (sched_execute_scheduler_internal s) = TIMEOUT_QUEUE s"
  "TIME (sched_execute_scheduler_internal s) = TIME s"
  "WAITQ (sched_execute_scheduler_internal s) = WAITQ s"
  "LWSEMS (sched_execute_scheduler_internal s) = LWSEMS s"
  "TASK_QUEUES (sched_execute_scheduler_internal s) = TASK_QUEUES s"
  "LWEVENTS (sched_execute_scheduler_internal s) = LWEVENTS s"
  "LWMSGQS (sched_execute_scheduler_internal s) = LWMSGQS s"
  "MUTEXES (sched_execute_scheduler_internal s) = MUTEXES s"
  "MEM (sched_execute_scheduler_internal s) = MEM s"
  "LWSEM_LIST (sched_execute_scheduler_internal s) = LWSEM_LIST s"
  "IN_ISR (sched_execute_scheduler_internal s) = IN_ISR s"
  "HW_TICKS_PER_TICK (sched_execute_scheduler_internal s) = HW_TICKS_PER_TICK s"
  "tasks (sched_execute_scheduler_internal s) = tasks s"
  by (auto simp: sched_execute_scheduler_internal_def tasks_def split: option.splits)

lemma check_simps [simp]:
  "TDS (sched_check_scheduler_internal s) = TDS s"
  "TD_LIST (sched_check_scheduler_internal s) = TD_LIST s"
  "SYSTEM_TD (sched_check_scheduler_internal s) = SYSTEM_TD s"
  "READYQ (sched_check_scheduler_internal s) = READYQ s"
  "LOWEST_TASK_PRIORITY (sched_check_scheduler_internal s) = LOWEST_TASK_PRIORITY s"
  "TIMEOUT_QUEUE (sched_check_scheduler_internal s) = TIMEOUT_QUEUE s"
  "TIME (sched_check_scheduler_internal s) = TIME s"
  "WAITQ (sched_check_scheduler_internal s) = WAITQ s"
  "LWSEMS (sched_check_scheduler_internal s) = LWSEMS s"
  "TASK_QUEUES (sched_check_scheduler_internal s) = TASK_QUEUES s"
  "LWEVENTS (sched_check_scheduler_internal s) = LWEVENTS s"
  "LWMSGQS (sched_check_scheduler_internal s) = LWMSGQS s"
  "MUTEXES (sched_check_scheduler_internal s) = MUTEXES s"
  "MEM (sched_check_scheduler_internal s) = MEM s"
  "LWSEM_LIST (sched_check_scheduler_internal s) = LWSEM_LIST s"
  "IN_ISR (sched_check_scheduler_internal s) = IN_ISR s"
  "HW_TICKS_PER_TICK (sched_check_scheduler_internal s) = HW_TICKS_PER_TICK s"
  "tasks (sched_check_scheduler_internal s) = tasks s"
  by (simp_all add: sched_check_scheduler_internal_def)

lemma wake_time_upd: "(\<And>u. u \<in> set xs \<Longrightarrow> TIMEOUT (TDS s' u) = TIMEOUT (TDS s u)) \<Longrightarrow>
  map (wake_time s') xs = map (wake_time s) xs"
  by (simp add: wake_time_def)

text \<open>Unlinking commutes with the descriptor writes around it.\<close>

lemma UNLINK_READY_upd_td: "UNLINK_READY t (upd_td u f s) = upd_td u f (UNLINK_READY t s)"
  by (simp add: UNLINK_READY_def upd_td_def)

section \<open>What the primitives do to the invariant\<close>

lemma kinv_upd_loose:
  assumes "kinv X s" "t \<in> X" "MY_QUEUE (f (TDS s t)) \<le> LOWEST_TASK_PRIORITY s + 1"
    and "HOME_QUEUE (f (TDS s t)) = HOME_QUEUE (TDS s t)"
  shows "kinv X (upd_td t f s)"
proof (rule kinvI)
  have l: "loose s t" using assms kinv_loose by blast
  have q: "queues_ok s" using assms(1) by (rule kinv_queues)
  have w: "map (wake_time (upd_td t f s)) (TIMEOUT_QUEUE s) = map (wake_time s) (TIMEOUT_QUEUE s)"
    by (rule wake_time_upd) (use l in \<open>auto simp: loose_def\<close>)
  show "queues_ok (upd_td t f s)" using q assms(3,4) by (auto simp: queues_ok_def w)
next
  fix u assume "u \<in> tasks (upd_td t f s)" "u \<notin> X"
  then show "placed (upd_td t f s) u" using kinv_placed [OF assms(1), of u] assms(2)
    by (auto simp: placed_def)
next
  fix u assume "u \<in> X \<or> u \<notin> tasks (upd_td t f s)"
  then show "loose (upd_td t f s) u" using kinv_loose [OF assms(1), of u]
    by (simp add: loose_def)
qed

lemma kinv_upd_placed:
  assumes "kinv X s" "STATE (f (TDS s t)) = STATE (TDS s t)"
    and "MY_QUEUE (f (TDS s t)) = MY_QUEUE (TDS s t) \<or>
         STATE (TDS s t) \<noteq> READY \<and> MY_QUEUE (f (TDS s t)) \<le> LOWEST_TASK_PRIORITY s + 1"
    and "INFO (f (TDS s t)) = INFO (TDS s t) \<or> \<not> on_waitq (STATE (TDS s t))"
    and "TIMEOUT (f (TDS s t)) = TIMEOUT (TDS s t) \<or> \<not> on_timeout (STATE (TDS s t))"
    and "HOME_QUEUE (f (TDS s t)) = HOME_QUEUE (TDS s t) \<or> HOME_QUEUE (f (TDS s t)) \<le> LOWEST_TASK_PRIORITY s + 1"
  shows "kinv X (upd_td t f s)"
proof (rule kinvI)
  have q: "queues_ok s" using assms(1) by (rule kinv_queues)
  have w: "map (wake_time (upd_td t f s)) (TIMEOUT_QUEUE s) = map (wake_time s) (TIMEOUT_QUEUE s)"
    by (rule wake_time_upd) (use assms(5) kinv_timeout_mem [OF assms(1)] in auto)
  show "queues_ok (upd_td t f s)" using q assms(3,6) by (auto simp: queues_ok_def w)
next
  fix u assume "u \<in> tasks (upd_td t f s)" "u \<notin> X"
  then show "placed (upd_td t f s) u" using kinv_placed [OF assms(1), of u] assms(2-)
    by (auto simp: placed_def)
next
  fix u assume "u \<in> X \<or> u \<notin> tasks (upd_td t f s)"
  then show "loose (upd_td t f s) u" using kinv_loose [OF assms(1), of u]
    by (simp add: loose_def)
qed

lemma kinv_unlink:
  assumes "kinv X s" "STATE (TDS s t) = READY"
  shows "kinv (insert t X) (UNLINK_READY t s)"
proof (rule kinvI)
  have q: "queues_ok s" using assms(1) by (rule kinv_queues)
  have w: "wake_time (UNLINK_READY t s) = wake_time s" by (simp add: wake_time_def fun_eq_iff)
  show "queues_ok (UNLINK_READY t s)" using q by (simp add: queues_ok_def w)
next
  fix u assume "u \<in> tasks (UNLINK_READY t s)" "u \<notin> insert t X"
  then show "placed (UNLINK_READY t s) u" using kinv_placed [OF assms(1), of u]
    by (simp add: placed_def in_set_remove1)
next
  fix u assume u: "u \<in> insert t X \<or> u \<notin> tasks (UNLINK_READY t s)"
  have d: "distinct (READYQ s p)" for p using kinv_queues [OF assms(1)] by (simp add: queues_ok_def)
  show "loose (UNLINK_READY t s) u"
  proof (cases "u \<in> X \<or> u \<notin> tasks s")
    case True
    then show ?thesis using kinv_loose [OF assms(1), of u] set_remove1_subset
      by (fastforce simp: loose_def)
  next
    case False
    then have "placed s u" "u = t" using u kinv_placed [OF assms(1), of u] by auto
    then show ?thesis using assms(2) d by (simp add: loose_def placed_def)
  qed
qed

lemma kinv_ready:
  assumes "kinv X s" "t \<in> X" "t \<in> tasks s"
  shows "kinv (X - {t}) (TASK_READY t s)"
proof (rule kinvI)
  have l: "loose s t" using assms kinv_loose by blast
  have q: "queues_ok s" using assms(1) by (rule kinv_queues)
  have w: "map (wake_time (TASK_READY t s)) (TIMEOUT_QUEUE s) = map (wake_time s) (TIMEOUT_QUEUE s)"
    by (rule wake_time_upd) auto
  show "queues_ok (TASK_READY t s)" using q l by (auto simp: queues_ok_def loose_def w)
next
  fix u assume u: "u \<in> tasks (TASK_READY t s)" "u \<notin> X - {t}"
  show "placed (TASK_READY t s) u"
  proof (cases "u = t")
    case True
    then show ?thesis using kinv_loose [OF assms(1), of t] assms(2)
      by (auto simp: placed_def loose_def)
  next
    case False
    then show ?thesis using kinv_placed [OF assms(1), of u] u by (auto simp: placed_def)
  qed
next
  fix u assume u: "u \<in> X - {t} \<or> u \<notin> tasks (TASK_READY t s)"
  then have "u \<noteq> t" using assms(3) by auto
  then show "loose (TASK_READY t s) u" using kinv_loose [OF assms(1), of u] u
    by (auto simp: loose_def)
qed

lemma kinv_enter_waitq:
  assumes "kinv X s" "t \<in> X" "t \<in> tasks s"
    and "enters_waitq (STATE (TDS s t))"
    and "INFO (TDS s t) = h" "set xs = insert t (set (WAITQ s h))" "distinct xs"
  shows "kinv (X - {t}) (s\<lparr>WAITQ := (WAITQ s)(h := xs)\<rparr>)" (is "kinv _ ?s")
proof (rule kinvI)
  have w: "wake_time ?s = wake_time s" by (simp add: wake_time_def fun_eq_iff)
  show "queues_ok ?s" using kinv_queues [OF assms(1)] assms(7)
    by (simp add: queues_ok_def w tasks_def)
next
  fix u assume u: "u \<in> tasks ?s" "u \<notin> X - {t}"
  show "placed ?s u"
  proof (cases "u = t")
    case True
    then show ?thesis using kinv_loose [OF assms(1), of t] assms(2,3,5,6) enters_waitqD [OF assms(4)]
      by (auto simp: placed_def loose_def)
  next
    case False
    then show ?thesis using kinv_placed [OF assms(1), of u] u assms
      by (auto simp: placed_def tasks_def)
  qed
next
  fix u assume u: "u \<in> X - {t} \<or> u \<notin> tasks ?s"
  then have "u \<noteq> t" using assms(3) by (auto simp: tasks_def)
  then show "loose ?s u" using kinv_loose [OF assms(1), of u] u assms
    by (auto simp: loose_def tasks_def)
qed

text \<open>A task that leaves its wait queue, and the timeout queue if it is on it, is in transit.\<close>

lemma TIME_DEQUEUE_eq:
  "TIME_DEQUEUE t s =
     (if on_timeout (STATE (TDS s t)) then
        upd_td t (\<lambda>d. d\<lparr>STATE := (STATE d AND NOT IS_ON_TIMEOUT_Q) OR BLOCKED\<rparr>)
          (s\<lparr>TIMEOUT_QUEUE := remove1 t (TIMEOUT_QUEUE s)\<rparr>)
      else s)"
  by (simp add: TIME_DEQUEUE_def on_timeout_def upd_td_def Let_def)

lemma TIME_DEQUEUE_simps [simp]:
  "TD_LIST (TIME_DEQUEUE t s) = TD_LIST s" "SYSTEM_TD (TIME_DEQUEUE t s) = SYSTEM_TD s"
  "READYQ (TIME_DEQUEUE t s) = READYQ s" "CURRENT_READY_Q (TIME_DEQUEUE t s) = CURRENT_READY_Q s"
  "LOWEST_TASK_PRIORITY (TIME_DEQUEUE t s) = LOWEST_TASK_PRIORITY s"
  "ACTIVE_PTR (TIME_DEQUEUE t s) = ACTIVE_PTR s" "TIME (TIME_DEQUEUE t s) = TIME s"
  "WAITQ (TIME_DEQUEUE t s) = WAITQ s" "LWSEMS (TIME_DEQUEUE t s) = LWSEMS s"
  "TASK_QUEUES (TIME_DEQUEUE t s) = TASK_QUEUES s"
  "LWEVENTS (TIME_DEQUEUE t s) = LWEVENTS s"
  "LWMSGQS (TIME_DEQUEUE t s) = LWMSGQS s"
  "MUTEXES (TIME_DEQUEUE t s) = MUTEXES s"
  "MEM (TIME_DEQUEUE t s) = MEM s"
  "LWSEM_LIST (TIME_DEQUEUE t s) = LWSEM_LIST s" "IN_ISR (TIME_DEQUEUE t s) = IN_ISR s"
  "HW_TICKS_PER_TICK (TIME_DEQUEUE t s) = HW_TICKS_PER_TICK s"
  "tasks (TIME_DEQUEUE t s) = tasks s"
  "TIMEOUT (TDS (TIME_DEQUEUE t s) u) = TIMEOUT (TDS s u)"
  "MY_QUEUE (TDS (TIME_DEQUEUE t s) u) = MY_QUEUE (TDS s u)"
  "HOME_QUEUE (TDS (TIME_DEQUEUE t s) u) = HOME_QUEUE (TDS s u)"
  "INFO (TDS (TIME_DEQUEUE t s) u) = INFO (TDS s u)"
  "FLAGS (TDS (TIME_DEQUEUE t s) u) = FLAGS (TDS s u)"
  "u \<noteq> t \<Longrightarrow> TDS (TIME_DEQUEUE t s) u = TDS s u"
  by (simp_all add: TIME_DEQUEUE_eq tasks_def)

lemma TIME_DEQUEUE_queue [simp]:
  "TIMEOUT_QUEUE (TIME_DEQUEUE t s) =
     (if on_timeout (STATE (TDS s t)) then remove1 t (TIMEOUT_QUEUE s) else TIMEOUT_QUEUE s)"
  by (simp add: TIME_DEQUEUE_eq)

lemma kinv_leave_waitq:
  assumes "kinv X s" "t \<in> set (WAITQ s h)"
  shows "kinv (insert t X)
           (TIME_DEQUEUE t (s\<lparr>WAITQ := (WAITQ s)(h := remove1 t (WAITQ s h))\<rparr>))" (is "kinv _ ?s")
proof (rule kinvI)
  have m: "t \<in> tasks s" "t \<notin> X" "on_waitq (STATE (TDS s t))" "INFO (TDS s t) = h"
    using kinv_waitq_mem [OF assms] by auto
  have q: "queues_ok s" using assms(1) by (rule kinv_queues)
  have pt: "placed s t" using kinv_placed [OF assms(1)] m by blast
  have w: "wake_time ?s = wake_time s" by (simp add: wake_time_def fun_eq_iff)
  show "queues_ok ?s" using q by (simp add: queues_ok_def w tasks_def sorted_map_remove1)
  fix u
  { assume "u \<in> tasks ?s" "u \<notin> insert t X"
    then show "placed ?s u" using kinv_placed [OF assms(1), of u]
      by (auto simp: placed_def tasks_def in_set_remove1) }
  assume u: "u \<in> insert t X \<or> u \<notin> tasks ?s"
  show "loose ?s u"
  proof (cases "u = t")
    case True
    then show ?thesis using pt m q by (auto simp: loose_def placed_def queues_ok_def)
  next
    case False
    then show ?thesis using kinv_loose [OF assms(1), of u] u
      by (auto simp: loose_def tasks_def in_set_remove1)
  qed
qed

lemma kinv_pop_waitq:
  "kinv X s \<Longrightarrow> WAITQ s h = t # ts \<Longrightarrow>
   kinv (insert t X) (TIME_DEQUEUE t (s\<lparr>WAITQ := (WAITQ s)(h := ts)\<rparr>))"
  using kinv_leave_waitq [of X s t h] by simp

section \<open>The dispatcher\<close>

lemma find_upt:
  "List.find P [a ..< b] = Some p \<Longrightarrow> a \<le> p \<and> p < b \<and> P p \<and> (\<forall>q. a \<le> q \<and> q < p \<longrightarrow> \<not> P q)"
proof -
  assume "List.find P [a ..< b] = Some p"
  then obtain i where i: "i < b - a" "P (a + i)" "p = a + i" "\<forall>j < i. \<not> P (a + j)"
    by (auto simp: find_Some_iff)
  have "\<not> P q" if "a \<le> q" "q < p" for q
    using i(3,4) that by (metis add_less_cancel_left le_add_diff_inverse)
  then show ?thesis using i by auto
qed

lemma find_mem: "List.find P xs = Some x \<Longrightarrow> x \<in> set xs"
  by (auto simp: find_Some_iff)

lemma find_noempty_que_Some:
  assumes "find_noempty_que s = Some p" "\<forall>q < CURRENT_READY_Q s. READYQ s q = []"
  shows "READYQ s p \<noteq> [] \<and> p < LOWEST_TASK_PRIORITY s + 2 \<and> (\<forall>q < p. READYQ s q = [])"
  using find_upt [OF assms(1) [unfolded find_noempty_que_def]] assms(2) by (meson linorder_not_less)

lemma kinv_current_ready:
  assumes "kinv X s" "t \<in> tasks s" "t \<notin> X" "STATE (TDS s t) = READY"
  shows "t \<in> set (READYQ s (MY_QUEUE (TDS s t)))" "CURRENT_READY_Q s \<le> MY_QUEUE (TDS s t)"
    "MY_QUEUE (TDS s t) \<le> LOWEST_TASK_PRIORITY s + 1"
proof -
  show m: "t \<in> set (READYQ s (MY_QUEUE (TDS s t)))"
    using kinv_placed [OF assms(1-3)] assms(4) by (simp add: placed_def)
  then show "CURRENT_READY_Q s \<le> MY_QUEUE (TDS s t)"
    using kinv_queues [OF assms(1)] by (metis empty_iff list.set(1) linorder_not_less queues_ok_def)
  show "MY_QUEUE (TDS s t) \<le> LOWEST_TASK_PRIORITY s + 1"
    using kinv_queues [OF assms(1)] assms(2) by (simp add: queues_ok_def)
qed

lemma find_noempty_que_ready:
  assumes "kinv X s" "t \<in> tasks s" "t \<notin> X" "STATE (TDS s t) = READY"
  shows "\<exists>p. find_noempty_que s = Some p"
proof (cases "find_noempty_que s")
  case None
  then have "\<forall>p \<in> {CURRENT_READY_Q s ..< LOWEST_TASK_PRIORITY s + 2}. READYQ s p = []"
    by (simp only: find_noempty_que_def find_None_iff set_upt) blast
  then have "READYQ s (MY_QUEUE (TDS s t)) = []" using kinv_current_ready [OF assms] by auto
  then show ?thesis using kinv_current_ready(1) [OF assms] by simp
qed auto

text \<open>The invariant survives dispatching, whatever task is chosen.\<close>

lemma kinv_cong:
  assumes "kinv X s" "TDS s' = TDS s" "tasks s' = tasks s" "READYQ s' = READYQ s"
    "TIMEOUT_QUEUE s' = TIMEOUT_QUEUE s" "WAITQ s' = WAITQ s"
    "LOWEST_TASK_PRIORITY s' = LOWEST_TASK_PRIORITY s"
    "CURRENT_READY_Q s' = CURRENT_READY_Q s \<or> (\<forall>p < CURRENT_READY_Q s'. READYQ s p = [])"
  shows "kinv X s'"
proof -
  have w: "wake_time s' = wake_time s" using assms(2) by (simp add: wake_time_def fun_eq_iff)
  have "placed s' = placed s" "loose s' = loose s"
    using assms by (simp_all add: placed_def loose_def fun_eq_iff)
  then show ?thesis using assms by (auto simp: kinv_def queues_ok_def w)
qed

lemma kinv_exec: "kinv X s \<Longrightarrow> kinv X (sched_execute_scheduler_internal s)"
proof (rule kinv_cong)
  assume k: "kinv X s"
  show "CURRENT_READY_Q (sched_execute_scheduler_internal s) = CURRENT_READY_Q s \<or>
        (\<forall>p < CURRENT_READY_Q (sched_execute_scheduler_internal s). READYQ s p = [])"
    using find_noempty_que_Some [of s] kinv_queues [OF k]
    by (auto simp: sched_execute_scheduler_internal_def queues_ok_def split: option.split)
qed auto

lemma kinv_check: "kinv X s \<Longrightarrow> kinv X (sched_check_scheduler_internal s)"
  by (simp add: sched_check_scheduler_internal_def kinv_exec)

lemma kinv_isr_enter: "kinv X s \<Longrightarrow> kinv X (int_kernel_isr_enter s)"
  by (rule kinv_cong) (auto simp: int_kernel_isr_enter_def tasks_def)

lemma kinv_isr_return: "kinv X s \<Longrightarrow> kinv X (int_kernel_isr_return s)"
proof -
  assume k: "kinv X s"
  let ?s = "s\<lparr>INTERRUPT_CONTEXT := tl (INTERRUPT_CONTEXT s), IN_ISR := IN_ISR s - 1\<rparr>"
  have "kinv X ?s" by (rule kinv_cong [OF k]) (auto simp: tasks_def)
  then show ?thesis using kinv_exec [of X ?s]
    by (auto simp: int_kernel_isr_return_def Let_def split: list.splits)
qed

text \<open>
  The running task. \<open>active_ok\<close>: it is a ready task; \<open>top_ok\<close>: it is on the queue that
  \<open>CURRENT_READY_Q\<close> names, the first that has a task.
\<close>

definition active_ok :: "kernel \<Rightarrow> bool" where
  "active_ok s \<longleftrightarrow> ACTIVE_PTR s \<in> tasks s \<and> STATE (TDS s (ACTIVE_PTR s)) = READY"

definition top_ok :: "kernel \<Rightarrow> bool" where
  "top_ok s \<longleftrightarrow> MY_QUEUE (TDS s (ACTIVE_PTR s)) = CURRENT_READY_Q s"

lemma exec_running:
  assumes "kinv {} s" "t \<in> tasks s" "STATE (TDS s t) = READY"
  shows "active_ok (sched_execute_scheduler_internal s) \<and> top_ok (sched_execute_scheduler_internal s)"
proof -
  obtain p where p: "find_noempty_que s = Some p" using find_noempty_que_ready [OF assms(1,2) _ assms(3)] by auto
  then have "READYQ s p \<noteq> []"
    using find_noempty_que_Some [OF p] kinv_queues [OF assms(1)] by (simp add: queues_ok_def)
  then have "hd (READYQ s p) \<in> set (READYQ s p)" by simp
  from kinv_ready_mem [OF assms(1) this] show ?thesis
    by (simp add: active_ok_def top_ok_def sched_execute_scheduler_internal_def p tasks_def)
qed

lemma check_running:
  assumes "kinv {} s" "active_ok s" "IN_ISR s = 0"
  shows "active_ok (sched_check_scheduler_internal s) \<and> top_ok (sched_check_scheduler_internal s)"
  using exec_running [OF assms(1)] assms(2,3)
  by (auto simp: sched_check_scheduler_internal_def active_ok_def top_ok_def)

lemma check_active:
  assumes "kinv {} s" "active_ok s"
  shows "active_ok (sched_check_scheduler_internal s)"
  using check_running [OF assms] assms(2) by (cases "IN_ISR s = 0") (auto simp: sched_check_scheduler_internal_def)

lemma top_ok_highest:
  assumes "kinv {} s" "top_ok s" "t \<in> tasks s" "STATE (TDS s t) = READY"
  shows "MY_QUEUE (TDS s (ACTIVE_PTR s)) \<le> MY_QUEUE (TDS s t)"
  using kinv_current_ready(2) [OF assms(1,3) _ assms(4)] assms(2) by (simp add: top_ok_def)

section \<open>Lookup and errors\<close>

lemma task_get_td_mem: "task_get_td tid s \<noteq> NULL \<Longrightarrow> ACTIVE_PTR s \<in> tasks s \<Longrightarrow> task_get_td tid s \<in> tasks s"
  by (auto simp: task_get_td_def tasks_def dest: find_mem split: if_splits option.splits)

lemma kernel_set_error_simps [simp]:
  "TD_LIST (snd (task_set_error e s)) = TD_LIST s" "SYSTEM_TD (snd (task_set_error e s)) = SYSTEM_TD s"
  "READYQ (snd (task_set_error e s)) = READYQ s"
  "CURRENT_READY_Q (snd (task_set_error e s)) = CURRENT_READY_Q s"
  "LOWEST_TASK_PRIORITY (snd (task_set_error e s)) = LOWEST_TASK_PRIORITY s"
  "ACTIVE_PTR (snd (task_set_error e s)) = ACTIVE_PTR s"
  "TIMEOUT_QUEUE (snd (task_set_error e s)) = TIMEOUT_QUEUE s"
  "WAITQ (snd (task_set_error e s)) = WAITQ s" "LWSEMS (snd (task_set_error e s)) = LWSEMS s"
  "TASK_QUEUES (snd (task_set_error e s)) = TASK_QUEUES s"
  "LWEVENTS (snd (task_set_error e s)) = LWEVENTS s"
  "LWMSGQS (snd (task_set_error e s)) = LWMSGQS s"
  "MUTEXES (snd (task_set_error e s)) = MUTEXES s"
  "MEM (snd (task_set_error e s)) = MEM s"
  "IN_ISR (snd (task_set_error e s)) = IN_ISR s" "tasks (snd (task_set_error e s)) = tasks s"
  "STATE (TDS (snd (task_set_error e s)) t) = STATE (TDS s t)"
  "MY_QUEUE (TDS (snd (task_set_error e s)) t) = MY_QUEUE (TDS s t)"
  "FLAGS (TDS (snd (task_set_error e s)) t) = FLAGS (TDS s t)"
  by (simp_all add: task_set_error_def Let_def tasks_def)

lemma kinv_set_error: "kinv X s \<Longrightarrow> kinv X (snd (task_set_error e s))"
  by (auto simp: task_set_error_def Let_def tasks_def intro: kinv_upd_placed kinv_cong)

section \<open>Blocked tasks\<close>

text \<open>A task that is merely \<open>BLOCKED\<close> is on no queue, so it counts as in transit or not.\<close>

lemma kinv_blocked:
  assumes "kinv {t} s" "STATE (TDS s t) = BLOCKED"
  shows "kinv {} s"
proof (rule kinvI)
  fix u assume "u \<in> tasks s"
  then show "placed s u" using kinv_placed [OF assms(1), of u] kinv_loose [OF assms(1), of t] assms(2)
    by (cases "u = t") (auto simp: placed_def loose_def)
next
  fix u assume "u \<in> {} \<or> u \<notin> tasks s"
  then show "loose s u" using kinv_loose [OF assms(1), of u] by simp
qed (rule kinv_queues [OF assms(1)])

lemma kinv_unblocked:
  assumes "kinv {} s" "t \<in> tasks s" "STATE (TDS s t) = BLOCKED"
  shows "kinv {t} s"
proof (rule kinvI)
  fix u assume "u \<in> tasks s" "u \<notin> {t}"
  then show "placed s u" using kinv_placed [OF assms(1), of u] by simp
next
  fix u assume "u \<in> {t} \<or> u \<notin> tasks s"
  then show "loose s u"
    using kinv_loose [OF assms(1), of u] kinv_placed [OF assms(1,2)] assms(3)
    by (auto simp: placed_def loose_def)
qed (rule kinv_queues [OF assms(1)])

end
