(* ===== verification/Sched.thy ===== *)
theory Sched
  imports KernelInv
begin

text \<open>
  Scheduling, priorities and delays: \<^verbatim>\<open>src/mqx/source/kernel/sched.c\<close>, the task operations
  of \<^verbatim>\<open>task.c\<close> that change priority, readiness or preemption, and the delays and the tick of
  \<^verbatim>\<open>time.c\<close>. Each definition is one function of the source; the wait for the processor
  inside a blocking function is where the definition ends, since another task then runs.
\<close>

section \<open>Ordered insertion\<close>

text \<open>
  The two insertion loops of the kernel: by priority (after the tasks of the same priority)
  and by time (before the tasks with the same time, \<open>MQX_DELAY_ENQUEUE_POLICY\<close>).
\<close>

fun priority_insert :: "(addr \<Rightarrow> nat) \<Rightarrow> addr \<Rightarrow> addr list \<Rightarrow> addr list" where
  "priority_insert prio t [] = [t]"
| "priority_insert prio t (t2 # ts) =
     (if prio t2 > prio t then t # t2 # ts else t2 # priority_insert prio t ts)"

definition sched_insert_priorityq_internal :: "addr \<Rightarrow> addr \<Rightarrow> kernel \<Rightarrow> kernel" where
  "sched_insert_priorityq_internal q t s =
     s\<lparr>WAITQ := (WAITQ s)(q := priority_insert (\<lambda>u. MY_QUEUE (TDS s u)) t (WAITQ s q))\<rparr>"

fun timeout_insert :: "(addr \<Rightarrow> u64) \<Rightarrow> addr \<Rightarrow> addr list \<Rightarrow> addr list" where
  "timeout_insert tm t [] = [t]"
| "timeout_insert tm t (t2 # ts) =
     (if tm t2 \<ge> tm t then t # t2 # ts else t2 # timeout_insert tm t ts)"

definition sched_get_max_priority_on_q_internal :: "addr \<Rightarrow> kernel \<Rightarrow> u32" where
  "sched_get_max_priority_on_q_internal q s =
     fold (\<lambda>t priority. if of_nat (MY_QUEUE (TDS s t)) < priority
             then of_nat (MY_QUEUE (TDS s t)) else priority) (WAITQ s q) MAX_MQX_UINT"

section \<open>Priorities\<close>

definition sched_get_max_priority :: "u32 \<Rightarrow> nat" where
  "sched_get_max_priority policy = 0"

definition sched_get_min_priority :: "u32 \<Rightarrow> kernel \<Rightarrow> nat" where
  "sched_get_min_priority policy s = LOWEST_TASK_PRIORITY s"

definition sched_set_priority_internal :: "addr \<Rightarrow> nat \<Rightarrow> kernel \<Rightarrow> kernel" where
  "sched_set_priority_internal t new_priority s =
     (let old_priority = MY_QUEUE (TDS s t);
          s = upd_td t (\<lambda>d. d\<lparr>MY_QUEUE := new_priority\<rparr>) s
      in if STATE (TDS s t) = READY then
           (let s = TASK_READY t (UNLINK_READY t s)
            in if ACTIVE_PTR s = t \<and> new_priority > old_priority
               then sched_execute_scheduler_internal s else s)
         else s)"

definition sched_boost_priority_internal :: "addr \<Rightarrow> nat \<Rightarrow> kernel \<Rightarrow> kernel" where
  "sched_boost_priority_internal t priority s =
     (let s = upd_td t (\<lambda>d. d\<lparr>FLAGS := FLAGS d OR TASK_PRIORITY_BOOSTED\<rparr>) s;
          s = upd_td t (\<lambda>d. d\<lparr>BOOSTED := BOOSTED d + 1\<rparr>) s;
          s = sched_set_priority_internal t priority s
      in sched_check_scheduler_internal s)"

definition sched_unboost_priority_internal :: "addr \<Rightarrow> u32 \<Rightarrow> kernel \<Rightarrow> kernel" where
  "sched_unboost_priority_internal t number_of_boosts s =
     (if FLAGS (TDS s t) AND TASK_PRIORITY_BOOSTED \<noteq> 0 then
        (if BOOSTED (TDS s t) > number_of_boosts
         then upd_td t (\<lambda>d. d\<lparr>BOOSTED := BOOSTED d - number_of_boosts\<rparr>) s
         else
           (let s = upd_td t (\<lambda>d. d\<lparr>BOOSTED := 0\<rparr>) s;
                s = upd_td t (\<lambda>d. d\<lparr>FLAGS := FLAGS d AND NOT TASK_PRIORITY_BOOSTED\<rparr>) s;
                s = sched_set_priority_internal t (HOME_QUEUE (TDS s t)) s
            in sched_check_scheduler_internal s))
      else s)"

text \<open>The result and, where the code writes it, the old priority.\<close>

definition task_get_priority :: "u32 \<Rightarrow> kernel \<Rightarrow> mqx_code \<times> nat option" where
  "task_get_priority task_id s =
     (let t = task_get_td task_id s
      in if t = NULL then (MQX_INVALID_TASK_ID, None) else (MQX_OK, Some (HOME_QUEUE (TDS s t))))"

definition task_set_priority :: "u32 \<Rightarrow> nat \<Rightarrow> kernel \<Rightarrow> mqx_code \<times> nat option \<times> kernel" where
  "task_set_priority task_id new_priority s =
     (if new_priority > LOWEST_TASK_PRIORITY s then (MQX_INVALID_PARAMETER, None, s)
      else let t = task_get_td task_id s
      in if t = NULL then (MQX_INVALID_TASK_ID, None, s)
      else
        (let old = HOME_QUEUE (TDS s t);
             s = upd_td t (\<lambda>d. d\<lparr>HOME_QUEUE := new_priority\<rparr>) s;
             s = (if BOOSTED (TDS s t) \<noteq> 0 then
                    (if new_priority < MY_QUEUE (TDS s t)
                     then sched_set_priority_internal t new_priority s else s)
                  else sched_set_priority_internal t new_priority s);
             s = (if STATE (TDS s t) = TASK_QUEUE_BLOCKED
                     \<and> TQ_POLICY (TASK_QUEUES s (INFO (TDS s t) - 16)) AND 8 \<noteq> 0
                  then
                    (let q = INFO (TDS s t);
                         s = s\<lparr>WAITQ := (WAITQ s)(q := remove1 t (WAITQ s q))\<rparr>
                     in sched_insert_priorityq_internal q t s)
                  else s)
         in (MQX_OK, Some old, sched_check_scheduler_internal s)))"

section \<open>Policy and time slice\<close>

definition sched_set_policy :: "u32 \<Rightarrow> u32 \<Rightarrow> kernel \<Rightarrow> u32 \<times> kernel" where
  "sched_set_policy task_id policy s =
     (if \<not> (policy = MQX_SCHED_FIFO \<or> policy = MQX_SCHED_RR)
      then (MAX_MQX_UINT, snd (task_set_error MQX_SCHED_INVALID_POLICY s))
      else if task_id = MQX_DEFAULT_TASK_ID then (SCHED_POLICY s, s\<lparr>SCHED_POLICY := policy\<rparr>)
      else let t = task_get_td task_id s
      in if t = NULL then (MAX_MQX_UINT, snd (task_set_error MQX_SCHED_INVALID_TASK_ID s))
      else
        (let old_policy = (if FLAGS (TDS s t) AND MQX_TIME_SLICE_TASK \<noteq> 0
                           then MQX_SCHED_RR else MQX_SCHED_FIFO)
         in (old_policy,
             upd_td t (\<lambda>d. d\<lparr>FLAGS :=
               (if policy = MQX_SCHED_RR then FLAGS d OR MQX_TIME_SLICE_TASK
                else FLAGS d AND NOT MQX_TIME_SLICE_TASK)\<rparr>) s)))"

definition sched_get_policy :: "u32 \<Rightarrow> kernel \<Rightarrow> mqx_code \<times> u32 option" where
  "sched_get_policy task_id s =
     (if task_id = MQX_DEFAULT_TASK_ID then (MQX_OK, Some (SCHED_POLICY s))
      else let t = task_get_td task_id s
      in if t = NULL then (MQX_SCHED_INVALID_TASK_ID, None)
      else (MQX_OK, Some (if FLAGS (TDS s t) AND MQX_TIME_SLICE_TASK \<noteq> 0
                          then MQX_SCHED_RR else MQX_SCHED_FIFO)))"

text \<open>The pointer arguments are not \<open>NULL\<close>; \<open>Some\<close> is the time written through them.\<close>

definition sched_get_rr_interval_ticks :: "u32 \<Rightarrow> kernel \<Rightarrow> mqx_code \<times> tick_struct option \<times> kernel" where
  "sched_get_rr_interval_ticks task_id s =
     (if task_id = MQX_DEFAULT_TASK_ID then (MQX_OK, Some (SCHED_TIME_SLICE s), s)
      else let t = task_get_td task_id s
      in if t = NULL then (MQX_SCHED_INVALID_TASK_ID, None, snd (task_set_error MQX_SCHED_INVALID_TASK_ID s))
      else (MQX_OK, Some (TIME_SLICE (TDS s t)), s))"

definition sched_get_rr_interval_internal :: "u32 \<Rightarrow> kernel \<Rightarrow> mqx_code \<times> tick_struct option \<times> kernel" where
  "sched_get_rr_interval_internal task_id s =
     (if task_id = MQX_DEFAULT_TASK_ID then (MQX_OK, Some (SCHED_TIME_SLICE s), s)
      else let t = task_get_td task_id s
      in if t = NULL then (MQX_SCHED_INVALID_TASK_ID, None, snd (task_set_error MQX_SCHED_INVALID_TASK_ID s))
      else (MQX_OK, Some (TIME_SLICE (TDS s t)), s))"

text \<open>The numeric result (0 is \<open>MQX_OK\<close>) and the milliseconds written.\<close>

definition sched_get_rr_interval :: "u32 \<Rightarrow> kernel \<Rightarrow> u32 \<times> u32 \<times> kernel" where
  "sched_get_rr_interval task_id s =
     (case sched_get_rr_interval_ticks task_id s of
        (MQX_OK, Some tick, s) \<Rightarrow>
          (let (_, time) = psp_ticks_to_time (TICKS_PER_SECOND s) (HW_TICKS_PER_TICK s) tick
           in if SECONDS time \<ge> MAX_UINT_32 div 1000 then (MAX_UINT_32, MAX_UINT_32, s)
              else let slice = SECONDS time * 1000
              in if slice \<ge> MAX_UINT_32 - MILLISECONDS time then (MAX_UINT_32, MAX_UINT_32, s)
              else (0, slice + MILLISECONDS time, s))
      | (_, _, s) \<Rightarrow> (MAX_UINT_32, MAX_UINT_32, s))"

definition sched_set_rr_interval_internal ::
  "u32 \<Rightarrow> tick_struct \<Rightarrow> kernel \<Rightarrow> mqx_code \<times> tick_struct option \<times> kernel" where
  "sched_set_rr_interval_internal task_id new_rr s =
     (if task_id = MQX_DEFAULT_TASK_ID
      then (MQX_OK, Some (SCHED_TIME_SLICE s), s\<lparr>SCHED_TIME_SLICE := new_rr\<rparr>)
      else let t = task_get_td task_id s
      in if t = NULL then (MQX_SCHED_INVALID_TASK_ID, None, s)
      else (MQX_OK, Some (TIME_SLICE (TDS s t)), upd_td t (\<lambda>d. d\<lparr>TIME_SLICE := new_rr\<rparr>) s))"

definition sched_set_rr_interval_ticks ::
  "u32 \<Rightarrow> tick_struct \<Rightarrow> kernel \<Rightarrow> mqx_code \<times> tick_struct option \<times> kernel" where
  "sched_set_rr_interval_ticks task_id new_rr s =
     (case sched_set_rr_interval_internal task_id new_rr s of
        (result, old, s) \<Rightarrow>
          (result, old, if result \<noteq> MQX_OK then snd (task_set_error result s) else s))"

definition sched_set_rr_interval :: "u32 \<Rightarrow> u32 \<Rightarrow> kernel \<Rightarrow> u32 \<times> kernel" where
  "sched_set_rr_interval task_id rr_interval s =
     (if rr_interval = 0
      then (MAX_UINT_32, snd (task_set_error MQX_SCHED_INVALID_PARAMETER_PTR s))
      else
        (let rr_interval = rr_interval - 1;
             (ticks, c) = psp_msecs_to_ticks_quick (TICKS_PER_SECOND s) rr_interval (QUICK_CACHE s);
             s = s\<lparr>QUICK_CACHE := c\<rparr>;
             ticks = ticks\<lparr>TICKS := TICKS ticks + 1\<rparr>
         in case sched_set_rr_interval_internal task_id ticks s of
              (MQX_OK, Some old_ticks, s) \<Rightarrow>
                (fst (psp_ticks_to_milliseconds (TICKS_PER_SECOND s) (HW_TICKS_PER_TICK s) old_ticks), s)
            | (result, _, s) \<Rightarrow> (MAX_UINT_32, snd (task_set_error result s))))"

section \<open>Running and yielding\<close>

definition sched_yield :: "kernel \<Rightarrow> kernel" where
  "sched_yield s =
     (let t = ACTIVE_PTR s;
          s = UNLINK_READY t s;
          s = TASK_READY t s
      in sched_execute_scheduler_internal s)"

text \<open>\<open>_task_ready\<close> on a task descriptor of this processor.\<close>

definition task_ready :: "addr \<Rightarrow> kernel \<Rightarrow> kernel" where
  "task_ready t s =
     (if STATE (TDS s t) = READY then snd (task_set_error MQX_INVALID_TASK_STATE s)
      else sched_check_scheduler_internal (TASK_READY t s))"

definition task_stop_preemption :: "kernel \<Rightarrow> kernel" where
  "task_stop_preemption s =
     upd_td (ACTIVE_PTR s) (\<lambda>d. d\<lparr>FLAGS := FLAGS d OR TASK_PREEMPTION_DISABLED\<rparr>) s"

definition task_start_preemption :: "kernel \<Rightarrow> kernel" where
  "task_start_preemption s =
     sched_check_scheduler_internal
       (upd_td (ACTIVE_PTR s) (\<lambda>d. d\<lparr>FLAGS := FLAGS d AND NOT TASK_PREEMPTION_DISABLED\<rparr>) s)"

section \<open>Delays\<close>

definition time_delay_enqueue :: "addr \<Rightarrow> kernel \<Rightarrow> kernel" where
  "time_delay_enqueue t s =
     (let q = timeout_insert (wake_time s) t (TIMEOUT_QUEUE s);
          s = UNLINK_READY t s;
          s = s\<lparr>TIMEOUT_QUEUE := q\<rparr>
      in upd_td t (\<lambda>d. d\<lparr>STATE := STATE d OR IS_ON_TIMEOUT_Q\<rparr>) s)"

definition time_delay_internal :: "addr \<Rightarrow> kernel \<Rightarrow> kernel" where
  "time_delay_internal t s = sched_execute_scheduler_internal (time_delay_enqueue t s)"

definition time_delay_for :: "tick_struct \<Rightarrow> kernel \<Rightarrow> kernel" where
  "time_delay_for ticks s =
     (let t = ACTIVE_PTR s;
          s = upd_td t (\<lambda>d. d\<lparr>TIMEOUT := psp_add_ticks (HW_TICKS_PER_TICK s) ticks (TIME s)\<rparr>) s
      in time_delay_internal t s)"

text \<open>\<open>PSP_ADD_TICKS_TO_TICK_STRUCT\<close> writes only the \<open>TICKS\<close> of its result.\<close>

definition set_timeout_ticks :: "addr \<Rightarrow> u32 \<Rightarrow> kernel \<Rightarrow> kernel" where
  "set_timeout_ticks t n s =
     upd_td t (\<lambda>d. d\<lparr>TIMEOUT := (TIMEOUT d)\<lparr>TICKS := TICKS (TIME s) + ucast n\<rparr>\<rparr>) s"

definition time_delay_ticks :: "u32 \<Rightarrow> kernel \<Rightarrow> kernel" where
  "time_delay_ticks n s =
     (if n = 0 then sched_yield s
      else let t = ACTIVE_PTR s in time_delay_internal t (set_timeout_ticks t n s))"

definition time_delay_until :: "tick_struct \<Rightarrow> kernel \<Rightarrow> kernel" where
  "time_delay_until ticks s =
     (let t = ACTIVE_PTR s
      in time_delay_internal t (upd_td t (\<lambda>d. d\<lparr>TIMEOUT := ticks\<rparr>) s))"

definition time_dequeue :: "u32 \<Rightarrow> kernel \<Rightarrow> kernel" where
  "time_dequeue tid s =
     (let t = task_get_td tid s in if t = NULL then s else TIME_DEQUEUE t s)"

section \<open>The tick\<close>

text \<open>Waking one task whose time has come.\<close>

definition time_wake :: "addr \<Rightarrow> kernel \<Rightarrow> kernel" where
  "time_wake t s =
     (let s = s\<lparr>TIMEOUT_QUEUE := remove1 t (TIMEOUT_QUEUE s)\<rparr>;
          s = upd_td t (\<lambda>d. d\<lparr>STATE := STATE d AND NOT IS_ON_TIMEOUT_Q\<rparr>) s;
          s = (if STATE (TDS s t) AND TD_IS_ON_AUX_QUEUE \<noteq> 0 then
                 (let s = upd_td t (\<lambda>d. d\<lparr>STATE := STATE d AND NOT TD_IS_ON_AUX_QUEUE\<rparr>) s;
                      q = INFO (TDS s t)
                  in s\<lparr>WAITQ := (WAITQ s)(q := remove1 t (WAITQ s q))\<rparr>)
               else s)
      in TASK_READY t s)"

fun time_wake_loop :: "addr list \<Rightarrow> kernel \<Rightarrow> kernel" where
  "time_wake_loop [] s = s"
| "time_wake_loop (t # ts) s =
     (if TICKS (TIME s) \<ge> wake_time s t then time_wake_loop ts (time_wake t s) else s)"

definition time_slice_check :: "kernel \<Rightarrow> kernel" where
  "time_slice_check s =
     (let t = ACTIVE_PTR s
      in if FLAGS (TDS s t) AND MQX_TIME_SLICE_TASK \<noteq> 0 then
           (let s = upd_td t (\<lambda>d. d\<lparr>CURRENT_TIME_SLICE := (CURRENT_TIME_SLICE d)
                      \<lparr>TICKS := TICKS (CURRENT_TIME_SLICE d) + 1\<rparr>\<rparr>) s
            in if FLAGS (TDS s t) AND TASK_PREEMPTION_DISABLED = 0
                  \<and> TICKS (CURRENT_TIME_SLICE (TDS s t)) \<ge> TICKS (TIME_SLICE (TDS s t))
               then TASK_READY t (UNLINK_READY t s) else s)
         else s)"

text \<open>
  \<open>_time_notify_kernel\<close>. The hardware tick counter is read through a pointer to a function of
  the board support package: \<open>hwticks\<close> is what it returns, \<open>None\<close> when no function is
  installed. The timer components' service routines, called at the end, are not modelled.
\<close>

definition time_notify_kernel :: "u32 option \<Rightarrow> kernel \<Rightarrow> kernel" where
  "time_notify_kernel hwticks s =
     (let s = s\<lparr>TIME := (TIME s)\<lparr>TICKS := TICKS (TIME s) + 1\<rparr>\<rparr>;
          s = (case hwticks of None \<Rightarrow> s | Some h \<Rightarrow> s\<lparr>TIME := (TIME s)\<lparr>HW_TICKS := h\<rparr>\<rparr>);
          s = s\<lparr>TIME := psp_normalize_ticks (HW_TICKS_PER_TICK s) (TIME s)\<rparr>;
          s = time_wake_loop (TIMEOUT_QUEUE s) s
      in time_slice_check s)"

section \<open>Waiting lines\<close>

text \<open>
  What the kernel needs of a way to insert into a queue: the new task joins the others, and no
  task is there twice. The ordered insertions moreover keep their order, and treat tasks of
  equal rank alike: all of them stay in their order, the new one on one side of them.
\<close>

locale waiting_line =
  fixes ins :: "addr \<Rightarrow> addr list \<Rightarrow> addr list"
  assumes set_ins: "set (ins t xs) = insert t (set xs)"
    and distinct_ins: "distinct xs \<Longrightarrow> t \<notin> set xs \<Longrightarrow> distinct (ins t xs)"
    and remove_ins: "t \<notin> set xs \<Longrightarrow> remove1 t (ins t xs) = xs"
begin

lemma kinv_enter:
  assumes "kinv X s" "t \<in> X" "t \<in> tasks s"
    and "enters_waitq (STATE (TDS s t))"
    and "INFO (TDS s t) = h"
  shows "kinv (X - {t}) (s\<lparr>WAITQ := (WAITQ s)(h := ins t (WAITQ s h))\<rparr>)"
proof (rule kinv_enter_waitq [OF assms set_ins distinct_ins])
  show "distinct (WAITQ s h)" using kinv_queues [OF assms(1)] by (simp add: queues_ok_def)
  show "t \<notin> set (WAITQ s h)" using kinv_loose [OF assms(1)] assms(2) by (auto simp: loose_def)
qed

text \<open>A task that is taken out and put in again elsewhere in the same queue.\<close>

lemma kinv_requeue:
  assumes "kinv X s" "t \<in> set (WAITQ s h)"
  shows "kinv X (s\<lparr>WAITQ := (WAITQ s)(h := ins t (remove1 t (WAITQ s h)))\<rparr>)" (is "kinv X ?s")
proof (rule kinvI)
  have d: "distinct (WAITQ s h)" using kinv_queues [OF assms(1)] by (simp add: queues_ok_def)
  have same: "set (WAITQ ?s g) = set (WAITQ s g)" for g using assms(2) d by (auto simp: set_ins)
  have w: "wake_time ?s = wake_time s" by (simp add: wake_time_def fun_eq_iff)
  have "distinct (ins t (remove1 t (WAITQ s h)))" using d by (intro distinct_ins) auto
  then show "queues_ok ?s" using kinv_queues [OF assms(1)] by (simp add: queues_ok_def tasks_def w)
  fix u
  { assume "u \<in> tasks ?s" "u \<notin> X"
    then have "placed s u" using kinv_placed [OF assms(1)] by (simp add: tasks_def)
    then show "placed ?s u" using same by (simp add: placed_def del: fun_upd_apply) }
  assume "u \<in> X \<or> u \<notin> tasks ?s"
  then have "loose s u" using kinv_loose [OF assms(1)] by (simp add: tasks_def)
  then show "loose ?s u" using same by (simp add: loose_def del: fun_upd_apply)
qed

end

locale ordered_line = waiting_line +
  fixes key :: "addr \<Rightarrow> 'k :: linorder"
  assumes sorted_ins: "sorted (map key xs) \<Longrightarrow> sorted (map key (ins t xs))"

lemma set_priority_insert [simp]: "set (priority_insert f t xs) = insert t (set xs)"
  by (induction xs) auto

lemma set_timeout_insert [simp]: "set (timeout_insert f t xs) = insert t (set xs)"
  by (induction xs) auto

interpretation fifo: waiting_line "\<lambda>t xs. xs @ [t]"
  by unfold_locales (auto simp: remove1_append)

interpretation prio: ordered_line "priority_insert f" f
proof
  show "distinct (priority_insert f t xs)" if "distinct xs" "t \<notin> set xs" for t xs
    using that by (induction xs) auto
  show "remove1 t (priority_insert f t xs) = xs" if "t \<notin> set xs" for t xs
    using that by (induction xs) auto
  show "sorted (map f (priority_insert f t xs))" if "sorted (map f xs)" for t xs
    using that by (induction xs) auto
qed simp

interpretation timed: ordered_line "timeout_insert f" f
proof
  show "distinct (timeout_insert f t xs)" if "distinct xs" "t \<notin> set xs" for t xs
    using that by (induction xs) auto
  show "remove1 t (timeout_insert f t xs) = xs" if "t \<notin> set xs" for t xs
    using that by (induction xs) auto
  show "sorted (map f (timeout_insert f t xs))" if "sorted (map f xs)" for t xs
    using that by (induction xs) auto
qed simp

lemma priority_insert_split:
  "priority_insert f t xs = takeWhile (\<lambda>u. f u \<le> f t) xs @ t # dropWhile (\<lambda>u. f u \<le> f t) xs"
  by (induction xs) auto

lemma timeout_insert_split:
  "timeout_insert f t xs = takeWhile (\<lambda>u. f u < f t) xs @ t # dropWhile (\<lambda>u. f u < f t) xs"
  by (induction xs) auto

section \<open>What an operation keeps\<close>

text \<open>
  \<open>op_ok T s s'\<close>: from \<open>s\<close> to \<open>s'\<close> the invariant holds again, the tasks are the same, and every
  ready task stays ready, those in \<open>T\<close> excepted.
\<close>

definition op_ok :: "addr set \<Rightarrow> kernel \<Rightarrow> kernel \<Rightarrow> bool" where
  "op_ok T s s' \<longleftrightarrow> kinv {} s' \<and> tasks s' = tasks s \<and> IN_ISR s' = IN_ISR s
     \<and> (\<forall>u. u \<notin> T \<and> STATE (TDS s u) = READY \<longrightarrow> STATE (TDS s' u) = READY)"

lemma op_okI:
  "kinv {} s' \<Longrightarrow> tasks s' = tasks s \<Longrightarrow> IN_ISR s' = IN_ISR s \<Longrightarrow>
   (\<And>u. u \<notin> T \<Longrightarrow> STATE (TDS s u) = READY \<Longrightarrow> STATE (TDS s' u) = READY) \<Longrightarrow> op_ok T s s'"
  by (simp add: op_ok_def)

lemma op_ok_trans: "op_ok T s s1 \<Longrightarrow> op_ok T s1 s2 \<Longrightarrow> op_ok T s s2"
  by (simp add: op_ok_def)

lemma op_ok_active: "op_ok {} s s' \<Longrightarrow> active_ok s \<Longrightarrow> ACTIVE_PTR s' = ACTIVE_PTR s \<Longrightarrow> active_ok s'"
  by (simp add: op_ok_def active_ok_def)

lemma op_ok_check: "op_ok T s s1 \<Longrightarrow> op_ok T s (sched_check_scheduler_internal s1)"
  by (simp add: op_ok_def kinv_check)

lemma op_ok_exec: "op_ok T s s1 \<Longrightarrow> op_ok T s (sched_execute_scheduler_internal s1)"
  by (simp add: op_ok_def kinv_exec)

text \<open>The two ways an operation ends: with a check, and with a switch.\<close>

lemma op_check:
  assumes "op_ok {} s s1" "active_ok s1"
  shows "op_ok {} s (sched_check_scheduler_internal s1)" "active_ok (sched_check_scheduler_internal s1)"
    and "IN_ISR s = 0 \<Longrightarrow> top_ok (sched_check_scheduler_internal s1)"
  using assms check_active [of s1] check_running [of s1] op_ok_check by (auto simp: op_ok_def)

lemma op_exec:
  assumes "op_ok T s s1" "r \<in> tasks s" "r \<notin> T" "STATE (TDS s r) = READY"
  shows "op_ok T s (sched_execute_scheduler_internal s1)"
    and "active_ok (sched_execute_scheduler_internal s1)" "top_ok (sched_execute_scheduler_internal s1)"
  using assms exec_running [of s1 r] op_ok_exec by (auto simp: op_ok_def)

section \<open>Priorities keep the invariant\<close>

lemma ready_again_ok:
  assumes "kinv {} s" "t \<in> tasks s" "STATE (TDS s t) = READY"
    and "MY_QUEUE (f (TDS s t)) \<le> LOWEST_TASK_PRIORITY s + 1"
    and "HOME_QUEUE (f (TDS s t)) = HOME_QUEUE (TDS s t)"
  shows "op_ok {} s (TASK_READY t (UNLINK_READY t (upd_td t f s)))"
proof -
  have "kinv {t} (UNLINK_READY t s)" using kinv_unlink [OF assms(1,3)] by simp
  then have "kinv {t} (UNLINK_READY t (upd_td t f s))"
    unfolding UNLINK_READY_upd_td by (rule kinv_upd_loose) (use assms in auto)
  from kinv_ready [OF this, of t] show ?thesis using assms by (auto intro!: op_okI)
qed

lemma set_priority_ok:
  assumes "kinv {} s" "t \<in> tasks s" "p \<le> LOWEST_TASK_PRIORITY s + 1"
  shows "op_ok {} s (sched_set_priority_internal t p s)"
proof (cases "STATE (TDS s t) = READY")
  case True
  then show ?thesis
    using ready_again_ok [OF assms(1,2) True, of "\<lambda>d. d\<lparr>MY_QUEUE := p\<rparr>"] assms(3)
    by (simp add: sched_set_priority_internal_def Let_def op_ok_exec)
next
  case False
  then have "kinv {} (upd_td t (\<lambda>d. d\<lparr>MY_QUEUE := p\<rparr>) s)"
    using assms by (intro kinv_upd_placed) auto
  then show ?thesis using False by (auto simp: sched_set_priority_internal_def intro: op_okI)
qed

lemma set_priority_active:
  assumes "kinv {} s" "active_ok s" "t \<in> tasks s" "p \<le> LOWEST_TASK_PRIORITY s + 1"
  shows "active_ok (sched_set_priority_internal t p s)"
proof (cases "STATE (TDS s t) = READY \<and> ACTIVE_PTR s = t \<and> MY_QUEUE (TDS s t) < p")
  case True
  let ?s = "TASK_READY t (UNLINK_READY t (upd_td t (\<lambda>d. d\<lparr>MY_QUEUE := p\<rparr>) s))"
  have "op_ok {} s ?s" using ready_again_ok [OF assms(1,3)] True assms(4) by simp
  from op_exec(2) [OF this, of t] show ?thesis
    using True assms(3) by (simp add: sched_set_priority_internal_def Let_def)
next
  case False
  then have "ACTIVE_PTR (sched_set_priority_internal t p s) = ACTIVE_PTR s"
    by (auto simp: sched_set_priority_internal_def Let_def)
  from op_ok_active [OF set_priority_ok [OF assms(1,3,4)] assms(2) this] show ?thesis .
qed

lemma set_priority_simps [simp]:
  "WAITQ (sched_set_priority_internal t p s) = WAITQ s"
  "TASK_QUEUES (sched_set_priority_internal t p s) = TASK_QUEUES s"
  "LWEVENTS (sched_set_priority_internal t p s) = LWEVENTS s"
  "LWMSGQS (sched_set_priority_internal t p s) = LWMSGQS s"
  "MUTEXES (sched_set_priority_internal t p s) = MUTEXES s" "tasks (sched_set_priority_internal t p s) = tasks s"
  "MEM (sched_set_priority_internal t p s) = MEM s"
  "LWSEMS (sched_set_priority_internal t p s) = LWSEMS s"
  "LWSEM_LIST (sched_set_priority_internal t p s) = LWSEM_LIST s"
  "TIMEOUT_QUEUE (sched_set_priority_internal t p s) = TIMEOUT_QUEUE s"
  "LOWEST_TASK_PRIORITY (sched_set_priority_internal t p s) = LOWEST_TASK_PRIORITY s"
  "SYSTEM_TD (sched_set_priority_internal t p s) = SYSTEM_TD s"
  "STATE (TDS (sched_set_priority_internal t p s) u) = STATE (TDS s u)"
  "INFO (TDS (sched_set_priority_internal t p s) u) = INFO (TDS s u)"
  "FLAGS (TDS (sched_set_priority_internal t p s) u) = FLAGS (TDS s u)"
  "BOOSTED (TDS (sched_set_priority_internal t p s) u) = BOOSTED (TDS s u)"
  "HOME_QUEUE (TDS (sched_set_priority_internal t p s) u) = HOME_QUEUE (TDS s u)"
  "MY_QUEUE (TDS (sched_set_priority_internal t p s) u) = (if u = t then p else MY_QUEUE (TDS s u))"
  by (simp_all add: sched_set_priority_internal_def Let_def)

lemma op_ok_upd:
  assumes "kinv {} s"
    and "STATE (f (TDS s t)) = STATE (TDS s t)" "MY_QUEUE (f (TDS s t)) = MY_QUEUE (TDS s t)"
    and "INFO (f (TDS s t)) = INFO (TDS s t)" "TIMEOUT (f (TDS s t)) = TIMEOUT (TDS s t)"
    and "HOME_QUEUE (f (TDS s t)) = HOME_QUEUE (TDS s t) \<or> HOME_QUEUE (f (TDS s t)) \<le> LOWEST_TASK_PRIORITY s + 1"
  shows "op_ok {} s (upd_td t f s)"
  using assms by (auto intro!: op_okI kinv_upd_placed)

lemma active_ok_upd:
  "active_ok s \<Longrightarrow> STATE (f (TDS s t)) = STATE (TDS s t) \<Longrightarrow> active_ok (upd_td t f s)"
  by (auto simp: active_ok_def)

lemma boost_ok:
  assumes "kinv {} s" "active_ok s" "t \<in> tasks s" "p \<le> LOWEST_TASK_PRIORITY s + 1"
  defines "s' \<equiv> sched_boost_priority_internal t p s"
  shows "op_ok {} s s'" "active_ok s'" "IN_ISR s = 0 \<Longrightarrow> top_ok s'"
proof -
  let ?f = "\<lambda>d. d\<lparr>FLAGS := FLAGS d OR TASK_PRIORITY_BOOSTED\<rparr>"
    and ?g = "\<lambda>d. d\<lparr>BOOSTED := BOOSTED d + 1\<rparr>"
  let ?s1 = "upd_td t ?g (upd_td t ?f s)"
  have a: "op_ok {} s (upd_td t ?f s)" using assms(1) by (rule op_ok_upd) auto
  have b: "op_ok {} (upd_td t ?f s) ?s1"
    using a by (intro op_ok_upd) (auto simp: op_ok_def)
  have k: "op_ok {} s ?s1" using a b by (rule op_ok_trans)
  have act: "active_ok ?s1" using assms(2) by (auto intro!: active_ok_upd)
  have "op_ok {} ?s1 (sched_set_priority_internal t p ?s1)"
    and act2: "active_ok (sched_set_priority_internal t p ?s1)"
    using k act assms(3,4) set_priority_ok [of ?s1 t p] set_priority_active [of ?s1 t p]
    by (auto simp: op_ok_def)
  then have "op_ok {} s (sched_set_priority_internal t p ?s1)" using k op_ok_trans by blast
  from op_check [OF this act2]
  show "op_ok {} s s'" "active_ok s'" "IN_ISR s = 0 \<Longrightarrow> top_ok s'"
    by (simp_all add: s'_def sched_boost_priority_internal_def Let_def)
qed

lemma unboost_ok:
  fixes n :: u32
  assumes "kinv {} s" "active_ok s" "t \<in> tasks s" "HOME_QUEUE (TDS s t) \<le> LOWEST_TASK_PRIORITY s + 1"
  defines "s' \<equiv> sched_unboost_priority_internal t n s"
  shows "op_ok {} s s'" "active_ok s'" "IN_ISR s = 0 \<Longrightarrow> top_ok s \<Longrightarrow> top_ok s'"
proof -
  let ?g = "\<lambda>d. d\<lparr>BOOSTED := 0\<rparr>" and ?f = "\<lambda>d. d\<lparr>FLAGS := FLAGS d AND NOT TASK_PRIORITY_BOOSTED\<rparr>"
    and ?e = "\<lambda>d. d\<lparr>BOOSTED := BOOSTED d - n\<rparr>"
  let ?s1 = "upd_td t ?f (upd_td t ?g s)" and ?p = "HOME_QUEUE (TDS s t)"
  have a: "op_ok {} s (upd_td t ?g s)" using assms(1) by (rule op_ok_upd) auto
  have b: "op_ok {} (upd_td t ?g s) ?s1"
    using a by (intro op_ok_upd) (auto simp: op_ok_def)
  have k: "op_ok {} s ?s1" using a b by (rule op_ok_trans)
  have act: "active_ok ?s1" using assms(2) by (auto intro!: active_ok_upd)
  have "op_ok {} ?s1 (sched_set_priority_internal t ?p ?s1)"
    and act2: "active_ok (sched_set_priority_internal t ?p ?s1)"
    using k act assms(3,4) set_priority_ok [of ?s1 t ?p] set_priority_active [of ?s1 t ?p]
    by (auto simp: op_ok_def)
  then have k2: "op_ok {} s (sched_set_priority_internal t ?p ?s1)" using k op_ok_trans by blast
  have e: "op_ok {} s (upd_td t ?e s)" using assms(1) by (rule op_ok_upd) auto
  have id: "op_ok {} s s" using assms(1) by (rule op_okI) auto
  show "op_ok {} s s'" "active_ok s'" "IN_ISR s = 0 \<Longrightarrow> top_ok s \<Longrightarrow> top_ok s'"
    using op_check [OF k2 act2] e id assms(2)
    by (auto simp: s'_def sched_unboost_priority_internal_def Let_def top_ok_def intro: active_ok_upd)
qed

lemma requeue_ok:
  assumes "kinv {} s" "STATE (TDS s t) = TASK_QUEUE_BLOCKED" "t \<in> tasks s" "INFO (TDS s t) = q"
  shows "op_ok {} s (sched_insert_priorityq_internal q t (s\<lparr>WAITQ := (WAITQ s)(q := remove1 t (WAITQ s q))\<rparr>))"
    (is "op_ok {} s ?s")
proof -
  have "t \<in> set (WAITQ s q)"
    using kinv_placed [OF assms(1,3)] assms(2,4) by (simp add: placed_def)
  from prio.kinv_requeue [OF assms(1) this, of "\<lambda>u. MY_QUEUE (TDS s u)"]
  have "kinv {} ?s" by (simp add: sched_insert_priorityq_internal_def)
  then show ?thesis by (rule op_okI) (simp_all add: sched_insert_priorityq_internal_def tasks_def)
qed

text \<open>The two halves of \<open>_task_set_priority\<close>: the new priority, and the new place on a task queue.\<close>

definition reprioritized :: "addr \<Rightarrow> nat \<Rightarrow> kernel \<Rightarrow> kernel" where
  "reprioritized t p s =
     (let s = upd_td t (\<lambda>d. d\<lparr>HOME_QUEUE := p\<rparr>) s
      in if BOOSTED (TDS s t) \<noteq> 0 \<and> p \<ge> MY_QUEUE (TDS s t) then s else sched_set_priority_internal t p s)"

definition requeued :: "addr \<Rightarrow> kernel \<Rightarrow> kernel" where
  "requeued t s =
     (let q = INFO (TDS s t)
      in if STATE (TDS s t) = TASK_QUEUE_BLOCKED \<and> TQ_POLICY (TASK_QUEUES s (q - 16)) AND 8 \<noteq> 0
         then sched_insert_priorityq_internal q t (s\<lparr>WAITQ := (WAITQ s)(q := remove1 t (WAITQ s q))\<rparr>)
         else s)"

lemma task_set_priority_eq:
  "task_set_priority tid p s =
     (if p > LOWEST_TASK_PRIORITY s then (MQX_INVALID_PARAMETER, None, s)
      else let t = task_get_td tid s
      in if t = NULL then (MQX_INVALID_TASK_ID, None, s)
      else (MQX_OK, Some (HOME_QUEUE (TDS s t)), sched_check_scheduler_internal (requeued t (reprioritized t p s))))"
  by (auto simp: task_set_priority_def reprioritized_def requeued_def Let_def)

lemma task_set_priority_ok:
  fixes tid :: u32 and p :: nat
  assumes "kinv {} s" "active_ok s"
  defines "s' \<equiv> snd (snd (task_set_priority tid p s))"
  shows "op_ok {} s s'" "active_ok s'" "IN_ISR s = 0 \<Longrightarrow> top_ok s \<Longrightarrow> top_ok s'"
proof -
  define t where "t = task_get_td tid s"
  let ?s1 = "upd_td t (\<lambda>d. d\<lparr>HOME_QUEUE := p\<rparr>) s"
  define s2 where "s2 = reprioritized t p s"
  define s3 where "s3 = requeued t s2"
  have id: "op_ok {} s s" using assms(1) by (rule op_okI) auto
  have e: "s' = (if p > LOWEST_TASK_PRIORITY s \<or> t = NULL then s else sched_check_scheduler_internal s3)"
    by (simp add: s'_def task_set_priority_eq t_def s2_def s3_def Let_def)
  have "op_ok {} s s3 \<and> active_ok s3" if le: "p \<le> LOWEST_TASK_PRIORITY s" and n: "t \<noteq> NULL"
  proof -
    have t: "t \<in> tasks s" using task_get_td_mem n assms(2) by (auto simp: t_def active_ok_def)
    have 1: "op_ok {} s ?s1" using assms(1) by (rule op_ok_upd) (use le in auto)
    have a1: "active_ok ?s1" using assms(2) by (rule active_ok_upd) simp
    have k1: "kinv {} ?s1" "t \<in> tasks ?s1" "p \<le> LOWEST_TASK_PRIORITY ?s1 + 1"
      using 1 t le by (auto simp: op_ok_def)
    have 2: "op_ok {} ?s1 s2"
      using set_priority_ok [OF k1] op_okI [OF k1(1), of ?s1] by (simp add: s2_def reprioritized_def Let_def)
    have a2: "active_ok s2" using set_priority_active [OF k1(1) a1 k1(2,3)] a1 by (simp add: s2_def reprioritized_def Let_def)
    have k2: "kinv {} s2" "t \<in> tasks s2" using 2 k1 by (auto simp: op_ok_def)
    have 3: "op_ok {} s2 s3"
      using requeue_ok [OF k2(1) _ k2(2)] op_okI [OF k2(1), of s2] by (simp add: s3_def requeued_def Let_def)
    have "ACTIVE_PTR s3 = ACTIVE_PTR s2" by (simp add: s3_def requeued_def Let_def sched_insert_priorityq_internal_def)
    then have "active_ok s3" by (rule op_ok_active [OF 3 a2])
    then show ?thesis using op_ok_trans [OF op_ok_trans [OF 1 2] 3] by blast
  qed
  then show "op_ok {} s s'" "active_ok s'" "IN_ISR s = 0 \<Longrightarrow> top_ok s \<Longrightarrow> top_ok s'"
    using op_check [of s s3] id assms(2) by (auto simp: e)
qed

section \<open>Running, yielding and delaying keep the invariant\<close>

lemma op_ok_refl: "kinv {} s \<Longrightarrow> op_ok T s s"
  by (rule op_okI) auto

lemma op_ok_weaken: "op_ok {} s s' \<Longrightarrow> op_ok T s s'"
  by (simp add: op_ok_def)

lemma op_ok_set_error: "kinv {} s \<Longrightarrow> op_ok {} s (snd (task_set_error e s))"
  by (rule op_okI) (auto simp: kinv_set_error)

lemma set_policy_ok:
  assumes "kinv {} s" "active_ok s"
  shows "op_ok {} s (snd (sched_set_policy tid pol s))" "active_ok (snd (sched_set_policy tid pol s))"
    and "top_ok s \<Longrightarrow> top_ok (snd (sched_set_policy tid pol s))"
proof -
  have "kinv {} (s\<lparr>SCHED_POLICY := pol\<rparr>)" by (rule kinv_cong [OF assms(1)]) (auto simp: tasks_def)
  then have "op_ok {} s (s\<lparr>SCHED_POLICY := pol\<rparr>)" by (rule op_okI) (auto simp: tasks_def)
  then show "op_ok {} s (snd (sched_set_policy tid pol s))"
    using assms(1) by (auto simp: sched_set_policy_def Let_def op_ok_set_error intro!: op_ok_upd)
  show "active_ok (snd (sched_set_policy tid pol s))"
    and "top_ok s \<Longrightarrow> top_ok (snd (sched_set_policy tid pol s))"
    using assms(2) by (auto simp: sched_set_policy_def Let_def active_ok_def top_ok_def tasks_def)
qed

lemma yield_ok:
  assumes "kinv {} s" "active_ok s"
  shows "op_ok {} s (sched_yield s)" "active_ok (sched_yield s)" "top_ok (sched_yield s)"
proof -
  let ?s = "TASK_READY (ACTIVE_PTR s) (UNLINK_READY (ACTIVE_PTR s) s)"
  have a: "ACTIVE_PTR s \<in> tasks s" "STATE (TDS s (ACTIVE_PTR s)) = READY"
    using assms(2) by (auto simp: active_ok_def)
  have "MY_QUEUE (TDS s (ACTIVE_PTR s)) \<le> LOWEST_TASK_PRIORITY s + 1"
    using kinv_queues [OF assms(1)] a by (simp add: queues_ok_def)
  then have "op_ok {} s ?s"
    using ready_again_ok [OF assms(1) a, of "\<lambda>d. d"] by (simp add: upd_td_def)
  from op_exec [OF this a(1) _ a(2)]
  show "op_ok {} s (sched_yield s)" "active_ok (sched_yield s)" "top_ok (sched_yield s)"
    by (simp_all add: sched_yield_def Let_def)
qed

lemma block_ok:
  assumes "kinv {} s" "active_ok s" "r \<in> tasks s" "STATE (TDS s r) = READY" "r \<noteq> ACTIVE_PTR s"
  shows "op_ok {ACTIVE_PTR s} s (task_block s)" "active_ok (task_block s)" "top_ok (task_block s)"
proof -
  let ?t = "ACTIVE_PTR s"
  let ?f = "\<lambda>d. d\<lparr>STATE := STATE d OR IS_BLOCKED\<rparr>"
  let ?s = "upd_td ?t ?f (UNLINK_READY ?t s)"
  have a: "?t \<in> tasks s" "STATE (TDS s ?t) = READY" using assms(2) by (auto simp: active_ok_def)
  have "kinv {?t} (UNLINK_READY ?t s)" using kinv_unlink [OF assms(1) a(2)] by simp
  then have "kinv {?t} ?s"
    by (rule kinv_upd_loose) (use kinv_queues [OF assms(1)] a in \<open>auto simp: queues_ok_def\<close>)
  then have "kinv {} ?s" using a by (rule_tac kinv_blocked) auto
  then have "op_ok {?t} s ?s" by (rule op_okI) auto
  from op_exec [OF this assms(3) _ assms(4)] assms(5)
  show "op_ok {ACTIVE_PTR s} s (task_block s)" "active_ok (task_block s)" "top_ok (task_block s)"
    by (simp_all add: task_block_def Let_def UNLINK_READY_upd_td)
qed

lemma task_ready_ok:
  assumes "kinv {} s" "active_ok s" "t \<in> tasks s" "STATE (TDS s t) = BLOCKED \<or> STATE (TDS s t) = READY"
  shows "op_ok {} s (task_ready t s)" "active_ok (task_ready t s)"
    and "IN_ISR s = 0 \<Longrightarrow> top_ok s \<Longrightarrow> top_ok (task_ready t s)"
proof -
  have k: "op_ok {} s (TASK_READY t s) \<and> active_ok (TASK_READY t s)" if "STATE (TDS s t) = BLOCKED"
  proof -
    have "kinv {t} s" using kinv_unblocked [OF assms(1,3)] that by simp
    from kinv_ready [OF this] have "kinv {} (TASK_READY t s)" using assms(3) by simp
    then have "op_ok {} s (TASK_READY t s)" by (rule op_okI) auto
    then show ?thesis using op_ok_active [OF _ assms(2)] by auto
  qed
  show "op_ok {} s (task_ready t s)" "active_ok (task_ready t s)"
    and "IN_ISR s = 0 \<Longrightarrow> top_ok s \<Longrightarrow> top_ok (task_ready t s)"
    using assms(2,4) k op_check [of s "TASK_READY t s"] op_ok_set_error [OF assms(1)]
    by (auto simp: task_ready_def active_ok_def top_ok_def)
qed

lemma preemption_ok:
  assumes "kinv {} s" "active_ok s"
  shows "op_ok {} s (task_stop_preemption s)" "active_ok (task_stop_preemption s)"
    and "top_ok s \<Longrightarrow> top_ok (task_stop_preemption s)"
    and "op_ok {} s (task_start_preemption s)" "active_ok (task_start_preemption s)"
    and "IN_ISR s = 0 \<Longrightarrow> top_ok (task_start_preemption s)"
proof -
  let ?s1 = "task_stop_preemption s"
    and ?s2 = "upd_td (ACTIVE_PTR s) (\<lambda>d. d\<lparr>FLAGS := FLAGS d AND NOT TASK_PREEMPTION_DISABLED\<rparr>) s"
  show "op_ok {} s ?s1" "active_ok ?s1" "top_ok s \<Longrightarrow> top_ok ?s1"
    using op_ok_upd [OF assms(1)] assms(2)
    by (auto simp: task_stop_preemption_def top_ok_def intro: active_ok_upd)
  have 2: "op_ok {} s ?s2" "active_ok ?s2"
    using op_ok_upd [OF assms(1)] assms(2) by (auto intro: active_ok_upd)
  show "op_ok {} s (task_start_preemption s)" "active_ok (task_start_preemption s)"
    "IN_ISR s = 0 \<Longrightarrow> top_ok (task_start_preemption s)"
    using op_check [OF 2] by (simp_all add: task_start_preemption_def)
qed

text \<open>Blocking on a queue: the task leaves its ready queue for the end of the queue at \<open>h\<close>.\<close>

lemma enter_waiting_ok:
  assumes "kinv {} s" "t \<in> tasks s" "STATE (TDS s t) = READY" "enters_waitq st"
  shows "op_ok {t} s
     (let s = upd_td t (\<lambda>d. d\<lparr>STATE := st\<rparr>) s;
          s = upd_td t (\<lambda>d. d\<lparr>INFO := h\<rparr>) s;
          s = UNLINK_READY t s
      in s\<lparr>WAITQ := (WAITQ s)(h := WAITQ s h @ [t])\<rparr>)" (is "op_ok _ _ ?s'")
proof (rule op_okI)
  let ?s = "upd_td t (\<lambda>d. d\<lparr>INFO := h\<rparr>) (upd_td t (\<lambda>d. d\<lparr>STATE := st\<rparr>) (UNLINK_READY t s))"
  have mq: "MY_QUEUE (TDS s t) \<le> LOWEST_TASK_PRIORITY s + 1"
    using kinv_queues [OF assms(1)] assms(2) by (simp add: queues_ok_def)
  have "kinv {t} (UNLINK_READY t s)" using kinv_unlink [OF assms(1,3)] by simp
  then have "kinv {t} ?s" using mq by (intro kinv_upd_loose) auto
  from fifo.kinv_enter [OF this, of t h]
  show "kinv {} ?s'" using assms(2,4) by (simp add: Let_def UNLINK_READY_upd_td)
qed (auto simp: Let_def tasks_def)

text \<open>Entering the timeout queue, from the ready queue or while waiting on a semaphore.\<close>

lemma delay_enqueue_simps [simp]:
  "TDS (time_delay_enqueue t s) = (TDS s)(t := (TDS s t)\<lparr>STATE := STATE (TDS s t) OR IS_ON_TIMEOUT_Q\<rparr>)"
  "TIMEOUT_QUEUE (time_delay_enqueue t s) = timeout_insert (wake_time s) t (TIMEOUT_QUEUE s)"
  "WAITQ (time_delay_enqueue t s) = WAITQ s" "tasks (time_delay_enqueue t s) = tasks s"
  "IN_ISR (time_delay_enqueue t s) = IN_ISR s" "LWSEMS (time_delay_enqueue t s) = LWSEMS s"
  "TASK_QUEUES (time_delay_enqueue t s) = TASK_QUEUES s"
  "LWEVENTS (time_delay_enqueue t s) = LWEVENTS s"
  "LWMSGQS (time_delay_enqueue t s) = LWMSGQS s"
  "MUTEXES (time_delay_enqueue t s) = MUTEXES s"
  "MEM (time_delay_enqueue t s) = MEM s" "TIME (time_delay_enqueue t s) = TIME s"
  "LWSEM_LIST (time_delay_enqueue t s) = LWSEM_LIST s"
  "READYQ (time_delay_enqueue t s) = (\<lambda>p. remove1 t (READYQ s p))"
  "CURRENT_READY_Q (time_delay_enqueue t s) = CURRENT_READY_Q s"
  "LOWEST_TASK_PRIORITY (time_delay_enqueue t s) = LOWEST_TASK_PRIORITY s"
  by (simp_all add: time_delay_enqueue_def Let_def tasks_def upd_td_def)

lemma delay_enqueue_ok:
  assumes "kinv {} s" "t \<in> tasks s" "enters_timeout (STATE (TDS s t))"
  shows "op_ok {t} s (time_delay_enqueue t s)" (is "op_ok _ s ?s")
proof (rule op_okI)
  have pt: "placed s t" using kinv_placed [OF assms(1,2)] by simp
  have q: "queues_ok s" using assms(1) by (rule kinv_queues)
  note en = enters_timeoutD [OF assms(3)]
  have n: "t \<notin> set (TIMEOUT_QUEUE s)" using pt en by (simp add: placed_def)
  have w: "wake_time ?s = wake_time s" by (simp add: wake_time_def fun_eq_iff)
  show "kinv {} ?s"
  proof (rule kinvI)
    show "queues_ok ?s"
      using q n timed.distinct_ins timed.sorted_ins by (simp add: queues_ok_def w)
    fix u
    { assume u: "u \<in> tasks ?s"
      show "placed ?s u"
      proof (cases "u = t")
        case True
        then show ?thesis using pt en q by (auto simp: placed_def queues_ok_def)
      next
        case False
        then show ?thesis using kinv_placed [OF assms(1), of u] u
          by (simp add: placed_def in_set_remove1)
      qed }
    assume "u \<in> {} \<or> u \<notin> tasks ?s"
    then show "loose ?s u" using kinv_loose [OF assms(1), of u] assms(2) notin_set_remove1
      by (auto simp: loose_def)
  qed
qed auto

lemma delay_ok:
  assumes "kinv {} s" "t \<in> tasks s" "enters_timeout (STATE (TDS s t))"
    and "r \<in> tasks s" "STATE (TDS s r) = READY" "r \<noteq> t"
  shows "op_ok {t} s (time_delay_internal t s)" "active_ok (time_delay_internal t s)"
    "top_ok (time_delay_internal t s)"
  using op_exec [OF delay_enqueue_ok [OF assms(1-3)] assms(4) _ assms(5)] assms(6)
  by (simp_all add: time_delay_internal_def)

text \<open>The three delays: the active task gets a wake-up time and enters the timeout queue.\<close>

lemma set_timeout_ok:
  assumes "kinv {} s" "STATE (TDS s t) = READY"
  shows "kinv {} (upd_td t (\<lambda>d. d\<lparr>TIMEOUT := x d\<rparr>) s)"
  using assms by (intro kinv_upd_placed) auto

lemma delay_active_ok:
  assumes "kinv {} s" "active_ok s" "r \<in> tasks s" "STATE (TDS s r) = READY" "r \<noteq> ACTIVE_PTR s"
    and e: "s' = time_delay_internal (ACTIVE_PTR s) (upd_td (ACTIVE_PTR s) (\<lambda>d. d\<lparr>TIMEOUT := x d\<rparr>) s)"
  shows "op_ok {ACTIVE_PTR s} s s'" "active_ok s'" "top_ok s'"
proof -
  let ?s = "upd_td (ACTIVE_PTR s) (\<lambda>d. d\<lparr>TIMEOUT := x d\<rparr>) s"
  have a: "ACTIVE_PTR s \<in> tasks s" "STATE (TDS s (ACTIVE_PTR s)) = READY"
    using assms(2) by (auto simp: active_ok_def)
  have k: "kinv {} ?s" using set_timeout_ok [OF assms(1) a(2)] .
  have "op_ok {ACTIVE_PTR s} s ?s" using k by (rule op_okI) auto
  moreover have "op_ok {ACTIVE_PTR s} ?s s'" and "active_ok s'" "top_ok s'"
    using delay_ok [OF k, of "ACTIVE_PTR s" r] a assms(3-5) by (auto simp: e)
  ultimately show "op_ok {ACTIVE_PTR s} s s'" "active_ok s'" "top_ok s'"
    using op_ok_trans by blast+
qed

lemma time_delay_ok:
  assumes "kinv {} s" "active_ok s" "r \<in> tasks s" "STATE (TDS s r) = READY" "r \<noteq> ACTIVE_PTR s"
    and "s' = time_delay_for ticks s \<or> s' = time_delay_ticks n s \<or> s' = time_delay_until ticks s"
  shows "op_ok {ACTIVE_PTR s} s s'" "active_ok s'" "top_ok s'"
  using assms(6) delay_active_ok [OF assms(1-5)] yield_ok [OF assms(1,2)] op_ok_weaken
  by (auto simp: time_delay_for_def time_delay_ticks_def time_delay_until_def set_timeout_ticks_def
      Let_def split: if_splits)

section \<open>The tick\<close>

text \<open>A task taken off every queue.\<close>

definition detach :: "addr \<Rightarrow> kernel \<Rightarrow> kernel" where
  "detach t s = s\<lparr>READYQ := (\<lambda>p. remove1 t (READYQ s p)),
     TIMEOUT_QUEUE := remove1 t (TIMEOUT_QUEUE s), WAITQ := (\<lambda>h. remove1 t (WAITQ s h))\<rparr>"

lemma detach_simps [simp]:
  "TDS (detach t s) = TDS s" "tasks (detach t s) = tasks s"
  "READYQ (detach t s) = (\<lambda>p. remove1 t (READYQ s p))"
  "TIMEOUT_QUEUE (detach t s) = remove1 t (TIMEOUT_QUEUE s)"
  "WAITQ (detach t s) = (\<lambda>h. remove1 t (WAITQ s h))"
  "CURRENT_READY_Q (detach t s) = CURRENT_READY_Q s"
  "LOWEST_TASK_PRIORITY (detach t s) = LOWEST_TASK_PRIORITY s"
  "ACTIVE_PTR (detach t s) = ACTIVE_PTR s" "TIME (detach t s) = TIME s"
  "LWSEMS (detach t s) = LWSEMS s" "TASK_QUEUES (detach t s) = TASK_QUEUES s"
  "LWEVENTS (detach t s) = LWEVENTS s"
  "LWMSGQS (detach t s) = LWMSGQS s"
  "MUTEXES (detach t s) = MUTEXES s"
  "MEM (detach t s) = MEM s"
  "IN_ISR (detach t s) = IN_ISR s"
  by (simp_all add: detach_def tasks_def)

lemma kinv_detach:
  assumes "kinv X s"
  shows "kinv (insert t X) (detach t s)"
proof (rule kinvI)
  have q: "queues_ok s" using assms by (rule kinv_queues)
  have w: "wake_time (detach t s) = wake_time s" by (simp add: wake_time_def fun_eq_iff)
  show "queues_ok (detach t s)" using q by (simp add: queues_ok_def w sorted_map_remove1)
  fix u
  { assume "u \<in> tasks (detach t s)" "u \<notin> insert t X"
    then show "placed (detach t s) u" using kinv_placed [OF assms, of u]
      by (simp add: placed_def in_set_remove1) }
  assume "u \<in> insert t X \<or> u \<notin> tasks (detach t s)"
  then show "loose (detach t s) u" using kinv_loose [OF assms, of u] q
    by (cases "u = t") (auto simp: loose_def queues_ok_def in_set_remove1)
qed

lemma time_wake_eq:
  assumes "kinv {} s" "t \<in> set (TIMEOUT_QUEUE s)"
  shows "\<exists>w. time_wake t s = TASK_READY t (upd_td t (\<lambda>d. d\<lparr>STATE := w\<rparr>) (detach t s))"
proof -
  have m: "t \<in> tasks s" "on_timeout (STATE (TDS s t))" "legal_state (STATE (TDS s t))"
    using kinv_timeout_mem [OF assms] by auto
  have st: "STATE (TDS s t) = 0x102 \<or> STATE (TDS s t) = 0x52B \<or> STATE (TDS s t) = 0x52D
      \<or> STATE (TDS s t) = 0x531"
    using legal_timeout_states m(2,3) by blast
  have pt: "placed s t" using kinv_placed [OF assms(1) m(1)] by simp
  have r: "(\<lambda>p. remove1 t (READYQ s p)) = READYQ s"
    using pt st by (auto simp: placed_def remove1_idem fun_eq_iff)
  show ?thesis
  proof (cases "STATE (TDS s t) = 0x102")
    case True
    have w: "(\<lambda>h. remove1 t (WAITQ s h)) = WAITQ s"
      using pt True by (simp add: placed_def remove1_idem fun_eq_iff)
    have "time_wake t s = TASK_READY t (s\<lparr>TIMEOUT_QUEUE := remove1 t (TIMEOUT_QUEUE s),
        TDS := (TDS s)(t := (TDS s t)\<lparr>STATE := 2\<rparr>)\<rparr>)"
      using True by (simp add: time_wake_def Let_def upd_td_def)
    also have "s\<lparr>TIMEOUT_QUEUE := remove1 t (TIMEOUT_QUEUE s), TDS := (TDS s)(t := (TDS s t)\<lparr>STATE := 2\<rparr>)\<rparr>
        = upd_td t (\<lambda>d. d\<lparr>STATE := 2\<rparr>) (detach t s)"
      by (rule kernel.equality) (simp_all add: upd_td_def detach_def r w)
    finally show ?thesis by blast
  next
    case False
    define w where "w = (STATE (TDS s t) AND NOT IS_ON_TIMEOUT_Q) AND NOT TD_IS_ON_AUX_QUEUE"
    have f: "(STATE (TDS s t) AND NOT IS_ON_TIMEOUT_Q) AND TD_IS_ON_AUX_QUEUE \<noteq> 0"
      using st False by auto
    have wq: "(\<lambda>h. remove1 t (WAITQ s h)) =
        (WAITQ s)(INFO (TDS s t) := remove1 t (WAITQ s (INFO (TDS s t))))"
      using pt by (auto simp: placed_def remove1_idem fun_eq_iff)
    have "time_wake t s = TASK_READY t (s\<lparr>TIMEOUT_QUEUE := remove1 t (TIMEOUT_QUEUE s),
        TDS := (TDS s)(t := (TDS s t)\<lparr>STATE := w\<rparr>),
        WAITQ := (WAITQ s)(INFO (TDS s t) := remove1 t (WAITQ s (INFO (TDS s t))))\<rparr>)"
      using f by (simp add: time_wake_def Let_def upd_td_def w_def)
    also have "s\<lparr>TIMEOUT_QUEUE := remove1 t (TIMEOUT_QUEUE s),
        TDS := (TDS s)(t := (TDS s t)\<lparr>STATE := w\<rparr>),
        WAITQ := (WAITQ s)(INFO (TDS s t) := remove1 t (WAITQ s (INFO (TDS s t))))\<rparr>
        = upd_td t (\<lambda>d. d\<lparr>STATE := w\<rparr>) (detach t s)"
      by (rule kernel.equality) (simp_all add: upd_td_def detach_def r wq)
    finally show ?thesis by blast
  qed
qed

lemma time_wake_spec:
  assumes "kinv {} s" "t \<in> set (TIMEOUT_QUEUE s)"
  shows "kinv {} (time_wake t s)"
    and "TDS (time_wake t s) = (TDS s)(t := (TDS s t)\<lparr>STATE := READY, CURRENT_TIME_SLICE := ZERO_TICK_STRUCT\<rparr>)"
    and "TIMEOUT_QUEUE (time_wake t s) = remove1 t (TIMEOUT_QUEUE s)"
    and "WAITQ (time_wake t s) h = remove1 t (WAITQ s h)"
    and "ACTIVE_PTR (time_wake t s) = ACTIVE_PTR s" "TIME (time_wake t s) = TIME s"
    and "tasks (time_wake t s) = tasks s" "IN_ISR (time_wake t s) = IN_ISR s"
    and "LWSEMS (time_wake t s) = LWSEMS s" "TASK_QUEUES (time_wake t s) = TASK_QUEUES s"
  "LWEVENTS (time_wake t s) = LWEVENTS s"
  "LWMSGQS (time_wake t s) = LWMSGQS s"
  "MUTEXES (time_wake t s) = MUTEXES s"
  "MEM (time_wake t s) = MEM s"
proof -
  obtain w where e: "time_wake t s = TASK_READY t (upd_td t (\<lambda>d. d\<lparr>STATE := w\<rparr>) (detach t s))"
    using time_wake_eq [OF assms] by blast
  have t: "t \<in> tasks s" using kinv_timeout_mem [OF assms] by simp
  have "kinv {t} (upd_td t (\<lambda>d. d\<lparr>STATE := w\<rparr>) (detach t s))"
    using kinv_detach [OF assms(1), of t] kinv_queues [OF assms(1)] t
    by (intro kinv_upd_loose) (auto simp: queues_ok_def)
  from kinv_ready [OF this, of t] show "kinv {} (time_wake t s)" using t by (simp add: e)
qed (use time_wake_eq [OF assms] in auto)

text \<open>The loop wakes the tasks that are due, a prefix of the timeout queue.\<close>

definition due :: "kernel \<Rightarrow> addr list" where
  "due s = takeWhile (\<lambda>u. wake_time s u \<le> TICKS (TIME s)) (TIMEOUT_QUEUE s)"

definition woken :: "addr list \<Rightarrow> kernel \<Rightarrow> kernel \<Rightarrow> bool" where
  "woken D s s' \<longleftrightarrow> kinv {} s' \<and> TIMEOUT_QUEUE s' = drop (length D) (TIMEOUT_QUEUE s)
     \<and> (\<forall>u. if u \<in> set D then STATE (TDS s' u) = READY \<and> INFO (TDS s' u) = INFO (TDS s u)
             else TDS s' u = TDS s u)
     \<and> (\<forall>h. WAITQ s' h = filter (\<lambda>u. u \<notin> set D) (WAITQ s h))
     \<and> ACTIVE_PTR s' = ACTIVE_PTR s \<and> TIME s' = TIME s \<and> tasks s' = tasks s
     \<and> IN_ISR s' = IN_ISR s \<and> LWSEMS s' = LWSEMS s \<and> TASK_QUEUES s' = TASK_QUEUES s
     \<and> LWEVENTS s' = LWEVENTS s \<and> LWMSGQS s' = LWMSGQS s \<and> MUTEXES s' = MUTEXES s \<and> MEM s' = MEM s"

lemma woken_step:
  assumes "kinv {} s" "TIMEOUT_QUEUE s = t # ts" "woken D (time_wake t s) s'" "t \<notin> set D"
  shows "woken (t # D) s s'"
proof -
  have m: "t \<in> set (TIMEOUT_QUEUE s)" using assms(2) by simp
  have d: "distinct (WAITQ s h)" for h using kinv_queues [OF assms(1)] by (simp add: queues_ok_def)
  have "filter (\<lambda>u. u \<notin> set D) (remove1 t (WAITQ s h)) = filter (\<lambda>u. u \<noteq> t \<and> u \<notin> set D) (WAITQ s h)" for h
    by (simp add: distinct_remove1_removeAll [OF d] removeAll_filter_not_eq) (metis (no_types, lifting))
  then show ?thesis using assms(2-4) by (auto simp: woken_def time_wake_spec [OF assms(1) m])
qed

lemma time_wake_loop_woken:
  "kinv {} s \<Longrightarrow> TIMEOUT_QUEUE s = ts \<Longrightarrow> woken (due s) s (time_wake_loop ts s)"
proof (induction ts arbitrary: s)
  case Nil
  then show ?case by (simp add: woken_def due_def)
next
  case (Cons t ts)
  have m: "t \<in> set (TIMEOUT_QUEUE s)" using Cons.prems(2) by simp
  show ?case
  proof (cases "wake_time s t \<le> TICKS (TIME s)")
    case True
    let ?s = "time_wake t s"
    have w: "wake_time ?s = wake_time s"
      by (simp add: wake_time_def fun_eq_iff time_wake_spec [OF Cons.prems(1) m])
    have q: "TIMEOUT_QUEUE ?s = ts" using Cons.prems(2) by (simp add: time_wake_spec [OF Cons.prems(1) m])
    have D: "due s = t # due ?s"
      using True Cons.prems(2) q by (simp add: due_def w time_wake_spec [OF Cons.prems(1) m])
    have "t \<notin> set ts" using kinv_queues [OF Cons.prems(1)] Cons.prems(2) by (simp add: queues_ok_def)
    then have n: "t \<notin> set (due ?s)" using q by (auto simp: due_def dest: set_takeWhileD)
    have "woken (due ?s) ?s (time_wake_loop ts ?s)"
      using Cons.IH [OF time_wake_spec(1) [OF Cons.prems(1) m] q] .
    from woken_step [OF Cons.prems this n] show ?thesis using True D by simp
  next
    case False
    then show ?thesis using Cons.prems by (simp add: woken_def due_def)
  qed
qed

lemma sorted_takeWhile_filter:
  "sorted (map f xs) \<Longrightarrow> takeWhile (\<lambda>x. f x \<le> (c :: 'a :: linorder)) xs = filter (\<lambda>x. f x \<le> c) xs"
proof (induction xs)
  case (Cons x xs)
  then have "filter (\<lambda>x. f x \<le> c) xs = []" if "\<not> f x \<le> c"
    using that by (intro filter_False) (auto dest: order_trans)
  then show ?case using Cons by auto
qed simp

lemma sorted_dropWhile_filter:
  "sorted (map f xs) \<Longrightarrow> dropWhile (\<lambda>x. f x \<le> (c :: 'a :: linorder)) xs = filter (\<lambda>x. \<not> f x \<le> c) xs"
proof (induction xs)
  case (Cons x xs)
  then have "filter (\<lambda>x. \<not> f x \<le> c) xs = xs" if "\<not> f x \<le> c"
    using that by (intro filter_True) (auto dest: order_trans)
  then show ?case using Cons by auto
qed simp

text \<open>The time after the tick, before anything is woken.\<close>

definition ticked :: "u32 option \<Rightarrow> kernel \<Rightarrow> kernel" where
  "ticked hwticks s = s\<lparr>TIME := psp_normalize_ticks (HW_TICKS_PER_TICK s)
     \<lparr>TICKS = TICKS (TIME s) + 1, HW_TICKS = case_option (HW_TICKS (TIME s)) id hwticks\<rparr>\<rparr>"

lemma notify_eq:
  "time_notify_kernel hwticks s =
     time_slice_check (time_wake_loop (TIMEOUT_QUEUE s) (ticked hwticks s))"
proof (cases "TIME s")
  case (fields ticks hw)
  then show ?thesis
    by (cases hwticks) (simp_all add: time_notify_kernel_def ticked_def Let_def)
qed

lemma kinv_ticked: "kinv {} s \<Longrightarrow> kinv {} (ticked h s)"
  by (rule kinv_cong) (auto simp: ticked_def tasks_def)

lemma ticked_simps [simp]:
  "TDS (ticked h s) = TDS s" "WAITQ (ticked h s) = WAITQ s" "tasks (ticked h s) = tasks s"
  "TIMEOUT_QUEUE (ticked h s) = TIMEOUT_QUEUE s" "ACTIVE_PTR (ticked h s) = ACTIVE_PTR s"
  "IN_ISR (ticked h s) = IN_ISR s" "LWSEMS (ticked h s) = LWSEMS s"
  "TASK_QUEUES (ticked h s) = TASK_QUEUES s"
  "LWEVENTS (ticked h s) = LWEVENTS s"
  "LWMSGQS (ticked h s) = LWMSGQS s"
  "MUTEXES (ticked h s) = MUTEXES s"
  "MEM (ticked h s) = MEM s" "wake_time (ticked h s) = wake_time s"
  by (simp_all add: ticked_def tasks_def wake_time_def fun_eq_iff)

lemma time_slice_ok:
  assumes "kinv {} s" "active_ok s"
  shows "op_ok {} s (time_slice_check s)" and "ACTIVE_PTR (time_slice_check s) = ACTIVE_PTR s"
    and "TIMEOUT_QUEUE (time_slice_check s) = TIMEOUT_QUEUE s" "WAITQ (time_slice_check s) = WAITQ s"
    and "TIME (time_slice_check s) = TIME s" "LWSEMS (time_slice_check s) = LWSEMS s"
    and "TASK_QUEUES (time_slice_check s) = TASK_QUEUES s"
  "LWEVENTS (time_slice_check s) = LWEVENTS s"
  "LWMSGQS (time_slice_check s) = LWMSGQS s"
  "MUTEXES (time_slice_check s) = MUTEXES s"
  "MEM (time_slice_check s) = MEM s"
    and "STATE (TDS (time_slice_check s) u) = STATE (TDS s u)"
    and "INFO (TDS (time_slice_check s) u) = INFO (TDS s u)"
proof -
  let ?t = "ACTIVE_PTR s"
  let ?f = "\<lambda>d. d\<lparr>CURRENT_TIME_SLICE := (CURRENT_TIME_SLICE d)\<lparr>TICKS := TICKS (CURRENT_TIME_SLICE d) + 1\<rparr>\<rparr>"
  have a: "?t \<in> tasks s" "STATE (TDS s ?t) = READY" using assms(2) by (auto simp: active_ok_def)
  have "MY_QUEUE (TDS s ?t) \<le> LOWEST_TASK_PRIORITY s + 1"
    using kinv_queues [OF assms(1)] a by (simp add: queues_ok_def)
  then have r: "op_ok {} s (TASK_READY ?t (UNLINK_READY ?t (upd_td ?t ?f s)))"
    using ready_again_ok [OF assms(1) a, of ?f] by simp
  have u: "op_ok {} s (upd_td ?t ?f s)" using assms(1) by (rule op_ok_upd) auto
  show "op_ok {} s (time_slice_check s)" using r u op_ok_refl [OF assms(1)]
    by (auto simp: time_slice_check_def Let_def)
qed (use assms(2) in \<open>auto simp: time_slice_check_def Let_def active_ok_def\<close>)

text \<open>What a tick does: \<open>D\<close> are the tasks that are due at the new time.\<close>

lemma notify_spec:
  fixes h :: "u32 option"
  assumes "kinv {} s" "active_ok s"
  defines "s' \<equiv> time_notify_kernel h s"
  defines "D \<equiv> filter (\<lambda>u. wake_time s u \<le> TICKS (TIME s')) (TIMEOUT_QUEUE s)"
  shows "op_ok {} s s'" "active_ok s'" "ACTIVE_PTR s' = ACTIVE_PTR s"
    and "TIMEOUT_QUEUE s' = filter (\<lambda>u. \<not> wake_time s u \<le> TICKS (TIME s')) (TIMEOUT_QUEUE s)"
    and "WAITQ s' q = filter (\<lambda>u. u \<notin> set D) (WAITQ s q)"
    and "STATE (TDS s' u) = (if u \<in> set D then READY else STATE (TDS s u))"
    and "INFO (TDS s' u) = INFO (TDS s u)" "LWSEMS s' = LWSEMS s" "TASK_QUEUES s' = TASK_QUEUES s" "LWEVENTS s' = LWEVENTS s" "LWMSGQS s' = LWMSGQS s" "MEM s' = MEM s"
    and "TIME s' = TIME (ticked h s)" "MUTEXES s' = MUTEXES s"
proof -
  let ?s0 = "ticked h s" and ?s1 = "time_wake_loop (TIMEOUT_QUEUE s) (ticked h s)"
  have k0: "kinv {} ?s0" using kinv_ticked [OF assms(1)] .
  have w: "woken (due ?s0) ?s0 ?s1" using time_wake_loop_woken [OF k0] by simp
  have a1: "active_ok ?s1" using w assms(2) by (auto simp: woken_def active_ok_def split: if_splits)
  have k1: "kinv {} ?s1" using w by (simp add: woken_def)
  note sl = time_slice_ok [OF k1 a1]
  have e: "s' = time_slice_check ?s1" by (simp add: s'_def notify_eq)
  show t: "TIME s' = TIME (ticked h s)" using w by (simp add: e sl woken_def)
  have srt: "sorted (map (wake_time s) (TIMEOUT_QUEUE s))"
    using kinv_queues [OF assms(1)] by (simp add: queues_ok_def)
  have D: "due ?s0 = D"
    using sorted_takeWhile_filter [OF srt] by (simp add: due_def D_def t)
  have "drop (length D) (TIMEOUT_QUEUE s) = dropWhile (\<lambda>u. wake_time s u \<le> TICKS (TIME s')) (TIMEOUT_QUEUE s)"
    using D by (simp add: due_def t dropWhile_eq_drop)
  also have "\<dots> = filter (\<lambda>u. \<not> wake_time s u \<le> TICKS (TIME s')) (TIMEOUT_QUEUE s)"
    using srt by (rule sorted_dropWhile_filter)
  finally show "TIMEOUT_QUEUE s' = filter (\<lambda>u. \<not> wake_time s u \<le> TICKS (TIME s')) (TIMEOUT_QUEUE s)"
    using w by (simp add: e sl woken_def D)
  have "op_ok {} s ?s1" using w by (auto simp: woken_def op_ok_def split: if_splits)
  then show "op_ok {} s s'" using sl(1) op_ok_trans unfolding e by blast
  then show "active_ok s'" using op_ok_active assms(2) w by (simp add: e sl woken_def)
  show "ACTIVE_PTR s' = ACTIVE_PTR s" "WAITQ s' q = filter (\<lambda>u. u \<notin> set D) (WAITQ s q)"
    "STATE (TDS s' u) = (if u \<in> set D then READY else STATE (TDS s u))"
    "INFO (TDS s' u) = INFO (TDS s u)" "LWSEMS s' = LWSEMS s" "TASK_QUEUES s' = TASK_QUEUES s" "LWEVENTS s' = LWEVENTS s" "LWMSGQS s' = LWMSGQS s" "MUTEXES s' = MUTEXES s" "MEM s' = MEM s"
    using w by (auto simp: e sl woken_def D split: if_splits)
qed

section \<open>Releasing waiting tasks\<close>

text \<open>
  What waking the tasks \<open>D\<close> of the wait queue at \<open>h\<close> amounts to: they leave the wait queue and
  the timeout queue, and join their ready queues in the order of \<open>D\<close>; nothing else changes but
  fields of their descriptors that no queue depends on.
\<close>

definition released :: "addr list \<Rightarrow> addr \<Rightarrow> kernel \<Rightarrow> kernel \<Rightarrow> bool" where
  "released D h s s' \<longleftrightarrow> kinv {} s'
     \<and> WAITQ s' = (WAITQ s)(h := filter (\<lambda>u. u \<notin> set D) (WAITQ s h))
     \<and> TIMEOUT_QUEUE s' = filter (\<lambda>u. u \<notin> set D) (TIMEOUT_QUEUE s)
     \<and> (\<forall>p. READYQ s' p = READYQ s p @ filter (\<lambda>u. MY_QUEUE (TDS s u) = p) D)
     \<and> (\<forall>u. MY_QUEUE (TDS s' u) = MY_QUEUE (TDS s u)
           \<and> (if u \<in> set D then STATE (TDS s' u) = READY else TDS s' u = TDS s u))
     \<and> ACTIVE_PTR s' = ACTIVE_PTR s \<and> TIME s' = TIME s \<and> tasks s' = tasks s
     \<and> IN_ISR s' = IN_ISR s \<and> LWSEMS s' = LWSEMS s \<and> TASK_QUEUES s' = TASK_QUEUES s
     \<and> LWEVENTS s' = LWEVENTS s \<and> LWMSGQS s' = LWMSGQS s \<and> MUTEXES s' = MUTEXES s \<and> MEM s' = MEM s
     \<and> LWSEM_LIST s' = LWSEM_LIST s"

lemma releasedD:
  "released D h s s' \<Longrightarrow> MY_QUEUE (TDS s' u) = MY_QUEUE (TDS s u)
     \<and> (if u \<in> set D then STATE (TDS s' u) = READY else TDS s' u = TDS s u)"
  by (simp add: released_def)

lemma released_frame:
  assumes "released D h s s'"
  shows "kinv {} s'" "tasks s' = tasks s" "IN_ISR s' = IN_ISR s" "ACTIVE_PTR s' = ACTIVE_PTR s"
    and "STATE (TDS s u) = READY \<Longrightarrow> STATE (TDS s' u) = READY"
    and "LWSEMS s' = LWSEMS s" "TASK_QUEUES s' = TASK_QUEUES s" "LWEVENTS s' = LWEVENTS s"
    and "LWMSGQS s' = LWMSGQS s" "MEM s' = MEM s" "TIME s' = TIME s" "MUTEXES s' = MUTEXES s"
  using assms releasedD [OF assms, of u] by (simp_all add: released_def split: if_splits)

lemma released_nil: "kinv {} s \<Longrightarrow> released [] h s s"
  by (simp add: released_def)

lemma released_leave:
  assumes "kinv {} s" "t \<in> set (WAITQ s h)"
  shows "released [t] h s
    (TASK_READY t (TIME_DEQUEUE t (s\<lparr>WAITQ := (WAITQ s)(h := remove1 t (WAITQ s h))\<rparr>)))"
    (is "released _ _ _ (TASK_READY t ?s)")
proof -
  have m: "t \<in> tasks s" using kinv_waitq_mem [OF assms] by simp
  have d: "distinct (TIMEOUT_QUEUE s)" "distinct (WAITQ s h)"
    using kinv_queues [OF assms(1)] by (simp_all add: queues_ok_def)
  have r: "remove1 t xs = filter (\<lambda>u. u \<noteq> t) xs" if "distinct xs" for xs
    using distinct_remove1_removeAll [OF that, of t]
    by (auto simp: removeAll_filter_not_eq intro: filter_cong)
  have q: "TIMEOUT_QUEUE ?s = filter (\<lambda>u. u \<noteq> t) (TIMEOUT_QUEUE s)"
  proof (cases "on_timeout (STATE (TDS s t))")
    case False
    then have "t \<notin> set (TIMEOUT_QUEUE s)" using kinv_timeout_mem [OF assms(1)] by blast
    then have "filter (\<lambda>u. u \<noteq> t) (TIMEOUT_QUEUE s) = TIMEOUT_QUEUE s" by (intro filter_True) auto
    then show ?thesis using False by simp
  qed (simp add: r [OF d(1)])
  have k: "kinv {t} ?s" using kinv_leave_waitq [OF assms] by simp
  have "kinv {} (TASK_READY t ?s)" using kinv_ready [OF k, of t] m by (simp add: tasks_def)
  then show ?thesis using q by (auto simp: released_def tasks_def r [OF d(2)])
qed

lemma released_one:
  assumes "kinv {} s" "WAITQ s h = t # ts"
  shows "released [t] h s (TASK_READY t (TIME_DEQUEUE t (s\<lparr>WAITQ := (WAITQ s)(h := ts)\<rparr>)))"
  using released_leave [OF assms(1), of t h] assms(2) by simp

lemma released_append:
  assumes "released [t] h s s1" "released D h s1 s2"
  shows "released (t # D) h s s2"
proof -
  have f: "filter (\<lambda>u. u \<notin> set D) (filter (\<lambda>u. u \<noteq> t) xs) =
      filter (\<lambda>u. u \<noteq> t \<and> u \<notin> set D) xs" for xs by (simp add: filter_filter conj_commute)
  have w: "WAITQ s2 = (WAITQ s)(h := filter (\<lambda>u. u \<noteq> t \<and> u \<notin> set D) (WAITQ s h))"
    and q: "TIMEOUT_QUEUE s2 = filter (\<lambda>u. u \<noteq> t \<and> u \<notin> set D) (TIMEOUT_QUEUE s)"
    using assms by (simp_all add: released_def f)
  have "if u \<in> set (t # D) then STATE (TDS s2 u) = READY else TDS s2 u = TDS s u" for u
    using releasedD [OF assms(1), of u] releasedD [OF assms(2), of u] by (auto split: if_splits)
  then show ?thesis using assms q by (simp add: released_def w)
qed

text \<open>Fields of a released task that no queue depends on may be written.\<close>

lemma released_upd:
  assumes "released D h s s1" "t \<in> set D"
    and "STATE (f (TDS s1 t)) = STATE (TDS s1 t)" "MY_QUEUE (f (TDS s1 t)) = MY_QUEUE (TDS s1 t)"
    and "HOME_QUEUE (f (TDS s1 t)) = HOME_QUEUE (TDS s1 t)"
  shows "released D h s (upd_td t f s1)"
proof -
  have "STATE (TDS s1 t) = READY" "kinv {} s1" using assms(1,2) by (auto simp: released_def)
  then have "kinv {} (upd_td t f s1)" using assms(3-5) by (intro kinv_upd_placed) auto
  then show ?thesis using assms by (auto simp: released_def)
qed

text \<open>The release of a task with its \<open>INFO\<close> cleared, as a signal that it has not timed out.\<close>

lemma TASK_READY_clear_INFO:
  "TASK_READY t (upd_td t (\<lambda>d. d\<lparr>INFO := 0\<rparr>) s) = upd_td t (\<lambda>d. d\<lparr>INFO := 0\<rparr>) (TASK_READY t s)"
  by (rule kernel.equality) (simp_all add: TASK_READY_def upd_td_def Let_def fun_eq_iff)

lemma released_all: "released (WAITQ s h) h s s' \<Longrightarrow> WAITQ s' = (WAITQ s)(h := [])"
  by (simp add: released_def)

lemma released_hd:
  assumes "released [t] h s s'" "kinv {} s" "WAITQ s h = t # ts"
  shows "WAITQ s' = (WAITQ s)(h := ts)"
proof -
  have "t \<notin> set ts" using kinv_queues [OF assms(2)] assms(3) by (metis distinct.simps(2) queues_ok_def)
  then have "filter (\<lambda>u. u \<noteq> t) ts = ts" by (intro filter_True) auto
  then show ?thesis using assms by (simp add: released_def)
qed

lemma released_op: "released D h s s' \<Longrightarrow> op_ok {} s s'"
  by (auto simp: released_frame intro!: op_okI)

lemma released_active: "released D h s s' \<Longrightarrow> active_ok s \<Longrightarrow> active_ok s'"
  by (simp add: released_frame active_ok_def)

end
