(* ===== verification/TaskQ.thy ===== *)
theory TaskQ
  imports Sched
begin

text \<open>
  User task queues, \<^verbatim>\<open>src/mqx/source/kernel/taskq.c\<close>: queues on which tasks suspend
  themselves or each other, in FIFO or priority order, until they are resumed.

  A task queue is named by the address of its \<open>TASK_QUEUE_STRUCT\<close>; its \<open>TD_QUEUE\<close> is at offset
  16. The memory that \<open>_taskq_create\<close> obtains from \<open>_mem_alloc_system\<close> is an argument.
\<close>

definition TASK_QUEUE_VALID :: u32 where "TASK_QUEUE_VALID = 0x74736B71"

abbreviation (input) MQX_TASK_QUEUE_FIFO :: u32 where "MQX_TASK_QUEUE_FIFO \<equiv> 0"
abbreviation (input) MQX_TASK_QUEUE_BY_PRIORITY :: u32 where "MQX_TASK_QUEUE_BY_PRIORITY \<equiv> 8"

definition TASKQ_TD_QUEUE :: "addr \<Rightarrow> addr" where "TASKQ_TD_QUEUE q = q + 16"

definition upd_taskq :: "addr \<Rightarrow> (task_queue \<Rightarrow> task_queue) \<Rightarrow> kernel \<Rightarrow> kernel" where
  "upd_taskq q f s = s\<lparr>TASK_QUEUES := (TASK_QUEUES s)(q := f (TASK_QUEUES s q))\<rparr>"

definition taskq_create :: "u32 \<Rightarrow> addr \<Rightarrow> kernel \<Rightarrow> addr \<times> kernel" where
  "taskq_create policy mem s =
     (if \<not> (policy = MQX_TASK_QUEUE_FIFO \<or> policy = MQX_TASK_QUEUE_BY_PRIORITY)
      then (NULL, snd (task_set_error MQX_INVALID_PARAMETER s))
      else if IN_ISR s \<noteq> 0
      then (NULL, snd (task_set_error MQX_CANNOT_CALL_FUNCTION_FROM_ISR s))
      else if mem = NULL then (NULL, s)
      else
        (let s = upd_taskq mem (\<lambda>Q. Q\<lparr>TQ_POLICY := policy\<rparr>) s;
             s = s\<lparr>WAITQ := (WAITQ s)(TASKQ_TD_QUEUE mem := [])\<rparr>;
             s = upd_taskq mem (\<lambda>Q. Q\<lparr>TQ_VALID := TASK_QUEUE_VALID\<rparr>) s;
             s = s\<lparr>KERNEL_TASK_QUEUES := KERNEL_TASK_QUEUES s @ [mem]\<rparr>
         in (mem, s)))"

text \<open>Taking the tasks off the queue at \<open>h\<close> one after the other and readying them.\<close>

fun taskq_ready_loop :: "addr \<Rightarrow> addr list \<Rightarrow> kernel \<Rightarrow> kernel" where
  "taskq_ready_loop h [] s = s"
| "taskq_ready_loop h (t # ts) s =
     taskq_ready_loop h ts (TASK_READY t (s\<lparr>WAITQ := (WAITQ s)(h := ts)\<rparr>))"

definition taskq_destroy :: "addr \<Rightarrow> kernel \<Rightarrow> mqx_code \<times> kernel" where
  "taskq_destroy q s =
     (if q = NULL then (MQX_INVALID_PARAMETER, s)
      else if IN_ISR s \<noteq> 0 then (MQX_CANNOT_CALL_FUNCTION_FROM_ISR, s)
      else if TQ_VALID (TASK_QUEUES s q) \<noteq> TASK_QUEUE_VALID then (MQX_INVALID_TASK_QUEUE, s)
      else
        (let s = upd_taskq q (\<lambda>Q. Q\<lparr>TQ_VALID := 0\<rparr>) s;
             s = taskq_ready_loop (TASKQ_TD_QUEUE q) (WAITQ s (TASKQ_TD_QUEUE q)) s;
             s = s\<lparr>KERNEL_TASK_QUEUES := remove1 q (KERNEL_TASK_QUEUES s)\<rparr>
         in (MQX_OK, sched_check_scheduler_internal s)))"

text \<open>The common part of suspending a task: it moves from its ready queue to the task queue.\<close>

definition taskq_enter :: "addr \<Rightarrow> addr \<Rightarrow> kernel \<Rightarrow> kernel" where
  "taskq_enter q t s =
     (let s = upd_td t (\<lambda>d. d\<lparr>STATE := TASK_QUEUE_BLOCKED\<rparr>) s;
          s = UNLINK_READY t s;
          s = upd_td t (\<lambda>d. d\<lparr>INFO := TASKQ_TD_QUEUE q\<rparr>) s
      in if TQ_POLICY (TASK_QUEUES s q) AND MQX_TASK_QUEUE_BY_PRIORITY \<noteq> 0
         then sched_insert_priorityq_internal (TASKQ_TD_QUEUE q) t s
         else s\<lparr>WAITQ := (WAITQ s)(TASKQ_TD_QUEUE q := WAITQ s (TASKQ_TD_QUEUE q) @ [t])\<rparr>)"

text \<open>The result of a suspended task is the one it returns when it runs again.\<close>

definition taskq_suspend :: "addr \<Rightarrow> kernel \<Rightarrow> mqx_code \<times> kernel" where
  "taskq_suspend q s =
     (if q = NULL then (MQX_INVALID_PARAMETER, s)
      else if IN_ISR s \<noteq> 0 then (MQX_CANNOT_CALL_FUNCTION_FROM_ISR, s)
      else let t = ACTIVE_PTR s
      in if TQ_VALID (TASK_QUEUES s q) \<noteq> TASK_QUEUE_VALID then (MQX_INVALID_TASK_QUEUE, s)
      else (MQX_OK, sched_execute_scheduler_internal (taskq_enter q t s)))"

definition taskq_resume :: "addr \<Rightarrow> bool \<Rightarrow> kernel \<Rightarrow> mqx_code \<times> kernel" where
  "taskq_resume q all_tasks s =
     (if q = NULL then (MQX_INVALID_TASK_QUEUE, s)
      else if TQ_VALID (TASK_QUEUES s q) \<noteq> TASK_QUEUE_VALID then (MQX_INVALID_TASK_QUEUE, s)
      else let h = TASKQ_TD_QUEUE q
      in case WAITQ s h of
           [] \<Rightarrow> (MQX_TASK_QUEUE_EMPTY, s)
         | t # ts \<Rightarrow>
             (let s = (if all_tasks then taskq_ready_loop h (WAITQ s h) s
                       else TASK_READY t (s\<lparr>WAITQ := (WAITQ s)(h := ts)\<rparr>))
              in (MQX_OK, sched_check_scheduler_internal s)))"

definition taskq_suspend_task :: "u32 \<Rightarrow> addr \<Rightarrow> kernel \<Rightarrow> mqx_code \<times> kernel" where
  "taskq_suspend_task task_id q s =
     (let t = task_get_td task_id s; me = (t = ACTIVE_PTR s)
      in if t = NULL then (MQX_INVALID_TASK_ID, s)
      else if q = NULL then (MQX_INVALID_PARAMETER, s)
      else if me \<and> IN_ISR s \<noteq> 0 then (MQX_CANNOT_CALL_FUNCTION_FROM_ISR, s)
      else if TQ_VALID (TASK_QUEUES s q) \<noteq> TASK_QUEUE_VALID then (MQX_INVALID_TASK_QUEUE, s)
      else if STATE (TDS s t) \<noteq> READY then (MQX_INVALID_TASK_STATE, s)
      else
        (let s = taskq_enter q t s
         in (MQX_OK, if me \<and> IN_ISR s = 0 then sched_execute_scheduler_internal s else s)))"

definition taskq_get_value :: "addr \<Rightarrow> kernel \<Rightarrow> u32 \<times> kernel" where
  "taskq_get_value q s =
     (if q = NULL then (MAX_MQX_UINT, snd (task_set_error MQX_INVALID_PARAMETER s))
      else if TQ_VALID (TASK_QUEUES s q) \<noteq> TASK_QUEUE_VALID
      then (MAX_MQX_UINT, snd (task_set_error MQX_INVALID_TASK_QUEUE s))
      else (ucast (of_nat (length (WAITQ s (TASKQ_TD_QUEUE q))) :: u16), s))"

section \<open>The operations keep the invariant\<close>

lemma upd_taskq_simps [simp]:
  "TDS (upd_taskq q f s) = TDS s" "READYQ (upd_taskq q f s) = READYQ s"
  "TIMEOUT_QUEUE (upd_taskq q f s) = TIMEOUT_QUEUE s" "WAITQ (upd_taskq q f s) = WAITQ s"
  "CURRENT_READY_Q (upd_taskq q f s) = CURRENT_READY_Q s" "LWSEMS (upd_taskq q f s) = LWSEMS s"
  "LOWEST_TASK_PRIORITY (upd_taskq q f s) = LOWEST_TASK_PRIORITY s"
  "ACTIVE_PTR (upd_taskq q f s) = ACTIVE_PTR s" "IN_ISR (upd_taskq q f s) = IN_ISR s"
  "TASK_QUEUES (upd_taskq q f s) = (TASK_QUEUES s)(q := f (TASK_QUEUES s q))"
  "KERNEL_TASK_QUEUES (upd_taskq q f s) = KERNEL_TASK_QUEUES s" "tasks (upd_taskq q f s) = tasks s"
  "MUTEXES (upd_taskq q f s) = MUTEXES s"
  "TD_LIST (upd_taskq q f s) = TD_LIST s" "SYSTEM_TD (upd_taskq q f s) = SYSTEM_TD s"
  by (simp_all add: upd_taskq_def tasks_def)

lemma kinv_upd_taskq: "kinv X s \<Longrightarrow> kinv X (upd_taskq q f s)"
  by (rule kinv_cong) auto

lemma taskq_enter_simps [simp]:
  "TDS (taskq_enter q t s) = (TDS s)(t := (TDS s t)\<lparr>STATE := TASK_QUEUE_BLOCKED, INFO := TASKQ_TD_QUEUE q\<rparr>)"
  "tasks (taskq_enter q t s) = tasks s" "IN_ISR (taskq_enter q t s) = IN_ISR s"
  "ACTIVE_PTR (taskq_enter q t s) = ACTIVE_PTR s" "LWSEMS (taskq_enter q t s) = LWSEMS s"
  "TASK_QUEUES (taskq_enter q t s) = TASK_QUEUES s"
  "LWEVENTS (taskq_enter q t s) = LWEVENTS s"
  "LWMSGQS (taskq_enter q t s) = LWMSGQS s"
  "MUTEXES (taskq_enter q t s) = MUTEXES s"
  "MEM (taskq_enter q t s) = MEM s"
  "TIMEOUT_QUEUE (taskq_enter q t s) = TIMEOUT_QUEUE s"
  "CURRENT_READY_Q (taskq_enter q t s) = CURRENT_READY_Q s"
  "LOWEST_TASK_PRIORITY (taskq_enter q t s) = LOWEST_TASK_PRIORITY s"
  by (auto simp: taskq_enter_def Let_def sched_insert_priorityq_internal_def tasks_def upd_td_def
      UNLINK_READY_def)

lemma taskq_enter_queue:
  "WAITQ (taskq_enter q t s) = (WAITQ s)(TASKQ_TD_QUEUE q :=
     (if TQ_POLICY (TASK_QUEUES s q) AND MQX_TASK_QUEUE_BY_PRIORITY \<noteq> 0
      then priority_insert (\<lambda>u. MY_QUEUE (TDS s u)) t (WAITQ s (TASKQ_TD_QUEUE q))
      else WAITQ s (TASKQ_TD_QUEUE q) @ [t]))"
proof -
  have "(\<lambda>u. MY_QUEUE (((TDS s)(t := (TDS s t)\<lparr>STATE := 553, INFO := h\<rparr>)) u)) = (\<lambda>u. MY_QUEUE (TDS s u))" for h
    by auto
  then show ?thesis
    by (simp add: taskq_enter_def Let_def sched_insert_priorityq_internal_def)
qed

lemma taskq_enter_ok:
  assumes "kinv {} s" "t \<in> tasks s" "STATE (TDS s t) = READY"
  shows "op_ok {t} s (taskq_enter q t s)"
proof (rule op_okI)
  let ?h = "TASKQ_TD_QUEUE q"
  let ?s = "upd_td t (\<lambda>d. d\<lparr>INFO := ?h\<rparr>) (upd_td t (\<lambda>d. d\<lparr>STATE := TASK_QUEUE_BLOCKED\<rparr>) (UNLINK_READY t s))"
  have m: "MY_QUEUE (TDS s t) \<le> LOWEST_TASK_PRIORITY s + 1"
    using kinv_queues [OF assms(1)] assms(2) by (simp add: queues_ok_def)
  have "kinv {t} (UNLINK_READY t s)" using kinv_unlink [OF assms(1,3)] by simp
  then have "kinv {t} ?s" using m by (intro kinv_upd_loose) auto
  from fifo.kinv_enter [OF this, of t ?h] prio.kinv_enter [OF this, of t ?h]
  show "kinv {} (taskq_enter q t s)"
    using assms(2) by (simp add: taskq_enter_def Let_def UNLINK_READY_upd_td sched_insert_priorityq_internal_def)
qed auto

lemma taskq_ready_loop_released:
  "kinv {} s \<Longrightarrow> WAITQ s h = ts \<Longrightarrow> (\<forall>t \<in> set ts. \<not> on_timeout (STATE (TDS s t))) \<Longrightarrow>
   released ts h s (taskq_ready_loop h ts s)"
proof (induction ts arbitrary: s)
  case (Cons t ts)
  let ?s = "TASK_READY t (s\<lparr>WAITQ := (WAITQ s)(h := ts)\<rparr>)"
  have 1: "released [t] h s ?s"
    using released_one [OF Cons.prems(1,2)] Cons.prems(3) by (simp add: TIME_DEQUEUE_eq)
  have "released ts h ?s (taskq_ready_loop h ts ?s)"
    using released_frame(1) [OF 1] Cons.prems by (intro Cons.IH) auto
  from released_append [OF 1 this] show ?case by simp
qed (simp add: released_nil)

text \<open>Suspending, resuming and destroying.\<close>

lemma taskq_suspend_ok:
  fixes q :: addr
  assumes "kinv {} s" "active_ok s" "r \<in> tasks s" "STATE (TDS s r) = READY" "r \<noteq> ACTIVE_PTR s"
  defines "s' \<equiv> snd (taskq_suspend q s)"
  shows "op_ok {ACTIVE_PTR s} s s'" "active_ok s'" "top_ok s \<Longrightarrow> top_ok s'"
proof -
  have a: "ACTIVE_PTR s \<in> tasks s" "STATE (TDS s (ACTIVE_PTR s)) = READY"
    using assms(2) by (auto simp: active_ok_def)
  note e = op_exec [OF taskq_enter_ok [OF assms(1) a] assms(3) _ assms(4)]
  show "op_ok {ACTIVE_PTR s} s s'" "active_ok s'" "top_ok s \<Longrightarrow> top_ok s'"
    using e assms(2,5) op_ok_refl [OF assms(1)] by (auto simp: s'_def taskq_suspend_def Let_def)
qed

lemma taskq_suspend_task_ok:
  fixes q :: addr
  assumes "kinv {} s" "active_ok s" "r \<in> tasks s" "STATE (TDS s r) = READY" "r \<noteq> task_get_td tid s"
  defines "s' \<equiv> snd (taskq_suspend_task tid q s)"
  shows "op_ok {task_get_td tid s} s s'" "active_ok s'" "IN_ISR s = 0 \<Longrightarrow> top_ok s \<Longrightarrow> top_ok s'"
proof -
  let ?t = "task_get_td tid s"
  have "op_ok {?t} s s' \<and> active_ok s' \<and> (IN_ISR s = 0 \<longrightarrow> top_ok s \<longrightarrow> top_ok s')"
  proof (cases "?t \<noteq> NULL \<and> STATE (TDS s ?t) = READY")
    case True
    then have en: "op_ok {?t} s (taskq_enter q ?t s)"
      using taskq_enter_ok [OF assms(1)] task_get_td_mem assms(2) by (auto simp: active_ok_def)
    have "active_ok (taskq_enter q ?t s) \<and> (top_ok s \<longrightarrow> top_ok (taskq_enter q ?t s))" if "?t \<noteq> ACTIVE_PTR s"
      using assms(2) that by (auto simp: active_ok_def top_ok_def)
    then show ?thesis
      using op_exec [OF en assms(3) _ assms(4)] en assms(2,5) op_ok_refl [OF assms(1)]
      by (cases "?t = ACTIVE_PTR s") (auto simp: s'_def taskq_suspend_task_def Let_def)
  next
    case False
    then show ?thesis using assms(2) op_ok_refl [OF assms(1)]
      by (auto simp: s'_def taskq_suspend_task_def Let_def)
  qed
  then show "op_ok {task_get_td tid s} s s'" "active_ok s'" "IN_ISR s = 0 \<Longrightarrow> top_ok s \<Longrightarrow> top_ok s'"
    by blast+
qed

lemma taskq_resume_cases:
  assumes "kinv {} s" "\<forall>t \<in> set (WAITQ s (TASKQ_TD_QUEUE q)). \<not> on_timeout (STATE (TDS s t))"
  shows "snd (taskq_resume q all_tasks s) = s \<or>
    (\<exists>s1. snd (taskq_resume q all_tasks s) = sched_check_scheduler_internal s1 \<and>
      released (if all_tasks then WAITQ s (TASKQ_TD_QUEUE q) else [hd (WAITQ s (TASKQ_TD_QUEUE q))])
        (TASKQ_TD_QUEUE q) s s1)"
proof (cases "WAITQ s (TASKQ_TD_QUEUE q)")
  case (Cons t ts)
  then show ?thesis
    using released_one [OF assms(1) Cons] taskq_ready_loop_released [OF assms(1) Cons] assms(2)
    by (simp add: taskq_resume_def Let_def TIME_DEQUEUE_eq) blast
qed (simp add: taskq_resume_def Let_def)

lemma taskq_resume_ok:
  fixes all_tasks :: bool
  assumes "kinv {} s" "active_ok s"
    and "\<forall>t \<in> set (WAITQ s (TASKQ_TD_QUEUE q)). \<not> on_timeout (STATE (TDS s t))"
  defines "s' \<equiv> snd (taskq_resume q all_tasks s)"
  shows "op_ok {} s s'" "active_ok s'" "IN_ISR s = 0 \<Longrightarrow> top_ok s \<Longrightarrow> top_ok s'"
proof -
  have "op_ok {} s s' \<and> active_ok s' \<and> (IN_ISR s = 0 \<longrightarrow> top_ok s \<longrightarrow> top_ok s')"
    using taskq_resume_cases [OF assms(1,3), of all_tasks]
  proof
    assume "snd (taskq_resume q all_tasks s) = s"
    then show ?thesis using assms(1,2) by (simp add: s'_def op_ok_refl)
  next
    assume "\<exists>s1. snd (taskq_resume q all_tasks s) = sched_check_scheduler_internal s1 \<and>
      released (if all_tasks then WAITQ s (TASKQ_TD_QUEUE q) else [hd (WAITQ s (TASKQ_TD_QUEUE q))])
        (TASKQ_TD_QUEUE q) s s1"
    then obtain s1 D where s1: "s' = sched_check_scheduler_internal s1" "released D (TASKQ_TD_QUEUE q) s s1"
      unfolding s'_def by blast
    from op_check [OF released_op [OF s1(2)] released_active [OF s1(2) assms(2)]]
    show ?thesis by (simp add: s1(1))
  qed
  then show "op_ok {} s s'" "active_ok s'" "IN_ISR s = 0 \<Longrightarrow> top_ok s \<Longrightarrow> top_ok s'" by blast+
qed

lemma taskq_destroy_ok:
  assumes "kinv {} s" "active_ok s"
    and "\<forall>t \<in> set (WAITQ s (TASKQ_TD_QUEUE q)). \<not> on_timeout (STATE (TDS s t))"
  defines "s' \<equiv> snd (taskq_destroy q s)"
  shows "op_ok {} s s'" "active_ok s'" "IN_ISR s = 0 \<Longrightarrow> top_ok s \<Longrightarrow> top_ok s'"
proof -
  let ?s0 = "upd_taskq q (\<lambda>Q. Q\<lparr>TQ_VALID := 0\<rparr>) s" and ?h = "TASKQ_TD_QUEUE q"
  let ?s1 = "taskq_ready_loop ?h (WAITQ s ?h) ?s0"
  let ?s2 = "?s1\<lparr>KERNEL_TASK_QUEUES := remove1 q (KERNEL_TASK_QUEUES ?s1)\<rparr>"
  have k0: "kinv {} ?s0" using assms(1) by (rule kinv_upd_taskq)
  have r: "released (WAITQ s ?h) ?h ?s0 ?s1"
    using taskq_ready_loop_released [OF k0, of ?h "WAITQ s ?h"] assms(3) by simp
  have "kinv {} ?s2" by (rule kinv_cong [of "{}" ?s1]) (use r in \<open>auto simp: released_def tasks_def\<close>)
  then have 2: "op_ok {} s ?s2"
    by (rule op_okI) (use released_frame [OF r] in \<open>auto simp: tasks_def\<close>)
  have "active_ok ?s2" using released_frame [OF r] assms(2) by (auto simp: active_ok_def tasks_def)
  from op_check [OF 2 this] show "op_ok {} s s'" "active_ok s'" "IN_ISR s = 0 \<Longrightarrow> top_ok s \<Longrightarrow> top_ok s'"
    using op_ok_refl [OF assms(1)] assms(2) by (auto simp: s'_def taskq_destroy_def Let_def)
qed

text \<open>A new task queue, in memory whose queue header is not in use.\<close>

lemma taskq_create_ok:
  fixes policy :: u32 and mem :: addr
  assumes "kinv {} s" "active_ok s" "WAITQ s (TASKQ_TD_QUEUE mem) = []"
  defines "s' \<equiv> snd (taskq_create policy mem s)"
  shows "op_ok {} s s'" "active_ok s'" "top_ok s \<Longrightarrow> top_ok s'"
proof -
  have w: "(WAITQ s)(TASKQ_TD_QUEUE mem := []) = WAITQ s" using assms(3) by auto
  have k: "kinv {} s''" if "TDS s'' = TDS s" "tasks s'' = tasks s" "READYQ s'' = READYQ s"
    "TIMEOUT_QUEUE s'' = TIMEOUT_QUEUE s" "WAITQ s'' = WAITQ s"
    "LOWEST_TASK_PRIORITY s'' = LOWEST_TASK_PRIORITY s" "CURRENT_READY_Q s'' = CURRENT_READY_Q s" for s''
    using kinv_cong [OF assms(1)] that by blast
  show "op_ok {} s s'" using op_ok_set_error [OF assms(1)] op_ok_refl [OF assms(1)]
    by (auto simp: s'_def taskq_create_def Let_def op_ok_def w tasks_def intro!: k)
  show "active_ok s'" "top_ok s \<Longrightarrow> top_ok s'" using assms(2)
    by (auto simp: s'_def taskq_create_def Let_def active_ok_def top_ok_def tasks_def)
qed

end
