(* ===== verification/LwSem.thy ===== *)
theory LwSem
  imports TaskQ
begin

text \<open>
  Lightweight semaphores, \<^verbatim>\<open>src/mqx/source/kernel/lwsem.c\<close>: counting semaphores with a FIFO
  queue of waiting tasks and timed waits.

  A semaphore is named by the address of its \<open>LWSEM_STRUCT\<close>, with \<open>TD_QUEUE\<close> at offset 8; a
  waiting task is linked there through its \<open>AUX_QUEUE\<close>, so that it can be on the timeout
  queue at the same time. A wait is split where the processor goes to another task: the first
  part gives the result, or \<open>None\<close> when the task waits; the second part (the \<open>resume\<close>
  functions) is what the task computes when it runs again. The variants for user mode
  (\<open>MQX_ENABLE_USER_MODE\<close>, off in this configuration) are not modelled.
\<close>

definition LWSEM_VALID :: u32 where "LWSEM_VALID = 0x6C77736D"

definition LWSEM_TD_QUEUE :: "addr \<Rightarrow> addr" where "LWSEM_TD_QUEUE sem = sem + 8"

definition upd_sem :: "addr \<Rightarrow> (lwsem \<Rightarrow> lwsem) \<Rightarrow> kernel \<Rightarrow> kernel" where
  "upd_sem sem f s = s\<lparr>LWSEMS := (LWSEMS s)(sem := f (LWSEMS s sem))\<rparr>"

section \<open>Creating and destroying\<close>

definition lwsem_create_internal :: "addr \<Rightarrow> u32 \<Rightarrow> bool \<Rightarrow> kernel \<Rightarrow> mqx_code \<times> kernel" where
  "lwsem_create_internal sem initial_number hidden s =
     (let s = upd_sem sem (\<lambda>S. S\<lparr>SEM_VALUE := initial_number\<rparr>) s;
          s = s\<lparr>WAITQ := (WAITQ s)(LWSEM_TD_QUEUE sem := [])\<rparr>
      in if \<not> hidden \<and> sem \<in> set (LWSEM_LIST s) then (MQX_EINVAL, s)
         else
           (let s = (if \<not> hidden then s\<lparr>LWSEM_LIST := LWSEM_LIST s @ [sem]\<rparr> else s)
            in (MQX_OK, upd_sem sem (\<lambda>S. S\<lparr>SEM_VALID := LWSEM_VALID\<rparr>) s)))"

definition lwsem_create :: "addr \<Rightarrow> u32 \<Rightarrow> kernel \<Rightarrow> mqx_code \<times> kernel" where
  "lwsem_create sem initial_number = lwsem_create_internal sem initial_number False"

definition lwsem_create_hidden :: "addr \<Rightarrow> u32 \<Rightarrow> kernel \<Rightarrow> mqx_code \<times> kernel" where
  "lwsem_create_hidden sem initial_number = lwsem_create_internal sem initial_number True"

text \<open>Taking the waiting tasks off the queue at \<open>h\<close>, and off the timeout queue.\<close>

fun lwsem_wake_loop :: "addr \<Rightarrow> addr list \<Rightarrow> kernel \<Rightarrow> kernel" where
  "lwsem_wake_loop h [] s = s"
| "lwsem_wake_loop h (t # ts) s =
     lwsem_wake_loop h ts (TASK_READY t (TIME_DEQUEUE t (s\<lparr>WAITQ := (WAITQ s)(h := ts)\<rparr>)))"

definition lwsem_destroy_internal :: "addr \<Rightarrow> kernel \<Rightarrow> mqx_code \<times> kernel" where
  "lwsem_destroy_internal sem s =
     (if SEM_VALID (LWSEMS s sem) \<noteq> LWSEM_VALID then (MQX_INVALID_LWSEM, s)
      else
        (let s = upd_sem sem (\<lambda>S. S\<lparr>SEM_VALID := 0\<rparr>) s;
             s = lwsem_wake_loop (LWSEM_TD_QUEUE sem) (WAITQ s (LWSEM_TD_QUEUE sem)) s;
             s = s\<lparr>LWSEM_LIST := remove1 sem (LWSEM_LIST s)\<rparr>
         in (MQX_OK, sched_check_scheduler_internal s)))"

definition lwsem_destroy :: "addr \<Rightarrow> kernel \<Rightarrow> mqx_code \<times> kernel" where
  "lwsem_destroy sem = lwsem_destroy_internal sem"

section \<open>Posting and polling\<close>

definition lwsem_poll :: "addr \<Rightarrow> kernel \<Rightarrow> bool \<times> kernel" where
  "lwsem_poll sem s =
     (if SEM_VALID (LWSEMS s sem) \<noteq> LWSEM_VALID then (False, s)
      else if sint (SEM_VALUE (LWSEMS s sem)) \<le> 0 then (False, s)
      else (True, upd_sem sem (\<lambda>S. S\<lparr>SEM_VALUE := SEM_VALUE S - 1\<rparr>) s))"

definition lwsem_post :: "addr \<Rightarrow> kernel \<Rightarrow> mqx_code \<times> kernel" where
  "lwsem_post sem s =
     (if SEM_VALID (LWSEMS s sem) \<noteq> LWSEM_VALID then (MQX_INVALID_LWSEM, s)
      else let h = LWSEM_TD_QUEUE sem
      in case (if sint (SEM_VALUE (LWSEMS s sem)) \<ge> 0 then WAITQ s h else []) of
           t # ts \<Rightarrow>
             (let s = s\<lparr>WAITQ := (WAITQ s)(h := ts)\<rparr>;
                  s = TIME_DEQUEUE t s;
                  s = upd_td t (\<lambda>d. d\<lparr>INFO := 0\<rparr>) s;
                  s = TASK_READY t s
              in (MQX_OK, sched_check_scheduler_internal s))
         | [] \<Rightarrow> (MQX_OK, upd_sem sem (\<lambda>S. S\<lparr>SEM_VALUE := SEM_VALUE S + 1\<rparr>) s))"

section \<open>Waiting\<close>

text \<open>The active task leaves its ready queue for the queue of the semaphore.\<close>

definition lwsem_enqueue_active :: "addr \<Rightarrow> addr \<Rightarrow> kernel \<Rightarrow> kernel" where
  "lwsem_enqueue_active sem t s =
     (let s = upd_td t (\<lambda>d. d\<lparr>STATE := LWSEM_BLOCKED\<rparr>) s;
          s = upd_td t (\<lambda>d. d\<lparr>INFO := LWSEM_TD_QUEUE sem\<rparr>) s;
          s = UNLINK_READY t s
      in s\<lparr>WAITQ := (WAITQ s)(LWSEM_TD_QUEUE sem := WAITQ s (LWSEM_TD_QUEUE sem) @ [t])\<rparr>)"

definition lwsem_wait_timed_internal :: "addr \<Rightarrow> addr \<Rightarrow> kernel \<Rightarrow> kernel" where
  "lwsem_wait_timed_internal sem t s = time_delay_internal t (lwsem_enqueue_active sem t s)"

text \<open>
  The frame of the four waits: the checks, and the case in which the semaphore is available;
  \<open>block\<close> is what the waiting case does.
\<close>

definition lwsem_wait_frame ::
  "(addr \<Rightarrow> kernel \<Rightarrow> kernel) \<Rightarrow> addr \<Rightarrow> kernel \<Rightarrow> mqx_code option \<times> kernel" where
  "lwsem_wait_frame block sem s =
     (if IN_ISR s \<noteq> 0 then (Some MQX_CANNOT_CALL_FUNCTION_FROM_ISR, s)
      else if SEM_VALID (LWSEMS s sem) \<noteq> LWSEM_VALID then (Some MQX_INVALID_LWSEM, s)
      else if sint (SEM_VALUE (LWSEMS s sem)) \<le> 0 then (None, block (ACTIVE_PTR s) s)
      else (Some MQX_OK, upd_sem sem (\<lambda>S. S\<lparr>SEM_VALUE := SEM_VALUE S - 1\<rparr>) s))"

definition lwsem_wait :: "addr \<Rightarrow> kernel \<Rightarrow> mqx_code option \<times> kernel" where
  "lwsem_wait sem =
     lwsem_wait_frame
       (\<lambda>t s. sched_execute_scheduler_internal (lwsem_enqueue_active sem t s)) sem"

definition lwsem_wait_for :: "addr \<Rightarrow> tick_struct \<Rightarrow> kernel \<Rightarrow> mqx_code option \<times> kernel" where
  "lwsem_wait_for sem ticks =
     lwsem_wait_frame
       (\<lambda>t s. lwsem_wait_timed_internal sem t
          (upd_td t (\<lambda>d. d\<lparr>TIMEOUT := psp_add_ticks (HW_TICKS_PER_TICK s) ticks (TIME s)\<rparr>) s)) sem"

definition lwsem_wait_ticks :: "addr \<Rightarrow> u32 \<Rightarrow> kernel \<Rightarrow> mqx_code option \<times> kernel" where
  "lwsem_wait_ticks sem n =
     lwsem_wait_frame
       (\<lambda>t s. if n = 0 then sched_execute_scheduler_internal (lwsem_enqueue_active sem t s)
              else lwsem_wait_timed_internal sem t (set_timeout_ticks t n s)) sem"

definition lwsem_wait_until :: "addr \<Rightarrow> tick_struct \<Rightarrow> kernel \<Rightarrow> mqx_code option \<times> kernel" where
  "lwsem_wait_until sem ticks =
     lwsem_wait_frame
       (\<lambda>t s. lwsem_wait_timed_internal sem t (upd_td t (\<lambda>d. d\<lparr>TIMEOUT := ticks\<rparr>) s)) sem"

text \<open>
  What the waiting task \<open>t\<close> returns when it runs again in state \<open>s\<close>: after an untimed and
  after a timed wait.
\<close>

definition lwsem_wait_resume :: "addr \<Rightarrow> kernel \<Rightarrow> mqx_code" where
  "lwsem_wait_resume sem s =
     (if SEM_VALID (LWSEMS s sem) \<noteq> LWSEM_VALID then MQX_INVALID_LWSEM else MQX_OK)"

definition lwsem_wait_timed_resume :: "addr \<Rightarrow> addr \<Rightarrow> kernel \<Rightarrow> mqx_code" where
  "lwsem_wait_timed_resume sem t s =
     (let result = (if INFO (TDS s t) \<noteq> 0 then MQX_LWSEM_WAIT_TIMEOUT else MQX_OK)
      in if SEM_VALID (LWSEMS s sem) \<noteq> LWSEM_VALID then MQX_INVALID_LWSEM else result)"

lemmas lwsem_defs [kernel_defs] = upd_sem_def lwsem_create_def lwsem_create_internal_def
  lwsem_wait_ticks_def lwsem_wait_frame_def lwsem_wait_timed_internal_def lwsem_enqueue_active_def

section \<open>The operations keep the invariant\<close>

lemma upd_sem_simps [simp]:
  "TDS (upd_sem m f s) = TDS s" "READYQ (upd_sem m f s) = READYQ s"
  "TIMEOUT_QUEUE (upd_sem m f s) = TIMEOUT_QUEUE s" "WAITQ (upd_sem m f s) = WAITQ s"
  "CURRENT_READY_Q (upd_sem m f s) = CURRENT_READY_Q s" "TIME (upd_sem m f s) = TIME s"
  "LOWEST_TASK_PRIORITY (upd_sem m f s) = LOWEST_TASK_PRIORITY s"
  "ACTIVE_PTR (upd_sem m f s) = ACTIVE_PTR s" "IN_ISR (upd_sem m f s) = IN_ISR s"
  "LWSEMS (upd_sem m f s) = (LWSEMS s)(m := f (LWSEMS s m))"
  "TASK_QUEUES (upd_sem m f s) = TASK_QUEUES s"
  "LWEVENTS (upd_sem m f s) = LWEVENTS s"
  "LWMSGQS (upd_sem m f s) = LWMSGQS s"
  "MUTEXES (upd_sem m f s) = MUTEXES s"
  "MEM (upd_sem m f s) = MEM s" "LWSEM_LIST (upd_sem m f s) = LWSEM_LIST s"
  "TD_LIST (upd_sem m f s) = TD_LIST s" "SYSTEM_TD (upd_sem m f s) = SYSTEM_TD s"
  "tasks (upd_sem m f s) = tasks s"
  by (simp_all add: upd_sem_def tasks_def)

lemma upd_sem_ok:
  assumes "kinv {} s"
  shows "op_ok {} s (upd_sem m f s)" "active_ok s \<Longrightarrow> active_ok (upd_sem m f s)"
    "top_ok s \<Longrightarrow> top_ok (upd_sem m f s)"
proof -
  have "kinv {} (upd_sem m f s)" by (rule kinv_cong [OF assms]) auto
  then show "op_ok {} s (upd_sem m f s)" by (rule op_okI) auto
qed (auto simp: active_ok_def top_ok_def)

lemma lwsem_enqueue_simps [simp]:
  "TDS (lwsem_enqueue_active m t s) =
     (TDS s)(t := (TDS s t)\<lparr>STATE := LWSEM_BLOCKED, INFO := LWSEM_TD_QUEUE m\<rparr>)"
  "WAITQ (lwsem_enqueue_active m t s) =
     (WAITQ s)(LWSEM_TD_QUEUE m := WAITQ s (LWSEM_TD_QUEUE m) @ [t])"
  "TIMEOUT_QUEUE (lwsem_enqueue_active m t s) = TIMEOUT_QUEUE s"
  "tasks (lwsem_enqueue_active m t s) = tasks s" "IN_ISR (lwsem_enqueue_active m t s) = IN_ISR s"
  "LWSEMS (lwsem_enqueue_active m t s) = LWSEMS s"
  "TASK_QUEUES (lwsem_enqueue_active m t s) = TASK_QUEUES s"
  "LWEVENTS (lwsem_enqueue_active m t s) = LWEVENTS s"
  "LWMSGQS (lwsem_enqueue_active m t s) = LWMSGQS s"
  "MUTEXES (lwsem_enqueue_active m t s) = MUTEXES s"
  "MEM (lwsem_enqueue_active m t s) = MEM s"
  by (simp_all add: lwsem_enqueue_active_def Let_def tasks_def)

lemma lwsem_enqueue_ok:
  assumes "kinv {} s" "t \<in> tasks s" "STATE (TDS s t) = READY"
  shows "op_ok {t} s (lwsem_enqueue_active m t s)"
  unfolding lwsem_enqueue_active_def by (rule enter_waiting_ok [OF assms]) simp

text \<open>The two ways of waiting, with and without a timeout.\<close>

lemma lwsem_block_ok:
  assumes "kinv {} s" "t \<in> tasks s" "STATE (TDS s t) = READY"
    and "r \<in> tasks s" "STATE (TDS s r) = READY" "r \<noteq> t"
  shows "op_ok {t} s (sched_execute_scheduler_internal (lwsem_enqueue_active m t s))"
    "active_ok (sched_execute_scheduler_internal (lwsem_enqueue_active m t s))"
    "top_ok (sched_execute_scheduler_internal (lwsem_enqueue_active m t s))"
  using op_exec [OF lwsem_enqueue_ok [OF assms(1-3)] assms(4) _ assms(5)] assms(6) by simp_all

lemma lwsem_block_timed_ok:
  assumes "kinv {} s" "t \<in> tasks s" "STATE (TDS s t) = READY"
    and "r \<in> tasks s" "STATE (TDS s r) = READY" "r \<noteq> t"
    and "s' = lwsem_wait_timed_internal m t (upd_td t (\<lambda>d. d\<lparr>TIMEOUT := x d\<rparr>) s)"
  shows "op_ok {t} s s'" "active_ok s'" "top_ok s'"
proof -
  let ?s0 = "upd_td t (\<lambda>d. d\<lparr>TIMEOUT := x d\<rparr>) s" and ?e = "lwsem_enqueue_active m t"
  have k0: "kinv {} ?s0" using set_timeout_ok [OF assms(1,3)] .
  have 0: "op_ok {t} s ?s0" using k0 by (rule op_okI) auto
  have 1: "op_ok {t} ?s0 (?e ?s0)" using lwsem_enqueue_ok [OF k0] assms(2,3) by simp
  have k1: "kinv {} (?e ?s0)" using 1 by (simp add: op_ok_def)
  note d = delay_ok [OF k1, of t r]
  have 2: "op_ok {t} (?e ?s0) s'" "active_ok s'" "top_ok s'"
    using d assms(2,4-6) by (simp_all add: assms(7) lwsem_wait_timed_internal_def)
  show "op_ok {t} s s'" "active_ok s'" "top_ok s'"
    using op_ok_trans [OF op_ok_trans [OF 0 1] 2(1)] 2(2,3) by blast+
qed

lemma lwsem_wait_ok:
  assumes "kinv {} s" "active_ok s" "r \<in> tasks s" "STATE (TDS s r) = READY" "r \<noteq> ACTIVE_PTR s"
    and "res \<in> {lwsem_wait m s, lwsem_wait_for m ticks s, lwsem_wait_ticks m n s, lwsem_wait_until m ticks s}"
  shows "op_ok {ACTIVE_PTR s} s (snd res)" "active_ok (snd res)" "top_ok s \<Longrightarrow> top_ok (snd res)"
proof -
  have a: "ACTIVE_PTR s \<in> tasks s" "STATE (TDS s (ACTIVE_PTR s)) = READY"
    using assms(2) by (auto simp: active_ok_def)
  note b = lwsem_block_ok [OF assms(1) a assms(3-5), of m]
    and bt = lwsem_block_timed_ok [OF assms(1) a assms(3-5)]
    and u = upd_sem_ok [OF assms(1)] op_ok_refl [OF assms(1)]
  have frame: "op_ok {ACTIVE_PTR s} s (snd (lwsem_wait_frame blk m s)) \<and>
      active_ok (snd (lwsem_wait_frame blk m s)) \<and>
      (top_ok s \<longrightarrow> top_ok (snd (lwsem_wait_frame blk m s)))"
    if "op_ok {ACTIVE_PTR s} s (blk (ACTIVE_PTR s) s) \<and> active_ok (blk (ACTIVE_PTR s) s) \<and>
      top_ok (blk (ACTIVE_PTR s) s)" for blk
    using that u assms(2) by (auto simp: lwsem_wait_frame_def intro: op_ok_weaken)
  have "op_ok {ACTIVE_PTR s} s (snd res) \<and> active_ok (snd res) \<and> (top_ok s \<longrightarrow> top_ok (snd res))"
    using assms(6) b bt
    by (auto simp: lwsem_wait_def lwsem_wait_for_def lwsem_wait_ticks_def lwsem_wait_until_def
        set_timeout_ticks_def simp del: snd_conv intro!: frame)
  then show "op_ok {ACTIVE_PTR s} s (snd res)" "active_ok (snd res)" "top_ok s \<Longrightarrow> top_ok (snd res)"
    by blast+
qed

lemma lwsem_wake_loop_released:
  "kinv {} s \<Longrightarrow> WAITQ s h = ts \<Longrightarrow> released ts h s (lwsem_wake_loop h ts s)"
proof (induction ts arbitrary: s)
  case (Cons t ts)
  let ?s = "TASK_READY t (TIME_DEQUEUE t (s\<lparr>WAITQ := (WAITQ s)(h := ts)\<rparr>))"
  have 1: "released [t] h s ?s" using released_one [OF Cons.prems] .
  have "released ts h ?s (lwsem_wake_loop h ts ?s)"
    using released_frame(1) [OF 1] Cons.prems by (intro Cons.IH) auto
  from released_append [OF 1 this] show ?case by simp
qed (simp add: released_nil)

lemma lwsem_poll_ok:
  assumes "kinv {} s" "active_ok s"
  shows "op_ok {} s (snd (lwsem_poll m s))" "active_ok (snd (lwsem_poll m s))"
    "top_ok s \<Longrightarrow> top_ok (snd (lwsem_poll m s))"
  using upd_sem_ok [OF assms(1)] op_ok_refl [OF assms(1)] assms(2) by (auto simp: lwsem_poll_def)

text \<open>A post with a waiting task: that task is released and its \<open>INFO\<close> cleared.\<close>

lemma lwsem_post_release:
  assumes "kinv {} s" "SEM_VALID (LWSEMS s m) = LWSEM_VALID" "0 \<le> sint (SEM_VALUE (LWSEMS s m))"
    "WAITQ s (LWSEM_TD_QUEUE m) = t # ts"
  shows "\<exists>s1. released [t] (LWSEM_TD_QUEUE m) s s1 \<and>
    lwsem_post m s = (MQX_OK, sched_check_scheduler_internal (upd_td t (\<lambda>d. d\<lparr>INFO := 0\<rparr>) s1))"
  using released_one [OF assms(1,4)] assms(2-4)
  by (auto simp: lwsem_post_def Let_def TASK_READY_clear_INFO)

lemma lwsem_post_ok:
  assumes "kinv {} s" "active_ok s"
  shows "op_ok {} s (snd (lwsem_post m s))" "active_ok (snd (lwsem_post m s))"
    "IN_ISR s = 0 \<Longrightarrow> top_ok s \<Longrightarrow> top_ok (snd (lwsem_post m s))"
proof -
  let ?h = "LWSEM_TD_QUEUE m"
  have "op_ok {} s (snd (lwsem_post m s)) \<and> active_ok (snd (lwsem_post m s)) \<and>
    (IN_ISR s = 0 \<longrightarrow> top_ok s \<longrightarrow> top_ok (snd (lwsem_post m s)))"
  proof (cases "SEM_VALID (LWSEMS s m) = LWSEM_VALID \<and> 0 \<le> sint (SEM_VALUE (LWSEMS s m)) \<and> WAITQ s ?h \<noteq> []")
    case True
    then obtain t ts where "WAITQ s ?h = t # ts" by (cases "WAITQ s ?h") auto
    then obtain s1 where s1: "released [t] ?h s s1"
      "lwsem_post m s = (MQX_OK, sched_check_scheduler_internal (upd_td t (\<lambda>d. d\<lparr>INFO := 0\<rparr>) s1))"
      using lwsem_post_release [OF assms(1)] True by blast
    let ?s2 = "upd_td t (\<lambda>d. d\<lparr>INFO := 0\<rparr>) s1"
    have r: "op_ok {} s s1" "active_ok s1" "STATE (TDS s1 t) = READY"
      using released_op [OF s1(1)] released_active [OF s1(1) assms(2)] s1(1)
      by (simp_all add: released_def)
    have "kinv {} ?s2" using r by (intro kinv_upd_placed) (auto simp: op_ok_def)
    then have "op_ok {} s1 ?s2" by (rule op_okI) auto
    then have "op_ok {} s ?s2" using r(1) op_ok_trans by blast
    from op_check [OF this] r(2) show ?thesis by (simp add: s1(2) active_ok_upd)
  next
    case False
    then show ?thesis using upd_sem_ok [OF assms(1)] op_ok_refl [OF assms(1)] assms(2)
      by (auto simp: lwsem_post_def Let_def split: list.split)
  qed
  then show "op_ok {} s (snd (lwsem_post m s))" "active_ok (snd (lwsem_post m s))"
    "IN_ISR s = 0 \<Longrightarrow> top_ok s \<Longrightarrow> top_ok (snd (lwsem_post m s))" by blast+
qed

text \<open>Destroying: all waiting tasks are released.\<close>

lemma lwsem_destroy_released:
  assumes "kinv {} s" "SEM_VALID (LWSEMS s m) = LWSEM_VALID"
  shows "\<exists>s1. released (WAITQ s (LWSEM_TD_QUEUE m)) (LWSEM_TD_QUEUE m) (upd_sem m (\<lambda>S. S\<lparr>SEM_VALID := 0\<rparr>) s) s1
    \<and> lwsem_destroy m s =
        (MQX_OK, sched_check_scheduler_internal (s1\<lparr>LWSEM_LIST := remove1 m (LWSEM_LIST s1)\<rparr>))"
proof -
  let ?s0 = "upd_sem m (\<lambda>S. S\<lparr>SEM_VALID := 0\<rparr>) s" and ?h = "LWSEM_TD_QUEUE m"
  have "kinv {} ?s0" using upd_sem_ok(1) [OF assms(1)] by (simp add: op_ok_def)
  then have "released (WAITQ s ?h) ?h ?s0 (lwsem_wake_loop ?h (WAITQ s ?h) ?s0)"
    using lwsem_wake_loop_released [of ?s0 ?h] by simp
  then show ?thesis using assms(2-) by (auto simp: lwsem_destroy_def lwsem_destroy_internal_def Let_def)
qed

lemma lwsem_destroy_ok:
  assumes "kinv {} s" "active_ok s"
  shows "op_ok {} s (snd (lwsem_destroy m s))" "active_ok (snd (lwsem_destroy m s))"
    "IN_ISR s = 0 \<Longrightarrow> top_ok s \<Longrightarrow> top_ok (snd (lwsem_destroy m s))"
proof -
  have "op_ok {} s (snd (lwsem_destroy m s)) \<and> active_ok (snd (lwsem_destroy m s))
    \<and> (IN_ISR s = 0 \<longrightarrow> top_ok s \<longrightarrow> top_ok (snd (lwsem_destroy m s)))"
  proof (cases "SEM_VALID (LWSEMS s m) = LWSEM_VALID")
    case True
    then obtain s1 where r: "released (WAITQ s (LWSEM_TD_QUEUE m)) (LWSEM_TD_QUEUE m) (upd_sem m (\<lambda>S. S\<lparr>SEM_VALID := 0\<rparr>) s) s1"
      and e: "lwsem_destroy m s =
        (MQX_OK, sched_check_scheduler_internal (s1\<lparr>LWSEM_LIST := remove1 m (LWSEM_LIST s1)\<rparr>))"
      using lwsem_destroy_released [OF assms(1)] by blast
    let ?s2 = "s1\<lparr>LWSEM_LIST := remove1 m (LWSEM_LIST s1)\<rparr>"
    have "kinv {} ?s2" by (rule kinv_cong [OF released_frame(1) [OF r]]) (auto simp: tasks_def)
    then have 2: "op_ok {} s ?s2" by (rule op_okI) (use released_frame [OF r] in \<open>auto simp: tasks_def\<close>)
    have "active_ok ?s2" using released_frame [OF r] assms(2) by (auto simp: active_ok_def tasks_def)
    from op_check [OF 2 this] show ?thesis by (simp add: e)
  qed (use op_ok_refl [OF assms(1)] assms(2) in \<open>auto simp: lwsem_destroy_def lwsem_destroy_internal_def\<close>)
  then show "op_ok {} s (snd (lwsem_destroy m s))" "active_ok (snd (lwsem_destroy m s))"
    "IN_ISR s = 0 \<Longrightarrow> top_ok s \<Longrightarrow> top_ok (snd (lwsem_destroy m s))" by blast+
qed

text \<open>A semaphore is created in memory whose queue header is not in use.\<close>

lemma lwsem_create_ok:
  assumes "kinv {} s" "active_ok s" "WAITQ s (LWSEM_TD_QUEUE m) = []"
  shows "op_ok {} s (snd (lwsem_create_internal m n hidden s))"
    "active_ok (snd (lwsem_create_internal m n hidden s))"
    "top_ok s \<Longrightarrow> top_ok (snd (lwsem_create_internal m n hidden s))"
proof -
  have w: "(WAITQ s)(LWSEM_TD_QUEUE m := []) = WAITQ s" using assms(3) by auto
  have "kinv {} (snd (lwsem_create_internal m n hidden s))"
    by (rule kinv_cong [OF assms(1)]) (auto simp: lwsem_create_internal_def Let_def w tasks_def)
  then show "op_ok {} s (snd (lwsem_create_internal m n hidden s))"
    by (rule op_okI) (auto simp: lwsem_create_internal_def Let_def w tasks_def)
  show "active_ok (snd (lwsem_create_internal m n hidden s))"
    "top_ok s \<Longrightarrow> top_ok (snd (lwsem_create_internal m n hidden s))"
    using assms(2) by (auto simp: lwsem_create_internal_def Let_def active_ok_def top_ok_def tasks_def)
qed

end
