(* ===== verification/LwEvent.thy ===== *)
theory LwEvent
  imports LwSem
begin

text \<open>
  Lightweight events, \<^verbatim>\<open>src/mqx/source/kernel/lwevent.c\<close>: groups of bits on which tasks
  wait, for any or for all bits of a mask.

  An event group is named by the address of its \<open>LWEVENT_STRUCT\<close>, with \<open>WAITING_TASKS\<close> at
  offset 8. A waiting task keeps the mask in \<open>LWEVENT_BITS\<close> and whether it wants all its bits
  in \<open>FLAGS\<close>. A wait is split where the processor goes to another task, as for semaphores.
\<close>

definition LWEVENT_VALID :: u32 where "LWEVENT_VALID = 0x6C65766E"

abbreviation (input) LWEVENT_AUTO_CLEAR :: u32 where "LWEVENT_AUTO_CLEAR \<equiv> 1"

definition WAITING_TASKS :: "addr \<Rightarrow> addr" where "WAITING_TASKS e = e + 8"

definition upd_event :: "addr \<Rightarrow> (lwevent \<Rightarrow> lwevent) \<Rightarrow> kernel \<Rightarrow> kernel" where
  "upd_event e f s = s\<lparr>LWEVENTS := (LWEVENTS s)(e := f (LWEVENTS s e))\<rparr>"

section \<open>Operations\<close>

definition lwevent_create_internal :: "addr \<Rightarrow> u32 \<Rightarrow> kernel \<Rightarrow> mqx_code \<times> kernel" where
  "lwevent_create_internal e flags s =
     (let s = s\<lparr>WAITQ := (WAITQ s)(WAITING_TASKS e := [])\<rparr>;
          s = upd_event e (\<lambda>E. E\<lparr>EV_VALUE := 0\<rparr>) s;
          s = upd_event e (\<lambda>E. E\<lparr>EV_FLAGS := flags\<rparr>) s;
          s = upd_event e (\<lambda>E. E\<lparr>EV_AUTO := (if flags AND LWEVENT_AUTO_CLEAR \<noteq> 0
                then MAX_MQX_UINT else 0)\<rparr>) s;
          s = upd_event e (\<lambda>E. E\<lparr>EV_VALID := LWEVENT_VALID\<rparr>) s
      in if e \<in> set (LWEVENT_LIST s) then (MQX_EINVAL, s)
         else (MQX_OK, s\<lparr>LWEVENT_LIST := LWEVENT_LIST s @ [e]\<rparr>))"

definition lwevent_create :: "addr \<Rightarrow> u32 \<Rightarrow> kernel \<Rightarrow> mqx_code \<times> kernel" where
  "lwevent_create e flags = lwevent_create_internal e flags"

text \<open>The loop that releases the waiting tasks is that of a destroyed semaphore.\<close>

definition lwevent_destroy_internal :: "addr \<Rightarrow> kernel \<Rightarrow> mqx_code \<times> kernel" where
  "lwevent_destroy_internal e s =
     (if IN_ISR s \<noteq> 0 then (MQX_CANNOT_CALL_FUNCTION_FROM_ISR, s)
      else if EV_VALID (LWEVENTS s e) \<noteq> LWEVENT_VALID then (MQX_LWEVENT_INVALID, s)
      else
        (let s = upd_event e (\<lambda>E. E\<lparr>EV_VALID := 0\<rparr>) s;
             s = lwsem_wake_loop (WAITING_TASKS e) (WAITQ s (WAITING_TASKS e)) s;
             s = s\<lparr>LWEVENT_LIST := remove1 e (LWEVENT_LIST s)\<rparr>
         in (MQX_OK, sched_check_scheduler_internal s)))"

definition lwevent_destroy :: "addr \<Rightarrow> kernel \<Rightarrow> mqx_code \<times> kernel" where
  "lwevent_destroy e = lwevent_destroy_internal e"

definition lwevent_clear :: "addr \<Rightarrow> u32 \<Rightarrow> kernel \<Rightarrow> mqx_code \<times> kernel" where
  "lwevent_clear e bit_mask s =
     (if EV_VALID (LWEVENTS s e) \<noteq> LWEVENT_VALID then (MQX_LWEVENT_INVALID, s)
      else (MQX_OK, upd_event e (\<lambda>E. E\<lparr>EV_VALUE := EV_VALUE E AND NOT bit_mask\<rparr>) s))"

definition lwevent_get_signalled :: "kernel \<Rightarrow> u32" where
  "lwevent_get_signalled s = LWEVENT_BITS (TDS s (ACTIVE_PTR s))"

definition lwevent_set_auto_clear :: "addr \<Rightarrow> u32 \<Rightarrow> kernel \<Rightarrow> mqx_code \<times> kernel" where
  "lwevent_set_auto_clear e auto_mask s =
     (if EV_VALID (LWEVENTS s e) \<noteq> LWEVENT_VALID then (MQX_LWEVENT_INVALID, s)
      else (MQX_OK, upd_event e (\<lambda>E. E\<lparr>EV_AUTO := auto_mask\<rparr>) s))"

text \<open>The condition under which a waiting task is released.\<close>

definition lwevent_satisfied :: "td \<Rightarrow> u32 \<Rightarrow> bool" where
  "lwevent_satisfied d set_bits \<longleftrightarrow>
     FLAGS d AND TASK_LWEVENT_ALL_BITS_WANTED \<noteq> 0 \<and> LWEVENT_BITS d AND set_bits = LWEVENT_BITS d
     \<or> \<not> FLAGS d AND TASK_LWEVENT_ALL_BITS_WANTED \<noteq> 0 \<and> LWEVENT_BITS d AND set_bits \<noteq> 0"

definition lwevent_release :: "addr \<Rightarrow> addr \<Rightarrow> u32 \<Rightarrow> kernel \<Rightarrow> kernel" where
  "lwevent_release h t set_bits s =
     (let s = s\<lparr>WAITQ := (WAITQ s)(h := remove1 t (WAITQ s h))\<rparr>;
          s = TIME_DEQUEUE t s;
          s = upd_td t (\<lambda>d. d\<lparr>INFO := 0\<rparr>) s;
          s = TASK_READY t s
      in upd_td t (\<lambda>d. d\<lparr>LWEVENT_BITS := LWEVENT_BITS d AND set_bits\<rparr>) s)"

fun lwevent_set_loop :: "addr \<Rightarrow> addr list \<Rightarrow> u32 \<Rightarrow> kernel \<Rightarrow> u32 \<times> kernel" where
  "lwevent_set_loop e [] set_bits s = (set_bits, s)"
| "lwevent_set_loop e (t # ts) set_bits s =
     (if lwevent_satisfied (TDS s t) set_bits then
        (let s = lwevent_release (WAITING_TASKS e) t set_bits s;
             set_bits = set_bits AND NOT (EV_AUTO (LWEVENTS s e) AND LWEVENT_BITS (TDS s t))
         in lwevent_set_loop e ts set_bits s)
      else lwevent_set_loop e ts set_bits s)"

definition lwevent_set :: "addr \<Rightarrow> u32 \<Rightarrow> kernel \<Rightarrow> mqx_code \<times> kernel" where
  "lwevent_set e bit_mask s =
     (if EV_VALID (LWEVENTS s e) \<noteq> LWEVENT_VALID then (MQX_LWEVENT_INVALID, s)
      else
        (let set_bits = EV_VALUE (LWEVENTS s e) OR bit_mask;
             (set_bits, s) = lwevent_set_loop e (WAITQ s (WAITING_TASKS e)) set_bits s;
             s = upd_event e (\<lambda>E. E\<lparr>EV_VALUE := set_bits\<rparr>) s
         in (MQX_OK, sched_check_scheduler_internal s)))"

text \<open>The active task joins the waiting tasks; it leaves its ready queue when it blocks.\<close>

definition lwevent_enqueue_active :: "addr \<Rightarrow> u32 \<Rightarrow> bool \<Rightarrow> kernel \<Rightarrow> kernel" where
  "lwevent_enqueue_active e bit_mask all_bits s =
     (let t = ACTIVE_PTR s;
          s = upd_td t (\<lambda>d. d\<lparr>LWEVENT_BITS := bit_mask\<rparr>) s;
          s = upd_td t (\<lambda>d. d\<lparr>FLAGS := (if all_bits then FLAGS d OR TASK_LWEVENT_ALL_BITS_WANTED
                else FLAGS d AND NOT TASK_LWEVENT_ALL_BITS_WANTED)\<rparr>) s;
          s = s\<lparr>WAITQ := (WAITQ s)(WAITING_TASKS e := WAITQ s (WAITING_TASKS e) @ [t])\<rparr>;
          s = upd_td t (\<lambda>d. d\<lparr>STATE := LWEVENT_BLOCKED\<rparr>) s
      in upd_td t (\<lambda>d. d\<lparr>INFO := WAITING_TASKS e\<rparr>) s)"

definition lwevent_wait_internal ::
  "addr \<Rightarrow> u32 \<Rightarrow> bool \<Rightarrow> tick_struct option \<Rightarrow> bool \<Rightarrow> kernel \<Rightarrow> mqx_code option \<times> kernel" where
  "lwevent_wait_internal e bit_mask all_bits tick ticks_are_absolute s =
     (if IN_ISR s \<noteq> 0 then (Some MQX_CANNOT_CALL_FUNCTION_FROM_ISR, s)
      else if EV_VALID (LWEVENTS s e) \<noteq> LWEVENT_VALID then (Some MQX_LWEVENT_INVALID, s)
      else
        (let t = ACTIVE_PTR s; value = EV_VALUE (LWEVENTS s e)
         in if all_bits \<and> value AND bit_mask = bit_mask \<or> \<not> all_bits \<and> value AND bit_mask \<noteq> 0 then
              (let s = upd_td t (\<lambda>d. d\<lparr>LWEVENT_BITS := value AND bit_mask\<rparr>) s
               in (Some MQX_OK, upd_event e (\<lambda>E. E\<lparr>EV_VALUE :=
                     EV_VALUE E AND NOT (EV_AUTO E AND bit_mask)\<rparr>) s))
            else
              (let s = lwevent_enqueue_active e bit_mask all_bits s
               in (None,
                   case tick of
                     Some ticks \<Rightarrow> if ticks_are_absolute then time_delay_until ticks s
                                    else time_delay_for ticks s
                   | None \<Rightarrow> task_block s))))"

definition lwevent_wait_for :: "addr \<Rightarrow> u32 \<Rightarrow> bool \<Rightarrow> tick_struct option \<Rightarrow> kernel \<Rightarrow> mqx_code option \<times> kernel" where
  "lwevent_wait_for e bit_mask all_bits tick = lwevent_wait_internal e bit_mask all_bits tick False"

definition lwevent_wait_until :: "addr \<Rightarrow> u32 \<Rightarrow> bool \<Rightarrow> tick_struct option \<Rightarrow> kernel \<Rightarrow> mqx_code option \<times> kernel" where
  "lwevent_wait_until e bit_mask all_bits tick = lwevent_wait_internal e bit_mask all_bits tick True"

definition lwevent_wait_ticks :: "addr \<Rightarrow> u32 \<Rightarrow> bool \<Rightarrow> u32 \<Rightarrow> kernel \<Rightarrow> mqx_code option \<times> kernel" where
  "lwevent_wait_ticks e bit_mask all_bits timeout_in_ticks =
     (if timeout_in_ticks \<noteq> 0 then
        lwevent_wait_internal e bit_mask all_bits
          (Some (ZERO_TICK_STRUCT\<lparr>TICKS := TICKS ZERO_TICK_STRUCT + ucast timeout_in_ticks\<rparr>)) False
      else lwevent_wait_internal e bit_mask all_bits None False)"

text \<open>What the waiting task \<open>t\<close> returns when it runs again in state \<open>s\<close>.\<close>

definition lwevent_wait_resume :: "addr \<Rightarrow> bool \<Rightarrow> addr \<Rightarrow> kernel \<Rightarrow> mqx_code" where
  "lwevent_wait_resume e timed t s =
     (let result = (if timed \<and> INFO (TDS s t) \<noteq> 0 then LWEVENT_WAIT_TIMEOUT else MQX_OK)
      in if EV_VALID (LWEVENTS s e) = 0 then MQX_LWEVENT_INVALID else result)"

lemmas lwevent_defs [kernel_defs] = upd_event_def lwevent_create_def lwevent_create_internal_def
  lwevent_wait_ticks_def lwevent_wait_internal_def lwevent_enqueue_active_def

section \<open>The operations keep the invariant\<close>

lemma upd_event_simps [simp]:
  "TDS (upd_event m f s) = TDS s" "READYQ (upd_event m f s) = READYQ s"
  "TIMEOUT_QUEUE (upd_event m f s) = TIMEOUT_QUEUE s" "WAITQ (upd_event m f s) = WAITQ s"
  "CURRENT_READY_Q (upd_event m f s) = CURRENT_READY_Q s" "TIME (upd_event m f s) = TIME s"
  "LOWEST_TASK_PRIORITY (upd_event m f s) = LOWEST_TASK_PRIORITY s"
  "ACTIVE_PTR (upd_event m f s) = ACTIVE_PTR s" "IN_ISR (upd_event m f s) = IN_ISR s"
  "LWEVENTS (upd_event m f s) = (LWEVENTS s)(m := f (LWEVENTS s m))"
  "LWEVENT_LIST (upd_event m f s) = LWEVENT_LIST s"
  "TASK_QUEUES (upd_event m f s) = TASK_QUEUES s" "LWSEMS (upd_event m f s) = LWSEMS s"
  "LWMSGQS (upd_event m f s) = LWMSGQS s"
  "MUTEXES (upd_event m f s) = MUTEXES s"
  "MEM (upd_event m f s) = MEM s" "LWSEM_LIST (upd_event m f s) = LWSEM_LIST s"
  "TD_LIST (upd_event m f s) = TD_LIST s" "SYSTEM_TD (upd_event m f s) = SYSTEM_TD s"
  "tasks (upd_event m f s) = tasks s"
  by (simp_all add: upd_event_def tasks_def)

lemma upd_event_ok:
  assumes "kinv {} s"
  shows "op_ok {} s (upd_event m f s)" "active_ok s \<Longrightarrow> active_ok (upd_event m f s)"
    "top_ok s \<Longrightarrow> top_ok (upd_event m f s)"
proof -
  have "kinv {} (upd_event m f s)" by (rule kinv_cong [OF assms]) auto
  then show "op_ok {} s (upd_event m f s)" by (rule op_okI) auto
qed (auto simp: active_ok_def top_ok_def)

text \<open>An event group is created in memory whose queue header is not in use.\<close>

lemma lwevent_create_ok:
  assumes "kinv {} s" "active_ok s" "WAITQ s (WAITING_TASKS e) = []"
  shows "op_ok {} s (snd (lwevent_create_internal e flags s))"
    "active_ok (snd (lwevent_create_internal e flags s))"
    "top_ok s \<Longrightarrow> top_ok (snd (lwevent_create_internal e flags s))"
proof -
  have w: "(WAITQ s)(WAITING_TASKS e := []) = WAITQ s" using assms(3) by auto
  have "kinv {} (snd (lwevent_create_internal e flags s))"
    by (rule kinv_cong [OF assms(1)]) (auto simp: lwevent_create_internal_def Let_def w tasks_def)
  then show "op_ok {} s (snd (lwevent_create_internal e flags s))"
    by (rule op_okI) (auto simp: lwevent_create_internal_def Let_def w tasks_def)
  show "active_ok (snd (lwevent_create_internal e flags s))"
    "top_ok s \<Longrightarrow> top_ok (snd (lwevent_create_internal e flags s))"
    using assms(2) by (auto simp: lwevent_create_internal_def Let_def active_ok_def top_ok_def tasks_def)
qed

text \<open>Destroying: all waiting tasks are released.\<close>

lemma lwevent_destroy_released:
  assumes "kinv {} s" "EV_VALID (LWEVENTS s m) = LWEVENT_VALID" "IN_ISR s = 0"
  shows "\<exists>s1. released (WAITQ s (WAITING_TASKS m)) (WAITING_TASKS m) (upd_event m (\<lambda>S. S\<lparr>EV_VALID := 0\<rparr>) s) s1
    \<and> lwevent_destroy m s =
        (MQX_OK, sched_check_scheduler_internal (s1\<lparr>LWEVENT_LIST := remove1 m (LWEVENT_LIST s1)\<rparr>))"
proof -
  let ?s0 = "upd_event m (\<lambda>S. S\<lparr>EV_VALID := 0\<rparr>) s" and ?h = "WAITING_TASKS m"
  have "kinv {} ?s0" using upd_event_ok(1) [OF assms(1)] by (simp add: op_ok_def)
  then have "released (WAITQ s ?h) ?h ?s0 (lwsem_wake_loop ?h (WAITQ s ?h) ?s0)"
    using lwsem_wake_loop_released [of ?s0 ?h] by simp
  then show ?thesis using assms(2-) by (auto simp: lwevent_destroy_def lwevent_destroy_internal_def Let_def)
qed

lemma lwevent_destroy_ok:
  assumes "kinv {} s" "active_ok s"
  shows "op_ok {} s (snd (lwevent_destroy m s))" "active_ok (snd (lwevent_destroy m s))"
    "IN_ISR s = 0 \<Longrightarrow> top_ok s \<Longrightarrow> top_ok (snd (lwevent_destroy m s))"
proof -
  have "op_ok {} s (snd (lwevent_destroy m s)) \<and> active_ok (snd (lwevent_destroy m s))
    \<and> (IN_ISR s = 0 \<longrightarrow> top_ok s \<longrightarrow> top_ok (snd (lwevent_destroy m s)))"
  proof (cases "EV_VALID (LWEVENTS s m) = LWEVENT_VALID \<and> IN_ISR s = 0")
    case True
    then obtain s1 where r: "released (WAITQ s (WAITING_TASKS m)) (WAITING_TASKS m) (upd_event m (\<lambda>S. S\<lparr>EV_VALID := 0\<rparr>) s) s1"
      and e: "lwevent_destroy m s =
        (MQX_OK, sched_check_scheduler_internal (s1\<lparr>LWEVENT_LIST := remove1 m (LWEVENT_LIST s1)\<rparr>))"
      using lwevent_destroy_released [OF assms(1)] by blast
    let ?s2 = "s1\<lparr>LWEVENT_LIST := remove1 m (LWEVENT_LIST s1)\<rparr>"
    have "kinv {} ?s2" by (rule kinv_cong [OF released_frame(1) [OF r]]) (auto simp: tasks_def)
    then have 2: "op_ok {} s ?s2" by (rule op_okI) (use released_frame [OF r] in \<open>auto simp: tasks_def\<close>)
    have "active_ok ?s2" using released_frame [OF r] assms(2) by (auto simp: active_ok_def tasks_def)
    from op_check [OF 2 this] show ?thesis by (simp add: e)
  qed (use op_ok_refl [OF assms(1)] assms(2) in \<open>auto simp: lwevent_destroy_def lwevent_destroy_internal_def\<close>)
  then show "op_ok {} s (snd (lwevent_destroy m s))" "active_ok (snd (lwevent_destroy m s))"
    "IN_ISR s = 0 \<Longrightarrow> top_ok s \<Longrightarrow> top_ok (snd (lwevent_destroy m s))" by blast+
qed

lemma lwevent_clear_ok:
  assumes "kinv {} s" "active_ok s" "res \<in> {lwevent_clear e m s, lwevent_set_auto_clear e m s}"
  shows "op_ok {} s (snd res)" "active_ok (snd res)" "top_ok s \<Longrightarrow> top_ok (snd res)"
  using upd_event_ok [OF assms(1)] op_ok_refl [OF assms(1)] assms(2,3)
  by (auto simp: lwevent_clear_def lwevent_set_auto_clear_def)

section \<open>Setting bits\<close>

text \<open>
  What setting bits promises, as a scan of the waiting tasks: a satisfied task is released with
  the bits it found, and takes the automatic ones of them away from the tasks after it.
\<close>

fun event_scan :: "(addr \<Rightarrow> td) \<Rightarrow> u32 \<Rightarrow> addr list \<Rightarrow> u32 \<Rightarrow> u32 \<times> (addr \<times> u32) list" where
  "event_scan T aut [] b = (b, [])"
| "event_scan T aut (t # ts) b =
     (if lwevent_satisfied (T t) b then
        (let got = LWEVENT_BITS (T t) AND b; (b', W) = event_scan T aut ts (b AND NOT (aut AND got))
         in (b', (t, got) # W))
      else event_scan T aut ts b)"

lemma event_scan_cong:
  "(\<And>t. t \<in> set ts \<Longrightarrow> T t = T' t) \<Longrightarrow> event_scan T aut ts b = event_scan T' aut ts b"
  by (induction ts arbitrary: b) auto

lemma event_scan_subset: "set (map fst (snd (event_scan T aut ts b))) \<subseteq> set ts"
proof (induction ts arbitrary: b)
  case (Cons t ts)
  show ?case using Cons.IH [of b] Cons.IH [of "b AND NOT (aut AND (LWEVENT_BITS (T t) AND b))"]
    by (auto simp: Let_def subset_iff image_iff split: prod.splits)
qed simp

lemma satisfied_mono:
  assumes "lwevent_satisfied d (b AND c)"
  shows "lwevent_satisfied d b"
proof -
  have "x AND b = x" if "x AND (b AND c) = x" for x :: u32
  proof -
    have "x AND b = (x AND (b AND c)) AND b" by (simp only: that)
    also have "\<dots> = x AND (b AND c)" by (simp add: ac_simps)
    finally show ?thesis by (simp only: that)
  qed
  moreover have "x AND b \<noteq> 0" if "x AND (b AND c) \<noteq> 0" for x :: u32
    using that by (auto simp: and.assoc [symmetric])
  ultimately show ?thesis using assms by (auto simp: lwevent_satisfied_def)
qed

lemma event_scan_value: "\<exists>c. fst (event_scan T aut ts b) = b AND c"
proof (induction ts arbitrary: b)
  case Nil
  show ?case by (simp add: exI [of _ "- 1"])
next
  case (Cons t ts)
  show ?case
  proof (cases "lwevent_satisfied (T t) b")
    case True
    obtain c where "fst (event_scan T aut ts (b AND NOT (aut AND (LWEVENT_BITS (T t) AND b)))) =
        (b AND NOT (aut AND (LWEVENT_BITS (T t) AND b))) AND c" using Cons.IH by blast
    then show ?thesis using True by (auto simp: Let_def and.assoc split: prod.splits)
  qed (simp add: Cons.IH)
qed

text \<open>Whoever still waits afterwards is not satisfied by the final value.\<close>

lemma event_scan_rest:
  "distinct ts \<Longrightarrow> u \<in> set ts \<Longrightarrow> u \<notin> set (map fst (snd (event_scan T aut ts b))) \<Longrightarrow>
   \<not> lwevent_satisfied (T u) (fst (event_scan T aut ts b))"
proof (induction ts arbitrary: b)
  case (Cons t ts)
  show ?case
  proof (cases "u = t")
    case True
    then have n: "\<not> lwevent_satisfied (T t) b"
      using Cons.prems(3) by (auto simp: Let_def split: prod.splits if_splits)
    obtain c where "fst (event_scan T aut ts b) = b AND c" using event_scan_value by blast
    then show ?thesis using n satisfied_mono [of "T t" b c] True by auto
  next
    case False
    let ?b = "if lwevent_satisfied (T t) b then b AND NOT (aut AND (LWEVENT_BITS (T t) AND b)) else b"
    have e: "fst (event_scan T aut (t # ts) b) = fst (event_scan T aut ts ?b)"
      and m: "u \<in> set (map fst (snd (event_scan T aut (t # ts) b))) \<longleftrightarrow>
        u \<in> set (map fst (snd (event_scan T aut ts ?b)))"
      using False by (auto simp: Let_def split: prod.splits)
    show ?thesis using Cons.IH [of ?b] Cons.prems False unfolding e m by simp
  qed
qed simp

lemma event_scan_manual:
  "event_scan T 0 ts b = (b, map (\<lambda>t. (t, LWEVENT_BITS (T t) AND b))
     (filter (\<lambda>t. lwevent_satisfied (T t) b) ts))"
  by (induction ts) (auto simp: Let_def)

lemma lwevent_release_released:
  fixes b :: u32
  assumes "kinv {} s" "t \<in> set (WAITQ s h)"
  defines "s' \<equiv> lwevent_release h t b s"
  shows "released [t] h s s'" "INFO (TDS s' t) = 0" "LWEVENT_BITS (TDS s' t) = LWEVENT_BITS (TDS s t) AND b"
proof -
  let ?s0 = "TIME_DEQUEUE t (s\<lparr>WAITQ := (WAITQ s)(h := remove1 t (WAITQ s h))\<rparr>)"
  have e: "s' = upd_td t (\<lambda>d. d\<lparr>LWEVENT_BITS := LWEVENT_BITS d AND b\<rparr>)
      (upd_td t (\<lambda>d. d\<lparr>INFO := 0\<rparr>) (TASK_READY t ?s0))"
    by (simp add: s'_def lwevent_release_def Let_def TASK_READY_clear_INFO)
  show "released [t] h s s'" unfolding e
    by (intro released_upd released_leave assms(1,2)) auto
  show "INFO (TDS s' t) = 0" "LWEVENT_BITS (TDS s' t) = LWEVENT_BITS (TDS s t) AND b"
    by (simp_all add: e TIME_DEQUEUE_eq)
qed

lemma lwevent_set_loop_scan:
  fixes e :: addr
  defines "h \<equiv> WAITING_TASKS e"
  assumes "kinv {} s" "set ts \<subseteq> set (WAITQ s h)" "distinct ts"
    and "event_scan (TDS s) (EV_AUTO (LWEVENTS s e)) ts b = (b', W)"
  shows "\<exists>s1. lwevent_set_loop e ts b s = (b', s1) \<and> released (map fst W) h s s1
    \<and> (\<forall>(t, got) \<in> set W. INFO (TDS s1 t) = 0 \<and> LWEVENT_BITS (TDS s1 t) = got)"
  using assms(2-)
proof (induction ts arbitrary: b s b' W)
  case Nil
  then show ?case by (simp add: released_nil)
next
  case (Cons t ts)
  show ?case
  proof (cases "lwevent_satisfied (TDS s t) b")
    case False
    then show ?thesis using Cons by simp
  next
    case True
    let ?s = "lwevent_release h t b s" and ?got = "LWEVENT_BITS (TDS s t) AND b"
    let ?b = "b AND NOT (EV_AUTO (LWEVENTS s e) AND ?got)"
    note rel = lwevent_release_released [OF Cons.prems(1), of t h b]
    have r: "released [t] h s ?s" "INFO (TDS ?s t) = 0" "LWEVENT_BITS (TDS ?s t) = ?got"
      using rel Cons.prems(2) by auto
    obtain W' where W': "event_scan (TDS s) (EV_AUTO (LWEVENTS s e)) ts ?b = (b', W')" "W = (t, ?got) # W'"
      using Cons.prems(4) True by (auto simp: Let_def split: prod.splits)
    have same: "TDS ?s u = TDS s u" if "u \<in> set ts" for u
      using releasedD [OF r(1), of u] that Cons.prems(3) by (auto split: if_splits)
    have "event_scan (TDS ?s) (EV_AUTO (LWEVENTS ?s e)) ts ?b = (b', W')"
      using W'(1) event_scan_cong [of ts "TDS ?s" "TDS s"] same by (simp add: released_frame [OF r(1)])
    moreover have "set ts \<subseteq> set (WAITQ ?s h)" using r(1) Cons.prems(2,3) by (auto simp: released_def)
    ultimately obtain s1 where s1: "lwevent_set_loop e ts ?b ?s = (b', s1)"
      "released (map fst W') h ?s s1"
      "\<forall>(t, got) \<in> set W'. INFO (TDS s1 t) = 0 \<and> LWEVENT_BITS (TDS s1 t) = got"
      using Cons.IH released_frame(1) [OF r(1)] Cons.prems(3) by fastforce
    have "t \<notin> set (map fst W')"
      using event_scan_subset [of "TDS s" "EV_AUTO (LWEVENTS s e)" ts ?b] W'(1) Cons.prems(3) by auto
    then have "TDS s1 t = TDS ?s t" using releasedD [OF s1(2), of t] by (simp split: if_splits)
    then show ?thesis
      using s1 released_append [OF r(1) s1(2)] True W'(2) r released_frame(8) [OF r(1)]
      by (auto simp: h_def [symmetric] Let_def)
  qed
qed

lemma lwevent_set_spec:
  assumes "kinv {} s" "EV_VALID (LWEVENTS s e) = LWEVENT_VALID"
    and "event_scan (TDS s) (EV_AUTO (LWEVENTS s e)) (WAITQ s (WAITING_TASKS e))
           (EV_VALUE (LWEVENTS s e) OR m) = (b', W)"
  shows "\<exists>s1. released (map fst W) (WAITING_TASKS e) s s1
    \<and> (\<forall>(t, got) \<in> set W. INFO (TDS s1 t) = 0 \<and> LWEVENT_BITS (TDS s1 t) = got)
    \<and> lwevent_set e m s =
        (MQX_OK, sched_check_scheduler_internal (upd_event e (\<lambda>E. E\<lparr>EV_VALUE := b'\<rparr>) s1))"
proof -
  have "distinct (WAITQ s (WAITING_TASKS e))" using kinv_queues [OF assms(1)] by (simp add: queues_ok_def)
  from lwevent_set_loop_scan [OF assms(1) subset_refl this assms(3)] show ?thesis
    using assms(2) by (auto simp: lwevent_set_def Let_def)
qed

lemma lwevent_set_ok:
  assumes "kinv {} s" "active_ok s"
  shows "op_ok {} s (snd (lwevent_set e m s))" "active_ok (snd (lwevent_set e m s))"
    "IN_ISR s = 0 \<Longrightarrow> top_ok s \<Longrightarrow> top_ok (snd (lwevent_set e m s))"
proof -
  have "op_ok {} s (snd (lwevent_set e m s)) \<and> active_ok (snd (lwevent_set e m s)) \<and>
    (IN_ISR s = 0 \<longrightarrow> top_ok s \<longrightarrow> top_ok (snd (lwevent_set e m s)))"
  proof (cases "EV_VALID (LWEVENTS s e) = LWEVENT_VALID")
    case True
    obtain b' W where "event_scan (TDS s) (EV_AUTO (LWEVENTS s e)) (WAITQ s (WAITING_TASKS e))
           (EV_VALUE (LWEVENTS s e) OR m) = (b', W)" by fastforce
    from lwevent_set_spec [OF assms(1) True this] obtain s1 where
      r: "released (map fst W) (WAITING_TASKS e) s s1" and
      e: "snd (lwevent_set e m s) = sched_check_scheduler_internal (upd_event e (\<lambda>E. E\<lparr>EV_VALUE := b'\<rparr>) s1)"
      by auto
    note u = upd_event_ok [OF released_frame(1) [OF r]]
    have "op_ok {} s (upd_event e (\<lambda>E. E\<lparr>EV_VALUE := b'\<rparr>) s1)"
      using op_ok_trans [OF released_op [OF r] u(1)] .
    from op_check [OF this u(2) [OF released_active [OF r assms(2)]]] show ?thesis by (simp add: e)
  next
    case False
    then show ?thesis using assms op_ok_refl by (simp add: lwevent_set_def)
  qed
  then show "op_ok {} s (snd (lwevent_set e m s))" "active_ok (snd (lwevent_set e m s))"
    "IN_ISR s = 0 \<Longrightarrow> top_ok s \<Longrightarrow> top_ok (snd (lwevent_set e m s))" by blast+
qed

section \<open>Waiting for bits\<close>

lemma lwevent_enqueue_simps [simp]:
  "TDS (lwevent_enqueue_active e m a s) = (TDS s)(ACTIVE_PTR s := (TDS s (ACTIVE_PTR s))
     \<lparr>LWEVENT_BITS := m, FLAGS := (if a then FLAGS (TDS s (ACTIVE_PTR s)) OR TASK_LWEVENT_ALL_BITS_WANTED
        else FLAGS (TDS s (ACTIVE_PTR s)) AND NOT TASK_LWEVENT_ALL_BITS_WANTED),
      STATE := LWEVENT_BLOCKED, INFO := WAITING_TASKS e\<rparr>)"
  "WAITQ (lwevent_enqueue_active e m a s) =
     (WAITQ s)(WAITING_TASKS e := WAITQ s (WAITING_TASKS e) @ [ACTIVE_PTR s])"
  "ACTIVE_PTR (lwevent_enqueue_active e m a s) = ACTIVE_PTR s"
  "tasks (lwevent_enqueue_active e m a s) = tasks s" "IN_ISR (lwevent_enqueue_active e m a s) = IN_ISR s"
  "TIMEOUT_QUEUE (lwevent_enqueue_active e m a s) = TIMEOUT_QUEUE s"
  "READYQ (lwevent_enqueue_active e m a s) = READYQ s"
  "LWSEMS (lwevent_enqueue_active e m a s) = LWSEMS s"
  "TASK_QUEUES (lwevent_enqueue_active e m a s) = TASK_QUEUES s"
  "LWEVENTS (lwevent_enqueue_active e m a s) = LWEVENTS s"
  "LWMSGQS (lwevent_enqueue_active e m a s) = LWMSGQS s"
  "MUTEXES (lwevent_enqueue_active e m a s) = MUTEXES s"
  "MEM (lwevent_enqueue_active e m a s) = MEM s"
  by (simp_all add: lwevent_enqueue_active_def Let_def tasks_def upd_td_def)

lemma lwevent_enqueue_ok:
  assumes "kinv {} s" "active_ok s"
  defines "t \<equiv> ACTIVE_PTR s"
  shows "op_ok {t} s (UNLINK_READY t (lwevent_enqueue_active e m a s))"
proof (rule op_okI)
  let ?h = "WAITING_TASKS e"
  let ?F = "\<lambda>d. d\<lparr>LWEVENT_BITS := m, FLAGS := (if a then FLAGS d OR TASK_LWEVENT_ALL_BITS_WANTED
        else FLAGS d AND NOT TASK_LWEVENT_ALL_BITS_WANTED), STATE := LWEVENT_BLOCKED, INFO := ?h\<rparr>"
  let ?s = "upd_td t ?F (UNLINK_READY t s)"
  have t: "t \<in> tasks s" "STATE (TDS s t) = READY" using assms(2) by (simp_all add: active_ok_def t_def)
  have mq: "MY_QUEUE (TDS s t) \<le> LOWEST_TASK_PRIORITY s + 1"
    using kinv_queues [OF assms(1)] t by (simp add: queues_ok_def)
  have "kinv {t} (UNLINK_READY t s)" using kinv_unlink [OF assms(1) t(2)] by simp
  then have "kinv {t} ?s" using mq by (intro kinv_upd_loose) auto
  from fifo.kinv_enter [OF this, of t ?h]
  have "kinv {} (?s\<lparr>WAITQ := (WAITQ ?s)(?h := WAITQ ?s ?h @ [t])\<rparr>)" using t by simp
  also have "?s\<lparr>WAITQ := (WAITQ ?s)(?h := WAITQ ?s ?h @ [t])\<rparr> =
      UNLINK_READY t (lwevent_enqueue_active e m a s)"
    by (simp add: upd_td_def UNLINK_READY_def lwevent_enqueue_active_def Let_def t_def)
  finally show "kinv {} (UNLINK_READY t (lwevent_enqueue_active e m a s))" .
qed (auto simp: t_def)

text \<open>A second unlinking, by the delay or by \<open>_task_block\<close>, changes nothing.\<close>

lemma remove1_remove1: "distinct xs \<Longrightarrow> remove1 t (remove1 t xs) = remove1 t xs"
  by (simp add: remove1_idem)

lemma delay_enqueue_unlink:
  "\<forall>p. distinct (READYQ s p) \<Longrightarrow> time_delay_enqueue t (UNLINK_READY t s) = time_delay_enqueue t s"
proof -
  assume d: "\<forall>p. distinct (READYQ s p)"
  have "wake_time (UNLINK_READY t s) = wake_time s" by (simp add: wake_time_def fun_eq_iff)
  then show ?thesis using d
    by (simp add: time_delay_enqueue_def UNLINK_READY_def Let_def remove1_remove1 upd_td_def)
qed

lemma task_block_waiting:
  "STATE (TDS s (ACTIVE_PTR s)) = LWEVENT_BLOCKED \<Longrightarrow>
   task_block s = sched_execute_scheduler_internal (UNLINK_READY (ACTIVE_PTR s) s)"
proof -
  assume "STATE (TDS s (ACTIVE_PTR s)) = LWEVENT_BLOCKED"
  then have "upd_td (ACTIVE_PTR s) (\<lambda>d. d\<lparr>STATE := STATE d OR IS_BLOCKED\<rparr>) s = s"
    by (cases "TDS s (ACTIVE_PTR s)") (simp add: upd_td_def fun_upd_idem)
  then show ?thesis by (simp add: task_block_def Let_def)
qed

lemma lwevent_block_ok:
  fixes e :: addr and m :: u32 and a :: bool
  assumes "kinv {} s" "active_ok s" "r \<in> tasks s" "STATE (TDS s r) = READY" "r \<noteq> ACTIVE_PTR s"
  defines "s1 \<equiv> lwevent_enqueue_active e m a s"
  assumes "s' = task_block s1 \<or> s' = time_delay_until x s1 \<or> s' = time_delay_for x s1"
  shows "op_ok {ACTIVE_PTR s} s s'" "active_ok s'" "top_ok s'"
proof -
  define t where "t = ACTIVE_PTR s"
  define s2 where "s2 = UNLINK_READY t s1"
  have en: "op_ok {t} s s2" using lwevent_enqueue_ok [OF assms(1,2)] by (simp add: s2_def s1_def t_def)
  have k2: "kinv {} s2" and tk: "t \<in> tasks s2" using en assms(2) by (simp_all add: op_ok_def active_ok_def t_def)
  have st: "STATE (TDS s2 t) = LWEVENT_BLOCKED" by (simp add: s2_def s1_def t_def)
  have "op_ok {t} s s' \<and> active_ok s' \<and> top_ok s'"
  proof (cases "s' = task_block s1")
    case True
    then have "s' = sched_execute_scheduler_internal s2"
      by (simp add: task_block_waiting s1_def s2_def t_def)
    then show ?thesis using op_exec [OF en assms(3) _ assms(4)] assms(5) by (simp add: t_def)
  next
    case False
    obtain y where y: "s' = time_delay_internal t (upd_td t (\<lambda>d. d\<lparr>TIMEOUT := y\<rparr>) s1)"
      using assms(7) False by (auto simp: time_delay_until_def time_delay_for_def Let_def s1_def t_def)
    let ?s3 = "upd_td t (\<lambda>d. d\<lparr>TIMEOUT := y\<rparr>) s2"
    have "\<forall>p. distinct (READYQ (upd_td t (\<lambda>d. d\<lparr>TIMEOUT := y\<rparr>) s1) p)"
      using kinv_queues [OF assms(1)] by (simp add: s1_def queues_ok_def)
    then have e: "s' = time_delay_internal t ?s3"
      using delay_enqueue_unlink [of "upd_td t (\<lambda>d. d\<lparr>TIMEOUT := y\<rparr>) s1" t]
      by (simp add: y time_delay_internal_def s2_def UNLINK_READY_upd_td)
    have k3: "kinv {} ?s3" using k2 st by (intro kinv_upd_placed) auto
    have "op_ok {t} s2 ?s3" using k3 by (rule op_okI) auto
    then have 3: "op_ok {t} s ?s3" using en op_ok_trans by blast
    have r: "r \<in> tasks ?s3" "STATE (TDS ?s3 r) = READY" "r \<noteq> t"
      using 3 assms(3-5) by (auto simp: op_ok_def t_def)
    have s3: "enters_timeout (STATE (TDS ?s3 t))" using st by simp
    have "op_ok {t} ?s3 s'" "active_ok s'" "top_ok s'"
      unfolding e using k3 tk s3 r by (intro delay_ok; simp)+
    then show ?thesis using op_ok_trans [OF 3] by blast
  qed
  then show "op_ok {ACTIVE_PTR s} s s'" "active_ok s'" "top_ok s'" by (simp_all add: t_def)
qed

lemma lwevent_wait_ok:
  fixes e :: addr and m :: u32 and a ab :: bool and tick :: "tick_struct option"
  assumes "kinv {} s" "active_ok s" "r \<in> tasks s" "STATE (TDS s r) = READY" "r \<noteq> ACTIVE_PTR s"
  defines "s' \<equiv> snd (lwevent_wait_internal e m a tick ab s)"
  shows "op_ok {ACTIVE_PTR s} s s'" "active_ok s'" "top_ok s \<Longrightarrow> top_ok s'"
proof -
  let ?t = "ACTIVE_PTR s" and ?v = "EV_VALUE (LWEVENTS s e) AND m"
  let ?s1 = "upd_td ?t (\<lambda>d. d\<lparr>LWEVENT_BITS := ?v\<rparr>) s"
  have 1: "op_ok {} s ?s1" using assms(1) by (rule op_ok_upd) auto
  have a1: "active_ok ?s1" "top_ok s \<Longrightarrow> top_ok ?s1" using assms(2) by (auto simp: active_ok_def top_ok_def)
  have "kinv {} ?s1" using 1 by (simp add: op_ok_def)
  note u = upd_event_ok [OF this]
  note b = lwevent_block_ok [OF assms(1-5), where e = e and m = m and a = a and s' = s']
  let ?s2 = "lwevent_enqueue_active e m a s"
  have "s' = s \<or> s' = upd_event e (\<lambda>E. E\<lparr>EV_VALUE := EV_VALUE E AND NOT (EV_AUTO E AND m)\<rparr>) ?s1
      \<or> s' = task_block ?s2 \<or> (\<exists>x. s' = time_delay_until x ?s2) \<or> (\<exists>x. s' = time_delay_for x ?s2)"
    unfolding s'_def lwevent_wait_internal_def Let_def by (cases tick) (simp_all, blast)
  then consider "s' = s" | "s' = upd_event e (\<lambda>E. E\<lparr>EV_VALUE := EV_VALUE E AND NOT (EV_AUTO E AND m)\<rparr>) ?s1"
    | "s' = task_block ?s2" | x where "s' = time_delay_until x ?s2" | x where "s' = time_delay_for x ?s2"
    by blast
  then have "op_ok {ACTIVE_PTR s} s s' \<and> active_ok s' \<and> (top_ok s \<longrightarrow> top_ok s')"
  proof cases
    case 2
    then show ?thesis using u a1 op_ok_weaken [OF op_ok_trans [OF 1 u(1)]] by simp
  next
    case (4 x)
    then show ?thesis using b [of x] by blast
  next
    case (5 x)
    then show ?thesis using b [of x] by blast
  qed (use b op_ok_refl [OF assms(1)] assms(2) in blast)+
  then show "op_ok {ACTIVE_PTR s} s s'" "active_ok s'" "top_ok s \<Longrightarrow> top_ok s'" by blast+
qed

end
