(* ===== verification/LwMsgQ.thy ===== *)
theory LwMsgQ
  imports LwEvent Queue
begin

text \<open>
  Lightweight message queues, \<^verbatim>\<open>src/mqx/source/kernel/lwmsgq.c\<close>: ring buffers of messages of
  a fixed size, with tasks that wait to write while the ring is full and to read while it is
  empty.

  A message queue is named by the address of its \<open>LWMSGQ_STRUCT\<close> (64 bytes, the ring behind
  it), with \<open>WAITING_WRITERS\<close> at offset 8 and \<open>WAITING_READERS\<close> at offset 20. The blocking loops
  are split where the processor goes to another task: a \<open>resume\<close> function is one more turn of
  the loop. \<open>_mqx_max_type\<close> is a 32-bit word, so a step of a message pointer is four bytes.
\<close>

definition LWMSGQ_VALID :: u32 where "LWMSGQ_VALID = 0x6C776D73"

abbreviation (input) LWMSGQ_SEND_BLOCK_ON_FULL :: u32 where "LWMSGQ_SEND_BLOCK_ON_FULL \<equiv> 1"
abbreviation (input) LWMSGQ_SEND_BLOCK_ON_SEND :: u32 where "LWMSGQ_SEND_BLOCK_ON_SEND \<equiv> 2"
abbreviation (input) LWMSGQ_RECEIVE_BLOCK_ON_EMPTY :: u32 where "LWMSGQ_RECEIVE_BLOCK_ON_EMPTY \<equiv> 4"
abbreviation (input) LWMSGQ_TIMEOUT_UNTIL :: u32 where "LWMSGQ_TIMEOUT_UNTIL \<equiv> 8"
abbreviation (input) LWMSGQ_TIMEOUT_FOR :: u32 where "LWMSGQ_TIMEOUT_FOR \<equiv> 0x10"

definition WAITING_WRITERS :: "addr \<Rightarrow> addr" where "WAITING_WRITERS q = q + 8"
definition WAITING_READERS :: "addr \<Rightarrow> addr" where "WAITING_READERS q = q + 20"

definition LWMSGQ_IS_EMPTY :: "lwmsgq \<Rightarrow> bool" where
  "LWMSGQ_IS_EMPTY Q \<longleftrightarrow> MQ_CURRENT_SIZE Q = 0"

definition LWMSGQ_IS_FULL :: "lwmsgq \<Rightarrow> bool" where
  "LWMSGQ_IS_FULL Q \<longleftrightarrow> MQ_CURRENT_SIZE Q \<ge> MQ_MAX_SIZE Q"

definition upd_msgq :: "addr \<Rightarrow> (lwmsgq \<Rightarrow> lwmsgq) \<Rightarrow> kernel \<Rightarrow> kernel" where
  "upd_msgq q f s = s\<lparr>LWMSGQS := (LWMSGQS s)(q := f (LWMSGQS s q))\<rparr>"

section \<open>Operations\<close>

definition lwmsgq_init_internal :: "addr \<Rightarrow> u32 \<Rightarrow> u32 \<Rightarrow> kernel \<Rightarrow> mqx_code \<times> kernel" where
  "lwmsgq_init_internal q num_messages msg_size s =
     (let s = s\<lparr>WAITQ := (WAITQ s)(WAITING_WRITERS q := [])\<rparr>;
          s = s\<lparr>WAITQ := (WAITQ s)(WAITING_READERS q := [])\<rparr>;
          s = upd_msgq q (\<lambda>Q. Q\<lparr>MQ_MSG_SIZE := msg_size, MQ_MAX_SIZE := num_messages,
                MQ_CURRENT_SIZE := 0\<rparr>) s;
          s = upd_msgq q (\<lambda>Q. Q\<lparr>MQ_START_LOC := q + 64\<rparr>) s;
          s = upd_msgq q (\<lambda>Q. Q\<lparr>MQ_END_LOC := MQ_START_LOC Q + 4 * (msg_size * num_messages)\<rparr>) s;
          s = upd_msgq q (\<lambda>Q. Q\<lparr>MQ_WRITE_LOC := MQ_START_LOC Q, MQ_READ_LOC := MQ_START_LOC Q\<rparr>) s;
          s = upd_msgq q (\<lambda>Q. Q\<lparr>MQ_VALID := LWMSGQ_VALID\<rparr>) s
      in if q \<in> set (LWMSGQ_LIST s) then (MQX_EINVAL, s)
         else (MQX_OK, s\<lparr>LWMSGQ_LIST := LWMSGQ_LIST s @ [q]\<rparr>))"

definition lwmsgq_init :: "addr \<Rightarrow> u32 \<Rightarrow> u32 \<Rightarrow> kernel \<Rightarrow> mqx_code \<times> kernel" where
  "lwmsgq_init q num_messages msg_size = lwmsgq_init_internal q num_messages msg_size"

text \<open>The copying loops.\<close>

primrec copy_words :: "nat \<Rightarrow> addr \<Rightarrow> addr \<Rightarrow> (addr \<Rightarrow> u32) \<Rightarrow> addr \<Rightarrow> u32" where
  "copy_words 0 from_ptr to_ptr m = m"
| "copy_words (Suc n) from_ptr to_ptr m =
     copy_words n (from_ptr + 4) (to_ptr + 4) (m(to_ptr := m from_ptr))"

definition lwmsgq_read :: "addr \<Rightarrow> addr \<Rightarrow> kernel \<Rightarrow> kernel" where
  "lwmsgq_read q message s =
     (let Q = LWMSGQS s q;
          s = s\<lparr>MEM := copy_words (unat (MQ_MSG_SIZE Q)) (MQ_READ_LOC Q) message (MEM s)\<rparr>;
          s = upd_msgq q (\<lambda>Q. Q\<lparr>MQ_READ_LOC := MQ_READ_LOC Q + 4 * MQ_MSG_SIZE Q\<rparr>) s;
          s = upd_msgq q (\<lambda>Q. if MQ_READ_LOC Q \<ge> MQ_END_LOC Q
                then Q\<lparr>MQ_READ_LOC := MQ_START_LOC Q\<rparr> else Q) s
      in upd_msgq q (\<lambda>Q. Q\<lparr>MQ_CURRENT_SIZE := MQ_CURRENT_SIZE Q - 1\<rparr>) s)"

definition lwmsgq_write :: "addr \<Rightarrow> addr \<Rightarrow> kernel \<Rightarrow> kernel" where
  "lwmsgq_write q message s =
     (let Q = LWMSGQS s q;
          s = s\<lparr>MEM := copy_words (unat (MQ_MSG_SIZE Q)) message (MQ_WRITE_LOC Q) (MEM s)\<rparr>;
          s = upd_msgq q (\<lambda>Q. Q\<lparr>MQ_WRITE_LOC := MQ_WRITE_LOC Q + 4 * MQ_MSG_SIZE Q\<rparr>) s;
          s = upd_msgq q (\<lambda>Q. if MQ_WRITE_LOC Q \<ge> MQ_END_LOC Q
                then Q\<lparr>MQ_WRITE_LOC := MQ_START_LOC Q\<rparr> else Q) s
      in upd_msgq q (\<lambda>Q. Q\<lparr>MQ_CURRENT_SIZE := MQ_CURRENT_SIZE Q + 1\<rparr>) s)"

text \<open>The end of a receive, once there is a message.\<close>

definition lwmsgq_receive_now :: "addr \<Rightarrow> addr \<Rightarrow> kernel \<Rightarrow> kernel" where
  "lwmsgq_receive_now q message s =
     (let s = lwmsgq_read q message s
      in case WAITQ s (WAITING_WRITERS q) of
           t # ts \<Rightarrow>
             (let s = s\<lparr>WAITQ := (WAITQ s)(WAITING_WRITERS q := ts)\<rparr>;
                  s = upd_td t (\<lambda>d. d\<lparr>INFO := 0\<rparr>) s;
                  s = TASK_READY t s
              in sched_check_scheduler_internal s)
         | [] \<Rightarrow> s)"

text \<open>The active task moves from its ready queue to the queue of waiting tasks at \<open>h\<close>.\<close>

definition lwmsgq_enqueue_active :: "addr \<Rightarrow> u32 \<Rightarrow> kernel \<Rightarrow> kernel" where
  "lwmsgq_enqueue_active h st s =
     (let t = ACTIVE_PTR s;
          s = upd_td t (\<lambda>d. d\<lparr>STATE := st\<rparr>) s;
          s = upd_td t (\<lambda>d. d\<lparr>INFO := h\<rparr>) s;
          s = UNLINK_READY t s
      in s\<lparr>WAITQ := (WAITQ s)(h := WAITQ s h @ [t])\<rparr>)"

definition lwmsgq_timed :: "u32 \<Rightarrow> u32 \<Rightarrow> bool" where
  "lwmsgq_timed flags ticks \<longleftrightarrow>
     ticks \<noteq> 0 \<or> flags AND (LWMSGQ_TIMEOUT_UNTIL OR LWMSGQ_TIMEOUT_FOR) \<noteq> 0"

definition lwmsgq_read_block :: "addr \<Rightarrow> u32 \<Rightarrow> u32 \<Rightarrow> tick_struct \<Rightarrow> kernel \<Rightarrow> kernel" where
  "lwmsgq_read_block q flags ticks tick s =
     (let t = ACTIVE_PTR s;
          s = lwmsgq_enqueue_active (WAITING_READERS q) LWMSGQ_READ_BLOCKED s
      in if lwmsgq_timed flags ticks then
           (let s = (if ticks \<noteq> 0 then set_timeout_ticks t ticks s
                     else if flags AND LWMSGQ_TIMEOUT_UNTIL \<noteq> 0
                     then upd_td t (\<lambda>d. d\<lparr>TIMEOUT := tick\<rparr>) s
                     else upd_td t (\<lambda>d. d\<lparr>TIMEOUT := psp_add_ticks (HW_TICKS_PER_TICK s) tick (TIME s)\<rparr>) s)
            in time_delay_internal t s)
         else sched_execute_scheduler_internal s)"

definition lwmsgq_receive ::
  "addr \<Rightarrow> addr \<Rightarrow> u32 \<Rightarrow> u32 \<Rightarrow> tick_struct \<Rightarrow> kernel \<Rightarrow> mqx_code option \<times> kernel" where
  "lwmsgq_receive q message flags ticks tick s =
     (if IN_ISR s \<noteq> 0 then (Some MQX_CANNOT_CALL_FUNCTION_FROM_ISR, s)
      else if MQ_VALID (LWMSGQS s q) \<noteq> LWMSGQ_VALID then (Some LWMSGQ_INVALID, s)
      else if LWMSGQ_IS_EMPTY (LWMSGQS s q) then
        (if flags AND LWMSGQ_RECEIVE_BLOCK_ON_EMPTY \<noteq> 0
         then (None, lwmsgq_read_block q flags ticks tick s)
         else (Some LWMSGQ_EMPTY, s))
      else (Some MQX_OK, lwmsgq_receive_now q message s))"

definition lwmsgq_receive_resume ::
  "addr \<Rightarrow> addr \<Rightarrow> u32 \<Rightarrow> u32 \<Rightarrow> tick_struct \<Rightarrow> kernel \<Rightarrow> mqx_code option \<times> kernel" where
  "lwmsgq_receive_resume q message flags ticks tick s =
     (if lwmsgq_timed flags ticks \<and> INFO (TDS s (ACTIVE_PTR s)) \<noteq> 0 then (Some LWMSGQ_TIMEOUT, s)
      else if LWMSGQ_IS_EMPTY (LWMSGQS s q) then (None, lwmsgq_read_block q flags ticks tick s)
      else (Some MQX_OK, lwmsgq_receive_now q message s))"

text \<open>
  The end of a send, once there is room. The result of a sender that blocks itself is the one
  it returns when it runs again.
\<close>

definition lwmsgq_send_now :: "addr \<Rightarrow> addr \<Rightarrow> u32 \<Rightarrow> kernel \<Rightarrow> kernel" where
  "lwmsgq_send_now q message flags s =
     (let s = lwmsgq_write q message s
      in case WAITQ s (WAITING_READERS q) of
           t # ts \<Rightarrow>
             (let s = s\<lparr>WAITQ := (WAITQ s)(WAITING_READERS q := ts)\<rparr>;
                  s = TIME_DEQUEUE t s;
                  s = upd_td t (\<lambda>d. d\<lparr>INFO := 0\<rparr>) s;
                  s = TASK_READY t s
              in if flags AND LWMSGQ_SEND_BLOCK_ON_SEND \<noteq> 0 then task_block s
                 else sched_check_scheduler_internal s)
         | [] \<Rightarrow> if flags AND LWMSGQ_SEND_BLOCK_ON_SEND \<noteq> 0 then task_block s else s)"

definition lwmsgq_write_block :: "addr \<Rightarrow> kernel \<Rightarrow> kernel" where
  "lwmsgq_write_block q s =
     sched_execute_scheduler_internal (lwmsgq_enqueue_active (WAITING_WRITERS q) LWMSGQ_WRITE_BLOCKED s)"

definition lwmsgq_send :: "addr \<Rightarrow> addr \<Rightarrow> u32 \<Rightarrow> kernel \<Rightarrow> mqx_code option \<times> kernel" where
  "lwmsgq_send q message flags s =
     (if IN_ISR s \<noteq> 0
         \<and> flags AND (LWMSGQ_SEND_BLOCK_ON_FULL OR LWMSGQ_SEND_BLOCK_ON_SEND) \<noteq> 0
      then (Some MQX_CANNOT_CALL_FUNCTION_FROM_ISR, s)
      else if MQ_VALID (LWMSGQS s q) \<noteq> LWMSGQ_VALID then (Some LWMSGQ_INVALID, s)
      else if LWMSGQ_IS_FULL (LWMSGQS s q) then
        (if flags AND LWMSGQ_SEND_BLOCK_ON_FULL \<noteq> 0 then (None, lwmsgq_write_block q s)
         else (Some LWMSGQ_FULL, s))
      else (Some MQX_OK, lwmsgq_send_now q message flags s))"

definition lwmsgq_send_resume :: "addr \<Rightarrow> addr \<Rightarrow> u32 \<Rightarrow> kernel \<Rightarrow> mqx_code option \<times> kernel" where
  "lwmsgq_send_resume q message flags s =
     (if LWMSGQ_IS_FULL (LWMSGQS s q) then (None, lwmsgq_write_block q s)
      else (Some MQX_OK, lwmsgq_send_now q message flags s))"

lemmas lwmsgq_defs [kernel_defs] = upd_msgq_def lwmsgq_init_def lwmsgq_init_internal_def lwmsgq_receive_def
  lwmsgq_read_block_def lwmsgq_enqueue_active_def lwmsgq_timed_def LWMSGQ_IS_EMPTY_def

section \<open>Copying\<close>

text \<open>The words of a message that starts at \<open>a\<close>.\<close>

definition words_at :: "addr \<Rightarrow> nat \<Rightarrow> addr set" where
  "words_at a n = (\<lambda>j. a + of_nat (4 * j)) ` {..<n}"

definition load_words :: "(addr \<Rightarrow> u32) \<Rightarrow> addr \<Rightarrow> nat \<Rightarrow> u32 list" where
  "load_words m a n = map (\<lambda>j. m (a + of_nat (4 * j))) [0..<n]"

lemma words_at_Suc: "words_at a (Suc n) = insert a (words_at (a + 4) n)"
  by (auto simp: words_at_def image_iff lessThan_Suc_eq_insert_0)

lemma copy_words_out: "a \<notin> words_at t n \<Longrightarrow> copy_words n f t m a = m a"
  by (induction n arbitrary: f t m) (auto simp: words_at_Suc)

lemma load_words_Suc: "load_words m a (Suc n) = m a # load_words m (a + 4) n"
  by (simp add: load_words_def upt_conv_Cons map_Suc_upt [symmetric] ac_simps del: upt_Suc)

lemma load_words_cong: "(\<And>x. x \<in> words_at a n \<Longrightarrow> m x = m' x) \<Longrightarrow> load_words m a n = load_words m' a n"
  by (auto simp: load_words_def words_at_def)

lemma words_at_start: "4 * Suc n < 2 ^ 32 \<Longrightarrow> a \<notin> words_at (a + 4) n"
proof
  assume n: "4 * Suc n < 2 ^ 32" and "a \<in> words_at (a + 4) n"
  then obtain j where j: "j < n" "a = (a + 4) + of_nat (4 * j)" by (auto simp: words_at_def)
  then have "(of_nat (4 * Suc j) :: addr) = 0" by (simp add: algebra_simps)
  then have "(4 * Suc j) mod 2 ^ 32 = 0" 
    using unat_of_nat [where 'a = 32, of "4 * Suc j"] by simp
  then show False using n j by simp
qed

lemma copy_words_in:
  "4 * n < 2 ^ 32 \<Longrightarrow> words_at f n \<inter> words_at t n = {} \<Longrightarrow>
   load_words (copy_words n f t m) t n = load_words m f n"
proof (induction n arbitrary: f t m)
  case (Suc n)
  have o: "copy_words n (f + 4) (t + 4) (m(t := m f)) t = m f"
    using words_at_start [OF Suc.prems(1)] by (simp add: copy_words_out)
  have "load_words (copy_words n (f + 4) (t + 4) (m(t := m f))) (t + 4) n = load_words (m(t := m f)) (f + 4) n"
    using Suc.prems by (intro Suc.IH) (auto simp: words_at_Suc)
  also have "\<dots> = load_words m (f + 4) n"
    using Suc.prems(2) by (intro load_words_cong) (auto simp: words_at_Suc)
  finally show ?case by (simp add: load_words_Suc o)
qed (simp add: load_words_def)

section \<open>The ring\<close>

text \<open>The address of slot \<open>k\<close>, and the number of the slot that is read next.\<close>

definition ring_slot :: "lwmsgq \<Rightarrow> nat \<Rightarrow> addr" where
  "ring_slot Q k = MQ_START_LOC Q + of_nat (4 * (unat (MQ_MSG_SIZE Q) * k))"

definition read_index :: "lwmsgq \<Rightarrow> nat" where
  "read_index Q = unat (MQ_READ_LOC Q - MQ_START_LOC Q) div (4 * unat (MQ_MSG_SIZE Q))"

definition ring_bounds :: "lwmsgq \<Rightarrow> bool" where
  "ring_bounds Q \<longleftrightarrow> 0 < unat (MQ_MSG_SIZE Q) \<and> 0 < unat (MQ_MAX_SIZE Q)
     \<and> unat (MQ_START_LOC Q) + 4 * (unat (MQ_MSG_SIZE Q) * unat (MQ_MAX_SIZE Q)) < 2 ^ 32
     \<and> MQ_END_LOC Q = ring_slot Q (unat (MQ_MAX_SIZE Q))"

definition msgq_ring :: "lwmsgq \<Rightarrow> bool" where
  "msgq_ring Q \<longleftrightarrow> ring_bounds Q \<and> MQ_CURRENT_SIZE Q \<le> MQ_MAX_SIZE Q
     \<and> read_index Q < unat (MQ_MAX_SIZE Q) \<and> MQ_READ_LOC Q = ring_slot Q (read_index Q)
     \<and> MQ_WRITE_LOC Q =
         ring_slot Q ((read_index Q + unat (MQ_CURRENT_SIZE Q)) mod unat (MQ_MAX_SIZE Q))"

definition ring_messages :: "lwmsgq \<Rightarrow> (addr \<Rightarrow> u32) \<Rightarrow> u32 list list" where
  "ring_messages Q m =
     map (\<lambda>i. load_words m (ring_slot Q ((read_index Q + i) mod unat (MQ_MAX_SIZE Q)))
                (unat (MQ_MSG_SIZE Q))) [0 ..< unat (MQ_CURRENT_SIZE Q)]"

definition ring_region :: "lwmsgq \<Rightarrow> addr set" where
  "ring_region Q = words_at (MQ_START_LOC Q) (unat (MQ_MSG_SIZE Q) * unat (MQ_MAX_SIZE Q))"

lemma ring_limit:
  "ring_bounds Q \<Longrightarrow>
   unat (MQ_START_LOC Q) + 4 * (unat (MQ_MSG_SIZE Q) * unat (MQ_MAX_SIZE Q)) < 4294967296"
  by (simp add: ring_bounds_def)

lemma ring_word_unat:
  assumes "ring_bounds Q" "i \<le> unat (MQ_MSG_SIZE Q) * unat (MQ_MAX_SIZE Q)"
  shows "unat (MQ_START_LOC Q + of_nat (4 * i)) = unat (MQ_START_LOC Q) + 4 * i"
proof -
  have "unat (MQ_START_LOC Q) + 4 * i < 4294967296" using ring_limit [OF assms(1)] assms(2) by linarith
  moreover from this have "unat (of_nat (4 * i) :: addr) = 4 * i"
    by (subst unat_of_nat) (simp del: of_nat_mult)
  ultimately show ?thesis using unat_add_noof32 [of "MQ_START_LOC Q" "of_nat (4 * i)"] by linarith
qed

lemma slot_word:
  "ring_slot Q k + of_nat (4 * j) = MQ_START_LOC Q + of_nat (4 * (unat (MQ_MSG_SIZE Q) * k + j))"
  by (simp add: ring_slot_def algebra_simps)

lemma slot_index_less:
  assumes "k < (M :: nat)" "j < S"
  shows "S * k + j < S * M"
proof -
  have "S * k + j < S * Suc k" using assms(2) by simp
  also have "S * Suc k \<le> S * M" using assms(1) by (intro mult_le_mono2) simp
  finally show ?thesis .
qed

lemma slot_in_region:
  assumes "ring_bounds Q" "k < unat (MQ_MAX_SIZE Q)"
  shows "words_at (ring_slot Q k) (unat (MQ_MSG_SIZE Q)) \<subseteq> ring_region Q"
proof
  let ?S = "unat (MQ_MSG_SIZE Q)"
  fix a assume "a \<in> words_at (ring_slot Q k) ?S"
  then obtain j where "j < ?S" "a = ring_slot Q k + of_nat (4 * j)" unfolding words_at_def by blast
  then show "a \<in> ring_region Q" using slot_index_less [OF assms(2), of j ?S]
    unfolding ring_region_def words_at_def slot_word by blast
qed

lemma slots_disjoint:
  assumes "ring_bounds Q" "k < unat (MQ_MAX_SIZE Q)" "k' < unat (MQ_MAX_SIZE Q)" "k \<noteq> k'"
  shows "words_at (ring_slot Q k) (unat (MQ_MSG_SIZE Q)) \<inter> words_at (ring_slot Q k') (unat (MQ_MSG_SIZE Q)) = {}"
proof -
  let ?S = "unat (MQ_MSG_SIZE Q)"
  have "k = k'" if j: "j < ?S" "j' < ?S" and e: "ring_slot Q k + of_nat (4 * j) = ring_slot Q k' + of_nat (4 * j')" for j j'
  proof -
    have "?S * k + j < ?S * unat (MQ_MAX_SIZE Q)" "?S * k' + j' < ?S * unat (MQ_MAX_SIZE Q)"
      using slot_index_less assms j by blast+
    note u = this [THEN less_imp_le, THEN ring_word_unat [OF assms(1)]]
    have "?S * k + j = ?S * k' + j'"
      using arg_cong [OF e, of unat] unfolding slot_word u by (metis add_left_cancel mult_left_cancel zero_neq_numeral)
    then have "(?S * k + j) div ?S = (?S * k' + j') div ?S" by simp
    then show ?thesis using j by simp
  qed
  then show ?thesis using assms(4) by (auto simp: words_at_def simp del: of_nat_mult)
qed

lemma read_index_slot:
  assumes "ring_bounds Q" "k < unat (MQ_MAX_SIZE Q)"
  shows "unat (ring_slot Q k - MQ_START_LOC Q) div (4 * unat (MQ_MSG_SIZE Q)) = k"
proof -
  let ?S = "unat (MQ_MSG_SIZE Q)"
  have "?S * k \<le> ?S * unat (MQ_MAX_SIZE Q)" using assms(2) by (intro mult_le_mono2) simp
  then have "4 * (?S * k) \<le> unat (MQ_START_LOC Q) + 4 * (?S * unat (MQ_MAX_SIZE Q))"
    by (rule trans_le_add2 [OF mult_le_mono2])
  then have "4 * (?S * k) < 4294967296" using ring_limit [OF assms(1)] by (rule le_less_trans)
  then have "unat (of_nat (4 * (?S * k)) :: addr) = 4 * (?S * k)"
    by (subst unat_of_nat) (simp del: of_nat_mult)
  then show ?thesis using assms(1) by (simp add: ring_slot_def ring_bounds_def del: of_nat_mult)
qed

text \<open>Both pointers advance to the next slot, from the last one back to the first.\<close>

lemma slot_advance:
  assumes "ring_bounds Q" "k < unat (MQ_MAX_SIZE Q)"
  shows "(if ring_slot Q k + 4 * MQ_MSG_SIZE Q \<ge> MQ_END_LOC Q then MQ_START_LOC Q
          else ring_slot Q k + 4 * MQ_MSG_SIZE Q) = ring_slot Q (Suc k mod unat (MQ_MAX_SIZE Q))"
proof -
  let ?S = "unat (MQ_MSG_SIZE Q)" and ?M = "unat (MQ_MAX_SIZE Q)"
  have n: "ring_slot Q k + 4 * MQ_MSG_SIZE Q = ring_slot Q (Suc k)"
    by (simp add: ring_slot_def algebra_simps)
  have le: "?S * Suc k \<le> ?S * ?M" using assms(2) by (intro mult_le_mono2) simp
  have "MQ_END_LOC Q \<le> ring_slot Q (Suc k) \<longleftrightarrow> 4 * (?S * ?M) \<le> 4 * (?S * Suc k)"
    using assms(1) ring_word_unat [OF assms(1) le] ring_word_unat [OF assms(1) le_refl]
    by (simp add: ring_bounds_def word_le_nat_alt ring_slot_def del: of_nat_mult mult_Suc_right)
  also have "\<dots> \<longleftrightarrow> ?M \<le> Suc k" using assms(1) by (simp add: ring_bounds_def del: mult_Suc_right)
  finally show ?thesis unfolding n using assms(2)
    by (cases "Suc k = ?M") (auto simp: ring_slot_def [of Q 0])
qed

lemma mod_add_neq: "i < c \<Longrightarrow> c < (M :: nat) \<Longrightarrow> (r + i) mod M \<noteq> (r + c) mod M"
proof
  assume a: "i < c" "c < M" "(r + i) mod M = (r + c) mod M"
  then have "M dvd (r + c) - (r + i)" by (metis add_le_cancel_left less_imp_le mod_eq_dvd_iff_nat)
  then show False using a by (auto dest: dvd_imp_le)
qed

section \<open>Writing to and reading from the ring\<close>

lemma upd_msgq_simps [simp]:
  "TDS (upd_msgq m f s) = TDS s" "READYQ (upd_msgq m f s) = READYQ s"
  "TIMEOUT_QUEUE (upd_msgq m f s) = TIMEOUT_QUEUE s" "WAITQ (upd_msgq m f s) = WAITQ s"
  "CURRENT_READY_Q (upd_msgq m f s) = CURRENT_READY_Q s" "TIME (upd_msgq m f s) = TIME s"
  "LOWEST_TASK_PRIORITY (upd_msgq m f s) = LOWEST_TASK_PRIORITY s"
  "ACTIVE_PTR (upd_msgq m f s) = ACTIVE_PTR s" "IN_ISR (upd_msgq m f s) = IN_ISR s"
  "LWMSGQS (upd_msgq m f s) = (LWMSGQS s)(m := f (LWMSGQS s m))"
  "LWMSGQ_LIST (upd_msgq m f s) = LWMSGQ_LIST s"
  "TASK_QUEUES (upd_msgq m f s) = TASK_QUEUES s" "LWSEMS (upd_msgq m f s) = LWSEMS s"
  "LWEVENTS (upd_msgq m f s) = LWEVENTS s"
  "MUTEXES (upd_msgq m f s) = MUTEXES s"
  "MEM (upd_msgq m f s) = MEM s" "LWSEM_LIST (upd_msgq m f s) = LWSEM_LIST s"
  "TD_LIST (upd_msgq m f s) = TD_LIST s" "SYSTEM_TD (upd_msgq m f s) = SYSTEM_TD s"
  "tasks (upd_msgq m f s) = tasks s"
  by (simp_all add: upd_msgq_def tasks_def)

lemma lwmsgq_write_queue:
  assumes "msgq_ring (LWMSGQS s q)"
  defines "Q \<equiv> LWMSGQS s q"
  shows "LWMSGQS (lwmsgq_write q b s) q = Q\<lparr>MQ_WRITE_LOC := ring_slot Q
      (Suc ((read_index Q + unat (MQ_CURRENT_SIZE Q)) mod unat (MQ_MAX_SIZE Q)) mod unat (MQ_MAX_SIZE Q)),
    MQ_CURRENT_SIZE := MQ_CURRENT_SIZE Q + 1\<rparr>"
proof -
  let ?k = "(read_index Q + unat (MQ_CURRENT_SIZE Q)) mod unat (MQ_MAX_SIZE Q)"
  have b: "ring_bounds Q" "?k < unat (MQ_MAX_SIZE Q)" "MQ_WRITE_LOC Q = ring_slot Q ?k"
    using assms(1) by (auto simp: msgq_ring_def ring_bounds_def Q_def)
  from slot_advance [OF b(1,2)] b(3) show ?thesis
    by (cases "MQ_END_LOC Q \<le> ring_slot Q ?k + 4 * MQ_MSG_SIZE Q")
      (simp_all add: lwmsgq_write_def Let_def Q_def)
qed

lemma lwmsgq_read_queue:
  assumes "msgq_ring (LWMSGQS s q)"
  defines "Q \<equiv> LWMSGQS s q"
  shows "LWMSGQS (lwmsgq_read q b s) q = Q\<lparr>MQ_READ_LOC := ring_slot Q
      (Suc (read_index Q) mod unat (MQ_MAX_SIZE Q)), MQ_CURRENT_SIZE := MQ_CURRENT_SIZE Q - 1\<rparr>"
proof -
  have b: "ring_bounds Q" "read_index Q < unat (MQ_MAX_SIZE Q)" "MQ_READ_LOC Q = ring_slot Q (read_index Q)"
    using assms(1) by (auto simp: msgq_ring_def Q_def)
  from slot_advance [OF b(1,2)] b(3) show ?thesis
    by (cases "MQ_END_LOC Q \<le> ring_slot Q (read_index Q) + 4 * MQ_MSG_SIZE Q")
      (simp_all add: lwmsgq_read_def Let_def Q_def)
qed

lemma lwmsgq_write_mem:
  "MEM (lwmsgq_write q b s) =
     copy_words (unat (MQ_MSG_SIZE (LWMSGQS s q))) b (MQ_WRITE_LOC (LWMSGQS s q)) (MEM s)"
  "MEM (lwmsgq_read q b s) =
     copy_words (unat (MQ_MSG_SIZE (LWMSGQS s q))) (MQ_READ_LOC (LWMSGQS s q)) b (MEM s)"
  by (simp_all add: lwmsgq_write_def lwmsgq_read_def Let_def)

text \<open>The buffer of a task does not overlap the ring.\<close>

definition buffer_ok :: "lwmsgq \<Rightarrow> addr \<Rightarrow> bool" where
  "buffer_ok Q b \<longleftrightarrow> words_at b (unat (MQ_MSG_SIZE Q)) \<inter> ring_region Q = {}"

lemma ring_message_size: "ring_bounds Q \<Longrightarrow> 4 * unat (MQ_MSG_SIZE Q) < 2 ^ 32"
proof -
  assume b: "ring_bounds Q"
  then have "unat (MQ_MSG_SIZE Q) \<le> unat (MQ_MSG_SIZE Q) * unat (MQ_MAX_SIZE Q)"
    by (simp add: ring_bounds_def)
  then have "4 * unat (MQ_MSG_SIZE Q) \<le> unat (MQ_START_LOC Q) + 4 * (unat (MQ_MSG_SIZE Q) * unat (MQ_MAX_SIZE Q))"
    by (rule trans_le_add2 [OF mult_le_mono2])
  then show ?thesis using ring_limit [OF b] by simp
qed

theorem lwmsgq_write_appends:
  assumes "msgq_ring (LWMSGQS s q)" "\<not> LWMSGQ_IS_FULL (LWMSGQS s q)" "buffer_ok (LWMSGQS s q) b"
  defines "Q \<equiv> LWMSGQS s q" and "s' \<equiv> lwmsgq_write q b s"
  shows "msgq_ring (LWMSGQS s' q)" (is ?ring)
    and "ring_messages (LWMSGQS s' q) (MEM s') =
           ring_messages Q (MEM s) @ [load_words (MEM s) b (unat (MQ_MSG_SIZE Q))]" (is ?msgs)
proof -
  let ?M = "unat (MQ_MAX_SIZE Q)" and ?S = "unat (MQ_MSG_SIZE Q)" and ?r = "read_index Q"
    and ?c = "unat (MQ_CURRENT_SIZE Q)" and ?m = "MEM s'"
  let ?Q = "LWMSGQS s' q"
  have b: "ring_bounds Q" "?r < ?M" "MQ_WRITE_LOC Q = ring_slot Q ((?r + ?c) mod ?M)"
    "MQ_READ_LOC Q = ring_slot Q ?r" "0 < ?M"
    using assms(1) by (auto simp: msgq_ring_def Q_def ring_bounds_def)
  have c: "?c < ?M" using assms(2) by (simp add: LWMSGQ_IS_FULL_def Q_def word_le_nat_alt)
  have uc: "unat (MQ_CURRENT_SIZE Q + 1) = Suc ?c"
    using less_trans_Suc [OF c unat_lt32 [of "MQ_MAX_SIZE Q"]] by (subst unat_add_noof32) auto
  have q: "?Q = Q\<lparr>MQ_WRITE_LOC := ring_slot Q (Suc (?r + ?c) mod ?M), MQ_CURRENT_SIZE := MQ_CURRENT_SIZE Q + 1\<rparr>"
    using lwmsgq_write_queue [OF assms(1), of b] by (simp add: Q_def s'_def mod_Suc_eq)
  have same: "ring_slot ?Q = ring_slot Q" "read_index ?Q = ?r" by (simp_all add: q ring_slot_def read_index_def fun_eq_iff)
  show ?ring using assms(1) b c uc same
    by (simp add: msgq_ring_def q ring_bounds_def word_le_nat_alt Q_def [symmetric])
  have m: "?m = copy_words ?S b (ring_slot Q ((?r + ?c) mod ?M)) (MEM s)"
    using b(3) by (simp add: s'_def lwmsgq_write_mem Q_def)
  have w: "words_at (ring_slot Q ((?r + ?c) mod ?M)) ?S \<subseteq> ring_region Q"
    using slot_in_region [OF b(1)] b(5) by simp
  have new: "load_words ?m (ring_slot Q ((?r + ?c) mod ?M)) ?S = load_words (MEM s) b ?S"
    unfolding m using w assms(3) ring_message_size [OF b(1)]
    by (intro copy_words_in) (auto simp: buffer_ok_def Q_def)
  have old: "load_words ?m (ring_slot Q ((?r + i) mod ?M)) ?S = load_words (MEM s) (ring_slot Q ((?r + i) mod ?M)) ?S"
    if "i < ?c" for i
  proof (rule load_words_cong)
    fix x assume "x \<in> words_at (ring_slot Q ((?r + i) mod ?M)) ?S"
    then have "x \<notin> words_at (ring_slot Q ((?r + ?c) mod ?M)) ?S"
      using slots_disjoint [OF b(1) _ _ mod_add_neq [OF that c]] b(5) by auto
    then show "?m x = MEM s x" unfolding m by (rule copy_words_out)
  qed
  have "ring_messages ?Q ?m = map (\<lambda>i. load_words ?m (ring_slot Q ((?r + i) mod ?M)) ?S) [0 ..< Suc ?c]"
    by (simp only: ring_messages_def same) (simp add: q uc)
  then show ?msgs using new old by (simp add: ring_messages_def)
qed

theorem lwmsgq_read_removes:
  assumes "msgq_ring (LWMSGQS s q)" "ring_messages (LWMSGQS s q) (MEM s) = x # xs"
    and "buffer_ok (LWMSGQS s q) b"
  defines "Q \<equiv> LWMSGQS s q" and "s' \<equiv> lwmsgq_read q b s"
  shows "msgq_ring (LWMSGQS s' q)" (is ?ring)
    and "ring_messages (LWMSGQS s' q) (MEM s') = xs" (is ?msgs)
    and "load_words (MEM s') b (unat (MQ_MSG_SIZE Q)) = x" (is ?got)
proof -
  let ?M = "unat (MQ_MAX_SIZE Q)" and ?S = "unat (MQ_MSG_SIZE Q)" and ?r = "read_index Q"
    and ?c = "unat (MQ_CURRENT_SIZE Q)" and ?m = "MEM s'"
  let ?Q = "LWMSGQS s' q" and ?r' = "Suc (read_index Q) mod unat (MQ_MAX_SIZE Q)"
  have b: "ring_bounds Q" "?r < ?M" "MQ_WRITE_LOC Q = ring_slot Q ((?r + ?c) mod ?M)"
    "MQ_READ_LOC Q = ring_slot Q ?r" "0 < ?M" "?c \<le> ?M"
    using assms(1) by (auto simp: msgq_ring_def Q_def ring_bounds_def word_le_nat_alt)
  have c: "0 < ?c" using assms(2) by (cases "unat (MQ_CURRENT_SIZE (LWMSGQS s q))") (auto simp: ring_messages_def Q_def)
  then have "(1 :: u32) \<le> MQ_CURRENT_SIZE Q" by (simp add: word_le_nat_alt)
  then have uc: "unat (MQ_CURRENT_SIZE Q - 1) = ?c - 1" by (subst unat_sub_noof) (auto simp: word_le_nat_alt)
  have q: "?Q = Q\<lparr>MQ_READ_LOC := ring_slot Q ?r', MQ_CURRENT_SIZE := MQ_CURRENT_SIZE Q - 1\<rparr>"
    using lwmsgq_read_queue [OF assms(1), of b] by (simp add: Q_def s'_def)
  have same: "ring_slot ?Q = ring_slot Q" "MQ_MAX_SIZE ?Q = MQ_MAX_SIZE Q" "MQ_MSG_SIZE ?Q = MQ_MSG_SIZE Q"
    by (simp_all add: q ring_slot_def fun_eq_iff)
  have r': "read_index ?Q = ?r'"
    using read_index_slot [OF b(1), of ?r'] b(5) by (simp add: q read_index_def)
  have rot: "(?r' + i) mod ?M = (?r + Suc i) mod ?M" for i by (simp add: mod_simps)
  show ?ring using b c uc same r' rot [of "?c - 1"]
    by (simp add: msgq_ring_def q ring_bounds_def word_le_nat_alt)
  have m: "?m = copy_words ?S (ring_slot Q ?r) b (MEM s)"
    using b(4) by (simp add: s'_def lwmsgq_write_mem Q_def)
  have w: "words_at (ring_slot Q k) ?S \<inter> words_at b ?S = {}" if "k < ?M" for k
    using slot_in_region [OF b(1) that] assms(3) by (auto simp: buffer_ok_def Q_def)
  have ml: "ring_messages Q (MEM s) = load_words (MEM s) (ring_slot Q ?r) ?S #
      map (\<lambda>i. load_words (MEM s) (ring_slot Q ((?r + Suc i) mod ?M)) ?S) [0 ..< ?c - 1]"
    using c b(2) by (cases ?c) (simp_all add: ring_messages_def upt_conv_Cons map_Suc_upt [symmetric] del: upt_Suc)
  show ?got using copy_words_in [OF ring_message_size [OF b(1)] w [OF b(2)]] ml assms(2) by (simp add: m Q_def)
  have "load_words ?m (ring_slot Q ((?r + Suc i) mod ?M)) ?S = load_words (MEM s) (ring_slot Q ((?r + Suc i) mod ?M)) ?S" for i
  proof (rule load_words_cong)
    fix x assume "x \<in> words_at (ring_slot Q ((?r + Suc i) mod ?M)) ?S"
    then have "x \<notin> words_at b ?S" using w [of "(?r + Suc i) mod ?M"] b(5) by auto
    then show "?m x = MEM s x" unfolding m by (rule copy_words_out)
  qed
  moreover have "xs = map (\<lambda>i. load_words (MEM s) (ring_slot Q ((?r + Suc i) mod ?M)) ?S) [0 ..< ?c - 1]"
    using ml assms(2) unfolding Q_def by simp
  moreover have "ring_messages ?Q ?m = map (\<lambda>i. load_words ?m (ring_slot Q ((?r + Suc i) mod ?M)) ?S) [0 ..< ?c - 1]"
    by (simp add: ring_messages_def same r' rot) (simp add: q uc)
  ultimately show ?msgs by simp
qed

section \<open>The operations keep the invariant\<close>

lemma lwmsgq_copy_simps [simp]:
  assumes "f = lwmsgq_write \<or> f = lwmsgq_read"
  shows "TDS (f q b s) = TDS s" "WAITQ (f q b s) = WAITQ s" "READYQ (f q b s) = READYQ s"
    and "TIMEOUT_QUEUE (f q b s) = TIMEOUT_QUEUE s" "CURRENT_READY_Q (f q b s) = CURRENT_READY_Q s"
    and "LOWEST_TASK_PRIORITY (f q b s) = LOWEST_TASK_PRIORITY s" "tasks (f q b s) = tasks s"
    and "ACTIVE_PTR (f q b s) = ACTIVE_PTR s" "IN_ISR (f q b s) = IN_ISR s"
    and "LWSEMS (f q b s) = LWSEMS s" "LWEVENTS (f q b s) = LWEVENTS s"
    and "TASK_QUEUES (f q b s) = TASK_QUEUES s" "MUTEXES (f q b s) = MUTEXES s"
    and "MQ_VALID (LWMSGQS (f q b s) u) = MQ_VALID (LWMSGQS s u)"
    and "u \<noteq> q \<Longrightarrow> LWMSGQS (f q b s) u = LWMSGQS s u"
  using assms by (auto simp: lwmsgq_write_def lwmsgq_read_def Let_def tasks_def)

lemma lwmsgq_copy_ok:
  assumes "kinv {} s" "f = lwmsgq_write \<or> f = lwmsgq_read"
  shows "op_ok {} s (f q b s)" "active_ok s \<Longrightarrow> active_ok (f q b s)" "top_ok s \<Longrightarrow> top_ok (f q b s)"
proof -
  note c = lwmsgq_copy_simps [OF assms(2)]
  have "kinv {} (f q b s)" by (rule kinv_cong [OF assms(1)]) (simp_all add: c)
  then show "op_ok {} s (f q b s)" by (rule op_okI) (simp_all add: c)
qed (simp_all add: active_ok_def top_ok_def lwmsgq_copy_simps [OF assms(2)])

lemma lwmsgq_init_ok:
  assumes "kinv {} s" "active_ok s" "WAITQ s (WAITING_WRITERS q) = []" "WAITQ s (WAITING_READERS q) = []"
  shows "op_ok {} s (snd (lwmsgq_init q n m s))" "active_ok (snd (lwmsgq_init q n m s))"
    "top_ok s \<Longrightarrow> top_ok (snd (lwmsgq_init q n m s))"
proof -
  have w: "(WAITQ s)(WAITING_WRITERS q := [], WAITING_READERS q := []) = WAITQ s" using assms(3,4) by auto
  note d = lwmsgq_init_def lwmsgq_init_internal_def Let_def
  have "kinv {} (snd (lwmsgq_init q n m s))"
    by (rule kinv_cong [OF assms(1)]) (auto simp: d w tasks_def)
  then show "op_ok {} s (snd (lwmsgq_init q n m s))" by (rule op_okI) (auto simp: d w tasks_def)
  show "active_ok (snd (lwmsgq_init q n m s))" "top_ok s \<Longrightarrow> top_ok (snd (lwmsgq_init q n m s))"
    using assms(2) by (auto simp: d active_ok_def top_ok_def tasks_def)
qed

lemma lwmsgq_enqueue_ok:
  assumes "kinv {} s" "active_ok s" "enters_waitq st"
  shows "op_ok {ACTIVE_PTR s} s (lwmsgq_enqueue_active h st s)"
  unfolding lwmsgq_enqueue_active_def Let_def [of "ACTIVE_PTR s"]
  by (rule enter_waiting_ok) (use assms in \<open>auto simp: active_ok_def\<close>)

lemma lwmsgq_enqueue_simps [simp]:
  "TDS (lwmsgq_enqueue_active h st s) =
     (TDS s)(ACTIVE_PTR s := (TDS s (ACTIVE_PTR s))\<lparr>STATE := st, INFO := h\<rparr>)"
  "WAITQ (lwmsgq_enqueue_active h st s) = (WAITQ s)(h := WAITQ s h @ [ACTIVE_PTR s])"
  "TIMEOUT_QUEUE (lwmsgq_enqueue_active h st s) = TIMEOUT_QUEUE s"
  "tasks (lwmsgq_enqueue_active h st s) = tasks s" "IN_ISR (lwmsgq_enqueue_active h st s) = IN_ISR s"
  "LWSEMS (lwmsgq_enqueue_active h st s) = LWSEMS s"
  "TASK_QUEUES (lwmsgq_enqueue_active h st s) = TASK_QUEUES s"
  "LWEVENTS (lwmsgq_enqueue_active h st s) = LWEVENTS s"
  "LWMSGQS (lwmsgq_enqueue_active h st s) = LWMSGQS s"
  "MUTEXES (lwmsgq_enqueue_active h st s) = MUTEXES s"
  "MEM (lwmsgq_enqueue_active h st s) = MEM s" "TIME (lwmsgq_enqueue_active h st s) = TIME s"
  by (simp_all add: lwmsgq_enqueue_active_def Let_def tasks_def)

lemma lwmsgq_write_block_ok:
  assumes "kinv {} s" "active_ok s" "r \<in> tasks s" "STATE (TDS s r) = READY" "r \<noteq> ACTIVE_PTR s"
  shows "op_ok {ACTIVE_PTR s} s (lwmsgq_write_block q s)" "active_ok (lwmsgq_write_block q s)"
    "top_ok (lwmsgq_write_block q s)"
  using op_exec [OF lwmsgq_enqueue_ok [OF assms(1,2)] assms(3) _ assms(4)] assms(5)
  by (simp_all add: lwmsgq_write_block_def)

lemma lwmsgq_read_block_ok:
  fixes q :: addr and flags ticks :: u32 and tick :: tick_struct
  assumes "kinv {} s" "active_ok s" "r \<in> tasks s" "STATE (TDS s r) = READY" "r \<noteq> ACTIVE_PTR s"
  defines "s' \<equiv> lwmsgq_read_block q flags ticks tick s"
  shows "op_ok {ACTIVE_PTR s} s s'" "active_ok s'" "top_ok s'"
proof -
  define t where "t = ACTIVE_PTR s"
  let ?s1 = "lwmsgq_enqueue_active (WAITING_READERS q) LWMSGQ_READ_BLOCKED s"
  have en: "op_ok {t} s ?s1" using lwmsgq_enqueue_ok [OF assms(1,2)] by (simp add: t_def)
  have k1: "kinv {} ?s1" using en by (simp add: op_ok_def)
  have "op_ok {t} s s' \<and> active_ok s' \<and> top_ok s'"
  proof (cases "lwmsgq_timed flags ticks")
    case False
    then show ?thesis using op_exec [OF en assms(3) _ assms(4)] assms(5)
      by (simp add: s'_def lwmsgq_read_block_def Let_def t_def)
  next
    case True
    define y where "y d = (if ticks \<noteq> 0 then (TIMEOUT d)\<lparr>TICKS := TICKS (TIME ?s1) + ucast ticks\<rparr>
      else if flags AND LWMSGQ_TIMEOUT_UNTIL \<noteq> 0 then tick
      else psp_add_ticks (HW_TICKS_PER_TICK ?s1) tick (TIME ?s1))" for d :: td
    have y: "s' = time_delay_internal t (upd_td t (\<lambda>d. d\<lparr>TIMEOUT := y d\<rparr>) ?s1)"
      using True by (auto simp: s'_def lwmsgq_read_block_def Let_def t_def set_timeout_ticks_def y_def)
    let ?s2 = "upd_td t (\<lambda>d. d\<lparr>TIMEOUT := y d\<rparr>) ?s1"
    have k2: "kinv {} ?s2" using k1 by (intro kinv_upd_placed) (auto simp: t_def)
    then have "op_ok {t} ?s1 ?s2" by (rule op_okI) auto
    then have 2: "op_ok {t} s ?s2" using en op_ok_trans by blast
    have r: "r \<in> tasks ?s2" "STATE (TDS ?s2 r) = READY" "r \<noteq> t" "t \<in> tasks ?s2"
      "enters_timeout (STATE (TDS ?s2 t))"
      using 2 assms(2-5) by (auto simp: op_ok_def t_def active_ok_def)
    have "op_ok {t} ?s2 s'" "active_ok s'" "top_ok s'"
      unfolding y using k2 r by (intro delay_ok; simp)+
    then show ?thesis using op_ok_trans [OF 2] by blast
  qed
  then show "op_ok {ACTIVE_PTR s} s s'" "active_ok s'" "top_ok s'" by (simp_all add: t_def)
qed

text \<open>What follows the copying: a waiting task on the other side is released.\<close>

lemma lwmsgq_receive_now_cases:
  assumes "kinv {} s" "\<forall>t \<in> set (WAITQ s (WAITING_WRITERS q)). \<not> on_timeout (STATE (TDS s t))"
  shows "WAITQ s (WAITING_WRITERS q) = [] \<and> lwmsgq_receive_now q b s = lwmsgq_read q b s \<or>
    (\<exists>t s1. WAITQ s (WAITING_WRITERS q) = t # tl (WAITQ s (WAITING_WRITERS q)) \<and>
       released [t] (WAITING_WRITERS q) (lwmsgq_read q b s) s1 \<and> INFO (TDS s1 t) = 0 \<and>
       lwmsgq_receive_now q b s = sched_check_scheduler_internal s1)"
proof (cases "WAITQ s (WAITING_WRITERS q)")
  case (Cons t ts)
  let ?s0 = "lwmsgq_read q b s"
  let ?s1 = "TASK_READY t (?s0\<lparr>WAITQ := (WAITQ ?s0)(WAITING_WRITERS q := ts)\<rparr>)"
  have k: "kinv {} ?s0" using lwmsgq_copy_ok(1) [OF assms(1)] by (simp add: op_ok_def)
  have "released [t] (WAITING_WRITERS q) ?s0 ?s1"
    using released_one [OF k, of "WAITING_WRITERS q" t ts] Cons assms(2) by (simp add: TIME_DEQUEUE_eq)
  then have "released [t] (WAITING_WRITERS q) ?s0 (upd_td t (\<lambda>d. d\<lparr>INFO := 0\<rparr>) ?s1)"
    by (rule released_upd) auto
  moreover have "lwmsgq_receive_now q b s =
      sched_check_scheduler_internal (upd_td t (\<lambda>d. d\<lparr>INFO := 0\<rparr>) ?s1)"
    using Cons by (simp add: lwmsgq_receive_now_def Let_def TASK_READY_clear_INFO)
  moreover have "INFO (TDS (upd_td t (\<lambda>d. d\<lparr>INFO := 0\<rparr>) ?s1) t) = 0" by simp
  ultimately show ?thesis using Cons by auto
qed (simp add: lwmsgq_receive_now_def Let_def)

lemma lwmsgq_send_now_cases:
  fixes flags :: u32
  assumes "kinv {} s"
  defines "fin \<equiv> \<lambda>s. if flags AND LWMSGQ_SEND_BLOCK_ON_SEND \<noteq> 0 then task_block s else s"
    and "fin2 \<equiv> \<lambda>s. if flags AND LWMSGQ_SEND_BLOCK_ON_SEND \<noteq> 0 then task_block s
                     else sched_check_scheduler_internal s"
  shows "WAITQ s (WAITING_READERS q) = [] \<and> lwmsgq_send_now q b flags s = fin (lwmsgq_write q b s) \<or>
    (\<exists>t s1. WAITQ s (WAITING_READERS q) = t # tl (WAITQ s (WAITING_READERS q)) \<and>
       released [t] (WAITING_READERS q) (lwmsgq_write q b s) s1 \<and> INFO (TDS s1 t) = 0 \<and>
       lwmsgq_send_now q b flags s = fin2 s1)"
proof (cases "WAITQ s (WAITING_READERS q)")
  case (Cons t ts)
  let ?s0 = "lwmsgq_write q b s"
  let ?s1 = "TASK_READY t (TIME_DEQUEUE t (?s0\<lparr>WAITQ := (WAITQ ?s0)(WAITING_READERS q := ts)\<rparr>))"
  have k: "kinv {} ?s0" using lwmsgq_copy_ok(1) [OF assms(1)] by (simp add: op_ok_def)
  have "released [t] (WAITING_READERS q) ?s0 ?s1"
    using released_one [OF k, of "WAITING_READERS q" t ts] Cons by simp
  then have "released [t] (WAITING_READERS q) ?s0 (upd_td t (\<lambda>d. d\<lparr>INFO := 0\<rparr>) ?s1)"
    by (rule released_upd) auto
  moreover have "lwmsgq_send_now q b flags s = fin2 (upd_td t (\<lambda>d. d\<lparr>INFO := 0\<rparr>) ?s1)"
    using Cons by (simp add: lwmsgq_send_now_def Let_def TASK_READY_clear_INFO fin2_def)
  moreover have "INFO (TDS (upd_td t (\<lambda>d. d\<lparr>INFO := 0\<rparr>) ?s1) t) = 0" by simp
  ultimately show ?thesis using Cons by auto
qed (simp add: lwmsgq_send_now_def Let_def fin_def)

text \<open>A release, followed by a check or by blocking the active task.\<close>

lemma release_check:
  assumes "op_ok {} s s0" "active_ok s0" "released D h s0 s1"
  shows "op_ok {} s (sched_check_scheduler_internal s1)" "active_ok (sched_check_scheduler_internal s1)"
    and "IN_ISR s = 0 \<Longrightarrow> top_ok (sched_check_scheduler_internal s1)"
  using op_check [OF op_ok_trans [OF assms(1) released_op [OF assms(3)]] released_active [OF assms(3,2)]]
  by simp_all

lemma op_block:
  assumes "op_ok {} s s1" "active_ok s1" "ACTIVE_PTR s1 = ACTIVE_PTR s"
    and "r \<in> tasks s" "STATE (TDS s r) = READY" "r \<noteq> ACTIVE_PTR s"
  shows "op_ok {ACTIVE_PTR s} s (task_block s1)" "active_ok (task_block s1)" "top_ok (task_block s1)"
proof -
  have r: "kinv {} s1" "r \<in> tasks s1" "STATE (TDS s1 r) = READY" "r \<noteq> ACTIVE_PTR s1"
    using assms by (auto simp: op_ok_def)
  note b = block_ok [OF r(1) assms(2) r(2-4)]
  show "op_ok {ACTIVE_PTR s} s (task_block s1)"
    using op_ok_trans [OF op_ok_weaken [OF assms(1)]] b(1) assms(3) by simp
  show "active_ok (task_block s1)" "top_ok (task_block s1)" using b by simp_all
qed

lemma lwmsgq_receive_now_ok:
  assumes "kinv {} s" "active_ok s"
    and "\<forall>t \<in> set (WAITQ s (WAITING_WRITERS q)). \<not> on_timeout (STATE (TDS s t))"
  shows "op_ok {} s (lwmsgq_receive_now q b s)" "active_ok (lwmsgq_receive_now q b s)"
    "IN_ISR s = 0 \<Longrightarrow> top_ok s \<Longrightarrow> top_ok (lwmsgq_receive_now q b s)"
proof -
  have c: "op_ok {} s (lwmsgq_read q b s)" "active_ok (lwmsgq_read q b s)"
    "top_ok s \<Longrightarrow> top_ok (lwmsgq_read q b s)" using lwmsgq_copy_ok [OF assms(1)] assms(2) by simp_all
  have "op_ok {} s (lwmsgq_receive_now q b s) \<and> active_ok (lwmsgq_receive_now q b s) \<and>
      (IN_ISR s = 0 \<longrightarrow> top_ok s \<longrightarrow> top_ok (lwmsgq_receive_now q b s))"
    using lwmsgq_receive_now_cases [OF assms(1,3), of b]
  proof (elim disjE exE conjE)
    fix t s1 assume "released [t] (WAITING_WRITERS q) (lwmsgq_read q b s) s1"
      and e: "lwmsgq_receive_now q b s = sched_check_scheduler_internal s1"
    from release_check [OF c(1,2) this(1)] show ?thesis by (simp add: e)
  qed (use c in simp)
  then show "op_ok {} s (lwmsgq_receive_now q b s)" "active_ok (lwmsgq_receive_now q b s)"
    "IN_ISR s = 0 \<Longrightarrow> top_ok s \<Longrightarrow> top_ok (lwmsgq_receive_now q b s)" by blast+
qed

text \<open>A sender blocks itself only with the flag that says so.\<close>

lemma lwmsgq_send_now_ok:
  fixes flags :: u32
  assumes "kinv {} s" "active_ok s" "r \<in> tasks s" "STATE (TDS s r) = READY"
    "r \<noteq> ACTIVE_PTR s \<or> flags AND LWMSGQ_SEND_BLOCK_ON_SEND = 0"
  shows "op_ok {ACTIVE_PTR s} s (lwmsgq_send_now q b flags s)" "active_ok (lwmsgq_send_now q b flags s)"
    "IN_ISR s = 0 \<Longrightarrow> top_ok s \<Longrightarrow> top_ok (lwmsgq_send_now q b flags s)"
proof -
  let ?s' = "lwmsgq_send_now q b flags s" and ?s0 = "lwmsgq_write q b s"
  have c: "op_ok {} s ?s0" "active_ok ?s0" "top_ok s \<Longrightarrow> top_ok ?s0"
    using lwmsgq_copy_ok [OF assms(1)] assms(2) by simp_all
  have "op_ok {ACTIVE_PTR s} s ?s' \<and> active_ok ?s' \<and> (IN_ISR s = 0 \<longrightarrow> top_ok s \<longrightarrow> top_ok ?s')"
    using lwmsgq_send_now_cases [OF assms(1), of q b flags]
  proof (elim disjE exE conjE)
    assume "?s' = (if flags AND LWMSGQ_SEND_BLOCK_ON_SEND \<noteq> 0 then task_block ?s0 else ?s0)"
    then show ?thesis
      using c op_block [OF c(1,2) _ assms(3,4)] assms(5) by (auto intro: op_ok_weaken)
  next
    fix t s1 assume r: "released [t] (WAITING_READERS q) ?s0 s1"
      and e: "?s' = (if flags AND LWMSGQ_SEND_BLOCK_ON_SEND \<noteq> 0 then task_block s1
                     else sched_check_scheduler_internal s1)"
    have "op_ok {} s s1" "active_ok s1" "ACTIVE_PTR s1 = ACTIVE_PTR s"
      using op_ok_trans [OF c(1) released_op [OF r]] released_active [OF r c(2)] released_frame(4) [OF r]
      by simp_all
    from op_block [OF this assms(3,4)] release_check [OF c(1,2) r] assms(5) show ?thesis
      by (auto simp: e intro: op_ok_weaken)
  qed
  then show "op_ok {ACTIVE_PTR s} s ?s'" "active_ok ?s'" "IN_ISR s = 0 \<Longrightarrow> top_ok s \<Longrightarrow> top_ok ?s'"
    by blast+
qed

text \<open>Without the blocking flags a send keeps the sender ready, so that an interrupt may use it.\<close>

lemma lwmsgq_send_nonblocking:
  assumes "kinv {} s" "active_ok s"
    and "flags AND LWMSGQ_SEND_BLOCK_ON_SEND = 0" "flags AND LWMSGQ_SEND_BLOCK_ON_FULL = 0"
  shows "op_ok {} s (snd (lwmsgq_send q b flags s))"
proof -
  let ?s0 = "lwmsgq_write q b s"
  have c: "op_ok {} s ?s0" "active_ok ?s0" using lwmsgq_copy_ok [OF assms(1)] assms(2) by simp_all
  have "op_ok {} s (lwmsgq_send_now q b flags s)"
    using lwmsgq_send_now_cases [OF assms(1), of q b flags] release_check(1) [OF c] c(1) assms(3) by auto
  then show ?thesis using assms(4) op_ok_refl [OF assms(1)] by (simp add: lwmsgq_send_def)
qed

lemma lwmsgq_receive_ok:
  assumes "kinv {} s" "active_ok s" "r \<in> tasks s" "STATE (TDS s r) = READY" "r \<noteq> ACTIVE_PTR s"
    and "\<forall>t \<in> set (WAITQ s (WAITING_WRITERS q)). \<not> on_timeout (STATE (TDS s t))"
    and "res \<in> {lwmsgq_receive q b flags ticks tick s, lwmsgq_receive_resume q b flags ticks tick s}"
  shows "op_ok {ACTIVE_PTR s} s (snd res)" "active_ok (snd res)"
    "IN_ISR s = 0 \<Longrightarrow> top_ok s \<Longrightarrow> top_ok (snd res)"
proof -
  note n = lwmsgq_receive_now_ok [OF assms(1,2,6), of b]
    and bl = lwmsgq_read_block_ok [OF assms(1-5), of q flags ticks tick]
  have "snd res \<in> {s, lwmsgq_receive_now q b s, lwmsgq_read_block q flags ticks tick s}"
    using assms(7) by (auto simp: lwmsgq_receive_def lwmsgq_receive_resume_def)
  then have "op_ok {ACTIVE_PTR s} s (snd res) \<and> active_ok (snd res) \<and>
      (IN_ISR s = 0 \<longrightarrow> top_ok s \<longrightarrow> top_ok (snd res))"
    using n bl op_ok_refl [OF assms(1)] assms(2) op_ok_weaken by auto
  then show "op_ok {ACTIVE_PTR s} s (snd res)" "active_ok (snd res)"
    "IN_ISR s = 0 \<Longrightarrow> top_ok s \<Longrightarrow> top_ok (snd res)" by blast+
qed

lemma lwmsgq_send_ok:
  assumes "kinv {} s" "active_ok s" "r \<in> tasks s" "STATE (TDS s r) = READY"
    and "r \<noteq> ACTIVE_PTR s \<or>
      flags AND LWMSGQ_SEND_BLOCK_ON_SEND = 0 \<and> flags AND LWMSGQ_SEND_BLOCK_ON_FULL = 0"
    and "res = lwmsgq_send q b flags s \<or> r \<noteq> ACTIVE_PTR s \<and> res = lwmsgq_send_resume q b flags s"
  shows "op_ok {ACTIVE_PTR s} s (snd res)" "active_ok (snd res)"
    "IN_ISR s = 0 \<Longrightarrow> top_ok s \<Longrightarrow> top_ok (snd res)"
proof -
  have n: "op_ok {ACTIVE_PTR s} s (lwmsgq_send_now q b flags s)" "active_ok (lwmsgq_send_now q b flags s)"
    "IN_ISR s = 0 \<Longrightarrow> top_ok s \<Longrightarrow> top_ok (lwmsgq_send_now q b flags s)"
    using lwmsgq_send_now_ok [OF assms(1-4)] assms(5) by blast+
  have "snd res \<in> {s, lwmsgq_send_now q b flags s} \<or> r \<noteq> ACTIVE_PTR s \<and> snd res = lwmsgq_write_block q s"
  proof -
    have "snd (lwmsgq_send q b flags s) \<in> {s, lwmsgq_send_now q b flags s} \<or>
        flags AND LWMSGQ_SEND_BLOCK_ON_FULL \<noteq> 0 \<and> snd (lwmsgq_send q b flags s) = lwmsgq_write_block q s"
      by (simp add: lwmsgq_send_def)
    moreover have "snd (lwmsgq_send_resume q b flags s) \<in> {lwmsgq_write_block q s, lwmsgq_send_now q b flags s}"
      by (simp add: lwmsgq_send_resume_def)
    ultimately show ?thesis using assms(5,6) by auto
  qed
  then have "op_ok {ACTIVE_PTR s} s (snd res) \<and> active_ok (snd res) \<and>
      (IN_ISR s = 0 \<longrightarrow> top_ok s \<longrightarrow> top_ok (snd res))"
    using n lwmsgq_write_block_ok [OF assms(1-4), of q] op_ok_refl [OF assms(1)] assms(2) by auto
  then show "op_ok {ACTIVE_PTR s} s (snd res)" "active_ok (snd res)"
    "IN_ISR s = 0 \<Longrightarrow> top_ok s \<Longrightarrow> top_ok (snd res)" by blast+
qed

section \<open>The ring is a bounded queue\<close>

text \<open>The client of the queue writes its message to its buffer at \<open>b\<close>, then sends it.\<close>

fun store_words :: "addr \<Rightarrow> u32 list \<Rightarrow> (addr \<Rightarrow> u32) \<Rightarrow> addr \<Rightarrow> u32" where
  "store_words b [] m = m"
| "store_words b (w # ws) m = store_words (b + 4) ws (m(b := w))"

definition msgq_put :: "addr \<Rightarrow> addr \<Rightarrow> u32 list \<Rightarrow> kernel \<Rightarrow> bool \<times> kernel" where
  "msgq_put q b ws s =
     (if LWMSGQ_IS_FULL (LWMSGQS s q) then (False, s)
      else (True, lwmsgq_write q b (s\<lparr>MEM := store_words b ws (MEM s)\<rparr>)))"

definition msgq_get :: "addr \<Rightarrow> addr \<Rightarrow> kernel \<Rightarrow> u32 list \<times> kernel" where
  "msgq_get q b s =
     (let s = lwmsgq_read q b s in (load_words (MEM s) b (unat (MQ_MSG_SIZE (LWMSGQS s q))), s))"

definition msgq_inv :: "addr \<Rightarrow> addr \<Rightarrow> kernel \<Rightarrow> bool" where
  "msgq_inv q b s \<longleftrightarrow> msgq_ring (LWMSGQS s q) \<and> buffer_ok (LWMSGQS s q) b"

definition msgq_messages :: "addr \<Rightarrow> kernel \<Rightarrow> u32 list list" where
  "msgq_messages q s = ring_messages (LWMSGQS s q) (MEM s)"

lemma store_words_out: "a \<notin> words_at b (length ws) \<Longrightarrow> store_words b ws m a = m a"
  by (induction ws arbitrary: b m) (auto simp: words_at_Suc)

lemma load_store_words: "4 * length ws < 2 ^ 32 \<Longrightarrow> load_words (store_words b ws m) b (length ws) = ws"
proof (induction ws arbitrary: b m)
  case (Cons w ws)
  have "store_words (b + 4) ws (m(b := w)) b = w"
    using words_at_start [of "length ws" b] Cons.prems by (simp add: store_words_out)
  then show ?case using Cons by (simp add: load_words_Suc)
qed (simp add: load_words_def)

lemma ring_messages_cong:
  assumes "msgq_ring Q" "\<And>a. a \<in> ring_region Q \<Longrightarrow> m a = m' a"
  shows "ring_messages Q m = ring_messages Q m'"
proof -
  have b: "ring_bounds Q" using assms(1) by (simp add: msgq_ring_def)
  then have "load_words m (ring_slot Q (k mod unat (MQ_MAX_SIZE Q))) (unat (MQ_MSG_SIZE Q)) =
      load_words m' (ring_slot Q (k mod unat (MQ_MAX_SIZE Q))) (unat (MQ_MSG_SIZE Q))" for k
    using slot_in_region [OF b, of "k mod unat (MQ_MAX_SIZE Q)"] assms(2)
    by (intro load_words_cong) (auto simp: ring_bounds_def)
  then show ?thesis by (simp add: ring_messages_def)
qed

lemma lwmsgq_copy_geometry:
  "f = lwmsgq_write \<or> f = lwmsgq_read \<Longrightarrow>
   MQ_MSG_SIZE (LWMSGQS (f q b s) u) = MQ_MSG_SIZE (LWMSGQS s u) \<and>
   MQ_MAX_SIZE (LWMSGQS (f q b s) u) = MQ_MAX_SIZE (LWMSGQS s u) \<and>
   MQ_START_LOC (LWMSGQS (f q b s) u) = MQ_START_LOC (LWMSGQS s u)"
  by (auto simp: lwmsgq_write_def lwmsgq_read_def Let_def)

lemma buffer_ok_copy:
  "f = lwmsgq_write \<or> f = lwmsgq_read \<Longrightarrow>
   buffer_ok (LWMSGQS (f q b s) u) c = buffer_ok (LWMSGQS s u) c"
  using lwmsgq_copy_geometry [of f q b s u] by (simp add: buffer_ok_def ring_region_def)

interpretation msgs: bounded_fifo "msgq_inv q b" "msgq_messages q" "\<lambda>s. LWMSGQ_IS_FULL (LWMSGQS s q)"
  "\<lambda>s ws. length ws = unat (MQ_MSG_SIZE (LWMSGQS s q))" "msgq_put q b" "msgq_get q b" for q b
proof
  fix s and ws :: "u32 list"
  assume i: "msgq_inv q b s" and l: "length ws = unat (MQ_MSG_SIZE (LWMSGQS s q))"
    and f: "\<not> LWMSGQ_IS_FULL (LWMSGQS s q)"
  let ?s = "s\<lparr>MEM := store_words b ws (MEM s)\<rparr>" and ?Q = "LWMSGQS s q"
  have r: "msgq_ring ?Q" "buffer_ok ?Q b" "ring_bounds ?Q"
    using i by (simp_all add: msgq_inv_def msgq_ring_def)
  have "ring_messages ?Q (store_words b ws (MEM s)) = ring_messages ?Q (MEM s)"
    using r(2) l by (intro ring_messages_cong [OF r(1)] store_words_out) (auto simp: buffer_ok_def)
  moreover have "load_words (store_words b ws (MEM s)) b (unat (MQ_MSG_SIZE ?Q)) = ws"
    using load_store_words [of ws b "MEM s"] ring_message_size [OF r(3)] l by simp
  ultimately show "fst (msgq_put q b ws s) \<and> msgq_inv q b (snd (msgq_put q b ws s)) \<and>
      msgq_messages q (snd (msgq_put q b ws s)) = msgq_messages q s @ [ws]"
    using lwmsgq_write_appends [of ?s q b] r f buffer_ok_copy [of lwmsgq_write q b ?s q b]
    by (simp add: msgq_put_def msgq_inv_def msgq_messages_def)
next
  fix s x xs
  assume "msgq_inv q b s" "msgq_messages q s = x # xs"
  then show "fst (msgq_get q b s) = x \<and> msgq_inv q b (snd (msgq_get q b s)) \<and>
      msgq_messages q (snd (msgq_get q b s)) = xs"
    using lwmsgq_read_removes [of s q x xs b] buffer_ok_copy [of lwmsgq_read q b s q b]
      lwmsgq_copy_geometry [of lwmsgq_read q b s q]
    by (simp add: msgq_get_def msgq_inv_def msgq_messages_def Let_def)
qed (simp add: msgq_put_def)

text \<open>An initialised queue is an empty ring.\<close>

lemma lwmsgq_init_ring:
  fixes s :: kernel
  assumes "0 < unat n" "0 < unat m" "unat (q + 64) + 4 * (unat m * unat n) < 2 ^ 32"
  defines "s' \<equiv> snd (lwmsgq_init q n m s)"
  shows "msgq_ring (LWMSGQS s' q) \<and> msgq_messages q s' = []"
  using assms(1-3)
  by (simp add: s'_def lwmsgq_init_def lwmsgq_init_internal_def Let_def msgq_ring_def ring_bounds_def
      read_index_def ring_slot_def msgq_messages_def ring_messages_def)

end
