(* ===== verification/Mutex.thy ===== *)
theory Mutex
  imports LwMsgQ
begin

text \<open>
  Mutexes, \<^verbatim>\<open>src/mqx/source/kernel/mutex.c\<close>: locks with an owner, a queue of waiting tasks in
  the order of arrival or of priority, and two protocols against priority inversion,
  inheritance (a waiting task lends its priority to the owner) and protection (the owner runs
  at the ceiling of the mutex).

  A mutex is named by the address of its \<open>MUTEX_STRUCT\<close>, with \<open>WAITING_TASKS\<close> at offset 28. A
  call ends with \<open>None\<close> where the processor goes to another task, and the \<open>resume\<close> functions are
  the rest of the call. Spinning (\<open>MQX_MUTEX_HAS_POLLING\<close>) is off in this configuration, so a
  lock waits on the queue; the kernel log calls are left out. \<open>_mutex_cleanup\<close>, part of task
  destruction, and the self-test \<open>_mutex_test\<close> are not modelled.
\<close>

definition MUTEX_VALID :: u32 where "MUTEX_VALID = 0x6d757478"

abbreviation (input) MUTEX_SPIN_ONLY :: u32 where "MUTEX_SPIN_ONLY \<equiv> 1"
abbreviation (input) MUTEX_LIMITED_SPIN :: u32 where "MUTEX_LIMITED_SPIN \<equiv> 2"
abbreviation (input) MUTEX_QUEUEING :: u32 where "MUTEX_QUEUEING \<equiv> 4"
abbreviation (input) MUTEX_PRIORITY_QUEUEING :: u32 where "MUTEX_PRIORITY_QUEUEING \<equiv> 8"
abbreviation (input) MUTEX_NO_PRIO_INHERIT :: u32 where "MUTEX_NO_PRIO_INHERIT \<equiv> 0"
abbreviation (input) MUTEX_PRIO_INHERIT :: u32 where "MUTEX_PRIO_INHERIT \<equiv> 0x100"
abbreviation (input) MUTEX_PRIO_PROTECT :: u32 where "MUTEX_PRIO_PROTECT \<equiv> 0x200"
abbreviation (input) MQX_TEST_AND_SET_VALUE :: u8 where "MQX_TEST_AND_SET_VALUE \<equiv> 0x80"

definition MUTEX_WAITING_TASKS :: "addr \<Rightarrow> addr" where "MUTEX_WAITING_TASKS m = m + 28"

definition upd_mutex :: "addr \<Rightarrow> (mutex \<Rightarrow> mutex) \<Rightarrow> kernel \<Rightarrow> kernel" where
  "upd_mutex m f s = s\<lparr>MUTEXES := (MUTEXES s)(m := f (MUTEXES s m))\<rparr>"

section \<open>Attributes\<close>

text \<open>
  \<open>MUTEX_ATTR_STRUCT\<close>. A pointer to attributes is an option, \<open>None\<close> for \<open>NULL\<close>; a function that
  writes them returns them. Output pointers are not \<open>NULL\<close>: \<open>Some\<close> is the value written.
\<close>

record mutex_attr =
  MA_SCHED_PROTOCOL :: u32
  MA_VALID :: u32
  MA_PRIORITY_CEILING :: nat
  MA_COUNT :: u32
  MA_WAIT_PROTOCOL :: u32

definition mutatr_init :: "mutex_attr option \<Rightarrow> mqx_code \<times> mutex_attr option" where
  "mutatr_init attr_ptr =
     (case attr_ptr of
        None \<Rightarrow> (MQX_EINVAL, None)
      | Some a \<Rightarrow> (MQX_OK, Some (a\<lparr>MA_SCHED_PROTOCOL := MUTEX_NO_PRIO_INHERIT, MA_PRIORITY_CEILING := 0,
                     MA_VALID := MUTEX_VALID, MA_COUNT := 0, MA_WAIT_PROTOCOL := MUTEX_QUEUEING\<rparr>)))"

definition mutatr_destroy :: "mutex_attr option \<Rightarrow> mqx_code \<times> mutex_attr option" where
  "mutatr_destroy attr_ptr =
     (case attr_ptr of
        None \<Rightarrow> (MQX_EINVAL, None)
      | Some a \<Rightarrow> if MA_VALID a \<noteq> MUTEX_VALID then (MQX_EINVAL, Some a)
                  else (MQX_OK, Some (a\<lparr>MA_VALID := 0\<rparr>)))"

definition mutatr_get_wait_protocol :: "mutex_attr option \<Rightarrow> mqx_code \<times> u32 option" where
  "mutatr_get_wait_protocol attr_ptr =
     (case attr_ptr of
        None \<Rightarrow> (MQX_EINVAL, None)
      | Some a \<Rightarrow> if MA_VALID a \<noteq> MUTEX_VALID then (MQX_EINVAL, None)
                  else (MQX_OK, Some (MA_WAIT_PROTOCOL a)))"

definition mutatr_get_priority_ceiling :: "mutex_attr option \<Rightarrow> mqx_code \<times> nat option" where
  "mutatr_get_priority_ceiling attr_ptr =
     (case attr_ptr of
        None \<Rightarrow> (MQX_EINVAL, None)
      | Some a \<Rightarrow> if MA_VALID a \<noteq> MUTEX_VALID then (MQX_EINVAL, None)
                  else (MQX_OK, Some (MA_PRIORITY_CEILING a)))"

definition mutatr_get_sched_protocol :: "mutex_attr option \<Rightarrow> mqx_code \<times> u32 option" where
  "mutatr_get_sched_protocol attr_ptr =
     (case attr_ptr of
        None \<Rightarrow> (MQX_EINVAL, None)
      | Some a \<Rightarrow> if MA_VALID a \<noteq> MUTEX_VALID then (MQX_EINVAL, None)
                  else (MQX_OK, Some (MA_SCHED_PROTOCOL a)))"

definition mutatr_get_spin_limit :: "mutex_attr option \<Rightarrow> mqx_code \<times> u32 option" where
  "mutatr_get_spin_limit attr_ptr =
     (case attr_ptr of
        None \<Rightarrow> (MQX_EINVAL, None)
      | Some a \<Rightarrow> if MA_VALID a \<noteq> MUTEX_VALID then (MQX_EINVAL, None)
                  else (MQX_OK, Some (MA_COUNT a)))"

definition mutatr_set_wait_protocol ::
  "mutex_attr option \<Rightarrow> u32 \<Rightarrow> mqx_code \<times> mutex_attr option" where
  "mutatr_set_wait_protocol attr_ptr waiting_protocol =
     (case attr_ptr of
        None \<Rightarrow> (MQX_EINVAL, None)
      | Some a \<Rightarrow>
          if MA_VALID a \<noteq> MUTEX_VALID then (MQX_EINVAL, Some a)
          else if \<not> (waiting_protocol = MUTEX_QUEUEING \<or> waiting_protocol = MUTEX_PRIORITY_QUEUEING)
          then (MQX_EINVAL, Some a)
          else (MQX_OK, Some (a\<lparr>MA_WAIT_PROTOCOL := waiting_protocol\<rparr>)))"

definition mutatr_set_priority_ceiling ::
  "mutex_attr option \<Rightarrow> nat \<Rightarrow> kernel \<Rightarrow> mqx_code \<times> mutex_attr option" where
  "mutatr_set_priority_ceiling attr_ptr ceiling s =
     (case attr_ptr of
        None \<Rightarrow> (MQX_EINVAL, None)
      | Some a \<Rightarrow>
          if MA_VALID a \<noteq> MUTEX_VALID then (MQX_EINVAL, Some a)
          else if ceiling > LOWEST_TASK_PRIORITY s then (MQX_EINVAL, Some a)
          else (MQX_OK, Some (a\<lparr>MA_PRIORITY_CEILING := ceiling\<rparr>)))"

definition mutatr_set_sched_protocol ::
  "mutex_attr option \<Rightarrow> u32 \<Rightarrow> mqx_code \<times> mutex_attr option" where
  "mutatr_set_sched_protocol attr_ptr protocol =
     (case attr_ptr of
        None \<Rightarrow> (MQX_EINVAL, None)
      | Some a \<Rightarrow>
          if MA_VALID a \<noteq> MUTEX_VALID then (MQX_EINVAL, Some a)
          else if \<not> (protocol = MUTEX_PRIO_INHERIT \<or> protocol = MUTEX_PRIO_PROTECT
                      \<or> protocol = MUTEX_NO_PRIO_INHERIT)
          then (MQX_EINVAL, Some a)
          else (MQX_OK, Some (a\<lparr>MA_SCHED_PROTOCOL := protocol\<rparr>)))"

text \<open>Without polling the spin limit cannot be set.\<close>

definition mutatr_set_spin_limit ::
  "mutex_attr option \<Rightarrow> u32 \<Rightarrow> mqx_code \<times> mutex_attr option" where
  "mutatr_set_spin_limit attr_ptr spin_count = (MQX_EINVAL, attr_ptr)"

section \<open>Creating\<close>

text \<open>
  \<open>block\<close> is what \<open>_mem_alloc_system_zero\<close> returns for the component's data, \<open>NULL\<close> when there
  is no memory. The second check for a component, made with interrupts disabled, cannot
  succeed here, since a call is one step.
\<close>

definition mutex_create_component :: "addr \<Rightarrow> kernel \<Rightarrow> mqx_code \<times> kernel" where
  "mutex_create_component block s =
     (if MUTEX_COMPONENT s \<noteq> None then (MQX_OK, s)
      else if block = NULL then (MQX_OUT_OF_MEMORY, s)
      else (MQX_OK, s\<lparr>MUTEX_LIST := [], MUTEX_COMPONENT := Some MUTEX_VALID\<rparr>))"

definition default_attr :: mutex_attr where
  "default_attr = \<lparr>MA_SCHED_PROTOCOL = 0, MA_VALID = 0, MA_PRIORITY_CEILING = 0, MA_COUNT = 0,
     MA_WAIT_PROTOCOL = 0\<rparr>"

definition mutex_init :: "addr \<Rightarrow> mutex_attr option \<Rightarrow> addr \<Rightarrow> kernel \<Rightarrow> mqx_code \<times> kernel" where
  "mutex_init m attr_ptr block s =
     (let attr = (case attr_ptr of None \<Rightarrow> the (snd (mutatr_init (Some default_attr))) | Some a \<Rightarrow> a)
      in if m = NULL then (MQX_EINVAL, s)
      else if MA_VALID attr \<noteq> MUTEX_VALID then (MQX_EINVAL, s)
      else
        (let (result, s) = (case MUTEX_COMPONENT s of
               None \<Rightarrow> mutex_create_component block s | Some _ \<Rightarrow> (MQX_OK, s))
         in case MUTEX_COMPONENT s of
              None \<Rightarrow> (result, s)
            | Some valid \<Rightarrow>
                if valid \<noteq> MUTEX_VALID then (MQX_INVALID_COMPONENT_BASE, s)
                else if m \<in> set (MUTEX_LIST s) then (MQX_EINVAL, s)
                else
                  (let s = upd_mutex m (\<lambda>M. M\<lparr>
                         MX_PROTOCOLS := MA_SCHED_PROTOCOL attr OR MA_WAIT_PROTOCOL attr,
                         MX_VALID := MUTEX_VALID, MX_COUNT := MA_COUNT attr,
                         MX_PRIORITY_CEILING := MA_PRIORITY_CEILING attr, MX_LOCK := 0,
                         MX_BOOSTED := 0, MX_OWNER_TD := NULL\<rparr>) s;
                       s = s\<lparr>WAITQ := (WAITQ s)(MUTEX_WAITING_TASKS m := [])\<rparr>
                   in (MQX_OK, s\<lparr>MUTEX_LIST := MUTEX_LIST s @ [m]\<rparr>))))"

text \<open>Attributes as the functions above write them: without polling, tasks wait on the queue.\<close>

definition queueing_attr :: "mutex_attr option \<Rightarrow> bool" where
  "queueing_attr attr_ptr \<longleftrightarrow>
     (case attr_ptr of None \<Rightarrow> True | Some a \<Rightarrow> (MA_SCHED_PROTOCOL a OR MA_WAIT_PROTOCOL a) AND 3 = 0)"

section \<open>Locking\<close>

text \<open>
  \<open>run_on t k\<close> goes on with \<open>k\<close> when the task \<open>t\<close> still has the processor, and ends the call
  there when it has lost it. \<open>mutex_boost\<close> is the piece of code that the functions share: lend
  the priority \<open>p\<close> to the task \<open>u\<close>, if that is more than its own, and count that.
\<close>

definition run_on ::
  "addr \<Rightarrow> (kernel \<Rightarrow> mqx_code option \<times> kernel) \<Rightarrow> kernel \<Rightarrow> mqx_code option \<times> kernel" where
  "run_on t k s = (if ACTIVE_PTR s = t then k s else (None, s))"

definition mutex_boosted :: "addr \<Rightarrow> kernel \<Rightarrow> kernel" where
  "mutex_boosted m s = upd_mutex m (\<lambda>M. M\<lparr>MX_BOOSTED := MX_BOOSTED M + 1\<rparr>) s"

definition mutex_boost :: "addr \<Rightarrow> addr \<Rightarrow> nat \<Rightarrow> (kernel \<Rightarrow> mqx_code option \<times> kernel) \<Rightarrow>
  kernel \<Rightarrow> mqx_code option \<times> kernel" where
  "mutex_boost m u p k s =
     (if HOME_QUEUE (TDS s u) > p then
        (if MY_QUEUE (TDS s u) > p
         then run_on (ACTIVE_PTR s) (\<lambda>s. k (mutex_boosted m s)) (sched_boost_priority_internal u p s)
         else k (mutex_boosted m s))
      else k s)"

definition mutex_lock_protect :: "addr \<Rightarrow> kernel \<Rightarrow> mqx_code option \<times> kernel" where
  "mutex_lock_protect m s =
     (if MX_PROTOCOLS (MUTEXES s m) AND MUTEX_PRIO_PROTECT \<noteq> 0
      then mutex_boost m (ACTIVE_PTR s) (MX_PRIORITY_CEILING (MUTEXES s m)) (\<lambda>s. (Some MQX_OK, s)) s
      else (Some MQX_OK, s))"

text \<open>The end of a lock, when the active task is the owner.\<close>

definition mutex_lock_owned :: "addr \<Rightarrow> kernel \<Rightarrow> mqx_code option \<times> kernel" where
  "mutex_lock_owned m s =
     (if MX_PROTOCOLS (MUTEXES s m) AND MUTEX_PRIO_INHERIT \<noteq> 0
         \<and> MX_PROTOCOLS (MUTEXES s m) AND MUTEX_PRIORITY_QUEUEING = 0
      then mutex_boost m (ACTIVE_PTR s)
             (unat (sched_get_max_priority_on_q_internal (MUTEX_WAITING_TASKS m) s))
             (mutex_lock_protect m) s
      else mutex_lock_protect m s)"

text \<open>The active task leaves its ready queue for the queue of the mutex.\<close>

definition mutex_enter :: "addr \<Rightarrow> kernel \<Rightarrow> kernel" where
  "mutex_enter m s =
     (let t = ACTIVE_PTR s; h = MUTEX_WAITING_TASKS m;
          s = UNLINK_READY t s;
          s = upd_td t (\<lambda>d. d\<lparr>INFO := h\<rparr>) s;
          s = (if MX_PROTOCOLS (MUTEXES s m) AND MUTEX_PRIORITY_QUEUEING \<noteq> 0
               then sched_insert_priorityq_internal h t s
               else s\<lparr>WAITQ := (WAITQ s)(h := WAITQ s h @ [t])\<rparr>)
      in upd_td t (\<lambda>d. d\<lparr>STATE := MUTEX_BLOCKED\<rparr>) s)"

definition mutex_lock_wait :: "addr \<Rightarrow> kernel \<Rightarrow> mqx_code option \<times> kernel" where
  "mutex_lock_wait m s = (None, sched_execute_scheduler_internal (mutex_enter m s))"

definition mutex_lock :: "addr \<Rightarrow> kernel \<Rightarrow> mqx_code option \<times> kernel" where
  "mutex_lock m s =
     (let t = ACTIVE_PTR s
      in if IN_ISR s \<noteq> 0 then (Some MQX_CANNOT_CALL_FUNCTION_FROM_ISR, s)
      else if m = NULL then (Some MQX_EINVAL, s)
      else if MX_VALID (MUTEXES s m) \<noteq> MUTEX_VALID then (Some MQX_EINVAL, s)
      else if MX_OWNER_TD (MUTEXES s m) = t then (Some MQX_EDEADLK, s)
      else let priority = MY_QUEUE (TDS s t)
      in if MX_LOCK (MUTEXES s m) \<noteq> 0 then
           (if MX_PROTOCOLS (MUTEXES s m) AND MUTEX_PRIO_INHERIT \<noteq> 0
            then mutex_boost m (MX_OWNER_TD (MUTEXES s m)) priority (mutex_lock_wait m) s
            else mutex_lock_wait m s)
         else mutex_lock_owned m
                (upd_mutex m (\<lambda>M. M\<lparr>MX_LOCK := MQX_TEST_AND_SET_VALUE, MX_OWNER_TD := t\<rparr>) s))"

definition mutex_lock_resume :: "addr \<Rightarrow> kernel \<Rightarrow> mqx_code option \<times> kernel" where
  "mutex_lock_resume m s =
     (if MX_VALID (MUTEXES s m) \<noteq> MUTEX_VALID then (Some MQX_EINVAL, s) else mutex_lock_owned m s)"

text \<open>The previous value of the byte, and the byte afterwards.\<close>

definition mem_test_and_set :: "u8 \<Rightarrow> u8 \<times> u8" where
  "mem_test_and_set v = (v, if v = 0 then MQX_TEST_AND_SET_VALUE else v)"

definition mutex_try_lock :: "addr \<Rightarrow> kernel \<Rightarrow> mqx_code option \<times> kernel" where
  "mutex_try_lock m s =
     (if m = NULL then (Some MQX_EINVAL, s)
      else if MX_VALID (MUTEXES s m) \<noteq> MUTEX_VALID then (Some MQX_EINVAL, s)
      else
        (let (was, now) = mem_test_and_set (MX_LOCK (MUTEXES s m));
             s = upd_mutex m (\<lambda>M. M\<lparr>MX_LOCK := now\<rparr>) s
         in if was \<noteq> 0 then
              (Some (if MX_OWNER_TD (MUTEXES s m) = ACTIVE_PTR s then MQX_EDEADLK else MQX_EBUSY), s)
            else mutex_lock_protect m (upd_mutex m (\<lambda>M. M\<lparr>MX_OWNER_TD := ACTIVE_PTR s\<rparr>) s)))"

section \<open>Unlocking and destroying\<close>

text \<open>
  Unlocking gives the mutex to the first waiting task. The processor can go to that task at two
  points: when it is boosted to the ceiling, and at the check of the scheduler; the rest is then
  done when the unlocking task runs again.
\<close>

definition mutex_unlock_unboost :: "u32 \<Rightarrow> kernel \<Rightarrow> mqx_code option \<times> kernel" where
  "mutex_unlock_unboost boosted s =
     (Some MQX_OK,
      if boosted \<noteq> 0 then sched_unboost_priority_internal (ACTIVE_PTR s) boosted s else s)"

definition mutex_unlock_check :: "u32 \<Rightarrow> kernel \<Rightarrow> mqx_code option \<times> kernel" where
  "mutex_unlock_check boosted s =
     run_on (ACTIVE_PTR s) (mutex_unlock_unboost boosted) (sched_check_scheduler_internal s)"

definition mutex_unlock_boost_resume :: "addr \<Rightarrow> u32 \<Rightarrow> kernel \<Rightarrow> mqx_code option \<times> kernel" where
  "mutex_unlock_boost_resume m boosted s = mutex_unlock_check boosted (mutex_boosted m s)"

definition mutex_unlock :: "addr \<Rightarrow> kernel \<Rightarrow> mqx_code option \<times> kernel" where
  "mutex_unlock m s =
     (if m = NULL then (Some MQX_EINVAL, s)
      else if MX_VALID (MUTEXES s m) \<noteq> MUTEX_VALID then (Some MQX_EINVAL, s)
      else if MX_LOCK (MUTEXES s m) \<noteq> MQX_TEST_AND_SET_VALUE then (Some MQX_EINVAL, s)
      else if MX_OWNER_TD (MUTEXES s m) \<noteq> ACTIVE_PTR s then (Some MQX_EINVAL, s)
      else
        (let boosted = MX_BOOSTED (MUTEXES s m); h = MUTEX_WAITING_TASKS m;
             s = upd_mutex m (\<lambda>M. M\<lparr>MX_BOOSTED := 0\<rparr>) s
         in if MX_PROTOCOLS (MUTEXES s m) AND (MUTEX_SPIN_ONLY OR MUTEX_LIMITED_SPIN) \<noteq> 0
            then mutex_unlock_unboost boosted
                   (upd_mutex m (\<lambda>M. M\<lparr>MX_OWNER_TD := NULL, MX_LOCK := 0\<rparr>) s)
            else case WAITQ s h of
              t # ts \<Rightarrow>
                (let s = s\<lparr>WAITQ := (WAITQ s)(h := ts)\<rparr>;
                     s = upd_mutex m (\<lambda>M. M\<lparr>MX_OWNER_TD := t\<rparr>) s;
                     s = TASK_READY t s
                 in if MX_PROTOCOLS (MUTEXES s m) AND MUTEX_PRIO_PROTECT \<noteq> 0
                    then mutex_boost m t (MX_PRIORITY_CEILING (MUTEXES s m)) (mutex_unlock_check boosted) s
                    else mutex_unlock_check boosted s)
            | [] \<Rightarrow> mutex_unlock_unboost boosted
                      (upd_mutex m (\<lambda>M. M\<lparr>MX_LOCK := 0, MX_OWNER_TD := NULL\<rparr>) s)))"

definition task_set_error_td_internal :: "addr \<Rightarrow> mqx_code \<Rightarrow> kernel \<Rightarrow> mqx_code \<times> kernel" where
  "task_set_error_td_internal t new_error_code s =
     (let old_error_code = TASK_ERROR_CODE (TDS s t)
      in (old_error_code,
          if new_error_code = MQX_OK \<or> old_error_code = MQX_OK
          then upd_td t (\<lambda>d. d\<lparr>TASK_ERROR_CODE := new_error_code\<rparr>) s else s))"

fun mutex_destroy_loop :: "addr \<Rightarrow> addr list \<Rightarrow> kernel \<Rightarrow> kernel" where
  "mutex_destroy_loop h [] s = s"
| "mutex_destroy_loop h (t # ts) s =
     (let s = s\<lparr>WAITQ := (WAITQ s)(h := ts)\<rparr>;
          s = snd (task_set_error_td_internal t MQX_EINVAL s)
      in mutex_destroy_loop h ts (TASK_READY t s))"

definition mutex_destroy_owned :: "addr \<Rightarrow> kernel \<Rightarrow> mqx_code option \<times> kernel" where
  "mutex_destroy_owned m s =
     (let h = MUTEX_WAITING_TASKS m;
          s = upd_mutex m (\<lambda>M. M\<lparr>MX_VALID := 0\<rparr>) s;
          s = s\<lparr>MUTEX_LIST := remove1 m (MUTEX_LIST s)\<rparr>;
          s = mutex_destroy_loop h (WAITQ s h) s;
          s = (if MX_BOOSTED (MUTEXES s m) \<noteq> 0
               then sched_unboost_priority_internal (ACTIVE_PTR s) (MX_BOOSTED (MUTEXES s m)) s else s)
      in (Some MQX_OK, sched_check_scheduler_internal s))"

definition mutex_destroy_locked :: "addr \<Rightarrow> mqx_code option \<times> kernel \<Rightarrow> mqx_code option \<times> kernel" where
  "mutex_destroy_locked m r =
     (if fst r = Some MQX_OK then mutex_destroy_owned m (snd r) else r)"

definition mutex_destroy :: "addr \<Rightarrow> kernel \<Rightarrow> mqx_code option \<times> kernel" where
  "mutex_destroy m s =
     (case MUTEX_COMPONENT s of
        None \<Rightarrow> (Some MQX_COMPONENT_DOES_NOT_EXIST, s)
      | Some valid \<Rightarrow>
          if valid \<noteq> MUTEX_VALID then (Some MQX_INVALID_COMPONENT_BASE, s)
          else if MX_OWNER_TD (MUTEXES s m) \<noteq> ACTIVE_PTR s then mutex_destroy_locked m (mutex_lock m s)
          else mutex_destroy_owned m s)"

definition mutex_destroy_resume :: "addr \<Rightarrow> kernel \<Rightarrow> mqx_code option \<times> kernel" where
  "mutex_destroy_resume m s = mutex_destroy_locked m (mutex_lock_resume m s)"

section \<open>Queries\<close>

definition mutex_set_priority_ceiling :: "addr \<Rightarrow> nat \<Rightarrow> kernel \<Rightarrow> mqx_code \<times> nat option \<times> kernel" where
  "mutex_set_priority_ceiling m ceiling s =
     (if ceiling > LOWEST_TASK_PRIORITY s then (MQX_EINVAL, None, s)
      else if m = NULL then (MQX_EINVAL, None, s)
      else if MX_VALID (MUTEXES s m) \<noteq> MUTEX_VALID then (MQX_EINVAL, None, s)
      else (MQX_OK, Some (MX_PRIORITY_CEILING (MUTEXES s m)),
            upd_mutex m (\<lambda>M. M\<lparr>MX_PRIORITY_CEILING := ceiling\<rparr>) s))"

definition mutex_get_priority_ceiling :: "addr \<Rightarrow> kernel \<Rightarrow> mqx_code \<times> nat option" where
  "mutex_get_priority_ceiling m s =
     (if m = NULL then (MQX_EINVAL, None)
      else if MX_VALID (MUTEXES s m) \<noteq> MUTEX_VALID then (MQX_EINVAL, None)
      else (MQX_OK, Some (MX_PRIORITY_CEILING (MUTEXES s m))))"

definition mutex_get_wait_count :: "addr \<Rightarrow> kernel \<Rightarrow> u32 \<times> kernel" where
  "mutex_get_wait_count m s =
     (if m = NULL then (MAX_MQX_UINT, snd (task_set_error MQX_EINVAL s))
      else if MX_VALID (MUTEXES s m) \<noteq> MUTEX_VALID
      then (MAX_MQX_UINT, snd (task_set_error MQX_EINVAL s))
      else (ucast (of_nat (length (WAITQ s (MUTEX_WAITING_TASKS m))) :: u16), s))"

lemmas mutex_defs [kernel_defs] = upd_mutex_def run_on_def mutex_boosted_def mutex_boost_def
  mutex_lock_def mutex_lock_wait_def mutex_enter_def mutex_lock_owned_def mutex_lock_protect_def
  mutex_lock_resume_def mutex_unlock_def mutex_unlock_check_def mutex_unlock_unboost_def

section \<open>The operations keep the invariant\<close>

lemma upd_mutex_simps [simp]:
  "TDS (upd_mutex m f s) = TDS s" "READYQ (upd_mutex m f s) = READYQ s"
  "TIMEOUT_QUEUE (upd_mutex m f s) = TIMEOUT_QUEUE s" "WAITQ (upd_mutex m f s) = WAITQ s"
  "CURRENT_READY_Q (upd_mutex m f s) = CURRENT_READY_Q s"
  "LOWEST_TASK_PRIORITY (upd_mutex m f s) = LOWEST_TASK_PRIORITY s"
  "ACTIVE_PTR (upd_mutex m f s) = ACTIVE_PTR s" "IN_ISR (upd_mutex m f s) = IN_ISR s"
  "MUTEXES (upd_mutex m f s) = (MUTEXES s)(m := f (MUTEXES s m))" "LWSEMS (upd_mutex m f s) = LWSEMS s"
  "TASK_QUEUES (upd_mutex m f s) = TASK_QUEUES s" "LWEVENTS (upd_mutex m f s) = LWEVENTS s"
  "LWMSGQS (upd_mutex m f s) = LWMSGQS s" "MUTEX_LIST (upd_mutex m f s) = MUTEX_LIST s"
  "MUTEX_COMPONENT (upd_mutex m f s) = MUTEX_COMPONENT s" "tasks (upd_mutex m f s) = tasks s"
  by (simp_all add: upd_mutex_def tasks_def)

lemma upd_mutex_ok:
  assumes "kinv {} s"
  shows "op_ok {} s (upd_mutex m f s)" "active_ok s \<Longrightarrow> active_ok (upd_mutex m f s)"
    "top_ok s \<Longrightarrow> top_ok (upd_mutex m f s)"
proof -
  have "kinv {} (upd_mutex m f s)" by (rule kinv_cong [OF assms]) auto
  then show "op_ok {} s (upd_mutex m f s)" by (rule op_okI) auto
qed (auto simp: active_ok_def top_ok_def)

lemma mutex_enter_simps [simp]:
  "TDS (mutex_enter m s) = (TDS s)(ACTIVE_PTR s :=
     (TDS s (ACTIVE_PTR s))\<lparr>STATE := MUTEX_BLOCKED, INFO := MUTEX_WAITING_TASKS m\<rparr>)"
  "tasks (mutex_enter m s) = tasks s" "IN_ISR (mutex_enter m s) = IN_ISR s"
  "ACTIVE_PTR (mutex_enter m s) = ACTIVE_PTR s" "LWSEMS (mutex_enter m s) = LWSEMS s"
  "TASK_QUEUES (mutex_enter m s) = TASK_QUEUES s" "LWEVENTS (mutex_enter m s) = LWEVENTS s"
  "LWMSGQS (mutex_enter m s) = LWMSGQS s" "MUTEXES (mutex_enter m s) = MUTEXES s"
  by (auto simp: mutex_enter_def Let_def sched_insert_priorityq_internal_def tasks_def upd_td_def
      UNLINK_READY_def)

lemma mutex_enter_queue:
  "WAITQ (mutex_enter m s) = (WAITQ s)(MUTEX_WAITING_TASKS m :=
     (if MX_PROTOCOLS (MUTEXES s m) AND MUTEX_PRIORITY_QUEUEING \<noteq> 0
      then priority_insert (\<lambda>u. MY_QUEUE (TDS s u)) (ACTIVE_PTR s) (WAITQ s (MUTEX_WAITING_TASKS m))
      else WAITQ s (MUTEX_WAITING_TASKS m) @ [ACTIVE_PTR s]))"
proof -
  have "(\<lambda>u. MY_QUEUE (((TDS s)(t := (TDS s t)\<lparr>INFO := h\<rparr>)) u)) = (\<lambda>u. MY_QUEUE (TDS s u))" for t h
    by auto
  then show ?thesis by (simp add: mutex_enter_def Let_def sched_insert_priorityq_internal_def)
qed

text \<open>The state of the task may as well be written before it is linked.\<close>

lemma mutex_enter_eq:
  fixes m :: addr and s :: kernel
  defines "t \<equiv> ACTIVE_PTR s" and "h \<equiv> MUTEX_WAITING_TASKS m"
  defines "s0 \<equiv> upd_td t (\<lambda>d. d\<lparr>STATE := MUTEX_BLOCKED\<rparr>) (upd_td t (\<lambda>d. d\<lparr>INFO := h\<rparr>) (UNLINK_READY t s))"
  shows "mutex_enter m s = s0\<lparr>WAITQ := (WAITQ s0)(h :=
     (if MX_PROTOCOLS (MUTEXES s m) AND MUTEX_PRIORITY_QUEUEING \<noteq> 0
      then priority_insert (\<lambda>u. MY_QUEUE (TDS s u)) t (WAITQ s0 h) else WAITQ s0 h @ [t]))\<rparr>"
proof -
  have "(\<lambda>u. MY_QUEUE (((TDS s)(t := (TDS s t)\<lparr>INFO := h\<rparr>)) u)) = (\<lambda>u. MY_QUEUE (TDS s u))" by auto
  then show ?thesis
    by (simp add: mutex_enter_def Let_def sched_insert_priorityq_internal_def s0_def t_def h_def)
      (simp add: upd_td_def UNLINK_READY_def)
qed

lemma mutex_enter_ok:
  assumes "kinv {} s" "ACTIVE_PTR s \<in> tasks s" "STATE (TDS s (ACTIVE_PTR s)) = READY"
  shows "op_ok {ACTIVE_PTR s} s (mutex_enter m s)"
proof (rule op_okI)
  let ?t = "ACTIVE_PTR s" and ?h = "MUTEX_WAITING_TASKS m"
  let ?s = "upd_td ?t (\<lambda>d. d\<lparr>STATE := MUTEX_BLOCKED\<rparr>) (upd_td ?t (\<lambda>d. d\<lparr>INFO := ?h\<rparr>) (UNLINK_READY ?t s))"
  have q: "MY_QUEUE (TDS s ?t) \<le> LOWEST_TASK_PRIORITY s + 1"
    using kinv_queues [OF assms(1)] assms(2) by (simp add: queues_ok_def)
  have "kinv {?t} (UNLINK_READY ?t s)" using kinv_unlink [OF assms(1,3)] by simp
  then have "kinv {?t} (upd_td ?t (\<lambda>d. d\<lparr>INFO := ?h\<rparr>) (UNLINK_READY ?t s))"
    using q by (intro kinv_upd_loose) auto
  then have "kinv {?t} ?s" by (rule kinv_upd_loose) (use q in auto)
  from fifo.kinv_enter [OF this, of ?t ?h] prio.kinv_enter [OF this, of ?t ?h]
  show "kinv {} (mutex_enter m s)" using assms(2) by (simp add: mutex_enter_eq)
qed auto

lemma mutex_lock_wait_ok:
  assumes "kinv {} s" "active_ok s" "r \<in> tasks s" "STATE (TDS s r) = READY" "r \<noteq> ACTIVE_PTR s"
  shows "op_ok {ACTIVE_PTR s} s (snd (mutex_lock_wait m s))" "active_ok (snd (mutex_lock_wait m s))"
    "top_ok (snd (mutex_lock_wait m s))"
proof -
  have a: "ACTIVE_PTR s \<in> tasks s" "STATE (TDS s (ACTIVE_PTR s)) = READY"
    using assms(2) by (auto simp: active_ok_def)
  from op_exec [OF mutex_enter_ok [OF assms(1) a] assms(3) _ assms(4), of m]
  show "op_ok {ACTIVE_PTR s} s (snd (mutex_lock_wait m s))" "active_ok (snd (mutex_lock_wait m s))"
    "top_ok (snd (mutex_lock_wait m s))"
    using assms(5) by (simp_all add: mutex_lock_wait_def)
qed

text \<open>Handing the mutex over: the first waiting task is released, and is the owner.\<close>

lemma TASK_READY_upd_mutex: "TASK_READY t (upd_mutex m f s) = upd_mutex m f (TASK_READY t s)"
  by (simp add: TASK_READY_def upd_mutex_def upd_td_def Let_def)

lemma mutex_handoff_released:
  assumes "kinv {} s" "WAITQ s h = t # ts" "\<not> on_timeout (STATE (TDS s t))"
  shows "\<exists>s1. released [t] h s s1 \<and>
    TASK_READY t (upd_mutex m f (s\<lparr>WAITQ := (WAITQ s)(h := ts)\<rparr>)) = upd_mutex m f s1"
  using released_one [OF assms(1,2)] assms(3) by (auto simp: TIME_DEQUEUE_eq TASK_READY_upd_mutex)

text \<open>Destroying: every waiting task is released, with an error code.\<close>

lemma set_error_td_eq:
  "snd (task_set_error_td_internal t e s) =
     upd_td t (\<lambda>d. if e = MQX_OK \<or> TASK_ERROR_CODE d = MQX_OK then d\<lparr>TASK_ERROR_CODE := e\<rparr> else d) s"
  by (simp add: task_set_error_td_internal_def Let_def upd_td_def)

lemma TASK_READY_set_error:
  "TASK_READY t (snd (task_set_error_td_internal t e s)) = snd (task_set_error_td_internal t e (TASK_READY t s))"
  unfolding set_error_td_eq
  by (rule kernel.equality) (simp_all add: TASK_READY_def upd_td_def Let_def fun_eq_iff)

lemma mutex_destroy_loop_released:
  "kinv {} s \<Longrightarrow> WAITQ s h = ts \<Longrightarrow> (\<forall>t \<in> set ts. \<not> on_timeout (STATE (TDS s t))) \<Longrightarrow>
   released ts h s (mutex_destroy_loop h ts s)"
proof (induction ts arbitrary: s)
  case (Cons t ts)
  let ?s = "TASK_READY t (snd (task_set_error_td_internal t MQX_EINVAL (s\<lparr>WAITQ := (WAITQ s)(h := ts)\<rparr>)))"
  have "released [t] h s (TASK_READY t (s\<lparr>WAITQ := (WAITQ s)(h := ts)\<rparr>))"
    using released_one [OF Cons.prems(1,2)] Cons.prems(3) by (simp add: TIME_DEQUEUE_eq)
  then have 1: "released [t] h s ?s"
    by (subst TASK_READY_set_error, subst set_error_td_eq) (rule released_upd; simp)
  have "WAITQ ?s h = ts" "\<And>u. u \<noteq> t \<Longrightarrow> TDS ?s u = TDS s u"
    by (simp_all add: task_set_error_td_internal_def Let_def)
  moreover have "t \<notin> set ts"
    using kinv_queues [OF Cons.prems(1)] Cons.prems(2) by (metis distinct.simps(2) queues_ok_def)
  moreover have "\<not> on_timeout (STATE (TDS ?s u))" if "u \<in> set ts" for u
    using that calculation(2) [of u] calculation(3) Cons.prems(3) by auto
  ultimately have "released ts h ?s (mutex_destroy_loop h ts ?s)"
    using released_frame(1) [OF 1] by (intro Cons.IH) auto
  from released_append [OF 1 this] show ?case by (simp add: Let_def)
qed (simp add: released_nil)

end
