(* ===== verification/Objects.thy ===== *)
theory Objects
  imports Mutex
begin

text \<open>
  The invariant that ties waiting tasks to the objects they wait on. A header of waiting tasks
  belongs to at most one live object (task queue, semaphore, event group, or one of the two
  sides of a message queue); every task on it waits for that kind of object; and it has a
  reason to wait: its semaphore has no token left, its event group does not satisfy it.
\<close>

section \<open>The invariant\<close>

definition base_state :: "u32 \<Rightarrow> u32" where
  "base_state w = w AND NOT IS_ON_TIMEOUT_Q"

text \<open>\<open>owner s h k\<close>: a live object keeps, at the header \<open>h\<close>, tasks that are blocked in state \<open>k\<close>.\<close>

definition owner :: "kernel \<Rightarrow> addr \<Rightarrow> u32 \<Rightarrow> bool" where
  "owner s h k \<longleftrightarrow>
     k = TASK_QUEUE_BLOCKED \<and> TQ_VALID (TASK_QUEUES s (h - 16)) = TASK_QUEUE_VALID
   \<or> k = LWSEM_BLOCKED \<and> SEM_VALID (LWSEMS s (h - 8)) = LWSEM_VALID
   \<or> k = LWEVENT_BLOCKED \<and> EV_VALID (LWEVENTS s (h - 8)) = LWEVENT_VALID
   \<or> k = LWMSGQ_WRITE_BLOCKED \<and> MQ_VALID (LWMSGQS s (h - 8)) = LWMSGQ_VALID
   \<or> k = LWMSGQ_READ_BLOCKED \<and> MQ_VALID (LWMSGQS s (h - 20)) = LWMSGQ_VALID
   \<or> k = MUTEX_BLOCKED \<and> MX_VALID (MUTEXES s (h - 28)) = MUTEX_VALID"

definition quiet :: "kernel \<Rightarrow> addr \<Rightarrow> addr \<Rightarrow> bool" where
  "quiet s h t \<longleftrightarrow>
     (base_state (STATE (TDS s t)) = LWSEM_BLOCKED \<longrightarrow> sint (SEM_VALUE (LWSEMS s (h - 8))) \<le> 0)
   \<and> (base_state (STATE (TDS s t)) = LWEVENT_BLOCKED \<longrightarrow>
        \<not> lwevent_satisfied (TDS s t) (EV_VALUE (LWEVENTS s (h - 8))))
   \<and> (base_state (STATE (TDS s t)) = MUTEX_BLOCKED \<longrightarrow>
        MX_LOCK (MUTEXES s (h - 28)) \<noteq> 0 \<and> MX_OWNER_TD (MUTEXES s (h - 28)) \<noteq> t)"

text \<open>
  A live mutex is either free, or locked and owned by a task; and its tasks wait on its queue,
  they do not spin.
\<close>

definition mutex_ok :: "kernel \<Rightarrow> addr \<Rightarrow> bool" where
  "mutex_ok s m \<longleftrightarrow> MX_VALID (MUTEXES s m) = MUTEX_VALID \<longrightarrow>
     MX_PROTOCOLS (MUTEXES s m) AND 3 = 0
   \<and> (MX_LOCK (MUTEXES s m) = 0 \<and> MX_OWNER_TD (MUTEXES s m) = NULL
      \<or> MX_LOCK (MUTEXES s m) = MQX_TEST_AND_SET_VALUE \<and> MX_OWNER_TD (MUTEXES s m) \<in> tasks s)"

definition waiting_ok :: "kernel \<Rightarrow> addr \<Rightarrow> addr \<Rightarrow> bool" where
  "waiting_ok s h t \<longleftrightarrow> owner s h (base_state (STATE (TDS s t))) \<and> quiet s h t"

definition obj_ok :: "kernel \<Rightarrow> bool" where
  "obj_ok s \<longleftrightarrow> (\<forall>h k k'. owner s h k \<and> owner s h k' \<longrightarrow> k = k')
     \<and> (\<forall>h. \<forall>t \<in> set (WAITQ s h). waiting_ok s h t) \<and> (\<forall>m. mutex_ok s m)"

lemma base_states [simp]:
  "base_state READY = READY" "base_state BLOCKED = BLOCKED"
  "base_state TASK_QUEUE_BLOCKED = TASK_QUEUE_BLOCKED"
  "base_state LWSEM_BLOCKED = LWSEM_BLOCKED" "base_state 0x52B = LWSEM_BLOCKED"
  "base_state LWEVENT_BLOCKED = LWEVENT_BLOCKED" "base_state 0x52D = LWEVENT_BLOCKED"
  "base_state LWMSGQ_READ_BLOCKED = LWMSGQ_READ_BLOCKED" "base_state 0x531 = LWMSGQ_READ_BLOCKED"
  "base_state LWMSGQ_WRITE_BLOCKED = LWMSGQ_WRITE_BLOCKED" "base_state 0x102 = READY"
  "base_state MUTEX_BLOCKED = MUTEX_BLOCKED"
  by (simp_all add: base_state_def)

lemma obj_okD:
  "obj_ok s \<Longrightarrow> t \<in> set (WAITQ s h) \<Longrightarrow> waiting_ok s h t"
  "obj_ok s \<Longrightarrow> owner s h k \<Longrightarrow> owner s h k' \<Longrightarrow> k = k'"
  "obj_ok s \<Longrightarrow> mutex_ok s m"
  unfolding obj_ok_def by blast+

text \<open>What a task on the queue of a live object waits for.\<close>

lemma obj_ok_kind:
  assumes "obj_ok s" "owner s h k" "t \<in> set (WAITQ s h)"
  shows "base_state (STATE (TDS s t)) = k"
  using obj_okD(1) [OF assms(1,3)] obj_okD(2) [OF assms(1,2)] by (auto simp: waiting_ok_def)

lemma untimed_kind:
  assumes "legal_state w" "base_state w = TASK_QUEUE_BLOCKED \<or> base_state w = LWMSGQ_WRITE_BLOCKED \<or> base_state w = MUTEX_BLOCKED"
  shows "\<not> on_timeout w"
  using assms legal_timeout_states [OF assms(1)] by auto

lemma obj_ok_untimed:
  assumes "obj_ok s" "kinv {} s" "owner s h TASK_QUEUE_BLOCKED \<or> owner s h LWMSGQ_WRITE_BLOCKED \<or> owner s h MUTEX_BLOCKED"
  shows "\<forall>t \<in> set (WAITQ s h). \<not> on_timeout (STATE (TDS s t))"
  using obj_ok_kind [OF assms(1)] kinv_waitq_mem [OF assms(2)] assms(3) untimed_kind by blast

section \<open>What keeps the invariant\<close>

definition same_objects :: "kernel \<Rightarrow> kernel \<Rightarrow> bool" where
  "same_objects s s' \<longleftrightarrow> TASK_QUEUES s' = TASK_QUEUES s \<and> LWSEMS s' = LWSEMS s \<and> LWEVENTS s' = LWEVENTS s
     \<and> (\<forall>q. MQ_VALID (LWMSGQS s' q) = MQ_VALID (LWMSGQS s q)) \<and> tasks s' = tasks s
     \<and> (\<forall>m. MX_VALID (MUTEXES s' m) = MX_VALID (MUTEXES s m) \<and> MX_LOCK (MUTEXES s' m) = MX_LOCK (MUTEXES s m)
          \<and> MX_PROTOCOLS (MUTEXES s' m) = MX_PROTOCOLS (MUTEXES s m) \<and> MX_OWNER_TD (MUTEXES s' m) = MX_OWNER_TD (MUTEXES s m))"

definition same_waiter :: "kernel \<Rightarrow> kernel \<Rightarrow> addr \<Rightarrow> bool" where
  "same_waiter s s' t \<longleftrightarrow> STATE (TDS s' t) = STATE (TDS s t)
     \<and> LWEVENT_BITS (TDS s' t) = LWEVENT_BITS (TDS s t)
     \<and> FLAGS (TDS s' t) AND TASK_LWEVENT_ALL_BITS_WANTED = FLAGS (TDS s t) AND TASK_LWEVENT_ALL_BITS_WANTED"

lemma same_waiter_eq: "TDS s' t = TDS s t \<Longrightarrow> same_waiter s s' t"
  by (simp add: same_waiter_def)

lemma owner_same: "same_objects s s' \<Longrightarrow> owner s' = owner s"
  by (simp add: owner_def same_objects_def fun_eq_iff)

lemma mutex_ok_same: "same_objects s s' \<Longrightarrow> mutex_ok s' = mutex_ok s"
  by (simp add: mutex_ok_def same_objects_def fun_eq_iff)

lemma mutex_ok_cong: "MUTEXES s' = MUTEXES s \<Longrightarrow> tasks s' = tasks s \<Longrightarrow> mutex_ok s m \<Longrightarrow> mutex_ok s' m"
  by (simp add: mutex_ok_def)

lemma waiting_ok_same:
  "same_objects s s' \<Longrightarrow> same_waiter s s' t \<Longrightarrow> waiting_ok s' h t = waiting_ok s h t"
  using owner_same [of s s']
  by (simp add: waiting_ok_def quiet_def same_waiter_def same_objects_def lwevent_satisfied_def)

lemma obj_frame:
  assumes "obj_ok s" "same_objects s s'"
    and "\<And>h t. t \<in> set (WAITQ s' h) \<Longrightarrow>
           t \<in> set (WAITQ s h) \<and> same_waiter s s' t \<or> waiting_ok s' h t"
  shows "obj_ok s'"
  using assms(1,3) waiting_ok_same [OF assms(2)] unfolding obj_ok_def owner_same [OF assms(2)] mutex_ok_same [OF assms(2)] by blast

text \<open>An operation that only touches the descriptor of a ready task.\<close>

lemma obj_ready_frame:
  assumes "obj_ok s" "kinv {} s" "STATE (TDS s a) = READY" "same_objects s s'"
    and "\<And>h. set (WAITQ s' h) \<subseteq> set (WAITQ s h)" "\<And>u. u \<noteq> a \<Longrightarrow> TDS s' u = TDS s u"
  shows "obj_ok s'"
proof (rule obj_frame [OF assms(1,4)])
  fix h t assume "t \<in> set (WAITQ s' h)"
  then have t: "t \<in> set (WAITQ s h)" using assms(5) by blast
  then have "t \<noteq> a" using kinv_waitq_mem [OF assms(2) t] assms(3) by auto
  then show "t \<in> set (WAITQ s h) \<and> same_waiter s s' t \<or> waiting_ok s' h t"
    using t assms(6) by (simp add: same_waiter_eq)
qed

text \<open>An operation that changes no object, no wait queue, and nothing a waiting task waits by.\<close>

lemma obj_still:
  assumes "obj_ok s" "same_objects s s'" "\<And>h. set (WAITQ s' h) \<subseteq> set (WAITQ s h)" "\<And>t. same_waiter s s' t"
  shows "obj_ok s'"
  using obj_frame [OF assms(1,2)] assms(3,4) by blast

lemma obj_released:
  assumes "obj_ok s" "released D h s s1"
  shows "obj_ok s1"
proof (rule obj_frame [OF assms(1)])
  show "same_objects s s1" using released_frame [OF assms(2)] by (simp add: same_objects_def)
  fix g t assume g: "t \<in> set (WAITQ s1 g)"
  then have t: "t \<in> set (WAITQ s g)" using assms(2) by (auto simp: released_def split: if_splits)
  have "t \<notin> set D"
  proof
    assume "t \<in> set D"
    then have "STATE (TDS s1 t) = READY" using releasedD [OF assms(2), of t] by simp
    then show False using kinv_waitq_mem [OF released_frame(1) [OF assms(2)] g] by simp
  qed
  then have "TDS s1 t = TDS s t" using releasedD [OF assms(2), of t] by simp
  then show "t \<in> set (WAITQ s g) \<and> same_waiter s s1 t \<or> waiting_ok s1 g t"
    using t by (simp add: same_waiter_eq)
qed

lemma obj_dispatch:
  assumes "obj_ok s"
  shows "obj_ok (sched_check_scheduler_internal s)" "obj_ok (sched_execute_scheduler_internal s)"
  by (rule obj_still [OF assms]; simp add: same_objects_def same_waiter_def)+

lemma obj_cong:
  "obj_ok s \<Longrightarrow> TDS s' = TDS s \<Longrightarrow> WAITQ s' = WAITQ s \<Longrightarrow> same_objects s s' \<Longrightarrow> obj_ok s'"
  by (rule obj_still) (auto simp: same_waiter_def)

text \<open>Destroying an object releases whoever waits on it.\<close>

lemma obj_destroyed:
  assumes "obj_ok s" "released (WAITQ s h) h s0 s1" "TDS s0 = TDS s" "WAITQ s0 = WAITQ s"
    and "\<And>g k. owner s0 g k \<Longrightarrow> owner s g k"
    and "\<And>g t. g \<noteq> h \<Longrightarrow> waiting_ok s g t \<Longrightarrow> waiting_ok s0 g t"
    and "\<And>m. mutex_ok s m \<Longrightarrow> mutex_ok s0 m"
  shows "obj_ok s1"
proof -
  have so: "same_objects s0 s1" using released_frame [OF assms(2)] by (simp add: same_objects_def)
  have "waiting_ok s1 g t" if g: "t \<in> set (WAITQ s1 g)" for g t
  proof -
    have "WAITQ s1 = (WAITQ s)(h := [])" using assms(2,4) by (simp add: released_def)
    then have gh: "g \<noteq> h" "t \<in> set (WAITQ s g)" using g by (auto split: if_splits)
    have "t \<notin> set (WAITQ s h)"
    proof
      assume "t \<in> set (WAITQ s h)"
      then have "STATE (TDS s1 t) = READY" using releasedD [OF assms(2), of t] by simp
      then show False using kinv_waitq_mem [OF released_frame(1) [OF assms(2)] g] by simp
    qed
    then have "same_waiter s0 s1 t" using releasedD [OF assms(2), of t] by (simp add: same_waiter_eq)
    then show ?thesis
      using waiting_ok_same [OF so, of t g] assms(6) [OF gh(1)] obj_okD(1) [OF assms(1) gh(2)] by blast
  qed
  then show ?thesis
    using obj_okD(2,3) [OF assms(1)] assms(5,7) unfolding obj_ok_def owner_same [OF so] mutex_ok_same [OF so] by blast
qed

text \<open>Creating an object in memory that no live object uses.\<close>

lemma obj_created:
  assumes "obj_ok s" "TDS s' = TDS s" "\<And>g. WAITQ s' g = WAITQ s g"
    and "\<And>g k. owner s' g k \<Longrightarrow> owner s g k \<or> (g, k) \<in> N"
    and "\<And>g k. (g, k) \<in> N \<Longrightarrow> (\<forall>k. \<not> owner s g k) \<and> (\<forall>k'. (g, k') \<in> N \<longrightarrow> k' = k)"
    and "\<And>g t. t \<in> set (WAITQ s g) \<Longrightarrow> waiting_ok s g t \<Longrightarrow> waiting_ok s' g t"
    and "\<And>m. mutex_ok s m \<Longrightarrow> mutex_ok s' m"
  shows "obj_ok s'"
proof -
  have "k = k'" if "owner s' g k" "owner s' g k'" for g k k'
    using assms(4) [OF that(1)] assms(4) [OF that(2)] assms(5) obj_okD(2) [OF assms(1)] by metis
  moreover have "waiting_ok s' g t" if "t \<in> set (WAITQ s' g)" for g t
    using that assms(3,6) obj_okD(1) [OF assms(1)] by simp
  moreover have "mutex_ok s' m" for m using assms(7) obj_okD(3) [OF assms(1)] by blast
  ultimately show ?thesis unfolding obj_ok_def by blast
qed

section \<open>Scheduling and time\<close>

lemma same_waiter_trans: "same_waiter s s1 t \<Longrightarrow> same_waiter s1 s2 t \<Longrightarrow> same_waiter s s2 t"
  by (simp add: same_waiter_def)

lemma flag_boosted [simp]: "((f :: u32) OR 0x8000) AND 0x80 = f AND 0x80" "(f AND - 32769) AND 0x80 = f AND 0x80"
  by (simp_all add: bit.conj_disj_distrib2 and.assoc)

lemma set_error_obj: "obj_ok s \<Longrightarrow> obj_ok (snd (task_set_error e s))"
  by (erule obj_still) (simp_all add: same_objects_def same_waiter_def, simp add: task_set_error_def Let_def)

lemma set_priority_waiter: "same_waiter s (sched_set_priority_internal t p s) u"
  by (auto simp: same_waiter_def sched_set_priority_internal_def Let_def)

lemma boost_obj:
  assumes "obj_ok s"
  shows "obj_ok (sched_boost_priority_internal t p s)" "obj_ok (sched_unboost_priority_internal t n s)"
proof -
  show "obj_ok (sched_boost_priority_internal t p s)"
    unfolding sched_boost_priority_internal_def Let_def
    by (rule obj_dispatch, rule obj_still [OF assms])
      (auto simp: same_objects_def intro!: same_waiter_trans [OF _ set_priority_waiter],
       auto simp: same_waiter_def)
  show "obj_ok (sched_unboost_priority_internal t n s)"
    unfolding sched_unboost_priority_internal_def Let_def
    by (auto simp: assms intro!: obj_dispatch obj_still [OF assms] same_waiter_trans [OF _ set_priority_waiter])
      (auto simp: same_waiter_def same_objects_def)
qed

lemma task_set_priority_obj:
  assumes "obj_ok s" "kinv {} s" "active_ok s"
  shows "obj_ok (snd (snd (task_set_priority tid p s)))"
proof -
  define t where "t = task_get_td tid s"
  define s2 where "s2 = reprioritized t p s"
  define s3 where "s3 = requeued t s2"
  have e: "snd (snd (task_set_priority tid p s)) =
      (if p > LOWEST_TASK_PRIORITY s \<or> t = NULL then s else sched_check_scheduler_internal s3)"
    by (simp add: task_set_priority_eq t_def s2_def s3_def Let_def)
  have s2: "WAITQ s2 = WAITQ s" "STATE (TDS s2 t) = STATE (TDS s t)" "INFO (TDS s2 t) = INFO (TDS s t)"
    "same_objects s s2" by (auto simp: s2_def reprioritized_def Let_def same_objects_def)
  have w: "same_waiter s s2 u" for u 
    by (auto simp: s2_def reprioritized_def same_waiter_def sched_set_priority_internal_def Let_def)
  have "obj_ok s3" if n: "t \<noteq> NULL"
  proof (rule obj_still [OF assms(1)])
    have t: "t \<in> tasks s" using task_get_td_mem n assms(3) by (auto simp: t_def active_ok_def)
    show "same_objects s s3" using s2(4) by (simp add: s3_def requeued_def Let_def same_objects_def sched_insert_priorityq_internal_def tasks_def)
    show "same_waiter s s3 u" for u
      using w [of u] by (simp add: s3_def requeued_def Let_def same_waiter_def sched_insert_priorityq_internal_def)
    have "t \<in> set (WAITQ s (INFO (TDS s2 t)))" if "STATE (TDS s2 t) = TASK_QUEUE_BLOCKED"
      using kinv_placed [OF assms(2) t] that s2(2,3) by (simp add: placed_def)
    then show "set (WAITQ s3 h) \<subseteq> set (WAITQ s h)" for h
      by (auto simp: s3_def requeued_def Let_def sched_insert_priorityq_internal_def s2(1) split: if_splits dest: set_remove1_subset [THEN subsetD])
  qed
  then show ?thesis using assms(1) by (simp add: e obj_dispatch)
qed

text \<open>Operations that only touch the descriptor of the active task.\<close>

lemma active_frame_obj:
  assumes "obj_ok s" "kinv {} s" "active_ok s" "same_objects s s'" "WAITQ s' = WAITQ s"
    and "\<And>u. u \<noteq> ACTIVE_PTR s \<Longrightarrow> TDS s' u = TDS s u"
  shows "obj_ok s'"
  using obj_ready_frame [OF assms(1,2) _ assms(4), of "ACTIVE_PTR s"] assms(3,5,6)
  by (simp add: active_ok_def)

lemma running_obj:
  assumes "obj_ok s" "kinv {} s" "active_ok s"
  shows "obj_ok (sched_yield s)" "obj_ok (task_block s)" "obj_ok (task_stop_preemption s)"
    "obj_ok (task_start_preemption s)"
  unfolding sched_yield_def task_block_def task_stop_preemption_def task_start_preemption_def Let_def
  by (intro obj_dispatch active_frame_obj [OF assms]; simp add: same_objects_def)+

lemma delay_obj:
  assumes "obj_ok s" "kinv {} s" "active_ok s"
  shows "obj_ok (time_delay_for x s)" "obj_ok (time_delay_ticks n s)" "obj_ok (time_delay_until x s)"
proof -
  show "obj_ok (time_delay_for x s)" "obj_ok (time_delay_until x s)"
    unfolding time_delay_for_def time_delay_until_def time_delay_internal_def Let_def
    by (intro obj_dispatch active_frame_obj [OF assms]; simp add: same_objects_def)+
  show "obj_ok (time_delay_ticks n s)"
    unfolding time_delay_ticks_def time_delay_internal_def Let_def set_timeout_ticks_def
    using running_obj(1) [OF assms]
    by (simp, intro impI obj_dispatch active_frame_obj [OF assms]; simp add: same_objects_def)
qed

lemma set_policy_obj:
  assumes "obj_ok s" shows "obj_ok (snd (sched_set_policy tid pol s))"
proof -
  have f: "((f :: u32) OR 4) AND 0x80 = f AND 0x80" "(f AND - 5) AND 0x80 = f AND 0x80" for f
    by (simp_all add: bit.conj_disj_distrib2 and.assoc)
  have "obj_ok (s\<lparr>SCHED_POLICY := pol\<rparr>)" by (rule obj_cong [OF assms]) (simp_all add: same_objects_def tasks_def)
  then show ?thesis
    using set_error_obj [OF assms] obj_still [OF assms]
    by (auto simp: sched_set_policy_def Let_def same_objects_def same_waiter_def f)
qed

lemma task_ready_obj:
  assumes "obj_ok s" "kinv {} s" "t \<in> tasks s" "STATE (TDS s t) = BLOCKED \<or> STATE (TDS s t) = READY"
  shows "obj_ok (task_ready t s)"
proof -
  have "obj_ok (TASK_READY t s)"
  proof (rule obj_frame [OF assms(1)])
    fix h u assume "u \<in> set (WAITQ (TASK_READY t s) h)"
    then have u: "u \<in> set (WAITQ s h)" by simp
    then have "u \<noteq> t" using kinv_waitq_mem [OF assms(2) u] assms(4) by auto
    then show "u \<in> set (WAITQ s h) \<and> same_waiter s (TASK_READY t s) u \<or> waiting_ok (TASK_READY t s) h u"
      using u by (simp add: same_waiter_eq)
  qed (simp add: same_objects_def)
  then show ?thesis using set_error_obj [OF assms(1)] by (simp add: task_ready_def obj_dispatch)
qed

text \<open>A tick: woken tasks leave their queues, the others are as they were.\<close>

lemma time_slice_frame: "u \<noteq> ACTIVE_PTR s \<Longrightarrow> TDS (time_slice_check s) u = TDS s u"
  by (simp add: time_slice_check_def Let_def)

lemma notify_frame:
  assumes "kinv {} s" "active_ok s" "u \<in> set (WAITQ (time_notify_kernel h s) g)"
  shows "TDS (time_notify_kernel h s) u = TDS s u"
proof -
  let ?s0 = "ticked h s" and ?s1 = "time_wake_loop (TIMEOUT_QUEUE s) (ticked h s)"
  have w: "woken (due ?s0) ?s0 ?s1" using time_wake_loop_woken [OF kinv_ticked [OF assms(1)]] by simp
  have a1: "kinv {} ?s1" "active_ok ?s1"
    using w assms(2) by (auto simp: woken_def active_ok_def split: if_splits)
  have g: "u \<in> set (WAITQ ?s1 g)" using assms(3) by (simp add: notify_eq time_slice_ok [OF a1])
  have "u \<notin> set (due ?s0)" using g w by (simp add: woken_def)
  moreover have "u \<noteq> ACTIVE_PTR ?s1" using kinv_waitq_mem [OF a1(1) g] a1(2) by (auto simp: active_ok_def)
  ultimately show ?thesis using w time_slice_frame by (simp add: notify_eq woken_def)
qed

lemma notify_obj:
  assumes "obj_ok s" "kinv {} s" "active_ok s"
  shows "obj_ok (time_notify_kernel h s)"
proof (rule obj_frame [OF assms(1)])
  note n = notify_spec [OF assms(2,3), of h]
  show "same_objects s (time_notify_kernel h s)" using n(1) by (simp add: same_objects_def n op_ok_def)
  fix g u assume u: "u \<in> set (WAITQ (time_notify_kernel h s) g)"
  then have "u \<in> set (WAITQ s g)" using n(5) [of g] by auto
  then show "u \<in> set (WAITQ s g) \<and> same_waiter s (time_notify_kernel h s) u \<or>
      waiting_ok (time_notify_kernel h s) g u"
    using notify_frame [OF assms(2,3) u] by (simp add: same_waiter_eq)
qed

section \<open>Task queues\<close>

lemma obj_enters:
  assumes "obj_ok s" "kinv {} s" "STATE (TDS s t) = READY" "same_objects s s'"
    and "\<And>u. u \<noteq> t \<Longrightarrow> TDS s' u = TDS s u"
    and "\<And>g. set (WAITQ s' g) = (if g = h then insert t (set (WAITQ s g)) else set (WAITQ s g))"
    and "waiting_ok s' h t"
  shows "obj_ok s'"
proof (rule obj_frame [OF assms(1,4)])
  fix g u assume u: "u \<in> set (WAITQ s' g)"
  have n: "u \<noteq> t" if "u \<in> set (WAITQ s g)" using kinv_waitq_mem [OF assms(2) that] assms(3) by auto
  show "u \<in> set (WAITQ s g) \<and> same_waiter s s' u \<or> waiting_ok s' g u"
  proof (cases "u \<in> set (WAITQ s g)")
    case True
    then show ?thesis using n assms(5) by (simp add: same_waiter_eq)
  next
    case False
    then show ?thesis using u assms(6,7) by (auto split: if_splits)
  qed
qed

lemma taskq_enter_obj:
  assumes "obj_ok s" "kinv {} s" "STATE (TDS s t) = READY" "TQ_VALID (TASK_QUEUES s q) = TASK_QUEUE_VALID"
  shows "obj_ok (taskq_enter q t s)"
  by (rule obj_enters [OF assms(1-3), where h = "TASKQ_TD_QUEUE q"])
    (use assms(4) in \<open>auto simp: same_objects_def taskq_enter_queue waiting_ok_def quiet_def owner_def TASKQ_TD_QUEUE_def\<close>)

lemma taskq_suspend_obj:
  assumes "obj_ok s" "kinv {} s" "active_ok s"
  shows "obj_ok (snd (taskq_suspend q s))"
  using taskq_enter_obj [OF assms(1,2)] assms(1,3)
  by (simp add: taskq_suspend_def Let_def active_ok_def obj_dispatch)

lemma taskq_suspend_task_obj:
  assumes "obj_ok s" "kinv {} s"
  shows "obj_ok (snd (taskq_suspend_task tid q s))"
  using taskq_enter_obj [OF assms] assms(1) by (simp add: taskq_suspend_task_def Let_def obj_dispatch)

lemma taskq_untimed:
  assumes "obj_ok s" "kinv {} s" "TQ_VALID (TASK_QUEUES s q) = TASK_QUEUE_VALID"
  shows "\<forall>t \<in> set (WAITQ s (TASKQ_TD_QUEUE q)). \<not> on_timeout (STATE (TDS s t))"
  using assms(3) by (intro obj_ok_untimed [OF assms(1,2)]) (simp add: owner_def TASKQ_TD_QUEUE_def)

lemma taskq_resume_obj:
  assumes "obj_ok s" "kinv {} s"
  shows "obj_ok (snd (taskq_resume q a s))"
proof (cases "TQ_VALID (TASK_QUEUES s q) = TASK_QUEUE_VALID")
  case True
  from taskq_resume_cases [OF assms(2) taskq_untimed [OF assms True], of a] show ?thesis
    using obj_released [OF assms(1)] assms(1) obj_dispatch(1) by metis
qed (use assms(1) in \<open>simp add: taskq_resume_def\<close>)

lemma taskq_destroy_obj:
  assumes "obj_ok s" "kinv {} s"
  shows "obj_ok (snd (taskq_destroy q s))"
proof (cases "TQ_VALID (TASK_QUEUES s q) = TASK_QUEUE_VALID")
  case True
  let ?s0 = "upd_taskq q (\<lambda>Q. Q\<lparr>TQ_VALID := 0\<rparr>) s" and ?h = "TASKQ_TD_QUEUE q"
  let ?s1 = "taskq_ready_loop ?h (WAITQ s ?h) ?s0"
  have "kinv {} ?s0" using assms(2) by (rule kinv_upd_taskq)
  then have r: "released (WAITQ s ?h) ?h ?s0 ?s1"
    using taskq_ready_loop_released [of ?s0 ?h "WAITQ s ?h"] taskq_untimed [OF assms True] by simp
  have "obj_ok ?s1"
  proof (rule obj_destroyed [OF assms(1) r])
    show "owner s g k" if "owner ?s0 g k" for g k
      using that by (auto simp: owner_def upd_taskq_def TASK_QUEUE_VALID_def split: if_splits)
    show "waiting_ok ?s0 g t" if "g \<noteq> ?h" "waiting_ok s g t" for g t
      using that by (auto simp: waiting_ok_def owner_def quiet_def upd_taskq_def TASKQ_TD_QUEUE_def)
  qed (simp_all add: mutex_ok_cong)
  then have "obj_ok (?s1\<lparr>KERNEL_TASK_QUEUES := remove1 q (KERNEL_TASK_QUEUES ?s1)\<rparr>)"
    by (rule obj_cong) (simp_all add: same_objects_def tasks_def)
  then show ?thesis using assms(1) by (simp add: taskq_destroy_def Let_def obj_dispatch)
qed (use assms(1) in \<open>simp add: taskq_destroy_def\<close>)

text \<open>The header of a new object: no live object keeps tasks there.\<close>

definition unused :: "kernel \<Rightarrow> addr \<Rightarrow> bool" where
  "unused s h \<longleftrightarrow> (\<forall>k. \<not> owner s h k) \<and> WAITQ s h = []"

lemma taskq_create_obj:
  assumes "obj_ok s" "unused s (TASKQ_TD_QUEUE mem)"
  shows "obj_ok (snd (taskq_create policy mem s))"
proof -
  have "obj_ok (snd (taskq_create policy mem s))" if n: "policy = 0 \<or> policy = 8" "IN_ISR s = 0" "mem \<noteq> NULL"
  proof (rule obj_created [OF assms(1), where N = "{(TASKQ_TD_QUEUE mem, TASK_QUEUE_BLOCKED)}"])
    show "owner s g k \<or> (g, k) \<in> {(TASKQ_TD_QUEUE mem, TASK_QUEUE_BLOCKED)}"
      if "owner (snd (taskq_create policy mem s)) g k" for g k
      using that n by (auto simp: owner_def taskq_create_def Let_def upd_taskq_def TASKQ_TD_QUEUE_def split: if_splits)
    show "waiting_ok (snd (taskq_create policy mem s)) g t" if "waiting_ok s g t" for g t
      using that n by (auto simp: waiting_ok_def owner_def quiet_def taskq_create_def Let_def upd_taskq_def TASKQ_TD_QUEUE_def)
  qed (use n assms(2) in \<open>auto simp: unused_def taskq_create_def Let_def upd_taskq_def mutex_ok_def tasks_def\<close>)
  then show ?thesis using assms(1) set_error_obj [OF assms(1)] by (auto simp: taskq_create_def Let_def)
qed

section \<open>Semaphores\<close>

text \<open>
  A change of one semaphore that keeps its stamp is harmless when its waiting tasks keep their
  reason to wait.
\<close>

lemma upd_sem_obj:
  assumes "obj_ok s" "SEM_VALID (f (LWSEMS s m)) = SEM_VALID (LWSEMS s m)"
    and "\<And>t. t \<in> set (WAITQ s (LWSEM_TD_QUEUE m)) \<Longrightarrow>
      base_state (STATE (TDS s t)) = LWSEM_BLOCKED \<Longrightarrow> sint (SEM_VALUE (f (LWSEMS s m))) \<le> 0"
  shows "obj_ok (upd_sem m f s)"
proof (rule obj_created [OF assms(1), where N = "{}"])
  show "owner s g k \<or> (g, k) \<in> {}" if "owner (upd_sem m f s) g k" for g k
    using that assms(2) by (auto simp: owner_def split: if_splits)
  fix g t assume t: "t \<in> set (WAITQ s g)" "waiting_ok s g t"
  have "sint (SEM_VALUE (f (LWSEMS s m))) \<le> 0" if "g - 8 = m" "base_state (STATE (TDS s t)) = LWSEM_BLOCKED"
    using assms(3) [of t] that t(1) by (auto simp: LWSEM_TD_QUEUE_def)
  then show "waiting_ok (upd_sem m f s) g t" using t(2) assms(2)
    by (auto simp: waiting_ok_def owner_def quiet_def)
qed (auto elim: mutex_ok_cong [rotated 2])

lemma take_token_obj:
  assumes "obj_ok s" "0 < sint (SEM_VALUE (LWSEMS s m))"
  shows "obj_ok (upd_sem m (\<lambda>S. S\<lparr>SEM_VALUE := SEM_VALUE S - 1\<rparr>) s)"
proof (rule upd_sem_obj [OF assms(1)])
  fix t assume t: "t \<in> set (WAITQ s (LWSEM_TD_QUEUE m))" "base_state (STATE (TDS s t)) = LWSEM_BLOCKED"
  then have "sint (SEM_VALUE (LWSEMS s m)) \<le> 0"
    using obj_okD(1) [OF assms(1) t(1)] by (simp add: waiting_ok_def quiet_def LWSEM_TD_QUEUE_def)
  then show "sint (SEM_VALUE ((LWSEMS s m)\<lparr>SEM_VALUE := SEM_VALUE (LWSEMS s m) - 1\<rparr>)) \<le> 0"
    using assms(2) by simp
qed simp

lemma lwsem_poll_obj: "obj_ok s \<Longrightarrow> obj_ok (snd (lwsem_poll m s))"
  using take_token_obj by (simp add: lwsem_poll_def)

lemma sint_add_one_le:
  assumes "sint (v :: u32) < 0" shows "sint (v + 1) \<le> 0"
proof -
  have "sint (v + 1) = signed_take_bit 31 (sint v + 1)" by (simp add: sint_word_ariths)
  also have "\<dots> = sint v + 1"
    using assms sint_greater_eq [of v] by (intro signed_take_bit_int_eq_self) auto
  finally show ?thesis using assms by simp
qed

lemma lwsem_post_obj:
  assumes "obj_ok s" "kinv {} s"
  shows "obj_ok (snd (lwsem_post m s))"
proof (cases "SEM_VALID (LWSEMS s m) = LWSEM_VALID")
  case valid: True
  let ?h = "LWSEM_TD_QUEUE m" and ?v = "SEM_VALUE (LWSEMS s m)"
  show ?thesis
  proof (cases "0 \<le> sint ?v \<and> WAITQ s ?h \<noteq> []")
    case True
    then obtain t ts where "WAITQ s ?h = t # ts" by (cases "WAITQ s ?h") auto
    then obtain s1 where s1: "released [t] ?h s s1"
      "lwsem_post m s = (MQX_OK, sched_check_scheduler_internal (upd_td t (\<lambda>d. d\<lparr>INFO := 0\<rparr>) s1))"
      using lwsem_post_release [OF assms(2) valid] True by blast
    have "obj_ok (upd_td t (\<lambda>d. d\<lparr>INFO := 0\<rparr>) s1)"
      by (rule obj_still [OF obj_released [OF assms(1) s1(1)]]) (simp_all add: same_objects_def same_waiter_def)
    then show ?thesis by (simp add: s1(2) obj_dispatch)
  next
    case False
    have "obj_ok (upd_sem m (\<lambda>S. S\<lparr>SEM_VALUE := SEM_VALUE S + 1\<rparr>) s)"
      by (rule upd_sem_obj [OF assms(1)]) (use False sint_add_one_le [of ?v] in \<open>auto simp: not_le\<close>)
    then show ?thesis using False valid by (auto simp: lwsem_post_def Let_def split: list.split)
  qed
qed (use assms(1) in \<open>simp add: lwsem_post_def\<close>)

lemma lwsem_wait_obj:
  assumes "obj_ok s" "kinv {} s" "active_ok s"
    and "res \<in> {lwsem_wait m s, lwsem_wait_for m ticks s, lwsem_wait_ticks m n s, lwsem_wait_until m ticks s}"
  shows "obj_ok (snd res)"
proof -
  let ?t = "ACTIVE_PTR s" and ?h = "LWSEM_TD_QUEUE m"
  have r: "STATE (TDS s ?t) = READY" using assms(3) by (simp add: active_ok_def)
  have frame: "obj_ok (snd (lwsem_wait_frame blk m s))"
    if "SEM_VALID (LWSEMS s m) = LWSEM_VALID \<Longrightarrow> sint (SEM_VALUE (LWSEMS s m)) \<le> 0 \<Longrightarrow> obj_ok (blk ?t s)" for blk
    using that assms(1) take_token_obj [OF assms(1), of m] by (simp add: lwsem_wait_frame_def)
  have bl: "obj_ok (sched_execute_scheduler_internal (lwsem_enqueue_active m ?t s))"
    and bt: "obj_ok (lwsem_wait_timed_internal m ?t (upd_td ?t (\<lambda>d. d\<lparr>TIMEOUT := x d\<rparr>) s))"
    if v: "SEM_VALID (LWSEMS s m) = LWSEM_VALID" "sint (SEM_VALUE (LWSEMS s m)) \<le> 0" for x
    unfolding lwsem_wait_timed_internal_def time_delay_internal_def
    by (rule obj_dispatch, rule obj_enters [OF assms(1,2) r, where h = ?h];
        use v in \<open>simp add: same_objects_def waiting_ok_def quiet_def owner_def LWSEM_TD_QUEUE_def\<close>)+
  show ?thesis
    using assms(4) bl bt
    by (auto simp: lwsem_wait_def lwsem_wait_for_def lwsem_wait_ticks_def lwsem_wait_until_def
        set_timeout_ticks_def simp del: snd_conv intro!: frame)
qed

lemma lwsem_destroy_obj:
  assumes "obj_ok s" "kinv {} s"
  shows "obj_ok (snd (lwsem_destroy m s))"
proof (cases "SEM_VALID (LWSEMS s m) = LWSEM_VALID")
  case True
  let ?s0 = "upd_sem m (\<lambda>S. S\<lparr>SEM_VALID := 0\<rparr>) s" and ?h = "LWSEM_TD_QUEUE m"
  from True obtain s1 where r: "released (WAITQ s ?h) ?h ?s0 s1"
    and e: "lwsem_destroy m s =
      (MQX_OK, sched_check_scheduler_internal (s1\<lparr>LWSEM_LIST := remove1 m (LWSEM_LIST s1)\<rparr>))"
    using lwsem_destroy_released [OF assms(2)] by blast
  have "obj_ok s1"
  proof (rule obj_destroyed [OF assms(1) r])
    show "owner s g k" if "owner ?s0 g k" for g k
      using that by (auto simp: owner_def LWSEM_VALID_def split: if_splits)
    show "waiting_ok ?s0 g t" if "g \<noteq> ?h" "waiting_ok s g t" for g t
      using that by (auto simp: waiting_ok_def owner_def quiet_def LWSEM_TD_QUEUE_def)
  qed (simp_all add: mutex_ok_cong)
  then have "obj_ok (s1\<lparr>LWSEM_LIST := remove1 m (LWSEM_LIST s1)\<rparr>)"
    by (rule obj_cong) (simp_all add: same_objects_def tasks_def)
  then show ?thesis by (simp add: e obj_dispatch)
qed (use assms(1) in \<open>auto simp: lwsem_destroy_def lwsem_destroy_internal_def\<close>)

lemma lwsem_create_obj:
  assumes "obj_ok s" "unused s (LWSEM_TD_QUEUE m)"
  shows "obj_ok (snd (lwsem_create_internal m n hidden s))"
proof (rule obj_created [OF assms(1), where N = "{(LWSEM_TD_QUEUE m, LWSEM_BLOCKED)}"])
  show "owner s g k \<or> (g, k) \<in> {(LWSEM_TD_QUEUE m, LWSEM_BLOCKED)}"
    if "owner (snd (lwsem_create_internal m n hidden s)) g k" for g k
    using that by (auto simp: owner_def lwsem_create_internal_def Let_def upd_sem_def LWSEM_TD_QUEUE_def split: if_splits)
  have n: "\<not> owner s g LWSEM_BLOCKED" if "g - 8 = m" for g
    using assms(2) that by (auto simp: unused_def LWSEM_TD_QUEUE_def)
  show "waiting_ok (snd (lwsem_create_internal m n hidden s)) g t"
    if "t \<in> set (WAITQ s g)" "waiting_ok s g t" for g t
    using that n [of g] by (auto simp: waiting_ok_def owner_def quiet_def lwsem_create_internal_def Let_def upd_sem_def)
qed (use assms(2) in \<open>auto simp: unused_def lwsem_create_internal_def Let_def upd_sem_def mutex_ok_def tasks_def\<close>)

section \<open>Event groups\<close>

lemma upd_event_obj:
  assumes "obj_ok s" "EV_VALID (f (LWEVENTS s e)) = EV_VALID (LWEVENTS s e)"
    and "\<And>t. t \<in> set (WAITQ s (WAITING_TASKS e)) \<Longrightarrow>
      base_state (STATE (TDS s t)) = LWEVENT_BLOCKED \<Longrightarrow>
      \<not> lwevent_satisfied (TDS s t) (EV_VALUE (LWEVENTS s e)) \<Longrightarrow>
      \<not> lwevent_satisfied (TDS s t) (EV_VALUE (f (LWEVENTS s e)))"
  shows "obj_ok (upd_event e f s)"
proof (rule obj_created [OF assms(1), where N = "{}"])
  show "owner s g k \<or> (g, k) \<in> {}" if "owner (upd_event e f s) g k" for g k
    using that assms(2) by (auto simp: owner_def split: if_splits)
  fix g t assume t: "t \<in> set (WAITQ s g)" "waiting_ok s g t"
  have "g - 8 = e \<Longrightarrow> g = WAITING_TASKS e" by (auto simp: WAITING_TASKS_def)
  then have "\<not> lwevent_satisfied (TDS s t) (EV_VALUE (f (LWEVENTS s e)))"
    if "g - 8 = e" "base_state (STATE (TDS s t)) = LWEVENT_BLOCKED"
    using assms(3) [of t] that t by (auto simp: waiting_ok_def quiet_def)
  then show "waiting_ok (upd_event e f s) g t" using t(2) assms(2)
    by (auto simp: waiting_ok_def owner_def quiet_def)
qed (auto elim: mutex_ok_cong [rotated 2])

lemma lwevent_clear_obj:
  assumes "obj_ok s"
  shows "obj_ok (snd (lwevent_clear e m s))" "obj_ok (snd (lwevent_set_auto_clear e m s))"
proof -
  have "obj_ok (upd_event e (\<lambda>E. E\<lparr>EV_VALUE := EV_VALUE E AND c\<rparr>) s)" for c
    by (rule upd_event_obj [OF assms]) (auto dest: satisfied_mono)
  then show "obj_ok (snd (lwevent_clear e m s))" using assms by (simp add: lwevent_clear_def)
  have "obj_ok (upd_event e (\<lambda>E. E\<lparr>EV_AUTO := m\<rparr>) s)"
    by (rule upd_event_obj [OF assms]) auto
  then show "obj_ok (snd (lwevent_set_auto_clear e m s))" using assms by (simp add: lwevent_set_auto_clear_def)
qed

text \<open>
  Setting bits releases every task that is satisfied, so whoever stays has a reason to; this
  is where a lost wake-up would show.
\<close>

lemma lwevent_set_obj:
  assumes "obj_ok s" "kinv {} s"
  shows "obj_ok (snd (lwevent_set e m s))"
proof (cases "EV_VALID (LWEVENTS s e) = LWEVENT_VALID")
  case True
  let ?h = "WAITING_TASKS e"
  obtain b' W where sc: "event_scan (TDS s) (EV_AUTO (LWEVENTS s e)) (WAITQ s ?h)
         (EV_VALUE (LWEVENTS s e) OR m) = (b', W)" by fastforce
  from lwevent_set_spec [OF assms(2) True this] obtain s1 where
    r: "released (map fst W) ?h s s1" and
    e: "snd (lwevent_set e m s) = sched_check_scheduler_internal (upd_event e (\<lambda>E. E\<lparr>EV_VALUE := b'\<rparr>) s1)"
    by auto
  have "obj_ok (upd_event e (\<lambda>E. E\<lparr>EV_VALUE := b'\<rparr>) s1)"
  proof (rule upd_event_obj [OF obj_released [OF assms(1) r]])
    fix t assume "t \<in> set (WAITQ s1 ?h)"
    then have t: "t \<in> set (WAITQ s ?h)" "t \<notin> set (map fst W)" using r by (auto simp: released_def)
    have "distinct (WAITQ s ?h)" using kinv_queues [OF assms(2)] by (simp add: queues_ok_def)
    from event_scan_rest [OF this t(1), of "TDS s" "EV_AUTO (LWEVENTS s e)" "EV_VALUE (LWEVENTS s e) OR m"]
    have "\<not> lwevent_satisfied (TDS s t) b'" using t(2) sc by simp
    then show "\<not> lwevent_satisfied (TDS s1 t) (EV_VALUE ((LWEVENTS s1 e)\<lparr>EV_VALUE := b'\<rparr>))"
      using releasedD [OF r, of t] t(2) by simp
  qed simp
  then show ?thesis by (simp add: e obj_dispatch)
qed (use assms(1) in \<open>simp add: lwevent_set_def\<close>)

lemma lwevent_wait_obj:
  assumes "obj_ok s" "kinv {} s" "active_ok s"
  shows "obj_ok (snd (lwevent_wait_internal e m a tick ab s))"
proof (cases "EV_VALID (LWEVENTS s e) = LWEVENT_VALID")
  case valid: True
  let ?t = "ACTIVE_PTR s" and ?h = "WAITING_TASKS e" and ?v = "EV_VALUE (LWEVENTS s e)"
  let ?s1 = "lwevent_enqueue_active e m a s"
  let ?go = "a \<and> ?v AND m = m \<or> \<not> a \<and> ?v AND m \<noteq> 0"
  have r: "STATE (TDS s ?t) = READY" using assms(3) by (simp add: active_ok_def)
  have "obj_ok (upd_td ?t (\<lambda>d. d\<lparr>LWEVENT_BITS := ?v AND m\<rparr>) s)"
    by (rule active_frame_obj [OF assms]) (simp_all add: same_objects_def)
  then have go: "obj_ok (upd_event e (\<lambda>E. E\<lparr>EV_VALUE := EV_VALUE E AND NOT (EV_AUTO E AND m)\<rparr>)
      (upd_td ?t (\<lambda>d. d\<lparr>LWEVENT_BITS := ?v AND m\<rparr>) s))"
    by (rule upd_event_obj) (auto dest: satisfied_mono)
  have f: "((f :: u32) OR 0x80) AND 0x80 \<noteq> 0" "(f AND - 129) AND 0x80 = 0" for f
    by (simp_all add: bit.conj_disj_distrib2 and.assoc)
  have uns: "\<not> lwevent_satisfied (TDS s' ?t) ?v" if "\<not> ?go" "LWEVENT_BITS (TDS s' ?t) = LWEVENT_BITS (TDS ?s1 ?t)" "FLAGS (TDS s' ?t) = FLAGS (TDS ?s1 ?t)" for s'
    using that f by (auto simp: lwevent_satisfied_def and.commute)
  have wait: "obj_ok s'" if "\<not> ?go" "same_objects s s'" "\<And>u. u \<noteq> ?t \<Longrightarrow> TDS s' u = TDS s u" "WAITQ s' = WAITQ ?s1"
    "LWEVENT_BITS (TDS s' ?t) = LWEVENT_BITS (TDS ?s1 ?t)" "FLAGS (TDS s' ?t) = FLAGS (TDS ?s1 ?t)"
    "base_state (STATE (TDS s' ?t)) = LWEVENT_BLOCKED" for s'
  proof (rule obj_enters [OF assms(1,2) r that(2,3), where h = ?h])
    show "set (WAITQ s' g) = (if g = ?h then insert ?t (set (WAITQ s g)) else set (WAITQ s g))" for g
      by (simp add: that(4))
    have "EV_VALID (LWEVENTS s' (?h - 8)) = LWEVENT_VALID" "LWEVENTS s' = LWEVENTS s"
      using valid that(2) by (simp_all add: same_objects_def WAITING_TASKS_def)
    then show "waiting_ok s' ?h ?t" using uns [OF that(1,5,6)] that(7)
      by (simp add: waiting_ok_def quiet_def owner_def WAITING_TASKS_def)
  qed simp_all
  have delay: "obj_ok (time_delay_internal ?t (upd_td ?t (\<lambda>d. d\<lparr>TIMEOUT := x\<rparr>) ?s1))" if "\<not> ?go" for x
    unfolding time_delay_internal_def
    by (rule obj_dispatch, rule wait [OF that]) (simp_all add: same_objects_def)
  have block: "obj_ok (task_block ?s1)" if "\<not> ?go"
    unfolding task_block_def Let_def
    by (rule obj_dispatch, rule wait [OF that])
      (simp_all add: same_objects_def)
  show ?thesis using go delay block assms(1)
    by (simp add: lwevent_wait_internal_def Let_def time_delay_until_def time_delay_for_def
        split: option.split)
qed (use assms(1) in \<open>simp add: lwevent_wait_internal_def\<close>)

lemma lwevent_destroy_obj:
  assumes "obj_ok s" "kinv {} s"
  shows "obj_ok (snd (lwevent_destroy m s))"
proof (cases "EV_VALID (LWEVENTS s m) = LWEVENT_VALID \<and> IN_ISR s = 0")
  case True
  let ?s0 = "upd_event m (\<lambda>S. S\<lparr>EV_VALID := 0\<rparr>) s" and ?h = "WAITING_TASKS m"
  from True obtain s1 where r: "released (WAITQ s ?h) ?h ?s0 s1"
    and e: "lwevent_destroy m s =
      (MQX_OK, sched_check_scheduler_internal (s1\<lparr>LWEVENT_LIST := remove1 m (LWEVENT_LIST s1)\<rparr>))"
    using lwevent_destroy_released [OF assms(2)] by blast
  have "obj_ok s1"
  proof (rule obj_destroyed [OF assms(1) r])
    show "owner s g k" if "owner ?s0 g k" for g k
      using that by (auto simp: owner_def LWEVENT_VALID_def split: if_splits)
    show "waiting_ok ?s0 g t" if "g \<noteq> ?h" "waiting_ok s g t" for g t
      using that by (auto simp: waiting_ok_def owner_def quiet_def WAITING_TASKS_def)
  qed (simp_all add: mutex_ok_cong)
  then have "obj_ok (s1\<lparr>LWEVENT_LIST := remove1 m (LWEVENT_LIST s1)\<rparr>)"
    by (rule obj_cong) (simp_all add: same_objects_def tasks_def)
  then show ?thesis by (simp add: e obj_dispatch)
qed (use assms(1) in \<open>auto simp: lwevent_destroy_def lwevent_destroy_internal_def\<close>)

lemma lwevent_create_obj:
  assumes "obj_ok s" "unused s (WAITING_TASKS e)"
  shows "obj_ok (snd (lwevent_create e fl s))"
proof (rule obj_created [OF assms(1), where N = "{(WAITING_TASKS e, LWEVENT_BLOCKED)}"])
  note d = lwevent_create_def lwevent_create_internal_def Let_def upd_event_def
  show "owner s g k \<or> (g, k) \<in> {(WAITING_TASKS e, LWEVENT_BLOCKED)}"
    if "owner (snd (lwevent_create e fl s)) g k" for g k
    using that by (auto simp: owner_def d WAITING_TASKS_def split: if_splits)
  have n: "\<not> owner s g LWEVENT_BLOCKED" if "g - 8 = e" for g
    using assms(2) that by (auto simp: unused_def WAITING_TASKS_def)
  show "waiting_ok (snd (lwevent_create e fl s)) g t"
    if "t \<in> set (WAITQ s g)" "waiting_ok s g t" for g t
    using that n [of g] by (auto simp: waiting_ok_def owner_def quiet_def d)
qed (use assms(2) in \<open>auto simp: unused_def lwevent_create_def lwevent_create_internal_def Let_def upd_event_def mutex_ok_def tasks_def\<close>)

section \<open>Message queues\<close>

lemma copy_obj:
  assumes "obj_ok s" shows "obj_ok (lwmsgq_read q b s)" "obj_ok (lwmsgq_write q b s)"
  by (rule obj_cong [OF assms]; simp add: same_objects_def)+

lemma lwmsgq_untimed:
  assumes "obj_ok s" "kinv {} s" "MQ_VALID (LWMSGQS s q) = LWMSGQ_VALID"
  shows "\<forall>t \<in> set (WAITQ s (WAITING_WRITERS q)). \<not> on_timeout (STATE (TDS s t))"
  using assms(3) by (intro obj_ok_untimed [OF assms(1,2)]) (simp add: owner_def WAITING_WRITERS_def)

lemma lwmsgq_receive_now_obj:
  assumes "obj_ok s" "kinv {} s" "MQ_VALID (LWMSGQS s q) = LWMSGQ_VALID"
  shows "obj_ok (lwmsgq_receive_now q b s)"
  using lwmsgq_receive_now_cases [OF assms(2) lwmsgq_untimed [OF assms], of b]
    copy_obj(1) [OF assms(1)] obj_released obj_dispatch(1) by metis

lemma lwmsgq_block_obj:
  assumes "obj_ok s" "kinv {} s" "active_ok s" "MQ_VALID (LWMSGQS s q) = LWMSGQ_VALID"
  shows "obj_ok (lwmsgq_read_block q flags ticks tick s)" "obj_ok (lwmsgq_write_block q s)"
proof -
  let ?t = "ACTIVE_PTR s"
  have r: "STATE (TDS s ?t) = READY" using assms(3) by (simp add: active_ok_def)
  show "obj_ok (lwmsgq_write_block q s)"
    unfolding lwmsgq_write_block_def
    by (rule obj_dispatch, rule obj_enters [OF assms(1,2) r, where h = "WAITING_WRITERS q"])
      (use assms(4) in \<open>simp_all add: same_objects_def waiting_ok_def quiet_def owner_def WAITING_WRITERS_def\<close>)
  show "obj_ok (lwmsgq_read_block q flags ticks tick s)"
    unfolding lwmsgq_read_block_def Let_def time_delay_internal_def set_timeout_ticks_def
    by (cases "lwmsgq_timed flags ticks"; simp only: if_True if_False; rule obj_dispatch,
        rule obj_enters [OF assms(1,2) r, where h = "WAITING_READERS q"])
      (use assms(4) in \<open>simp_all add: same_objects_def waiting_ok_def quiet_def owner_def WAITING_READERS_def\<close>)
qed

lemma lwmsgq_receive_obj:
  assumes "obj_ok s" "kinv {} s" "active_ok s"
  shows "obj_ok (snd (lwmsgq_receive q b flags ticks tick s))"
    and "MQ_VALID (LWMSGQS s q) = LWMSGQ_VALID \<Longrightarrow>
      obj_ok (snd (lwmsgq_receive_resume q b flags ticks tick s))"
  using lwmsgq_block_obj [OF assms, of q] lwmsgq_receive_now_obj [OF assms(1,2), of q] assms(1)
  by (simp_all add: lwmsgq_receive_def lwmsgq_receive_resume_def)

lemma lwmsgq_send_now_obj:
  assumes "obj_ok s" "kinv {} s" "active_ok s"
  shows "obj_ok (lwmsgq_send_now q b flags s)"
proof -
  have fin: "obj_ok (task_block s1)" if "obj_ok s1" "kinv {} s1" "active_ok s1" for s1
    using running_obj(2) [OF that] .
  have 0: "obj_ok (lwmsgq_write q b s)" "kinv {} (lwmsgq_write q b s)" "active_ok (lwmsgq_write q b s)"
    using copy_obj(2) [OF assms(1)] lwmsgq_copy_ok [OF assms(2)] assms(3) by (simp_all add: op_ok_def)
  have "obj_ok s1 \<and> kinv {} s1 \<and> active_ok s1" if "released [t] h (lwmsgq_write q b s) s1" for t h s1
    using obj_released [OF 0(1) that] released_frame(1) [OF that] released_active [OF that 0(3)] by blast
  then show ?thesis
    using lwmsgq_send_now_cases [OF assms(2), of q b flags] fin fin [OF 0] 0(1) obj_dispatch(1)
    by (metis (no_types, lifting))
qed

lemma lwmsgq_send_obj:
  assumes "obj_ok s" "kinv {} s" "active_ok s"
  shows "obj_ok (snd (lwmsgq_send q b flags s))"
    and "MQ_VALID (LWMSGQS s q) = LWMSGQ_VALID \<Longrightarrow> obj_ok (snd (lwmsgq_send_resume q b flags s))"
  using lwmsgq_block_obj(2) [OF assms, of q] lwmsgq_send_now_obj [OF assms] assms(1)
  by (simp_all add: lwmsgq_send_def lwmsgq_send_resume_def)

lemma lwmsgq_init_obj:
  assumes "obj_ok s" "unused s (WAITING_WRITERS q)" "unused s (WAITING_READERS q)"
  shows "obj_ok (snd (lwmsgq_init q n m s))"
proof (rule obj_created [OF assms(1), where N = "{(WAITING_WRITERS q, LWMSGQ_WRITE_BLOCKED),
    (WAITING_READERS q, LWMSGQ_READ_BLOCKED)}"])
  note d = lwmsgq_init_def lwmsgq_init_internal_def Let_def upd_msgq_def
  let ?s' = "snd (lwmsgq_init q n m s)"
  have o: "TASK_QUEUES ?s' = TASK_QUEUES s" "LWSEMS ?s' = LWSEMS s" "LWEVENTS ?s' = LWEVENTS s"
    "TDS ?s' = TDS s" "MUTEXES ?s' = MUTEXES s" "tasks ?s' = tasks s" "MQ_VALID (LWMSGQS ?s' u) = (if u = q then LWMSGQ_VALID else MQ_VALID (LWMSGQS s u))" for u
    by (simp_all add: d tasks_def)
  show "mutex_ok ?s' u" if "mutex_ok s u" for u using that o by (simp add: mutex_ok_def)
  have h: "g - 8 = q \<longleftrightarrow> g = WAITING_WRITERS q" "g - 20 = q \<longleftrightarrow> g = WAITING_READERS q" for g
    by (auto simp: WAITING_WRITERS_def WAITING_READERS_def)
  show "owner s g k \<or> (g, k) \<in> {(WAITING_WRITERS q, LWMSGQ_WRITE_BLOCKED), (WAITING_READERS q, LWMSGQ_READ_BLOCKED)}"
    if "owner ?s' g k" for g k
    using that unfolding owner_def o by (elim disjE conjE) (simp_all add: h split: if_splits)
  have "owner ?s' g k" if "owner s g k" for g k
    using that unfolding owner_def o by (elim disjE conjE) simp_all
  moreover have "quiet ?s' g t \<longleftrightarrow> quiet s g t" for g t unfolding quiet_def o ..
  ultimately show "waiting_ok ?s' g t" if "waiting_ok s g t" for g t
    using that by (simp add: waiting_ok_def o(4))
  show "WAITQ (snd (lwmsgq_init q n m s)) g = WAITQ s g" for g
    using assms(2,3) by (simp add: d unused_def)
  show "TDS (snd (lwmsgq_init q n m s)) = TDS s" by (simp add: d)
  have "WAITING_WRITERS q \<noteq> WAITING_READERS q" by (simp add: WAITING_WRITERS_def WAITING_READERS_def)
  then show "(\<forall>k. \<not> owner s g k) \<and>
      (\<forall>k'. (g, k') \<in> {(WAITING_WRITERS q, LWMSGQ_WRITE_BLOCKED), (WAITING_READERS q, LWMSGQ_READ_BLOCKED)} \<longrightarrow> k' = k)"
    if "(g, k) \<in> {(WAITING_WRITERS q, LWMSGQ_WRITE_BLOCKED), (WAITING_READERS q, LWMSGQ_READ_BLOCKED)}" for g k
    using that assms(2,3) by (auto simp: unused_def)
qed

section \<open>Mutexes\<close>

lemma upd_mutex_obj:
  assumes "obj_ok s" "MX_VALID (f (MUTEXES s m)) = MX_VALID (MUTEXES s m)"
    and "mutex_ok (upd_mutex m f s) m"
    and "\<And>t. t \<in> set (WAITQ s (MUTEX_WAITING_TASKS m)) \<Longrightarrow>
      base_state (STATE (TDS s t)) = MUTEX_BLOCKED \<Longrightarrow>
      MX_LOCK (f (MUTEXES s m)) \<noteq> 0 \<and> MX_OWNER_TD (f (MUTEXES s m)) \<noteq> t"
  shows "obj_ok (upd_mutex m f s)"
proof (rule obj_created [OF assms(1), where N = "{}"])
  show "owner s g k \<or> (g, k) \<in> {}" if "owner (upd_mutex m f s) g k" for g k
    using that assms(2) by (auto simp: owner_def split: if_splits)
  fix g t assume t: "t \<in> set (WAITQ s g)" "waiting_ok s g t"
  have "MX_LOCK (f (MUTEXES s m)) \<noteq> 0 \<and> MX_OWNER_TD (f (MUTEXES s m)) \<noteq> t"
    if "g - 28 = m" "base_state (STATE (TDS s t)) = MUTEX_BLOCKED"
    using assms(4) [of t] that t(1) by (auto simp: MUTEX_WAITING_TASKS_def)
  then show "waiting_ok (upd_mutex m f s) g t" using t(2) assms(2)
    by (auto simp: waiting_ok_def owner_def quiet_def)
next
  show "mutex_ok (upd_mutex m f s) n" if "mutex_ok s n" for n
    using assms(3) that by (cases "n = m") (simp_all add: mutex_ok_def)
qed auto

lemma mutex_field_obj:
  assumes "obj_ok s" "\<And>M. MX_VALID (f M) = MX_VALID M \<and> MX_PROTOCOLS (f M) = MX_PROTOCOLS M \<and> MX_LOCK (f M) = MX_LOCK M \<and> MX_OWNER_TD (f M) = MX_OWNER_TD M"
  shows "obj_ok (upd_mutex m f s)"
  using assms(2) by (intro obj_cong [OF assms(1)]) (simp_all add: same_objects_def)

lemma mutex_untimed:
  assumes "obj_ok s" "kinv {} s" "MX_VALID (MUTEXES s m) = MUTEX_VALID"
  shows "\<forall>t \<in> set (WAITQ s (MUTEX_WAITING_TASKS m)). \<not> on_timeout (STATE (TDS s t))"
  using assms(3) by (intro obj_ok_untimed [OF assms(1,2)]) (simp add: owner_def MUTEX_WAITING_TASKS_def)

text \<open>Whoever waits for a live mutex is blocked on it, the mutex is locked, and he is not the owner.\<close>

lemma mutex_waiter:
  assumes "obj_ok s" "MX_VALID (MUTEXES s m) = MUTEX_VALID" "t \<in> set (WAITQ s (MUTEX_WAITING_TASKS m))"
  shows "base_state (STATE (TDS s t)) = MUTEX_BLOCKED \<and> MX_LOCK (MUTEXES s m) = MQX_TEST_AND_SET_VALUE
    \<and> MX_OWNER_TD (MUTEXES s m) \<in> tasks s \<and> MX_OWNER_TD (MUTEXES s m) \<noteq> t"
proof -
  have "owner s (MUTEX_WAITING_TASKS m) MUTEX_BLOCKED"
    using assms(2) by (simp add: owner_def MUTEX_WAITING_TASKS_def)
  from obj_ok_kind [OF assms(1) this assms(3)] obj_okD(1) [OF assms(1,3)] obj_okD(3) [OF assms(1), of m] assms(2)
  show ?thesis by (simp add: waiting_ok_def quiet_def mutex_ok_def MUTEX_WAITING_TASKS_def)
qed

lemma mutex_free_empty:
  assumes "obj_ok s" "MX_VALID (MUTEXES s m) = MUTEX_VALID" "MX_LOCK (MUTEXES s m) = 0"
  shows "WAITQ s (MUTEX_WAITING_TASKS m) = []"
  using mutex_waiter [OF assms(1,2)] assms(3) by (cases "WAITQ s (MUTEX_WAITING_TASKS m)") auto

text \<open>Taking a free mutex, and giving up one that nobody waits for.\<close>

lemma mutex_take_obj:
  assumes "obj_ok s" "MX_VALID (MUTEXES s m) = MUTEX_VALID" "MX_LOCK (MUTEXES s m) = 0" "t \<in> tasks s"
    and "\<And>M. MX_VALID (f M) = MX_VALID M \<and> MX_PROTOCOLS (f M) = MX_PROTOCOLS M \<and> MX_LOCK (f M) = MQX_TEST_AND_SET_VALUE \<and> MX_OWNER_TD (f M) = t"
  shows "obj_ok (upd_mutex m f s)"
  by (rule upd_mutex_obj [OF assms(1)])
    (use assms(2,4,5) mutex_free_empty [OF assms(1-3)] obj_okD(3) [OF assms(1), of m] in \<open>simp_all add: mutex_ok_def\<close>)

lemma mutex_free_obj:
  assumes "obj_ok s" "WAITQ s (MUTEX_WAITING_TASKS m) = []"
    and "\<And>M. MX_VALID (f M) = MX_VALID M \<and> MX_PROTOCOLS (f M) = MX_PROTOCOLS M \<and> MX_LOCK (f M) = 0 \<and> MX_OWNER_TD (f M) = NULL"
  shows "obj_ok (upd_mutex m f s)"
  by (rule upd_mutex_obj [OF assms(1)])
    (use assms(2,3) obj_okD(3) [OF assms(1), of m] in \<open>simp_all add: mutex_ok_def\<close>)

lemma mutex_handoff_obj:
  assumes "obj_ok s" "kinv {} s" "MX_VALID (MUTEXES s m) = MUTEX_VALID"
    and "WAITQ s (MUTEX_WAITING_TASKS m) = t # ts" "released [t] (MUTEX_WAITING_TASKS m) s s1"
  shows "obj_ok (upd_mutex m (\<lambda>M. M\<lparr>MX_OWNER_TD := t\<rparr>) s1)"
proof (rule upd_mutex_obj [OF obj_released [OF assms(1,5)]])
  note f = released_frame [OF assms(5)]
  have t: "t \<in> tasks s" using kinv_waitq_mem [OF assms(2), of t "MUTEX_WAITING_TASKS m"] assms(4) by simp
  have l: "MX_LOCK (MUTEXES s m) = MQX_TEST_AND_SET_VALUE" using mutex_waiter [OF assms(1,3), of t] assms(4) by simp
  show "mutex_ok (upd_mutex m (\<lambda>M. M\<lparr>MX_OWNER_TD := t\<rparr>) s1) m"
    using l t f obj_okD(3) [OF assms(1), of m] by (simp add: mutex_ok_def)
  show "MX_LOCK ((MUTEXES s1 m)\<lparr>MX_OWNER_TD := t\<rparr>) \<noteq> 0 \<and> MX_OWNER_TD ((MUTEXES s1 m)\<lparr>MX_OWNER_TD := t\<rparr>) \<noteq> u"
    if "u \<in> set (WAITQ s1 (MUTEX_WAITING_TASKS m))" for u
    using that l f(12) assms(5) by (auto simp: released_def)
qed simp

lemma mutex_lock_wait_obj:
  assumes "obj_ok s" "kinv {} s" "active_ok s" "MX_VALID (MUTEXES s m) = MUTEX_VALID"
    and "MX_LOCK (MUTEXES s m) \<noteq> 0" "MX_OWNER_TD (MUTEXES s m) \<noteq> ACTIVE_PTR s"
  shows "obj_ok (snd (mutex_lock_wait m s))"
proof -
  have r: "STATE (TDS s (ACTIVE_PTR s)) = READY" using assms(3) by (simp add: active_ok_def)
  have "obj_ok (mutex_enter m s)"
    by (rule obj_enters [OF assms(1,2) r, where h = "MUTEX_WAITING_TASKS m"])
      (use assms(4-6) in \<open>simp_all add: same_objects_def mutex_enter_queue waiting_ok_def quiet_def owner_def MUTEX_WAITING_TASKS_def\<close>)
  then show ?thesis by (simp add: mutex_lock_wait_def obj_dispatch)
qed

lemma mutex_destroyed_obj:
  assumes "obj_ok s" "MX_VALID (MUTEXES s m) = MUTEX_VALID"
    and "released (WAITQ s (MUTEX_WAITING_TASKS m)) (MUTEX_WAITING_TASKS m) s0 s1"
    and "s0 = (upd_mutex m (\<lambda>M. M\<lparr>MX_VALID := 0\<rparr>) s)\<lparr>MUTEX_LIST := l\<rparr>"
  shows "obj_ok s1"
proof (rule obj_destroyed [OF assms(1,3)])
  show "owner s g k" if "owner s0 g k" for g k
    using that assms(4) by (auto simp: owner_def MUTEX_VALID_def split: if_splits)
  show "waiting_ok s0 g t" if "g \<noteq> MUTEX_WAITING_TASKS m" "waiting_ok s g t" for g t
    using that assms(4) by (auto simp: waiting_ok_def owner_def quiet_def MUTEX_WAITING_TASKS_def)
  show "mutex_ok s0 n" if "mutex_ok s n" for n
    using that assms(4) by (simp add: mutex_ok_def MUTEX_VALID_def tasks_def upd_mutex_def)
qed (simp_all add: assms(4))

lemma mutex_init_obj:
  assumes "obj_ok s" "unused s (MUTEX_WAITING_TASKS m)" "queueing_attr attr"
  shows "obj_ok (snd (mutex_init m attr block s))"
proof (rule obj_created [OF assms(1), where N = "{(MUTEX_WAITING_TASKS m, MUTEX_BLOCKED)}"])
  note d = mutex_init_def mutex_create_component_def Let_def upd_mutex_def
  let ?s' = "snd (mutex_init m attr block s)"
  have o: "TASK_QUEUES ?s' = TASK_QUEUES s" "LWSEMS ?s' = LWSEMS s" "LWEVENTS ?s' = LWEVENTS s"
    "LWMSGQS ?s' = LWMSGQS s" "TDS ?s' = TDS s" "tasks ?s' = tasks s"
    by (auto simp: d tasks_def split: option.splits prod.splits)
  have x: "MUTEXES ?s' n = MUTEXES s n \<or> n = m \<and> MX_LOCK (MUTEXES ?s' n) = 0
      \<and> MX_OWNER_TD (MUTEXES ?s' n) = NULL \<and> MX_PROTOCOLS (MUTEXES ?s' n) AND 3 = 0" for n
    using assms(3) by (auto simp: d mutatr_init_def queueing_attr_def split: option.splits prod.splits)
  have h: "g - 28 = m \<longleftrightarrow> g = MUTEX_WAITING_TASKS m" for g by (auto simp: MUTEX_WAITING_TASKS_def)
  show "owner s g k \<or> (g, k) \<in> {(MUTEX_WAITING_TASKS m, MUTEX_BLOCKED)}" if "owner ?s' g k" for g k
    using that x [of "g - 28"] unfolding owner_def o by (auto simp: h)
  show "WAITQ ?s' g = WAITQ s g" for g
    using assms(2) by (auto simp: d unused_def split: option.splits prod.splits)
  show "TDS ?s' = TDS s" by (rule o(5))
  show "mutex_ok ?s' n" if "mutex_ok s n" for n
    using that x [of n] by (auto simp: mutex_ok_def o)
  show "waiting_ok ?s' g t" if "t \<in> set (WAITQ s g)" "waiting_ok s g t" for g t
  proof -
    have "g \<noteq> MUTEX_WAITING_TASKS m" using that(1) assms(2) by (auto simp: unused_def)
    then have "MUTEXES ?s' (g - 28) = MUTEXES s (g - 28)" using x [of "g - 28"] h by auto
    then show ?thesis using that(2) unfolding waiting_ok_def owner_def quiet_def o by simp
  qed
qed (use assms(2) in \<open>auto simp: unused_def\<close>)

end
