(* ===== verification/System.thy ===== *)
theory System
  imports Objects
begin

text \<open>
  The kernel as a state machine: the calls of the running task and of interrupt service
  routines as one step relation, and the invariant of all reachable states.

  A step is one call, from its entry to its return or to the point where the caller gives up
  the processor. The idle task is always ready and never blocks; it is a parameter. A call
  that creates an object needs memory in which no live object keeps waiting tasks (\<open>unused\<close>).
  \<open>_task_ready\<close> is applied to tasks that blocked themselves (state \<open>BLOCKED\<close>), not to tasks that
  wait for an object. No task disables preemption; what the two calls that do change is stated
  in theory \<open>Sched\<close>.
\<close>

section \<open>Steps\<close>

inductive kstep :: "addr \<Rightarrow> kernel \<Rightarrow> kernel \<Rightarrow> bool" for idle where
  isr_enter: "IN_ISR s + 1 \<noteq> 0 \<Longrightarrow> kstep idle s (int_kernel_isr_enter s)"
| isr_return: "IN_ISR s \<noteq> 0 \<Longrightarrow> FLAGS (TDS s (ACTIVE_PTR s)) AND TASK_PREEMPTION_DISABLED = 0 \<Longrightarrow>
    kstep idle s (int_kernel_isr_return s)"
| tick: "IN_ISR s \<noteq> 0 \<Longrightarrow> kstep idle s (time_notify_kernel hwticks s)"
| set_error: "kstep idle s (snd (task_set_error e s))"
| set_priority: "kstep idle s (snd (snd (task_set_priority tid p s)))"
| boost: "t \<in> tasks s \<Longrightarrow> p \<le> LOWEST_TASK_PRIORITY s \<Longrightarrow>
    kstep idle s (sched_boost_priority_internal t p s)"
| unboost: "t \<in> tasks s \<Longrightarrow> kstep idle s (sched_unboost_priority_internal t n s)"
| set_policy: "kstep idle s (snd (sched_set_policy tid policy s))"
| yield: "kstep idle s (sched_yield s)"
| block: "ACTIVE_PTR s \<noteq> idle \<Longrightarrow> kstep idle s (task_block s)"
| ready: "t \<in> tasks s \<Longrightarrow> STATE (TDS s t) = BLOCKED \<or> STATE (TDS s t) = READY \<Longrightarrow>
    kstep idle s (task_ready t s)"
| delay_for: "ACTIVE_PTR s \<noteq> idle \<Longrightarrow> kstep idle s (time_delay_for ticks s)"
| delay_ticks: "ACTIVE_PTR s \<noteq> idle \<Longrightarrow> kstep idle s (time_delay_ticks n s)"
| delay_until: "ACTIVE_PTR s \<noteq> idle \<Longrightarrow> kstep idle s (time_delay_until ticks s)"
| tq_create: "unused s (TASKQ_TD_QUEUE mem) \<Longrightarrow> kstep idle s (snd (taskq_create policy mem s))"
| tq_destroy: "kstep idle s (snd (taskq_destroy q s))"
| tq_suspend: "ACTIVE_PTR s \<noteq> idle \<Longrightarrow> kstep idle s (snd (taskq_suspend q s))"
| tq_suspend_task: "task_get_td tid s \<noteq> idle \<Longrightarrow> kstep idle s (snd (taskq_suspend_task tid q s))"
| tq_resume: "kstep idle s (snd (taskq_resume q all_tasks s))"
| sem_create: "unused s (LWSEM_TD_QUEUE m) \<Longrightarrow> kstep idle s (snd (lwsem_create m n s))"
| sem_create_hidden: "unused s (LWSEM_TD_QUEUE m) \<Longrightarrow> kstep idle s (snd (lwsem_create_hidden m n s))"
| sem_destroy: "kstep idle s (snd (lwsem_destroy m s))"
| sem_poll: "kstep idle s (snd (lwsem_poll m s))"
| sem_post: "kstep idle s (snd (lwsem_post m s))"
| sem_wait: "ACTIVE_PTR s \<noteq> idle \<Longrightarrow> kstep idle s (snd (lwsem_wait m s))"
| sem_wait_for: "ACTIVE_PTR s \<noteq> idle \<Longrightarrow> kstep idle s (snd (lwsem_wait_for m ticks s))"
| sem_wait_ticks: "ACTIVE_PTR s \<noteq> idle \<Longrightarrow> kstep idle s (snd (lwsem_wait_ticks m n s))"
| sem_wait_until: "ACTIVE_PTR s \<noteq> idle \<Longrightarrow> kstep idle s (snd (lwsem_wait_until m ticks s))"
| ev_create: "unused s (WAITING_TASKS e) \<Longrightarrow> kstep idle s (snd (lwevent_create e flags s))"
| ev_destroy: "kstep idle s (snd (lwevent_destroy e s))"
| ev_clear: "kstep idle s (snd (lwevent_clear e bits s))"
| ev_auto: "kstep idle s (snd (lwevent_set_auto_clear e bits s))"
| ev_set: "kstep idle s (snd (lwevent_set e bits s))"
| ev_wait: "ACTIVE_PTR s \<noteq> idle \<Longrightarrow>
    kstep idle s (snd (lwevent_wait_internal e bits all_bits tick absolute s))"
| mq_init: "unused s (WAITING_WRITERS q) \<Longrightarrow> unused s (WAITING_READERS q) \<Longrightarrow>
    kstep idle s (snd (lwmsgq_init q n m s))"
| mq_send: "ACTIVE_PTR s \<noteq> idle \<or>
      flags AND LWMSGQ_SEND_BLOCK_ON_SEND = 0 \<and> flags AND LWMSGQ_SEND_BLOCK_ON_FULL = 0 \<Longrightarrow>
    kstep idle s (snd (lwmsgq_send q buf flags s))"
| mq_send_resume: "ACTIVE_PTR s \<noteq> idle \<Longrightarrow> MQ_VALID (LWMSGQS s q) = LWMSGQ_VALID \<Longrightarrow>
    kstep idle s (snd (lwmsgq_send_resume q buf flags s))"
| mq_receive: "ACTIVE_PTR s \<noteq> idle \<Longrightarrow> kstep idle s (snd (lwmsgq_receive q buf flags ticks tick s))"
| mq_receive_resume: "ACTIVE_PTR s \<noteq> idle \<Longrightarrow> MQ_VALID (LWMSGQS s q) = LWMSGQ_VALID \<Longrightarrow>
    kstep idle s (snd (lwmsgq_receive_resume q buf flags ticks tick s))"
| mx_create: "kstep idle s (snd (mutex_create_component block s))"
| mx_init: "unused s (MUTEX_WAITING_TASKS m) \<Longrightarrow> queueing_attr attr \<Longrightarrow> kstep idle s (snd (mutex_init m attr block s))"
| mx_lock: "ACTIVE_PTR s \<noteq> idle \<Longrightarrow> kstep idle s (snd (mutex_lock m s))"
| mx_lock_resume: "kstep idle s (snd (mutex_lock_resume m s))"
| mx_try_lock: "kstep idle s (snd (mutex_try_lock m s))"
| mx_unlock: "kstep idle s (snd (mutex_unlock m s))"
| mx_unlock_boost_resume: "kstep idle s (snd (mutex_unlock_boost_resume m b s))"
| mx_unlock_resume: "kstep idle s (snd (mutex_unlock_unboost b s))"
| mx_destroy: "ACTIVE_PTR s \<noteq> idle \<Longrightarrow>
      MX_OWNER_TD (MUTEXES s m) \<noteq> ACTIVE_PTR s \<or> MX_VALID (MUTEXES s m) = MUTEX_VALID \<Longrightarrow>
    kstep idle s (snd (mutex_destroy m s))"
| mx_destroy_resume: "kstep idle s (snd (mutex_destroy_resume m s))"
| mx_ceiling: "kstep idle s (snd (snd (mutex_set_priority_ceiling m ceiling s)))"

text \<open>After start-up: nothing waits, no object lives, the ready tasks are on their queues.\<close>

definition initial :: "addr \<Rightarrow> kernel \<Rightarrow> bool" where
  "initial idle s \<longleftrightarrow> TIMEOUT_QUEUE s = [] \<and> (\<forall>h. WAITQ s h = []) \<and> (\<forall>h k. \<not> owner s h k)
     \<and> IN_ISR s = 0 \<and> (\<forall>p. distinct (READYQ s p))
     \<and> (\<forall>p t. t \<in> set (READYQ s p) \<longleftrightarrow> t \<in> tasks s \<and> STATE (TDS s t) = READY \<and> MY_QUEUE (TDS s t) = p)
     \<and> (\<forall>t \<in> tasks s. (STATE (TDS s t) = READY \<or> STATE (TDS s t) = BLOCKED)
           \<and> MY_QUEUE (TDS s t) \<le> LOWEST_TASK_PRIORITY s + 1
           \<and> HOME_QUEUE (TDS s t) \<le> LOWEST_TASK_PRIORITY s + 1)
     \<and> (\<forall>p < CURRENT_READY_Q s. READYQ s p = []) \<and> ACTIVE_PTR s \<in> set (READYQ s (CURRENT_READY_Q s))
     \<and> idle \<in> tasks s \<and> STATE (TDS s idle) = READY"

inductive reachable :: "addr \<Rightarrow> kernel \<Rightarrow> bool" for idle where
  start: "initial idle s \<Longrightarrow> reachable idle s"
| step: "reachable idle s \<Longrightarrow> kstep idle s s' \<Longrightarrow> reachable idle s'"

section \<open>The invariant\<close>

definition sys_inv :: "addr \<Rightarrow> kernel \<Rightarrow> bool" where
  "sys_inv idle s \<longleftrightarrow> kinv {} s \<and> active_ok s \<and> (IN_ISR s = 0 \<longrightarrow> top_ok s) \<and> obj_ok s
     \<and> idle \<in> tasks s \<and> STATE (TDS s idle) = READY"

lemma sys_invD:
  "sys_inv idle s \<Longrightarrow> kinv {} s" "sys_inv idle s \<Longrightarrow> active_ok s" "sys_inv idle s \<Longrightarrow> obj_ok s"
  "sys_inv idle s \<Longrightarrow> idle \<in> tasks s" "sys_inv idle s \<Longrightarrow> STATE (TDS s idle) = READY"
  by (simp_all add: sys_inv_def)

lemma initial_inv:
  assumes "initial idle s"
  shows "sys_inv idle s"
proof -
  have q: "TIMEOUT_QUEUE s = []" "\<And>h. WAITQ s h = []" "\<And>p. distinct (READYQ s p)" "IN_ISR s = 0"
    and r: "\<And>p t. t \<in> set (READYQ s p) \<longleftrightarrow> t \<in> tasks s \<and> STATE (TDS s t) = READY \<and> MY_QUEUE (TDS s t) = p"
    and st: "\<And>t. t \<in> tasks s \<Longrightarrow> (STATE (TDS s t) = READY \<or> STATE (TDS s t) = BLOCKED)
           \<and> MY_QUEUE (TDS s t) \<le> LOWEST_TASK_PRIORITY s + 1 \<and> HOME_QUEUE (TDS s t) \<le> LOWEST_TASK_PRIORITY s + 1"
    and e: "\<And>p. p < CURRENT_READY_Q s \<Longrightarrow> READYQ s p = []"
    and a: "ACTIVE_PTR s \<in> set (READYQ s (CURRENT_READY_Q s))"
    and i: "idle \<in> tasks s" "STATE (TDS s idle) = READY" and o: "\<And>h k. \<not> owner s h k"
    using assms unfolding initial_def by blast+
  have "kinv {} s"
  proof (rule kinvI)
    show "queues_ok s" using q e st by (simp add: queues_ok_def)
    show "placed s t" if "t \<in> tasks s" for t
      using st [OF that] that q(1,2) by (auto simp: placed_def r)
    show "loose s t" if "t \<in> {} \<or> t \<notin> tasks s" for t
      using that q(1,2) by (simp add: loose_def r)
  qed
  moreover have "active_ok s" "top_ok s" using a [unfolded r] by (simp_all add: active_ok_def top_ok_def)
  moreover have "mutex_ok s m" for m using o [of "m + 28" MUTEX_BLOCKED] by (simp add: owner_def mutex_ok_def)
  then have "obj_ok s" using o q(2) by (simp add: obj_ok_def)
  ultimately show ?thesis using i by (simp add: sys_inv_def)
qed

lemma sys_step:
  assumes "sys_inv idle s" "op_ok T s s'" "idle \<notin> T" "active_ok s'"
    and "IN_ISR s = 0 \<Longrightarrow> top_ok s \<Longrightarrow> top_ok s'" "obj_ok s'"
  shows "sys_inv idle s'"
proof -
  have "kinv {} s'" "tasks s' = tasks s" "IN_ISR s' = IN_ISR s" "STATE (TDS s' idle) = READY"
    using assms(1-3) unfolding op_ok_def sys_inv_def by blast+
  then show ?thesis using assms(1,4-6) unfolding sys_inv_def by simp
qed

lemma isr_enter_inv:
  assumes "sys_inv idle s" "IN_ISR s + 1 \<noteq> 0"
  shows "sys_inv idle (int_kernel_isr_enter s)"
proof -
  have "obj_ok (int_kernel_isr_enter s)"
    by (rule obj_cong [OF sys_invD(3) [OF assms(1)]]) (simp_all add: int_kernel_isr_enter_def same_objects_def tasks_def)
  then show ?thesis using assms kinv_isr_enter [of "{}" s]
    by (auto simp: sys_inv_def int_kernel_isr_enter_def active_ok_def tasks_def)
qed

lemma isr_return_inv:
  assumes "sys_inv idle s" "FLAGS (TDS s (ACTIVE_PTR s)) AND TASK_PREEMPTION_DISABLED = 0"
  shows "sys_inv idle (int_kernel_isr_return s)"
proof -
  let ?s = "s\<lparr>INTERRUPT_CONTEXT := tl (INTERRUPT_CONTEXT s), IN_ISR := IN_ISR s - 1\<rparr>"
  have k: "kinv {} ?s" by (rule kinv_cong [of "{}" s]) (use assms(1) in \<open>auto simp: sys_inv_def tasks_def\<close>)
  have o: "obj_ok ?s"
    by (rule obj_cong [OF sys_invD(3) [OF assms(1)]]) (simp_all add: same_objects_def tasks_def)
  have i: "idle \<in> tasks ?s" "STATE (TDS ?s idle) = READY" "active_ok ?s"
    using assms(1) by (auto simp: sys_inv_def tasks_def active_ok_def)
  have e: "sys_inv idle (sched_execute_scheduler_internal ?s)"
    unfolding sys_inv_def using exec_running [OF k i(1,2)] kinv_exec [OF k] obj_dispatch(2) [OF o] i(1,2)
    by (simp only: exec_simps simp_thms)
  have same: "sys_inv idle ?s" if "READYQ s (CURRENT_READY_Q s) = ACTIVE_PTR s # ts" for ts
    using kinv_ready_mem [OF k, of "ACTIVE_PTR s" "CURRENT_READY_Q s"] that k o i
    by (simp add: sys_inv_def top_ok_def)
  show ?thesis
  proof (cases "IN_ISR s = 1")
    case True
    then show ?thesis using e same assms(2)
      by (auto simp: int_kernel_isr_return_def Let_def split: list.split)
  next
    case False
    then have "IN_ISR ?s \<noteq> 0" by simp
    then show ?thesis using k o i assms(2) by (simp add: int_kernel_isr_return_def Let_def sys_inv_def)
  qed
qed

text \<open>One lemma per group of calls: the invariant holds again after the call.\<close>

lemma sched_calls:
  assumes inv: "sys_inv idle s"
  shows "sys_inv idle (snd (task_set_error e s))"
    and "sys_inv idle (snd (snd (task_set_priority tid p s)))"
    and "t \<in> tasks s \<Longrightarrow> p \<le> LOWEST_TASK_PRIORITY s \<Longrightarrow> sys_inv idle (sched_boost_priority_internal t p s)"
    and "t \<in> tasks s \<Longrightarrow> sys_inv idle (sched_unboost_priority_internal t n s)"
    and "sys_inv idle (snd (sched_set_policy tid policy s))"
    and "sys_inv idle (sched_yield s)"
proof -
  note i = sys_invD [OF inv]
  have "active_ok (snd (task_set_error e s))" "top_ok s \<Longrightarrow> top_ok (snd (task_set_error e s))"
    using i(2) by (simp_all add: active_ok_def top_ok_def)
  then show "sys_inv idle (snd (task_set_error e s))"
    by (intro sys_step [OF inv op_ok_set_error [OF i(1)]] set_error_obj [OF i(3)]) simp_all
  show "sys_inv idle (snd (snd (task_set_priority tid p s)))"
    by (rule sys_step [OF inv task_set_priority_ok(1) [OF i(1,2)] _ task_set_priority_ok(2) [OF i(1,2)]
        task_set_priority_ok(3) [OF i(1,2)] task_set_priority_obj [OF i(3,1,2)]]) simp_all
  show "sys_inv idle (sched_boost_priority_internal t p s)"
    if "t \<in> tasks s" "p \<le> LOWEST_TASK_PRIORITY s"
    using boost_ok [OF i(1,2), of t p] that by (intro sys_step [OF inv _ _ _ _ boost_obj(1) [OF i(3)]]) auto
  show "sys_inv idle (sched_unboost_priority_internal t n s)"
    if t: "t \<in> tasks s"
    using unboost_ok [OF i(1,2) t] kinv_queues [OF i(1)] t unfolding queues_ok_def by (intro sys_step [OF inv _ _ _ _ boost_obj(2) [OF i(3)]]) auto
  show "sys_inv idle (snd (sched_set_policy tid policy s))"
    using set_policy_ok [OF i(1,2)] by (intro sys_step [OF inv _ _ _ _ set_policy_obj [OF i(3)]]) auto
  show "sys_inv idle (sched_yield s)"
    using yield_ok [OF i(1,2)] by (intro sys_step [OF inv _ _ _ _ running_obj(1) [OF i(3,1,2)]]) auto
qed

lemma blocking_calls:
  assumes inv: "sys_inv idle s" and n: "ACTIVE_PTR s \<noteq> idle"
  shows "sys_inv idle (task_block s)" "sys_inv idle (time_delay_for x s)"
    and "sys_inv idle (time_delay_ticks m s)" "sys_inv idle (time_delay_until x s)"
    and "sys_inv idle (snd (taskq_suspend q s))"
proof -
  note i = sys_invD [OF inv] and n' = n [symmetric]
  note d = time_delay_ok [OF i(1,2,4,5) n'] and do = delay_obj [OF i(3,1,2)]
  show "sys_inv idle (task_block s)"
    using block_ok [OF i(1,2,4,5) n'] n by (intro sys_step [OF inv _ _ _ _ running_obj(2) [OF i(3,1,2)]]) auto
  show "sys_inv idle (time_delay_for x s)"
    using d [of _ x 0] n by (intro sys_step [OF inv _ _ _ _ do(1)]) auto
  show "sys_inv idle (time_delay_ticks m s)"
    using d [of _ x m] n by (intro sys_step [OF inv _ _ _ _ do(2)]) auto
  show "sys_inv idle (time_delay_until x s)"
    using d [of _ x 0] n by (intro sys_step [OF inv _ _ _ _ do(3)]) auto
  show "sys_inv idle (snd (taskq_suspend q s))"
    using taskq_suspend_ok [OF i(1,2,4,5) n'] n
    by (intro sys_step [OF inv _ _ _ _ taskq_suspend_obj [OF i(3,1,2)]]) auto
qed

lemma ready_and_tick:
  assumes inv: "sys_inv idle s"
  shows "t \<in> tasks s \<Longrightarrow> STATE (TDS s t) = BLOCKED \<or> STATE (TDS s t) = READY \<Longrightarrow> sys_inv idle (task_ready t s)"
    and "IN_ISR s \<noteq> 0 \<Longrightarrow> sys_inv idle (time_notify_kernel h s)"
proof -
  note i = sys_invD [OF inv]
  show "sys_inv idle (task_ready t s)" if "t \<in> tasks s" "STATE (TDS s t) = BLOCKED \<or> STATE (TDS s t) = READY"
    using task_ready_ok [OF i(1,2) that] by (intro sys_step [OF inv _ _ _ _ task_ready_obj [OF i(3,1) that]]) auto
  show "sys_inv idle (time_notify_kernel h s)" if "IN_ISR s \<noteq> 0"
    using notify_spec(1,2) [OF i(1,2), of h] that
    by (intro sys_step [OF inv _ _ _ _ notify_obj [OF i(3,1,2)]]) auto
qed

lemma taskq_calls:
  assumes inv: "sys_inv idle s"
  shows "unused s (TASKQ_TD_QUEUE mem) \<Longrightarrow> sys_inv idle (snd (taskq_create policy mem s))"
    and "sys_inv idle (snd (taskq_destroy q s))" "sys_inv idle (snd (taskq_resume q all_tasks s))"
    and "task_get_td tid s \<noteq> idle \<Longrightarrow> sys_inv idle (snd (taskq_suspend_task tid q s))"
proof -
  note i = sys_invD [OF inv]
  show "sys_inv idle (snd (taskq_create policy mem s))" if "unused s (TASKQ_TD_QUEUE mem)"
    using taskq_create_ok [OF i(1,2)] that
    by (intro sys_step [OF inv _ _ _ _ taskq_create_obj [OF i(3)]]) (auto simp: unused_def)
  have "sys_inv idle (snd (taskq_destroy q s)) \<and> sys_inv idle (snd (taskq_resume q all_tasks s))"
  proof (cases "TQ_VALID (TASK_QUEUES s q) = TASK_QUEUE_VALID")
    case True
    note u = taskq_untimed [OF i(3,1) True]
    show ?thesis using taskq_destroy_ok [OF i(1,2) u] taskq_resume_ok [OF i(1,2) u]
      by (intro conjI sys_step [OF inv _ _ _ _ taskq_destroy_obj [OF i(3,1)]]
          sys_step [OF inv _ _ _ _ taskq_resume_obj [OF i(3,1)]]) auto
  qed (use inv in \<open>simp add: taskq_destroy_def taskq_resume_def\<close>)
  then show "sys_inv idle (snd (taskq_destroy q s))" "sys_inv idle (snd (taskq_resume q all_tasks s))" by simp_all
  show "sys_inv idle (snd (taskq_suspend_task tid q s))" if "task_get_td tid s \<noteq> idle"
    using taskq_suspend_task_ok [OF i(1,2,4,5) that [symmetric]] that
    by (intro sys_step [OF inv _ _ _ _ taskq_suspend_task_obj [OF i(3,1)]]) auto
qed

lemma lwsem_calls:
  assumes inv: "sys_inv idle s"
  shows "unused s (LWSEM_TD_QUEUE m) \<Longrightarrow> sys_inv idle (snd (lwsem_create m n s))"
    and "unused s (LWSEM_TD_QUEUE m) \<Longrightarrow> sys_inv idle (snd (lwsem_create_hidden m n s))"
    and "sys_inv idle (snd (lwsem_destroy m s))" "sys_inv idle (snd (lwsem_poll m s))"
    and "sys_inv idle (snd (lwsem_post m s))"
    and "ACTIVE_PTR s \<noteq> idle \<Longrightarrow> res \<in> {lwsem_wait m s, lwsem_wait_for m x s, lwsem_wait_ticks m n s, lwsem_wait_until m x s} \<Longrightarrow>
      sys_inv idle (snd res)"
proof -
  note i = sys_invD [OF inv]
  have c: "sys_inv idle (snd (lwsem_create_internal m n hidden s))" if "unused s (LWSEM_TD_QUEUE m)" for hidden
    using lwsem_create_ok [OF i(1,2)] that
    by (intro sys_step [OF inv _ _ _ _ lwsem_create_obj [OF i(3) that]]) (auto simp: unused_def)
  show "sys_inv idle (snd (lwsem_create m n s))" "sys_inv idle (snd (lwsem_create_hidden m n s))"
    if "unused s (LWSEM_TD_QUEUE m)" using c [OF that] by (simp_all add: lwsem_create_def lwsem_create_hidden_def)
  show "sys_inv idle (snd (lwsem_destroy m s))"
    using lwsem_destroy_ok [OF i(1,2)] by (intro sys_step [OF inv _ _ _ _ lwsem_destroy_obj [OF i(3,1)]]) auto
  show "sys_inv idle (snd (lwsem_poll m s))"
    using lwsem_poll_ok [OF i(1,2)] by (intro sys_step [OF inv _ _ _ _ lwsem_poll_obj [OF i(3)]]) auto
  show "sys_inv idle (snd (lwsem_post m s))"
    using lwsem_post_ok [OF i(1,2)] by (intro sys_step [OF inv _ _ _ _ lwsem_post_obj [OF i(3,1)]]) auto
  show "sys_inv idle (snd res)" if n: "ACTIVE_PTR s \<noteq> idle"
    and r: "res \<in> {lwsem_wait m s, lwsem_wait_for m x s, lwsem_wait_ticks m n s, lwsem_wait_until m x s}"
    using lwsem_wait_ok [OF i(1,2,4,5) n [symmetric] r] n
    by (intro sys_step [OF inv _ _ _ _ lwsem_wait_obj [OF i(3,1,2) r]]) auto
qed

lemma lwevent_calls:
  assumes inv: "sys_inv idle s"
  shows "unused s (WAITING_TASKS e) \<Longrightarrow> sys_inv idle (snd (lwevent_create e flags s))"
    and "sys_inv idle (snd (lwevent_destroy e s))" "sys_inv idle (snd (lwevent_set e bits s))"
    and "sys_inv idle (snd (lwevent_clear e bits s))" "sys_inv idle (snd (lwevent_set_auto_clear e bits s))"
    and "ACTIVE_PTR s \<noteq> idle \<Longrightarrow> sys_inv idle (snd (lwevent_wait_internal e bits all_bits tick absolute s))"
proof -
  note i = sys_invD [OF inv]
  show "sys_inv idle (snd (lwevent_create e flags s))" if "unused s (WAITING_TASKS e)"
    using lwevent_create_ok [OF i(1,2)] that
    by (intro sys_step [OF inv _ _ _ _ lwevent_create_obj [OF i(3) that]]) (auto simp: unused_def lwevent_create_def)
  show "sys_inv idle (snd (lwevent_destroy e s))"
    using lwevent_destroy_ok [OF i(1,2)] by (intro sys_step [OF inv _ _ _ _ lwevent_destroy_obj [OF i(3,1)]]) auto
  show "sys_inv idle (snd (lwevent_set e bits s))"
    using lwevent_set_ok [OF i(1,2)] by (intro sys_step [OF inv _ _ _ _ lwevent_set_obj [OF i(3,1)]]) auto
  show "sys_inv idle (snd (lwevent_clear e bits s))"
    using lwevent_clear_ok [OF i(1,2), of "lwevent_clear e bits s" e bits]
    by (intro sys_step [OF inv _ _ _ _ lwevent_clear_obj(1) [OF i(3)]]) auto
  show "sys_inv idle (snd (lwevent_set_auto_clear e bits s))"
    using lwevent_clear_ok [OF i(1,2), of "lwevent_set_auto_clear e bits s" e bits]
    by (intro sys_step [OF inv _ _ _ _ lwevent_clear_obj(2) [OF i(3)]]) auto
  show "sys_inv idle (snd (lwevent_wait_internal e bits all_bits tick absolute s))" if n: "ACTIVE_PTR s \<noteq> idle"
    using lwevent_wait_ok [OF i(1,2,4,5) n [symmetric], of e bits all_bits tick absolute] n
    by (intro sys_step [OF inv _ _ _ _ lwevent_wait_obj [OF i(3,1,2)]]) auto
qed

lemma lwmsgq_calls:
  assumes inv: "sys_inv idle s"
  shows "unused s (WAITING_WRITERS q) \<Longrightarrow> unused s (WAITING_READERS q) \<Longrightarrow> sys_inv idle (snd (lwmsgq_init q n m s))"
    and "ACTIVE_PTR s \<noteq> idle \<or>
        flags AND LWMSGQ_SEND_BLOCK_ON_SEND = 0 \<and> flags AND LWMSGQ_SEND_BLOCK_ON_FULL = 0 \<Longrightarrow>
      sys_inv idle (snd (lwmsgq_send q buf flags s))"
    and "ACTIVE_PTR s \<noteq> idle \<Longrightarrow> MQ_VALID (LWMSGQS s q) = LWMSGQ_VALID \<Longrightarrow>
      sys_inv idle (snd (lwmsgq_send_resume q buf flags s))"
    and "ACTIVE_PTR s \<noteq> idle \<Longrightarrow> sys_inv idle (snd (lwmsgq_receive q buf flags ticks tick s))"
    and "ACTIVE_PTR s \<noteq> idle \<Longrightarrow> MQ_VALID (LWMSGQS s q) = LWMSGQ_VALID \<Longrightarrow>
      sys_inv idle (snd (lwmsgq_receive_resume q buf flags ticks tick s))"
proof -
  note i = sys_invD [OF inv]
  show "sys_inv idle (snd (lwmsgq_init q n m s))"
    if "unused s (WAITING_WRITERS q)" "unused s (WAITING_READERS q)"
    using lwmsgq_init_ok [OF i(1,2)] that
    by (intro sys_step [OF inv _ _ _ _ lwmsgq_init_obj [OF i(3) that]]) (auto simp: unused_def)
  show "sys_inv idle (snd (lwmsgq_send q buf flags s))"
    if f: "ACTIVE_PTR s \<noteq> idle \<or>
        flags AND LWMSGQ_SEND_BLOCK_ON_SEND = 0 \<and> flags AND LWMSGQ_SEND_BLOCK_ON_FULL = 0"
  proof (cases "ACTIVE_PTR s = idle")
    case False
    then show ?thesis
      using lwmsgq_send_ok [OF i(1,2,4,5), of flags "lwmsgq_send q buf flags s" q buf]
      by (intro sys_step [OF inv _ _ _ _ lwmsgq_send_obj(1) [OF i(3,1,2)]]) auto
  next
    case True
    then have n: "flags AND LWMSGQ_SEND_BLOCK_ON_SEND = 0" "flags AND LWMSGQ_SEND_BLOCK_ON_FULL = 0"
      using f by simp_all
    show ?thesis
      using lwmsgq_send_ok [OF i(1,2,4,5), of flags "lwmsgq_send q buf flags s" q buf] n
      by (intro sys_step [OF inv lwmsgq_send_nonblocking [OF i(1,2) n] _ _ _ lwmsgq_send_obj(1) [OF i(3,1,2)]]) auto
  qed
  show "sys_inv idle (snd (lwmsgq_send_resume q buf flags s))"
    if "ACTIVE_PTR s \<noteq> idle" "MQ_VALID (LWMSGQS s q) = LWMSGQ_VALID"
    using lwmsgq_send_ok [OF i(1,2,4,5), of flags "lwmsgq_send_resume q buf flags s" q buf] that
    by (intro sys_step [OF inv _ _ _ _ lwmsgq_send_obj(2) [OF i(3,1,2) that(2)]]) auto
  show "sys_inv idle (snd (lwmsgq_receive q buf flags ticks tick s))"
    if n: "ACTIVE_PTR s \<noteq> idle"
  proof (cases "MQ_VALID (LWMSGQS s q) = LWMSGQ_VALID")
    case True
    then show ?thesis
      using lwmsgq_receive_ok [OF i(1,2,4,5) n [symmetric] lwmsgq_untimed [OF i(3,1) True],
          of "lwmsgq_receive q buf flags ticks tick s" buf flags ticks tick] n
      by (intro sys_step [OF inv _ _ _ _ lwmsgq_receive_obj(1) [OF i(3,1,2)]]) auto
  qed (use inv in \<open>simp add: lwmsgq_receive_def\<close>)
  show "sys_inv idle (snd (lwmsgq_receive_resume q buf flags ticks tick s))"
    if n: "ACTIVE_PTR s \<noteq> idle" and v: "MQ_VALID (LWMSGQS s q) = LWMSGQ_VALID"
    using lwmsgq_receive_ok [OF i(1,2,4,5) n [symmetric] lwmsgq_untimed [OF i(3,1) v],
        of "lwmsgq_receive_resume q buf flags ticks tick s" buf flags ticks tick] n
    by (intro sys_step [OF inv _ _ _ _ lwmsgq_receive_obj(2) [OF i(3,1,2) v]]) auto
qed

text \<open>
  Mutexes. The rest of a call after a boost relies on the objects being as before: a boost moves no
  object, so what the rest relies on still holds after it.
\<close>

lemma mutex_field_inv:
  assumes inv: "sys_inv idle s"
    and "\<And>M. MX_VALID (f M) = MX_VALID M \<and> MX_PROTOCOLS (f M) = MX_PROTOCOLS M \<and> MX_LOCK (f M) = MX_LOCK M \<and> MX_OWNER_TD (f M) = MX_OWNER_TD M"
  shows "sys_inv idle (upd_mutex m f s)"
proof -
  note i = sys_invD [OF inv]
  show ?thesis using upd_mutex_ok [OF i(1)] i(2)
    by (intro sys_step [OF inv _ _ _ _ mutex_field_obj [OF i(3) assms(2)]]) auto
qed

lemma boost_same_objects: "same_objects s (sched_boost_priority_internal t p s)"
  by (simp add: sched_boost_priority_internal_def Let_def same_objects_def)

lemma boosted_same_objects: "same_objects s (mutex_boosted m s)"
  by (simp add: mutex_boosted_def same_objects_def)

lemma same_objects_trans: "same_objects s s1 \<Longrightarrow> same_objects s1 s2 \<Longrightarrow> same_objects s s2"
  by (simp add: same_objects_def)

lemma boosted_inv: "sys_inv idle s \<Longrightarrow> sys_inv idle (mutex_boosted m s)"
  unfolding mutex_boosted_def by (erule mutex_field_inv) simp

lemma sys_home: "sys_inv idle s \<Longrightarrow> u \<in> tasks s \<Longrightarrow> HOME_QUEUE (TDS s u) \<le> LOWEST_TASK_PRIORITY s + 1"
  using kinv_queues [OF sys_invD(1)] by (simp add: queues_ok_def)

lemma mutex_boost_inv:
  assumes inv: "sys_inv idle s" and u: "u \<in> tasks s"
    and k: "\<And>s1. sys_inv idle s1 \<Longrightarrow> same_objects s s1 \<Longrightarrow> ACTIVE_PTR s1 = ACTIVE_PTR s \<Longrightarrow> sys_inv idle (snd (k s1))"
  shows "sys_inv idle (snd (mutex_boost m u p k s))"
proof -
  let ?b = "sched_boost_priority_internal u p s"
  have "sys_inv idle ?b" if "p < HOME_QUEUE (TDS s u)"
    using sched_calls(3) [OF inv u] sys_home [OF inv u] that by simp
  moreover have "ACTIVE_PTR (mutex_boosted m s1) = ACTIVE_PTR s1" for s1 by (simp add: mutex_boosted_def)
  ultimately have "sys_inv idle (snd (run_on (ACTIVE_PTR s) (\<lambda>s. k (mutex_boosted m s)) ?b))"
    if "p < HOME_QUEUE (TDS s u)"
    using that k [OF boosted_inv same_objects_trans [OF boost_same_objects boosted_same_objects]]
    by (simp add: run_on_def)
  moreover have "sys_inv idle (snd (k (mutex_boosted m s)))"
    using k [OF boosted_inv [OF inv] boosted_same_objects] by (simp add: mutex_boosted_def)
  moreover have "sys_inv idle (snd (k s))" using k [OF inv] by (simp add: same_objects_def)
  ultimately show ?thesis by (simp add: mutex_boost_def)
qed

lemma sys_active: "sys_inv idle s \<Longrightarrow> ACTIVE_PTR s \<in> tasks s"
  by (simp add: sys_inv_def active_ok_def)

lemma mutex_tail_inv:
  assumes inv: "sys_inv idle s"
  shows "sys_inv idle (snd (mutex_lock_protect m s))" "sys_inv idle (snd (mutex_lock_owned m s))"
    and "sys_inv idle (snd (mutex_lock_resume m s))" "sys_inv idle (snd (mutex_unlock_unboost b s))"
    and "sys_inv idle (snd (mutex_unlock_check b s))" "sys_inv idle (snd (mutex_unlock_boost_resume m b s))"
proof -
  have p: "sys_inv idle (snd (mutex_lock_protect m s))" if "sys_inv idle s" for s
    using that by (auto simp: mutex_lock_protect_def intro!: mutex_boost_inv sys_active)
  show "sys_inv idle (snd (mutex_lock_protect m s))" using p [OF inv] .
  show o: "sys_inv idle (snd (mutex_lock_owned m s))"
    using inv p by (auto simp: mutex_lock_owned_def intro!: mutex_boost_inv sys_active)
  show "sys_inv idle (snd (mutex_lock_resume m s))" using inv o by (simp add: mutex_lock_resume_def)
  have u: "sys_inv idle (snd (mutex_unlock_unboost b s))" if "sys_inv idle s" for s
    using that sched_calls(4) [OF that sys_active [OF that]] by (simp add: mutex_unlock_unboost_def)
  show "sys_inv idle (snd (mutex_unlock_unboost b s))" using u [OF inv] .
  have c: "sys_inv idle (snd (mutex_unlock_check b s))" if i: "sys_inv idle s" for s
  proof -
    have "sys_inv idle (sched_check_scheduler_internal s)"
      using op_check [OF op_ok_refl [OF sys_invD(1) [OF i]] sys_invD(2) [OF i]]
      by (intro sys_step [OF i _ _ _ _ obj_dispatch(1) [OF sys_invD(3) [OF i]]]) auto
    then show ?thesis using u by (simp add: mutex_unlock_check_def run_on_def)
  qed
  show "sys_inv idle (snd (mutex_unlock_check b s))" using c [OF inv] .
  show "sys_inv idle (snd (mutex_unlock_boost_resume m b s))"
    using c boosted_inv [OF inv] by (simp add: mutex_unlock_boost_resume_def)
qed

lemma mutex_take_inv:
  assumes inv: "sys_inv idle s" and "MX_VALID (MUTEXES s m) = MUTEX_VALID" "MX_LOCK (MUTEXES s m) = 0"
    and "\<And>M. MX_VALID (f M) = MX_VALID M \<and> MX_PROTOCOLS (f M) = MX_PROTOCOLS M \<and> MX_LOCK (f M) = MQX_TEST_AND_SET_VALUE \<and> MX_OWNER_TD (f M) = ACTIVE_PTR s"
  shows "sys_inv idle (upd_mutex m f s)"
proof -
  note i = sys_invD [OF inv]
  show ?thesis using upd_mutex_ok [OF i(1)] i(2)
    by (intro sys_step [OF inv _ _ _ _ mutex_take_obj [OF i(3) assms(2,3) sys_active [OF inv] assms(4)]]) auto
qed

lemma mutex_lock_inv:
  assumes inv: "sys_inv idle s" and n: "ACTIVE_PTR s \<noteq> idle"
  shows "sys_inv idle (snd (mutex_lock m s))"
proof -
  have wait: "sys_inv idle (snd (mutex_lock_wait m s1))"
    if i: "sys_inv idle s1" and s: "same_objects s s1" and a: "ACTIVE_PTR s1 = ACTIVE_PTR s"
      and m: "MX_VALID (MUTEXES s m) = MUTEX_VALID" "MX_LOCK (MUTEXES s m) \<noteq> 0" "MX_OWNER_TD (MUTEXES s m) \<noteq> ACTIVE_PTR s" for s1
  proof -
    note j = sys_invD [OF i]
    have m1: "MX_VALID (MUTEXES s1 m) = MUTEX_VALID" "MX_LOCK (MUTEXES s1 m) \<noteq> 0" "MX_OWNER_TD (MUTEXES s1 m) \<noteq> ACTIVE_PTR s1"
      using s m a by (simp_all add: same_objects_def)
    show ?thesis using mutex_lock_wait_ok [OF j(1,2,4,5)] n a
      by (intro sys_step [OF i _ _ _ _ mutex_lock_wait_obj [OF j(3,1,2) m1]]) auto
  qed
  have o: "MX_OWNER_TD (MUTEXES s m) \<in> tasks s" if "MX_VALID (MUTEXES s m) = MUTEX_VALID" "MX_LOCK (MUTEXES s m) \<noteq> 0"
    using obj_okD(3) [OF sys_invD(3) [OF inv], of m] that by (auto simp: mutex_ok_def)
  have "sys_inv idle (snd (mutex_boost m (MX_OWNER_TD (MUTEXES s m)) p (mutex_lock_wait m) s))"
    if m: "MX_VALID (MUTEXES s m) = MUTEX_VALID" "MX_LOCK (MUTEXES s m) \<noteq> 0" "MX_OWNER_TD (MUTEXES s m) \<noteq> ACTIVE_PTR s" for p
    by (rule mutex_boost_inv [OF inv o [OF m(1,2)]]) (rule wait [OF _ _ _ m])
  moreover have "sys_inv idle (snd (mutex_lock_wait m s))"
    if m: "MX_VALID (MUTEXES s m) = MUTEX_VALID" "MX_LOCK (MUTEXES s m) \<noteq> 0" "MX_OWNER_TD (MUTEXES s m) \<noteq> ACTIVE_PTR s"
    by (rule wait [OF inv _ _ m]) (simp_all add: same_objects_def)
  ultimately show ?thesis using inv mutex_tail_inv(2) mutex_take_inv [OF inv]
    by (simp add: mutex_lock_def Let_def)
qed

lemma mutex_try_lock_inv:
  assumes inv: "sys_inv idle s"
  shows "sys_inv idle (snd (mutex_try_lock m s))"
proof -
  have e: "upd_mutex m (\<lambda>M. M\<lparr>MX_LOCK := MX_LOCK (MUTEXES s m)\<rparr>) s = s"
    by (simp add: upd_mutex_def)
  have "upd_mutex m (\<lambda>M. M\<lparr>MX_OWNER_TD := a\<rparr>) (upd_mutex m (\<lambda>M. M\<lparr>MX_LOCK := l\<rparr>) s) =
      upd_mutex m (\<lambda>M. M\<lparr>MX_LOCK := l, MX_OWNER_TD := a\<rparr>) s" for a l
    by (simp add: upd_mutex_def)
  then show ?thesis using inv mutex_tail_inv(1) mutex_take_inv [OF inv]
    by (simp add: mutex_try_lock_def mem_test_and_set_def e)
qed

lemma mutex_free_inv:
  assumes inv: "sys_inv idle s" and "WAITQ s (MUTEX_WAITING_TASKS m) = []"
    and "\<And>M. MX_VALID (f M) = MX_VALID M \<and> MX_PROTOCOLS (f M) = MX_PROTOCOLS M \<and> MX_LOCK (f M) = 0 \<and> MX_OWNER_TD (f M) = NULL"
  shows "sys_inv idle (upd_mutex m f s)"
proof -
  note i = sys_invD [OF inv]
  show ?thesis using upd_mutex_ok [OF i(1)] i(2)
    by (intro sys_step [OF inv _ _ _ _ mutex_free_obj [OF i(3) assms(2,3)]]) auto
qed

text \<open>
  Inside an unlock or a destruction tasks have become ready that may have a higher priority than
  the active one: \<open>pre_inv\<close> is the invariant up to the scheduling decision still to come.
\<close>

definition pre_inv :: "addr \<Rightarrow> kernel \<Rightarrow> bool" where
  "pre_inv idle s \<longleftrightarrow> kinv {} s \<and> active_ok s \<and> obj_ok s \<and> idle \<in> tasks s \<and> STATE (TDS s idle) = READY"

lemma pre_invD:
  "pre_inv idle s \<Longrightarrow> kinv {} s" "pre_inv idle s \<Longrightarrow> active_ok s" "pre_inv idle s \<Longrightarrow> obj_ok s"
  by (simp_all add: pre_inv_def)

lemma sys_pre: "sys_inv idle s \<longleftrightarrow> pre_inv idle s \<and> (IN_ISR s = 0 \<longrightarrow> top_ok s)"
  by (auto simp: sys_inv_def pre_inv_def)

lemma pre_step: "pre_inv idle s \<Longrightarrow> op_ok {} s s' \<Longrightarrow> active_ok s' \<Longrightarrow> obj_ok s' \<Longrightarrow> pre_inv idle s'"
  unfolding pre_inv_def op_ok_def by blast

lemma pre_boost:
  assumes "pre_inv idle s" "u \<in> tasks s" "p < HOME_QUEUE (TDS s u)"
  shows "sys_inv idle (sched_boost_priority_internal u p s)"
proof -
  note i = pre_invD [OF assms(1)]
  have p: "p \<le> LOWEST_TASK_PRIORITY s + 1" using kinv_queues [OF i(1)] assms(2,3) by (force simp: queues_ok_def)
  note b = boost_ok [OF i(1,2) assms(2) p]
  then show ?thesis using pre_step [OF assms(1) b(1,2) boost_obj(1) [OF i(3)]]
    unfolding sys_pre by (auto simp: op_ok_def)
qed

lemma pre_check: "pre_inv idle s \<Longrightarrow> sys_inv idle (sched_check_scheduler_internal s)"
  using op_check [OF op_ok_refl [OF pre_invD(1)] pre_invD(2)] pre_step [OF _ _ _ obj_dispatch(1) [OF pre_invD(3)]]
  unfolding sys_pre by (metis op_ok_def)

lemma pre_field:
  assumes "pre_inv idle s"
    and "\<And>M. MX_VALID (f M) = MX_VALID M \<and> MX_PROTOCOLS (f M) = MX_PROTOCOLS M \<and> MX_LOCK (f M) = MX_LOCK M \<and> MX_OWNER_TD (f M) = MX_OWNER_TD M"
  shows "pre_inv idle (upd_mutex m f s)"
  using pre_step [OF assms(1) upd_mutex_ok(1,2) mutex_field_obj [OF _ assms(2)]] pre_invD [OF assms(1)] by blast

lemma pre_unlock_check:
  assumes "pre_inv idle s"
  shows "sys_inv idle (snd (mutex_unlock_check b s))"
  using mutex_tail_inv(4) [OF pre_check [OF assms]] pre_check [OF assms] by (simp add: mutex_unlock_check_def run_on_def)

lemma pre_mutex_boost:
  assumes "pre_inv idle s" "u \<in> tasks s" "\<And>s1. pre_inv idle s1 \<Longrightarrow> sys_inv idle (snd (k s1))"
  shows "sys_inv idle (snd (mutex_boost m u p k s))"
proof -
  have b: "pre_inv idle (mutex_boosted m s1)" if "pre_inv idle s1" for s1
    unfolding mutex_boosted_def by (rule pre_field [OF that]) simp
  show ?thesis using b pre_boost [OF assms(1,2)] assms(1,3) by (auto simp: mutex_boost_def run_on_def sys_pre)
qed

lemma mutex_unlock_inv:
  assumes inv: "sys_inv idle s"
  shows "sys_inv idle (snd (mutex_unlock m s))"
proof -
  let ?h = "MUTEX_WAITING_TASKS m" and ?s0 = "upd_mutex m (\<lambda>M. M\<lparr>MX_BOOSTED := 0\<rparr>) s"
  have i0: "sys_inv idle ?s0" by (rule mutex_field_inv [OF inv]) simp
  note i = sys_invD [OF i0]
  show ?thesis
  proof (cases "MX_VALID (MUTEXES s m) = MUTEX_VALID")
    case v: True
    have sp: "MX_PROTOCOLS (MUTEXES s m) AND 3 = 0"
      using obj_okD(3) [OF sys_invD(3) [OF inv], of m] v by (simp add: mutex_ok_def)
    show ?thesis
    proof (cases "WAITQ s ?h")
      case Nil
      have "sys_inv idle (upd_mutex m (\<lambda>M. M\<lparr>MX_LOCK := 0, MX_OWNER_TD := NULL\<rparr>) ?s0)"
        by (rule mutex_free_inv [OF i0]) (use Nil in simp_all)
      from mutex_tail_inv(4) [OF this] show ?thesis using inv sp by (simp add: mutex_unlock_def Let_def Nil)
    next
      case w: (Cons t ts)
      have "\<not> on_timeout (STATE (TDS s t))"
        using mutex_untimed [OF sys_invD(3) [OF inv] sys_invD(1) [OF inv] v] w by simp
      from mutex_handoff_released [OF i(1), of ?h t ts m "\<lambda>M. M\<lparr>MX_OWNER_TD := t\<rparr>"] this w
      obtain s1 where r: "released [t] ?h ?s0 s1"
        and e: "TASK_READY t (upd_mutex m (\<lambda>M. M\<lparr>MX_OWNER_TD := t\<rparr>) (?s0\<lparr>WAITQ := (WAITQ s)(?h := ts)\<rparr>)) =
          upd_mutex m (\<lambda>M. M\<lparr>MX_OWNER_TD := t\<rparr>) s1" by auto
      let ?s2 = "upd_mutex m (\<lambda>M. M\<lparr>MX_OWNER_TD := t\<rparr>) s1"
      have o: "obj_ok ?s2" using mutex_handoff_obj [OF i(3,1) _ _ r] v w by simp
      have "op_ok {} ?s0 ?s2" using released_op [OF r] upd_mutex_ok(1) [OF released_frame(1) [OF r]] op_ok_trans by blast
      then have p: "pre_inv idle ?s2" and t: "t \<in> tasks ?s2"
        using pre_step [OF _ _ upd_mutex_ok(2) [OF released_frame(1) [OF r] released_active [OF r i(2)]] o] i0
          kinv_waitq_mem [OF i(1), of t ?h] w by (auto simp: sys_pre released_frame [OF r])
      show ?thesis using inv sp pre_unlock_check [OF p] pre_mutex_boost [OF p t pre_unlock_check]
        by (simp add: mutex_unlock_def Let_def w e)
    qed
  qed (use inv in \<open>simp add: mutex_unlock_def\<close>)
qed

lemma lock_keeps_valid:
  "MX_VALID (MUTEXES (snd (mutex_lock_protect m s)) n) = MX_VALID (MUTEXES s n)"
  "MX_VALID (MUTEXES (snd (mutex_lock_owned m s)) n) = MX_VALID (MUTEXES s n)"
proof -
  have b: "MX_VALID (MUTEXES (sched_boost_priority_internal u p s) v) = MX_VALID (MUTEXES s v)" for u p s v
    using boost_same_objects [of s u p] by (simp add: same_objects_def)
  have p: "MX_VALID (MUTEXES (snd (mutex_lock_protect m s)) v) = MX_VALID (MUTEXES s v)" for s v
    by (simp add: mutex_lock_protect_def mutex_boost_def run_on_def mutex_boosted_def b)
  show "MX_VALID (MUTEXES (snd (mutex_lock_protect m s)) n) = MX_VALID (MUTEXES s n)" by (rule p)
  show "MX_VALID (MUTEXES (snd (mutex_lock_owned m s)) n) = MX_VALID (MUTEXES s n)"
    by (simp add: mutex_lock_owned_def mutex_boost_def run_on_def mutex_boosted_def b p)
qed

lemma lock_ok_valid:
  "fst (mutex_lock m s) = Some MQX_OK \<Longrightarrow> MX_VALID (MUTEXES (snd (mutex_lock m s)) m) = MUTEX_VALID"
  "fst (mutex_lock_resume m s) = Some MQX_OK \<Longrightarrow> MX_VALID (MUTEXES (snd (mutex_lock_resume m s)) m) = MUTEX_VALID"
  by (auto simp: mutex_lock_def mutex_lock_resume_def Let_def mutex_boost_def run_on_def mutex_lock_wait_def
      lock_keeps_valid split: if_splits)

lemma mutex_destroy_owned_inv:
  assumes inv: "sys_inv idle s" and v: "MX_VALID (MUTEXES s m) = MUTEX_VALID"
  shows "sys_inv idle (snd (mutex_destroy_owned m s))"
proof -
  let ?h = "MUTEX_WAITING_TASKS m"
  let ?s0 = "(upd_mutex m (\<lambda>M. M\<lparr>MX_VALID := 0\<rparr>) s)\<lparr>MUTEX_LIST := remove1 m (MUTEX_LIST s)\<rparr>"
  let ?s1 = "mutex_destroy_loop ?h (WAITQ s ?h) ?s0"
  note i = sys_invD [OF inv]
  have k0: "kinv {} ?s0" by (rule kinv_cong [OF i(1)]) (auto simp: upd_mutex_def tasks_def)
  have r: "released (WAITQ s ?h) ?h ?s0 ?s1"
    using mutex_destroy_loop_released [OF k0, of ?h] mutex_untimed [OF i(3,1) v] by simp
  have "op_ok {} s ?s0" using k0 by (rule op_okI) (auto simp: tasks_def upd_mutex_def)
  then have "op_ok {} s ?s1" using released_op [OF r] op_ok_trans by blast
  moreover have "active_ok ?s0" using i(2) by (auto simp: active_ok_def tasks_def upd_mutex_def)
  ultimately have p: "pre_inv idle ?s1"
    using pre_step [of idle s] inv released_active [OF r] mutex_destroyed_obj [OF i(3) v r refl] by (simp add: sys_pre)
  have a: "ACTIVE_PTR ?s1 \<in> tasks ?s1" using pre_invD(2) [OF p] by (simp add: active_ok_def)
  then have "HOME_QUEUE (TDS ?s1 (ACTIVE_PTR ?s1)) \<le> LOWEST_TASK_PRIORITY ?s1 + 1"
    using kinv_queues [OF pre_invD(1) [OF p]] by (simp add: queues_ok_def)
  note u = unboost_ok [OF pre_invD(1) [OF p] pre_invD(2) [OF p] a this]
  have "pre_inv idle (sched_unboost_priority_internal (ACTIVE_PTR ?s1) b ?s1)" for b
    using pre_step [OF p u(1,2) boost_obj(2) [OF pre_invD(3) [OF p]]] .
  then show ?thesis using pre_check p by (simp add: mutex_destroy_owned_def Let_def)
qed

lemma mutex_destroy_inv:
  assumes inv: "sys_inv idle s"
  shows "ACTIVE_PTR s \<noteq> idle \<Longrightarrow> MX_OWNER_TD (MUTEXES s m) \<noteq> ACTIVE_PTR s \<or> MX_VALID (MUTEXES s m) = MUTEX_VALID \<Longrightarrow>
      sys_inv idle (snd (mutex_destroy m s))"
    and "sys_inv idle (snd (mutex_destroy_resume m s))"
  using inv mutex_lock_inv [OF inv] mutex_tail_inv(3) [OF inv] mutex_destroy_owned_inv lock_ok_valid
  by (auto simp: mutex_destroy_def mutex_destroy_resume_def mutex_destroy_locked_def split: option.split)

lemma mutex_init_inv:
  assumes inv: "sys_inv idle s"
  shows "unused s (MUTEX_WAITING_TASKS m) \<Longrightarrow> queueing_attr attr \<Longrightarrow> sys_inv idle (snd (mutex_init m attr block s))"
    and "sys_inv idle (snd (mutex_create_component block s))"
    and "sys_inv idle (snd (snd (mutex_set_priority_ceiling m ceiling s)))"
proof -
  note i = sys_invD [OF inv]
  have ok: "op_ok {} s s'" "active_ok s'" "top_ok s \<Longrightarrow> top_ok s'" if "TDS s' = TDS s" "READYQ s' = READYQ s"
    "TIMEOUT_QUEUE s' = TIMEOUT_QUEUE s" "WAITQ s' = WAITQ s" "CURRENT_READY_Q s' = CURRENT_READY_Q s" "tasks s' = tasks s"
    "LOWEST_TASK_PRIORITY s' = LOWEST_TASK_PRIORITY s" "ACTIVE_PTR s' = ACTIVE_PTR s" "IN_ISR s' = IN_ISR s" for s'
  proof -
    have "kinv {} s'" using kinv_cong [OF i(1)] that by blast
    then show "op_ok {} s s'" by (rule op_okI) (simp_all add: that)
    show "active_ok s'" "top_ok s \<Longrightarrow> top_ok s'" using i(2) by (simp_all add: active_ok_def top_ok_def that)
  qed
  show "sys_inv idle (snd (mutex_init m attr block s))" if u: "unused s (MUTEX_WAITING_TASKS m)" "queueing_attr attr"
  proof (rule sys_step [OF inv ok(1) _ ok(2,3) mutex_init_obj [OF i(3) u]])
  qed (use u in \<open>auto simp: mutex_init_def mutex_create_component_def Let_def upd_mutex_def tasks_def unused_def
      split: option.splits prod.splits\<close>)
  show "sys_inv idle (snd (mutex_create_component block s))"
    using inv by (auto simp: mutex_create_component_def tasks_def same_objects_def
        intro!: sys_step [OF inv ok(1) _ ok(2,3) obj_cong [OF i(3)]])
  show "sys_inv idle (snd (snd (mutex_set_priority_ceiling m ceiling s)))"
    using inv by (auto simp: mutex_set_priority_ceiling_def intro: mutex_field_inv)
qed

lemma isr_calls:
  assumes "sys_inv idle s"
  shows "IN_ISR s + 1 \<noteq> 0 \<Longrightarrow> sys_inv idle (int_kernel_isr_enter s)"
    and "FLAGS (TDS s (ACTIVE_PTR s)) AND TASK_PREEMPTION_DISABLED = 0 \<Longrightarrow> sys_inv idle (int_kernel_isr_return s)"
  using isr_enter_inv [OF assms] isr_return_inv [OF assms] by blast+

lemma lwsem_waits:
  assumes "sys_inv idle s" "ACTIVE_PTR s \<noteq> idle"
  shows "sys_inv idle (snd (lwsem_wait m s))" "sys_inv idle (snd (lwsem_wait_for m x s))"
    and "sys_inv idle (snd (lwsem_wait_ticks m n s))" "sys_inv idle (snd (lwsem_wait_until m x s))"
  by (rule lwsem_calls(6) [OF assms, of _ m x n]; simp)+

lemmas call_invs = isr_calls sched_calls blocking_calls ready_and_tick taskq_calls
  lwsem_calls(1-5) lwsem_waits lwevent_calls lwmsgq_calls
  mutex_init_inv mutex_lock_inv mutex_try_lock_inv mutex_unlock_inv mutex_destroy_inv mutex_tail_inv

lemma kstep_inv: "kstep idle s s' \<Longrightarrow> sys_inv idle s \<Longrightarrow> sys_inv idle s'"
  by (erule kstep.cases; hypsubst) (rule call_invs; simp)+

lemma reachable_inv: "reachable idle s \<Longrightarrow> sys_inv idle s"
  by (induction rule: reachable.induct) (auto intro: initial_inv kstep_inv)

end
