(* ===== verification/Demo.thy ===== *)
theory Demo
  imports System
begin

text \<open>
  A small concrete system for the witnesses: an idle task, two ready tasks of priorities 2 and
  3, and one blocked task, just after start-up; and the states that a few calls lead to.
\<close>

definition demo_td :: "u32 \<Rightarrow> nat \<Rightarrow> u32 \<Rightarrow> td" where
  "demo_td i p st = \<lparr>STATE = st, TASK_ID = i, MY_QUEUE = p, HOME_QUEUE = p, FLAGS = 0, INFO = 0,
     TIMEOUT = ZERO_TICK_STRUCT, BOOSTED = 0, TASK_ERROR_CODE = MQX_OK, LWEVENT_BITS = 0,
     TIME_SLICE = ZERO_TICK_STRUCT, CURRENT_TIME_SLICE = ZERO_TICK_STRUCT\<rparr>"

definition demo :: kernel where
  "demo = \<lparr>TDS = (\<lambda>_. demo_td 0 0 BLOCKED)(0x100 := demo_td 1 9 READY, 0x200 := demo_td 2 2 READY,
       0x300 := demo_td 3 3 READY, 0x400 := demo_td 4 3 BLOCKED),
     TD_LIST = [0x200, 0x300, 0x400], SYSTEM_TD = 0x100,
     READYQ = (\<lambda>_. [])(9 := [0x100], 2 := [0x200], 3 := [0x300]), CURRENT_READY_Q = 2,
     LOWEST_TASK_PRIORITY = 8, ACTIVE_PTR = 0x200, TIMEOUT_QUEUE = [],
     TIME = \<lparr>TICKS = 5, HW_TICKS = 0\<rparr>, TICKS_PER_SECOND = 200, HW_TICKS_PER_TICK = 1000,
     WAITQ = (\<lambda>_. []), LWSEMS = (\<lambda>_. \<lparr>SEM_VALID = 0, SEM_VALUE = 0\<rparr>), LWSEM_LIST = [],
     TASK_QUEUES = (\<lambda>_. \<lparr>TQ_VALID = 0, TQ_POLICY = 0\<rparr>), KERNEL_TASK_QUEUES = [],
     LWEVENTS = (\<lambda>_. \<lparr>EV_VALID = 0, EV_VALUE = 0, EV_FLAGS = 0, EV_AUTO = 0\<rparr>), LWEVENT_LIST = [],
     LWMSGQS = (\<lambda>_. \<lparr>MQ_VALID = 0, MQ_MSG_SIZE = 0, MQ_MAX_SIZE = 0, MQ_CURRENT_SIZE = 0,
       MQ_WRITE_LOC = 0, MQ_READ_LOC = 0, MQ_START_LOC = 0, MQ_END_LOC = 0\<rparr>), LWMSGQ_LIST = [],
     MUTEXES = (\<lambda>_. \<lparr>MX_PROTOCOLS = 0, MX_VALID = 0, MX_PRIORITY_CEILING = 0, MX_COUNT = 0, MX_LOCK = 0,
       MX_OWNER_TD = 0, MX_BOOSTED = 0\<rparr>), MUTEX_LIST = [], MUTEX_COMPONENT = None,
     MEM = (\<lambda>_. 0), IN_ISR = 0, INTERRUPT_CONTEXT = [], SCHED_POLICY = MQX_SCHED_FIFO,
     SCHED_TIME_SLICE = ZERO_TICK_STRUCT,
     QUICK_CACHE = \<lparr>ms_per_tick = 0, heuristic = 0\<rparr>\<rparr>"

lemma demo_owner: "\<not> owner demo h k"
  by (simp add: demo_def owner_def TASK_QUEUE_VALID_def LWSEM_VALID_def LWEVENT_VALID_def LWMSGQ_VALID_def MUTEX_VALID_def)

lemma demo_initial: "initial 0x100 demo"
  unfolding initial_def
  by (intro conjI allI; (simp add: demo_owner)?; (auto simp: demo_def demo_td_def tasks_def)?)

lemma demo_reachable: "reachable 0x100 demo"
  by (rule reachable.start [OF demo_initial])

lemma demo_inv: "sys_inv 0x100 demo"
  by (rule initial_inv [OF demo_initial])

end
