(* ===== verification/KernelProps.thy ===== *)
theory KernelProps
  imports Demo
begin

text \<open>
  Properties of the scheduler, the tick, task queues, semaphores, event groups and message
  queues. Each is about one component, in the state that the invariant of theory \<open>System\<close>
  describes; the witnesses apply it to the small system of theory \<open>Demo\<close>.
\<close>

section \<open>Helpers\<close>

subsection \<open>Ticks\<close>

lemma time_wake_loop_hw: "HW_TICKS_PER_TICK (time_wake_loop ts s) = HW_TICKS_PER_TICK s"
proof (induction ts arbitrary: s)
  case (Cons t ts)
  have "HW_TICKS_PER_TICK (time_wake t s) = HW_TICKS_PER_TICK s" by (simp add: time_wake_def Let_def)
  then show ?case using Cons.IH [of "time_wake t s"] by simp
qed simp

lemma notify_hw [simp]: "HW_TICKS_PER_TICK (time_notify_kernel h s) = HW_TICKS_PER_TICK s"
  by (simp add: notify_eq time_slice_check_def Let_def time_wake_loop_hw ticked_def)

text \<open>One tick adds one to a normalized time.\<close>

lemma notify_time:
  assumes "kinv {} s" "active_ok s" "HW_TICKS (TIME s) < HW_TICKS_PER_TICK s"
  shows "TIME (time_notify_kernel None s) = (TIME s)\<lparr>TICKS := TICKS (TIME s) + 1\<rparr>"
  using notify_spec(13) [OF assms(1,2), of None] assms(3)
  by (cases "TIME s") (simp add: ticked_def psp_normalize_ticks_def)

text \<open>A tick leaves the wake-up times alone.\<close>

lemma notify_wake_time:
  assumes "kinv {} s" "active_ok s" "t \<in> set (TIMEOUT_QUEUE (time_notify_kernel h s))"
  shows "wake_time (time_notify_kernel h s) t = wake_time s t"
proof -
  let ?s0 = "ticked h s" and ?s1 = "time_wake_loop (TIMEOUT_QUEUE s) (ticked h s)"
  have w: "woken (due ?s0) ?s0 ?s1" using time_wake_loop_woken [OF kinv_ticked [OF assms(1)]] by simp
  have a1: "kinv {} ?s1" "active_ok ?s1"
    using w assms(2) by (auto simp: woken_def active_ok_def split: if_splits)
  have g: "t \<in> set (TIMEOUT_QUEUE ?s1)" using assms(3) by (simp add: notify_eq time_slice_ok [OF a1])
  have "STATE (TDS ?s1 t) \<noteq> READY" using kinv_timeout_mem [OF a1(1) g] by auto
  then have "t \<notin> set (due ?s0)" "t \<noteq> ACTIVE_PTR ?s1"
    using w a1(2) by (auto simp: woken_def active_ok_def)
  then have "TDS (time_notify_kernel h s) t = TDS s t"
    using w time_slice_frame by (simp add: notify_eq woken_def)
  then show ?thesis by (simp add: wake_time_def)
qed

text \<open>
  A task on the timeout queue stays there, in its state and on its wait queue, as long as its
  time has not come; the tick at which it comes takes it off both and makes it ready.
\<close>

definition after_ticks :: "nat \<Rightarrow> kernel \<Rightarrow> kernel" where
  "after_ticks k s = (time_notify_kernel None ^^ k) s"

lemma after_ticks_Suc: "after_ticks (Suc k) s = time_notify_kernel None (after_ticks k s)"
  by (simp add: after_ticks_def)

lemma ticks_before:
  fixes n :: nat
  assumes "kinv {} s" "active_ok s" "HW_TICKS (TIME s) < HW_TICKS_PER_TICK s"
    and "t \<in> set (TIMEOUT_QUEUE s)" "unat (wake_time s t) = unat (TICKS (TIME s)) + n"
  shows "k < n \<Longrightarrow> kinv {} (after_ticks k s) \<and> active_ok (after_ticks k s)
    \<and> HW_TICKS (TIME (after_ticks k s)) < HW_TICKS_PER_TICK (after_ticks k s)
    \<and> t \<in> set (TIMEOUT_QUEUE (after_ticks k s)) \<and> wake_time (after_ticks k s) t = wake_time s t
    \<and> unat (TICKS (TIME (after_ticks k s))) = unat (TICKS (TIME s)) + k
    \<and> STATE (TDS (after_ticks k s) t) = STATE (TDS s t) \<and> INFO (TDS (after_ticks k s) t) = INFO (TDS s t)
    \<and> (\<forall>q. t \<in> set (WAITQ (after_ticks k s) q) \<longleftrightarrow> t \<in> set (WAITQ s q))
    \<and> LWSEMS (after_ticks k s) = LWSEMS s \<and> LWEVENTS (after_ticks k s) = LWEVENTS s"
proof (induction k)
  case 0
  then show ?case using assms by (simp add: after_ticks_def)
next
  case (Suc k)
  let ?s = "after_ticks k s" and ?s' = "time_notify_kernel None (after_ticks k s)"
  have IH: "kinv {} ?s" "active_ok ?s" "HW_TICKS (TIME ?s) < HW_TICKS_PER_TICK ?s" "t \<in> set (TIMEOUT_QUEUE ?s)"
    "wake_time ?s t = wake_time s t" "unat (TICKS (TIME ?s)) = unat (TICKS (TIME s)) + k"
    "STATE (TDS ?s t) = STATE (TDS s t)" "INFO (TDS ?s t) = INFO (TDS s t)"
    "\<And>q. t \<in> set (WAITQ ?s q) \<longleftrightarrow> t \<in> set (WAITQ s q)"
    "LWSEMS ?s = LWSEMS s" "LWEVENTS ?s = LWEVENTS s"
    using Suc by simp_all
  note n = notify_spec [OF IH(1,2), of None]
  have T: "TIME ?s' = (TIME ?s)\<lparr>TICKS := TICKS (TIME ?s) + 1\<rparr>" by (rule notify_time [OF IH(1-3)])
  have "unat (wake_time s t) < 18446744073709551616" using unsigned_less [of "wake_time s t"] by simp
  then have "unat (TICKS (TIME ?s)) + 1 < 2 ^ 64" using assms(5) Suc.prems IH(6) by simp
  then have tk: "unat (TICKS (TIME ?s')) = unat (TICKS (TIME s)) + Suc k"
    using IH(6) unat_add_noof [of "TICKS (TIME ?s)" 1] by (simp add: T)
  then have nd: "\<not> wake_time ?s t \<le> TICKS (TIME ?s')"
    using assms(5) Suc.prems IH(5) by (simp add: word_le_nat_alt)
  let ?D = "set (filter (\<lambda>u. wake_time ?s u \<le> TICKS (TIME ?s')) (TIMEOUT_QUEUE ?s))"
  have D: "t \<notin> ?D" using nd by simp
  have m: "t \<in> set (TIMEOUT_QUEUE ?s')" using n(4) IH(4) nd by simp
  have "kinv {} ?s'" "active_ok ?s'" using n(1,2) by (simp_all add: op_ok_def)
  moreover have "HW_TICKS (TIME ?s') < HW_TICKS_PER_TICK ?s'" using T IH(3) by simp
  moreover have "wake_time ?s' t = wake_time s t" using notify_wake_time [OF IH(1,2) m] IH(5) by simp
  moreover have "STATE (TDS ?s' t) = STATE (TDS s t)" using n(6) [of t] D IH(7) by (simp del: set_filter)
  moreover have "INFO (TDS ?s' t) = INFO (TDS s t)" using n(7) [of t] IH(8) by simp
  moreover have "t \<in> set (WAITQ ?s' q) \<longleftrightarrow> t \<in> set (WAITQ s q)" for q
    using D IH(9) [of q] by (simp only: n(5)) simp
  moreover have "LWSEMS ?s' = LWSEMS s" "LWEVENTS ?s' = LWEVENTS s" using n(8,10) IH(10,11) by simp_all
  ultimately show ?case using tk m unfolding after_ticks_Suc by blast
qed

lemma ticks_at:
  fixes n :: nat
  assumes "kinv {} s" "active_ok s" "HW_TICKS (TIME s) < HW_TICKS_PER_TICK s"
    and "t \<in> set (TIMEOUT_QUEUE s)" "unat (wake_time s t) = unat (TICKS (TIME s)) + n" "0 < n"
  defines "s' \<equiv> after_ticks n s"
  shows "kinv {} s'" "STATE (TDS s' t) = READY" "t \<notin> set (TIMEOUT_QUEUE s')" "t \<notin> set (WAITQ s' q)"
    and "INFO (TDS s' t) = INFO (TDS s t)" "LWSEMS s' = LWSEMS s" "LWEVENTS s' = LWEVENTS s"
proof -
  obtain m where m: "n = Suc m" using assms(6) by (cases n) auto
  let ?s = "after_ticks m s"
  have b: "kinv {} ?s" "active_ok ?s" "HW_TICKS (TIME ?s) < HW_TICKS_PER_TICK ?s" "t \<in> set (TIMEOUT_QUEUE ?s)"
    "wake_time ?s t = wake_time s t" "unat (TICKS (TIME ?s)) = unat (TICKS (TIME s)) + m"
    "INFO (TDS ?s t) = INFO (TDS s t)" "LWSEMS ?s = LWSEMS s" "LWEVENTS ?s = LWEVENTS s"
    using ticks_before [OF assms(1-5), of m] m by simp_all
  have e: "s' = time_notify_kernel None ?s" by (simp add: s'_def m after_ticks_Suc)
  note nt = notify_spec [OF b(1,2), of None, folded e]
  have "unat (wake_time s t) < 18446744073709551616" using unsigned_less [of "wake_time s t"] by simp
  then have "unat (TICKS (TIME ?s)) + 1 < 2 ^ 64" using assms(5) b(6) m by simp
  then have "unat (TICKS (TIME s')) = unat (wake_time s t)"
    using unat_add_noof [of "TICKS (TIME ?s)" 1] b(6) assms(5) by (simp add: e notify_time [OF b(1-3)] m)
  then have d: "wake_time ?s t \<le> TICKS (TIME s')" by (simp add: b(5) word_le_nat_alt)
  show k: "kinv {} s'" using nt(1) by (simp add: op_ok_def)
  show st: "STATE (TDS s' t) = READY" using nt(6) [of t] d b(4) by simp
  show "t \<notin> set (TIMEOUT_QUEUE s')" using kinv_timeout_mem [OF k, of t] st by auto
  show "t \<notin> set (WAITQ s' q)" using kinv_waitq_mem [OF k, of t q] st by auto
  show "INFO (TDS s' t) = INFO (TDS s t)" "LWSEMS s' = LWSEMS s" "LWEVENTS s' = LWEVENTS s"
    using nt b(7-9) by simp_all
qed

section \<open>The tick and delays\<close>

text \<open>
  C21. A tick wakes exactly the tasks whose time has come, whether they only delay or wait with
  a timeout: each of them is ready, on its ready queue, and off the timeout queue and its wait
  queue; every other task keeps its state, and the others keep their order on the timeout queue.
\<close>

theorem time_notify_kernel_wakes_due:
  assumes "kinv {} s" "active_ok s"
  shows "\<exists>s' now. s' = time_notify_kernel h s \<and> now = TICKS (TIME s')
    \<and> TIMEOUT_QUEUE s' = filter (\<lambda>u. now < wake_time s u) (TIMEOUT_QUEUE s)
    \<and> (\<forall>t. if t \<in> set (TIMEOUT_QUEUE s) \<and> wake_time s t \<le> now
         then STATE (TDS s' t) = READY \<and> t \<in> set (READYQ s' (MY_QUEUE (TDS s' t)))
              \<and> (\<forall>q. t \<notin> set (WAITQ s' q))
         else STATE (TDS s' t) = STATE (TDS s t)
              \<and> (\<forall>q. t \<in> set (WAITQ s' q) \<longleftrightarrow> t \<in> set (WAITQ s q)))"
proof (intro exI conjI allI)
  let ?s' = "time_notify_kernel h s"
  note n = notify_spec [OF assms, of h]
  have k: "kinv {} ?s'" "tasks ?s' = tasks s" using n(1) by (simp_all add: op_ok_def)
  show "TIMEOUT_QUEUE ?s' = filter (\<lambda>u. TICKS (TIME ?s') < wake_time s u) (TIMEOUT_QUEUE s)"
    by (simp only: n(4) not_le)
  fix t
  let ?D = "set (filter (\<lambda>u. wake_time s u \<le> TICKS (TIME ?s')) (TIMEOUT_QUEUE s))"
  have "STATE (TDS ?s' t) = READY \<and> t \<in> set (READYQ ?s' (MY_QUEUE (TDS ?s' t))) \<and> (\<forall>q. t \<notin> set (WAITQ ?s' q))"
    if D: "t \<in> ?D"
  proof -
    have st: "STATE (TDS ?s' t) = READY" using n(6) [of t] D by (simp del: set_filter)
    have "t \<in> tasks ?s'" using kinv_timeout_mem [OF assms(1), of t] D k(2) by simp
    from kinv_current_ready(1) [OF k(1) this _ st] st show ?thesis
      using kinv_waitq_mem [OF k(1), of t] by auto
  qed
  moreover have "STATE (TDS ?s' t) = STATE (TDS s t) \<and> (\<forall>q. t \<in> set (WAITQ ?s' q) \<longleftrightarrow> t \<in> set (WAITQ s q))"
    if D: "t \<notin> ?D"
    using n(6) [of t] D by (simp only: n(5)) simp
  ultimately show "if t \<in> set (TIMEOUT_QUEUE s) \<and> wake_time s t \<le> TICKS (TIME ?s')
         then STATE (TDS ?s' t) = READY \<and> t \<in> set (READYQ ?s' (MY_QUEUE (TDS ?s' t)))
              \<and> (\<forall>q. t \<notin> set (WAITQ ?s' q))
         else STATE (TDS ?s' t) = STATE (TDS s t)
              \<and> (\<forall>q. t \<in> set (WAITQ ?s' q) \<longleftrightarrow> t \<in> set (WAITQ s q))"
    unfolding set_filter mem_Collect_eq by presburger
qed rule+

theorem time_notify_kernel_wakes_due_witness:
  "\<exists>s' now. s' = time_notify_kernel None (time_delay_ticks 1 demo) \<and> now = TICKS (TIME s')
    \<and> TIMEOUT_QUEUE s' = filter (\<lambda>u. now < wake_time (time_delay_ticks 1 demo) u) (TIMEOUT_QUEUE (time_delay_ticks 1 demo))"
proof -
  have "sys_inv 0x100 (time_delay_ticks 1 demo)"
    by (rule blocking_calls(3) [OF demo_inv]) (simp add: demo_def)
  from time_notify_kernel_wakes_due [OF sys_invD(1,2) [OF this], of None] show ?thesis by blast
qed

text \<open>The state in which a delay leaves the delayed task.\<close>

lemma delay_ticks_state:
  fixes n :: u32
  assumes "sys_inv idle s" "ACTIVE_PTR s \<noteq> idle" "n \<noteq> 0" "unat (TICKS (TIME s)) + unat n < 2 ^ 64"
  defines "s' \<equiv> time_delay_ticks n s" and "t \<equiv> ACTIVE_PTR s"
  shows "t \<in> set (TIMEOUT_QUEUE s')" "unat (wake_time s' t) = unat (TICKS (TIME s')) + unat n"
    and "STATE (TDS s' t) = 0x102" "TIME s' = TIME s" "HW_TICKS_PER_TICK s' = HW_TICKS_PER_TICK s"
    and "kinv {} s'" "active_ok s'"
proof -
  note i = sys_invD [OF assms(1)]
  have a: "STATE (TDS s t) = READY" using i(2) by (simp add: active_ok_def t_def)
  have e: "s' = time_delay_internal t (set_timeout_ticks t n s)"
    using assms(3) by (simp add: s'_def time_delay_ticks_def t_def Let_def)
  show "t \<in> set (TIMEOUT_QUEUE s')" "STATE (TDS s' t) = 0x102" "TIME s' = TIME s"
    "HW_TICKS_PER_TICK s' = HW_TICKS_PER_TICK s"
    using a by (simp_all add: e time_delay_internal_def set_timeout_ticks_def time_delay_enqueue_def Let_def)
  have "unat (ucast n :: u64) = unat n" by (simp add: unat_ucast_up)
  then show "unat (wake_time s' t) = unat (TICKS (TIME s')) + unat n"
    using assms(4) unat_add_noof [of "TICKS (TIME s)" "ucast n"]
    by (simp add: e time_delay_internal_def set_timeout_ticks_def wake_time_def)
  show "kinv {} s'" "active_ok s'"
    using blocking_calls(3) [OF assms(1,2), of n] by (simp_all add: s'_def sys_inv_def)
qed



section \<open>Priorities\<close>

lemma timeout_insert_insort: "timeout_insert f t xs = insort_key f t xs"
  by (induction xs) auto

lemma insort_priority_insert:
  "sorted (map f (x # xs)) \<Longrightarrow> insort_key f x (priority_insert f t xs) = priority_insert f t (x # xs)"
proof (induction xs)
  case Nil
  then show ?case by auto
next
  case (Cons y ys)
  have le: "\<forall>z \<in> set (priority_insert f t (y # ys)). f x \<le> f z" if "f x \<le> f t"
    using Cons.prems that by auto
  show ?case
  proof (cases "f x \<le> f t")
    case True
    then have "insort_key f x (priority_insert f t (y # ys)) = x # priority_insert f t (y # ys)"
      using le [OF True] by (intro insort_is_Cons) auto
    then show ?thesis using True by simp
  next
    case False
    then have "f t < f y" using Cons.prems by auto
    then show ?thesis using False Cons.prems by simp
  qed
qed

lemma priority_insert_sort: "sorted (map f xs) \<Longrightarrow> priority_insert f t xs = sort_key f (xs @ [t])"
proof (induction xs)
  case (Cons x xs)
  then have "sort_key f ((x # xs) @ [t]) = insort_key f x (priority_insert f t xs)" by simp
  then show ?case using insort_priority_insert [OF Cons.prems] by simp
qed simp

text \<open>
  Both insertion loops of the kernel are stable sorts: the one by priority puts the new task
  behind the tasks of its priority, the one by wake-up time in front of the tasks with its time.
\<close>

theorem queue_insertions_stable:
  assumes "sorted (map f xs)" "sorted (map g ys)"
  shows "priority_insert f t xs = sort_key f (xs @ [t])
    \<and> timeout_insert g t ys = sort_key g (t # ys)"
  using assms by (simp add: timeout_insert_insort sort_key_id_if_sorted priority_insert_sort)

theorem queue_insertions_stable_witness:
  "priority_insert (\<lambda>a. if a = 7 then 4 else unat (a :: addr)) 7 [3, 4, 5] = [3, 4, 7, 5]
    \<and> timeout_insert (\<lambda>a. if a = 7 then 4 else (ucast a :: u64)) 7 [3, 4, 5] = [3, 7, 4, 5]"
  using queue_insertions_stable [of "\<lambda>a. if a = 7 then 4 else unat (a :: addr)" "[3, 4, 5]"
      "\<lambda>a. if a = 7 then 4 else (ucast a :: u64)" "[3, 4, 5]" 7]
  by simp

lemma fold_max_priority:
  fixes f :: "addr \<Rightarrow> nat" and p :: u32
  assumes "\<forall>t \<in> set ts. f t < 2 ^ 32"
  shows "unat (fold (\<lambda>t p. if of_nat (f t) < p then of_nat (f t) else p) ts p) =
    Min (insert (unat p) (f ` set ts))"
  using assms
proof (induction ts arbitrary: p)
  case (Cons t ts)
  let ?p = "if of_nat (f t) < p then of_nat (f t) else p"
  have "unat (of_nat (f t) :: u32) = f t" using Cons.prems by (simp add: unat_of_nat)
  then have p: "unat ?p = min (unat p) (f t)" by (auto simp: word_less_nat_alt)
  have "unat (fold (\<lambda>t p. if of_nat (f t) < p then of_nat (f t) else p) ts ?p) =
      Min (insert (min (unat p) (f t)) (f ` set ts))"
    using Cons.IH [of ?p] Cons.prems unfolding p by simp
  also have "\<dots> = Min (insert (unat p) (f ` set (t # ts)))"
    by (cases "f ` set ts = {}") (simp_all add: Min_insert min.assoc)
  finally show ?case by simp
qed simp

text \<open>
  \<open>_sched_get_max_priority_on_q_internal\<close> finds the smallest priority number among the
  waiting tasks, that is the highest priority, and \<open>MAX_MQX_UINT\<close> on an empty queue.
\<close>

theorem sched_get_max_priority_on_q_minimum:
  assumes "\<forall>t \<in> set (WAITQ s q). MY_QUEUE (TDS s t) < 2 ^ 32 - 1"
  shows "unat (sched_get_max_priority_on_q_internal q s) =
    (if WAITQ s q = [] then unat MAX_MQX_UINT else Min ((\<lambda>t. MY_QUEUE (TDS s t)) ` set (WAITQ s q)))"
proof -
  let ?A = "(\<lambda>t. MY_QUEUE (TDS s t)) ` set (WAITQ s q)"
  have e: "unat (sched_get_max_priority_on_q_internal q s) = Min (insert 4294967295 ?A)"
    unfolding sched_get_max_priority_on_q_internal_def
    using fold_max_priority [of "WAITQ s q" "\<lambda>t. MY_QUEUE (TDS s t)" MAX_MQX_UINT] assms by fastforce
  show ?thesis
  proof (cases "WAITQ s q = []")
    case False
    then have "Min ?A \<in> ?A" by (intro Min_in) auto
    then have "Min ?A < 4294967295" using assms by auto
    then show ?thesis using False by (simp add: e Min_insert)
  qed (simp add: e)
qed

theorem sched_get_max_priority_on_q_minimum_witness:
  "unat (sched_get_max_priority_on_q_internal 8 (demo\<lparr>WAITQ := (\<lambda>_. [0x300, 0x200])\<rparr>)) = 2"
  using sched_get_max_priority_on_q_minimum [of "demo\<lparr>WAITQ := (\<lambda>_. [0x300, 0x200])\<rparr>" 8]
  by (simp add: demo_def demo_td_def)

text \<open>
  Boosting a task that runs at its own priority and taking the boost back restores its
  priority, its flags and its state; while it is boosted it has the boosted priority, and the
  ready tasks are dispatched accordingly.
\<close>

theorem sched_boost_unboost_restores:
  assumes "sys_inv idle s" "t \<in> tasks s" "p \<le> LOWEST_TASK_PRIORITY s"
    and "MY_QUEUE (TDS s t) = HOME_QUEUE (TDS s t)" "BOOSTED (TDS s t) = 0"
    and "FLAGS (TDS s t) AND TASK_PRIORITY_BOOSTED = 0"
  shows "MY_QUEUE (TDS (sched_boost_priority_internal t p s) t) = p
    \<and> sys_inv idle (sched_boost_priority_internal t p s)
    \<and> MY_QUEUE (TDS (sched_unboost_priority_internal t 1 (sched_boost_priority_internal t p s)) t) = MY_QUEUE (TDS s t)
    \<and> FLAGS (TDS (sched_unboost_priority_internal t 1 (sched_boost_priority_internal t p s)) t) = FLAGS (TDS s t)
    \<and> BOOSTED (TDS (sched_unboost_priority_internal t 1 (sched_boost_priority_internal t p s)) t) = 0
    \<and> STATE (TDS (sched_unboost_priority_internal t 1 (sched_boost_priority_internal t p s)) t) = STATE (TDS s t)
    \<and> sys_inv idle (sched_unboost_priority_internal t 1 (sched_boost_priority_internal t p s))"
proof -
  let ?b = "sched_boost_priority_internal t p s"
  have b: "MY_QUEUE (TDS ?b t) = p" "BOOSTED (TDS ?b t) = 1" "HOME_QUEUE (TDS ?b t) = HOME_QUEUE (TDS s t)"
    "FLAGS (TDS ?b t) = FLAGS (TDS s t) OR TASK_PRIORITY_BOOSTED" "STATE (TDS ?b t) = STATE (TDS s t)"
    "tasks ?b = tasks s" "LOWEST_TASK_PRIORITY ?b = LOWEST_TASK_PRIORITY s"
    using assms(5) boost_ok(1) [OF sys_invD(1,2) [OF assms(1)] assms(2), of p] assms(3)
    by (simp_all add: sched_boost_priority_internal_def Let_def op_ok_def)
  have inv: "sys_inv idle ?b" by (rule sched_calls(3) [OF assms(1-3)])
  have un: "sys_inv idle (sched_unboost_priority_internal t 1 ?b)"
    using assms(2) by (intro sched_calls(4) [OF inv]) (simp add: b)
  have f: "(FLAGS (TDS s t) OR 0x8000) AND 0x8000 \<noteq> 0" by (simp add: bit.conj_disj_distrib2)
  have g: "(FLAGS (TDS s t) OR 0x8000) AND - 32769 = FLAGS (TDS s t)"
    using set_clear_flag [OF assms(6)] by simp
  then show ?thesis
    using b inv un f assms(4) by (simp add: sched_unboost_priority_internal_def Let_def)
qed

theorem sched_boost_unboost_restores_witness:
  "MY_QUEUE (TDS (sched_unboost_priority_internal 0x300 1 (sched_boost_priority_internal 0x300 1 demo)) 0x300) = 3
    \<and> ACTIVE_PTR (sched_boost_priority_internal 0x300 1 demo) = 0x300"
proof -
  have "MY_QUEUE (TDS (sched_unboost_priority_internal 0x300 1 (sched_boost_priority_internal 0x300 1 demo)) 0x300) = 3"
    using sched_boost_unboost_restores [OF demo_inv, of "0x300" 1]
    by (simp add: demo_def demo_td_def tasks_def)
  moreover have "ACTIVE_PTR (sched_boost_priority_internal 0x300 1 demo) = 0x300"
    by (simp add: sched_boost_priority_internal_def sched_set_priority_internal_def Let_def
        sched_check_scheduler_internal_def sched_execute_scheduler_internal_def find_noempty_que_def
        TASK_READY_def UNLINK_READY_def upd_td_def demo_def demo_td_def upt_conv_Cons)
  ultimately show ?thesis by simp
qed



text \<open>
  The time slice that is set for a task, or as the default, is the one read back, and the
  call returns the one it replaces; an unknown task is refused with an error code.
\<close>

theorem sched_rr_interval_roundtrip:
  "(task_id = MQX_DEFAULT_TASK_ID \<or> task_get_td task_id s \<noteq> NULL \<longrightarrow>
     (\<exists>old s'. sched_set_rr_interval_ticks task_id new_rr s = (MQX_OK, Some old, s')
        \<and> sched_get_rr_interval_ticks task_id s = (MQX_OK, Some old, s)
        \<and> sched_get_rr_interval_ticks task_id s' = (MQX_OK, Some new_rr, s')))
   \<and> (task_id \<noteq> MQX_DEFAULT_TASK_ID \<and> task_get_td task_id s = NULL \<longrightarrow>
     fst (sched_set_rr_interval_ticks task_id new_rr s) = MQX_SCHED_INVALID_TASK_ID
     \<and> fst (snd (sched_set_rr_interval_ticks task_id new_rr s)) = None)"
proof -
  have "task_get_td i (upd_td t (\<lambda>d. d\<lparr>TIME_SLICE := x\<rparr>) s) = task_get_td i s" for i t x
  proof -
    have "TASK_ID (TDS (upd_td t (\<lambda>d. d\<lparr>TIME_SLICE := x\<rparr>) s) u) = TASK_ID (TDS s u)" for u by simp
    then show ?thesis by (simp only: task_get_td_def upd_td_simps(2,3,7))
  qed
  then show ?thesis
    by (simp add: sched_set_rr_interval_ticks_def sched_set_rr_interval_internal_def
        sched_get_rr_interval_ticks_def Let_def)
qed

theorem sched_rr_interval_roundtrip_witness:
  "\<exists>s'. sched_set_rr_interval_ticks 3 \<lparr>TICKS = 7, HW_TICKS = 0\<rparr> demo = (MQX_OK, Some ZERO_TICK_STRUCT, s')
     \<and> sched_get_rr_interval_ticks 3 s' = (MQX_OK, Some \<lparr>TICKS = 7, HW_TICKS = 0\<rparr>, s')"
proof -
  have "task_get_td 3 demo = 0x300" "sched_get_rr_interval_ticks 3 demo = (MQX_OK, Some ZERO_TICK_STRUCT, demo)"
    by (simp_all add: task_get_td_def sched_get_rr_interval_ticks_def demo_def demo_td_def)
  then show ?thesis
    using sched_rr_interval_roundtrip [of 3 demo "\<lparr>TICKS = 7, HW_TICKS = 0\<rparr>"] by auto
qed

section \<open>Task queues\<close>

text \<open>
  C37. A task queue by priority hands out its tasks in priority order, first come first served
  within a priority: suspending a task keeps the queue sorted, with the task behind those of its
  own priority, and resuming one releases the head, whose priority no waiting task exceeds, to
  the end of its ready queue.
\<close>

theorem taskq_priority_order:
  assumes "sys_inv idle s" "t \<in> tasks s" "STATE (TDS s t) = READY"
    and "TQ_VALID (TASK_QUEUES s q) = TASK_QUEUE_VALID" "q \<noteq> NULL"
    and "TQ_POLICY (TASK_QUEUES s q) = MQX_TASK_QUEUE_BY_PRIORITY"
    and "sorted (map (\<lambda>u. MY_QUEUE (TDS s u)) (WAITQ s (TASKQ_TD_QUEUE q)))"
  shows "WAITQ (taskq_enter q t s) (TASKQ_TD_QUEUE q) =
           sort_key (\<lambda>u. MY_QUEUE (TDS s u)) (WAITQ s (TASKQ_TD_QUEUE q) @ [t])
    \<and> (\<forall>u us. WAITQ s (TASKQ_TD_QUEUE q) = u # us \<longrightarrow>
         (\<exists>s'. taskq_resume q False s = (MQX_OK, s') \<and> WAITQ s' (TASKQ_TD_QUEUE q) = us
            \<and> READYQ s' (MY_QUEUE (TDS s u)) = READYQ s (MY_QUEUE (TDS s u)) @ [u]
            \<and> (\<forall>v \<in> set us. MY_QUEUE (TDS s u) \<le> MY_QUEUE (TDS s v))))"
proof (intro conjI allI impI)
  let ?h = "TASKQ_TD_QUEUE q"
  note priority_insert_sort [OF assms(7), of t]
  then show "WAITQ (taskq_enter q t s) ?h = sort_key (\<lambda>u. MY_QUEUE (TDS s u)) (WAITQ s ?h @ [t])"
    using assms(6) by (simp add: taskq_enter_queue)
  fix u us assume w: "WAITQ s ?h = u # us"
  let ?s1 = "TASK_READY u (s\<lparr>WAITQ := (WAITQ s)(?h := us)\<rparr>)"
  have "taskq_resume q False s = (MQX_OK, sched_check_scheduler_internal ?s1)"
    using assms(4,5) w by (simp add: taskq_resume_def Let_def)
  then show "\<exists>s'. taskq_resume q False s = (MQX_OK, s') \<and> WAITQ s' ?h = us
            \<and> READYQ s' (MY_QUEUE (TDS s u)) = READYQ s (MY_QUEUE (TDS s u)) @ [u]
            \<and> (\<forall>v \<in> set us. MY_QUEUE (TDS s u) \<le> MY_QUEUE (TDS s v))"
    using assms(7) w by simp
qed

text \<open>A task queue by priority with one task on it.\<close>

definition demo_taskq :: kernel where
  "demo_taskq = snd (taskq_suspend 0x2000 (snd (taskq_create MQX_TASK_QUEUE_BY_PRIORITY 0x2000 demo)))"

lemma demo_taskq_inv: "sys_inv 0x100 demo_taskq"
proof -
  have "unused demo (TASKQ_TD_QUEUE 0x2000)" by (simp add: unused_def demo_owner) (simp add: demo_def)
  from taskq_calls(1) [OF demo_inv this]
  have "sys_inv 0x100 (snd (taskq_create MQX_TASK_QUEUE_BY_PRIORITY 0x2000 demo))" .
  then show ?thesis unfolding demo_taskq_def
    by (rule blocking_calls(5)) (simp add: taskq_create_def demo_def Let_def)
qed

lemma demo_taskq_state:
  "WAITQ demo_taskq (TASKQ_TD_QUEUE 0x2000) = [0x200]" "ACTIVE_PTR demo_taskq = 0x300"
  "TQ_VALID (TASK_QUEUES demo_taskq 0x2000) = TASK_QUEUE_VALID"
  "TQ_POLICY (TASK_QUEUES demo_taskq 0x2000) = MQX_TASK_QUEUE_BY_PRIORITY"
  "STATE (TDS demo_taskq 0x300) = READY" "0x300 \<in> tasks demo_taskq"
  "MY_QUEUE (TDS demo_taskq 0x300) = 3" "MY_QUEUE (TDS demo_taskq 0x200) = 2"
  by (simp_all add: demo_taskq_def taskq_suspend_def taskq_create_def taskq_enter_def Let_def
      sched_execute_scheduler_internal_def find_noempty_que_def UNLINK_READY_def upd_td_def upd_taskq_def
      sched_insert_priorityq_internal_def TASKQ_TD_QUEUE_def demo_def demo_td_def tasks_def upt_conv_Cons)

theorem taskq_priority_order_witness:
  "WAITQ (taskq_enter 0x2000 0x300 demo_taskq) (TASKQ_TD_QUEUE 0x2000) = [0x200, 0x300]
    \<and> (\<exists>s'. taskq_resume 0x2000 False demo_taskq = (MQX_OK, s') \<and> WAITQ s' (TASKQ_TD_QUEUE 0x2000) = [])"
  using taskq_priority_order [OF demo_taskq_inv, of "0x300" "0x2000"]
  by (simp add: demo_taskq_state) blast

section \<open>Semaphores\<close>

text \<open>
  C20. \<open>_lwsem_post\<close> hands the token to the task that waits longest: it leaves the semaphore's
  queue and the timeout queue, is ready at the end of its ready queue, and its wait returns
  \<open>MQX_OK\<close>; the count stays. Without a waiting task the count goes up by one.
\<close>

theorem lwsem_post_hands_over:
  assumes "kinv {} s" "SEM_VALID (LWSEMS s m) = LWSEM_VALID" "0 \<le> sint (SEM_VALUE (LWSEMS s m))"
  shows "(WAITQ s (LWSEM_TD_QUEUE m) = [] \<longrightarrow>
      lwsem_post m s = (MQX_OK, upd_sem m (\<lambda>S. S\<lparr>SEM_VALUE := SEM_VALUE S + 1\<rparr>) s))
    \<and> (\<forall>t ts. WAITQ s (LWSEM_TD_QUEUE m) = t # ts \<longrightarrow>
      (\<exists>s'. lwsem_post m s = (MQX_OK, s') \<and> WAITQ s' (LWSEM_TD_QUEUE m) = ts \<and> LWSEMS s' = LWSEMS s
         \<and> STATE (TDS s' t) = READY \<and> t \<notin> set (TIMEOUT_QUEUE s')
         \<and> READYQ s' (MY_QUEUE (TDS s t)) = READYQ s (MY_QUEUE (TDS s t)) @ [t]
         \<and> lwsem_wait_timed_resume m t s' = MQX_OK))"
proof (intro conjI allI impI)
  assume "WAITQ s (LWSEM_TD_QUEUE m) = []"
  then show "lwsem_post m s = (MQX_OK, upd_sem m (\<lambda>S. S\<lparr>SEM_VALUE := SEM_VALUE S + 1\<rparr>) s)"
    using assms by (simp add: lwsem_post_def Let_def)
next
  fix t ts assume w: "WAITQ s (LWSEM_TD_QUEUE m) = t # ts"
  from lwsem_post_release [OF assms w] obtain s1 where r: "released [t] (LWSEM_TD_QUEUE m) s s1"
    and e: "lwsem_post m s = (MQX_OK, sched_check_scheduler_internal (upd_td t (\<lambda>d. d\<lparr>INFO := 0\<rparr>) s1))" by blast
  have "WAITQ s1 (LWSEM_TD_QUEUE m) = ts" using released_hd [OF r assms(1) w] by simp
  moreover have "STATE (TDS s1 t) = READY" using releasedD [OF r, of t] by simp
  moreover have "t \<notin> set (TIMEOUT_QUEUE s1)"
    "READYQ s1 (MY_QUEUE (TDS s t)) = READYQ s (MY_QUEUE (TDS s t)) @ [t]"
    using r by (simp_all add: released_def)
  moreover note released_frame(6) [OF r]
  ultimately show "\<exists>s'. lwsem_post m s = (MQX_OK, s') \<and> WAITQ s' (LWSEM_TD_QUEUE m) = ts \<and> LWSEMS s' = LWSEMS s
         \<and> STATE (TDS s' t) = READY \<and> t \<notin> set (TIMEOUT_QUEUE s')
         \<and> READYQ s' (MY_QUEUE (TDS s t)) = READYQ s (MY_QUEUE (TDS s t)) @ [t]
         \<and> lwsem_wait_timed_resume m t s' = MQX_OK"
    using assms(2) by (simp add: e lwsem_wait_timed_resume_def)
qed

text \<open>A semaphore on which the first task waits without, and with, a timeout.\<close>

definition demo_sem :: kernel where
  "demo_sem = snd (lwsem_create 0x1000 0 demo)"

definition demo_sem_wait :: kernel where
  "demo_sem_wait = snd (lwsem_wait_ticks 0x1000 4 demo_sem)"

lemma demo_sem_state:
  "SEM_VALID (LWSEMS demo_sem 0x1000) = LWSEM_VALID" "SEM_VALUE (LWSEMS demo_sem 0x1000) = 0"
  "IN_ISR demo_sem = 0" "ACTIVE_PTR demo_sem = 0x200" "WAITQ demo_sem h = []"
  "TIME demo_sem = \<lparr>TICKS = 5, HW_TICKS = 0\<rparr>" "HW_TICKS_PER_TICK demo_sem = 1000"
  by (simp_all add: demo_sem_def kernel_defs demo_def)

lemma demo_sem_inv: "sys_inv 0x100 demo_sem"
proof -
  have "unused demo (LWSEM_TD_QUEUE 0x1000)" by (simp add: unused_def demo_owner) (simp add: demo_def)
  from lwsem_calls(1) [OF demo_inv this] show ?thesis by (simp add: demo_sem_def)
qed

lemma demo_sem_wait_inv: "sys_inv 0x100 demo_sem_wait"
  unfolding demo_sem_wait_def by (rule lwsem_waits [OF demo_sem_inv]) (simp add: demo_sem_state)

lemma demo_sem_wait_state:
  "WAITQ demo_sem_wait (LWSEM_TD_QUEUE 0x1000) = [0x200]"
  "LWSEMS demo_sem_wait = LWSEMS demo_sem" "ACTIVE_PTR demo_sem_wait = 0x300"
  by (simp_all add: demo_sem_wait_def lwsem_wait_ticks_def lwsem_wait_frame_def demo_sem_state
      lwsem_wait_timed_internal_def time_delay_internal_def set_timeout_ticks_def)
    (simp add: kernel_defs time_delay_enqueue_def demo_sem_def demo_def demo_td_def upt_conv_Cons)

theorem lwsem_post_hands_over_witness:
  "\<exists>s'. lwsem_post 0x1000 demo_sem_wait = (MQX_OK, s') \<and> WAITQ s' (LWSEM_TD_QUEUE 0x1000) = []
     \<and> lwsem_wait_timed_resume 0x1000 0x200 s' = MQX_OK"
  using lwsem_post_hands_over [OF sys_invD(1) [OF demo_sem_wait_inv], of "0x1000"]
  by (simp add: demo_sem_wait_state demo_sem_state) blast

lemma lwsem_wait_ticks_state:
  fixes n :: u32 and m :: addr
  assumes "sys_inv idle s" "ACTIVE_PTR s \<noteq> idle" "IN_ISR s = 0" "n \<noteq> 0"
    and "SEM_VALID (LWSEMS s m) = LWSEM_VALID" "sint (SEM_VALUE (LWSEMS s m)) \<le> 0"
    and "unat (TICKS (TIME s)) + unat n < 2 ^ 64"
  defines "s' \<equiv> snd (lwsem_wait_ticks m n s)" and "t \<equiv> ACTIVE_PTR s"
  shows "fst (lwsem_wait_ticks m n s) = None" "t \<in> set (TIMEOUT_QUEUE s')"
    and "unat (wake_time s' t) = unat (TICKS (TIME s')) + unat n"
    and "TIME s' = TIME s" "HW_TICKS_PER_TICK s' = HW_TICKS_PER_TICK s" "kinv {} s'" "active_ok s'"
    and "t \<in> set (WAITQ s' (LWSEM_TD_QUEUE m))" "INFO (TDS s' t) = LWSEM_TD_QUEUE m" "LWSEMS s' = LWSEMS s"
proof -
  have e: "lwsem_wait_ticks m n s = (None, lwsem_wait_timed_internal m t (set_timeout_ticks t n s))"
    using assms(3-6) by (simp add: lwsem_wait_ticks_def lwsem_wait_frame_def t_def)
  show "fst (lwsem_wait_ticks m n s) = None" by (simp add: e)
  show "t \<in> set (TIMEOUT_QUEUE s')" "TIME s' = TIME s" "t \<in> set (WAITQ s' (LWSEM_TD_QUEUE m))"
    "INFO (TDS s' t) = LWSEM_TD_QUEUE m" "LWSEMS s' = LWSEMS s"
    by (simp_all add: s'_def e lwsem_wait_timed_internal_def time_delay_internal_def set_timeout_ticks_def)
      (simp add: time_delay_enqueue_def lwsem_enqueue_active_def Let_def)
  show "HW_TICKS_PER_TICK s' = HW_TICKS_PER_TICK s"
    by (simp add: s'_def e lwsem_wait_timed_internal_def time_delay_internal_def set_timeout_ticks_def
        time_delay_enqueue_def lwsem_enqueue_active_def Let_def)
  have "unat (ucast n :: u64) = unat n" by simp
  then have "unat (TICKS (TIME s) + ucast n) = unat (TICKS (TIME s)) + unat n"
    using assms(7) unat_add_noof [of "TICKS (TIME s)" "ucast n"] by simp
  then show "unat (wake_time s' t) = unat (TICKS (TIME s')) + unat n"
    by (simp add: s'_def e lwsem_wait_timed_internal_def time_delay_internal_def set_timeout_ticks_def wake_time_def)
      (simp add: time_delay_enqueue_def lwsem_enqueue_active_def Let_def)
  show "kinv {} s'" "active_ok s'"
    using lwsem_waits(3) [OF assms(1,2), of m n] by (simp_all add: s'_def sys_inv_def)
qed



text \<open>The abstract counting semaphore: \<open>True\<close> is a post, \<open>False\<close> a poll with its result.\<close>

fun count_run :: "bool list \<Rightarrow> nat \<Rightarrow> bool list \<times> nat" where
  "count_run [] n = ([], n)"
| "count_run (True # ops) n = count_run ops (Suc n)"
| "count_run (False # ops) n = (let (rs, n') = count_run ops (n - 1) in ((0 < n) # rs, n'))"

fun sem_run :: "addr \<Rightarrow> bool list \<Rightarrow> kernel \<Rightarrow> bool list \<times> kernel" where
  "sem_run m [] s = ([], s)"
| "sem_run m (True # ops) s = sem_run m ops (snd (lwsem_post m s))"
| "sem_run m (False # ops) s =
     (let (r, s) = lwsem_poll m s; (rs, s) = sem_run m ops s in (r # rs, s))"

lemma sint_step:
  fixes v :: u32
  shows "0 \<le> sint v \<Longrightarrow> sint v < 2147483647 \<Longrightarrow> sint (v + 1) = sint v + 1"
    and "0 < sint v \<Longrightarrow> sint (v - 1) = sint v - 1"
proof -
  assume a: "0 \<le> sint v" "sint v < 2147483647"
  have "sint (v + 1) = signed_take_bit 31 (sint v + 1)" by (simp add: sint_word_ariths)
  also have "\<dots> = sint v + 1" using a by (intro signed_take_bit_int_eq_self) auto
  finally show "sint (v + 1) = sint v + 1" .
next
  assume a: "0 < sint v"
  have "sint (v - 1) = signed_take_bit 31 (sint v - 1)" by (simp add: sint_word_ariths)
  also have "\<dots> = sint v - 1" using a sint_less [of v] by (intro signed_take_bit_int_eq_self) auto
  finally show "sint (v - 1) = sint v - 1" .
qed

text \<open>
  C35. Without waiting tasks a semaphore is a counter: every sequence of posts and polls on it
  gives the results, and leaves the count, of the abstract counting semaphore, as long as the
  count stays within \<open>_mqx_int\<close>.
\<close>

theorem lwsem_refines_counter:
  assumes "SEM_VALID (LWSEMS s m) = LWSEM_VALID" "WAITQ s (LWSEM_TD_QUEUE m) = []"
    and "sint (SEM_VALUE (LWSEMS s m)) = int n" "n + length ops < 2 ^ 31"
  shows "fst (sem_run m ops s) = fst (count_run ops n)
    \<and> sint (SEM_VALUE (LWSEMS (snd (sem_run m ops s)) m)) = int (snd (count_run ops n))"
  using assms
proof (induction ops n arbitrary: s rule: count_run.induct)
  case (2 ops n)
  let ?s = "upd_sem m (\<lambda>S. S\<lparr>SEM_VALUE := SEM_VALUE S + 1\<rparr>) s"
  have "lwsem_post m s = (MQX_OK, ?s)" using 2(2-4) by (simp add: lwsem_post_def Let_def)
  moreover have "sint (SEM_VALUE (LWSEMS s m) + 1) = int (Suc n)"
    using 2(4,5) by (subst sint_step(1)) auto
  ultimately show ?case using 2(1) [of ?s] 2(2,3,5) by simp
next
  case (3 ops n)
  let ?s = "upd_sem m (\<lambda>S. S\<lparr>SEM_VALUE := SEM_VALUE S - 1\<rparr>) s"
  show ?case
  proof (cases "0 < n")
    case True
    have "lwsem_poll m s = (True, ?s)" using 3(2,4) True by (simp add: lwsem_poll_def)
    moreover have "sint (SEM_VALUE (LWSEMS s m) - 1) = int (n - 1)"
      using 3(4) True by (subst sint_step(2)) auto
    ultimately show ?thesis using 3(1) [of ?s] 3(2,3,5) True
      by (auto simp: Let_def split: prod.splits)
  next
    case False
    have "lwsem_poll m s = (False, s)" using 3(2,4) False by (simp add: lwsem_poll_def)
    then show ?thesis using 3(1) [of s] 3(2-5) False by (auto simp: Let_def split: prod.splits)
  qed
qed simp

theorem lwsem_refines_counter_witness:
  "fst (sem_run 0x1000 [False, True, True, False, False, False] demo_sem) = [False, True, True, False]"
  using lwsem_refines_counter [of demo_sem "0x1000" 0 "[False, True, True, False, False, False]"]
  by (simp add: demo_sem_state)

section \<open>Event groups\<close>

text \<open>
  C19. \<open>_lwevent_set\<close> implements the scan of the waiting tasks in the order they came: a satisfied
  task is released, with the bits that woke it in \<open>LWEVENT_BITS\<close>, and its automatic bits are
  cleared before the next one is looked at; the group keeps the bits that remain. Whoever still
  waits afterwards is not satisfied by them, and is untouched.
\<close>

theorem lwevent_set_implements_scan:
  assumes "kinv {} s" "EV_VALID (LWEVENTS s e) = LWEVENT_VALID"
    and "event_scan (TDS s) (EV_AUTO (LWEVENTS s e)) (WAITQ s (WAITING_TASKS e))
           (EV_VALUE (LWEVENTS s e) OR bits) = (b', W)"
  shows "\<exists>s'. lwevent_set e bits s = (MQX_OK, s') \<and> EV_VALUE (LWEVENTS s' e) = b'
    \<and> WAITQ s' (WAITING_TASKS e) = filter (\<lambda>t. t \<notin> fst ` set W) (WAITQ s (WAITING_TASKS e))
    \<and> (\<forall>(t, got) \<in> set W. STATE (TDS s' t) = READY \<and> LWEVENT_BITS (TDS s' t) = got
         \<and> lwevent_wait_resume e timed t s' = MQX_OK)
    \<and> (\<forall>t \<in> set (WAITQ s' (WAITING_TASKS e)). TDS s' t = TDS s t \<and> \<not> lwevent_satisfied (TDS s' t) b')"
proof -
  let ?h = "WAITING_TASKS e"
  from lwevent_set_spec [OF assms] obtain s1 where r: "released (map fst W) ?h s s1"
    and W: "\<forall>(t, got) \<in> set W. INFO (TDS s1 t) = 0 \<and> LWEVENT_BITS (TDS s1 t) = got"
    and eq: "lwevent_set e bits s =
      (MQX_OK, sched_check_scheduler_internal (upd_event e (\<lambda>E. E\<lparr>EV_VALUE := b'\<rparr>) s1))" by blast
  have q: "WAITQ s1 ?h = filter (\<lambda>t. t \<notin> fst ` set W) (WAITQ s ?h)" using r by (simp add: released_def)
  have st: "STATE (TDS s1 t) = READY" if "(t, got) \<in> set W" for t got
    using releasedD [OF r, of t] that by (force split: if_splits)
  have d: "distinct (WAITQ s ?h)" using kinv_queues [OF assms(1)] by (simp add: queues_ok_def)
  have rest: "TDS s1 t = TDS s t \<and> \<not> lwevent_satisfied (TDS s t) b'" if "t \<in> set (WAITQ s1 ?h)" for t
    using that q releasedD [OF r, of t] assms(3)
      event_scan_rest [OF d, of t "TDS s" "EV_AUTO (LWEVENTS s e)" "EV_VALUE (LWEVENTS s e) OR bits"]
    by auto
  have v: "EV_VALID (LWEVENTS s1 e) \<noteq> 0"
    using assms(2) released_frame(8) [OF r] by (simp add: LWEVENT_VALID_def)
  show ?thesis unfolding eq
    using q st rest W v by (auto simp: lwevent_wait_resume_def)
qed

text \<open>A group on which one task waits for bits 0 and 1, and one for bit 1 or 2.\<close>

definition demo_event :: kernel where
  "demo_event = snd (lwevent_wait_ticks 0x3000 6 False 0
     (snd (lwevent_wait_ticks 0x3000 3 True 0 (snd (lwevent_create 0x3000 0 demo)))))"

lemma demo_event_inv: "sys_inv 0x100 demo_event"
proof -
  have "unused demo (WAITING_TASKS 0x3000)" by (simp add: unused_def demo_owner) (simp add: demo_def)
  note 1 = lwevent_calls(1) [OF demo_inv this, of 0]
  have a: "ACTIVE_PTR (snd (lwevent_create 0x3000 0 demo)) = 0x200"
    by (simp add: kernel_defs demo_def)
  have 2: "sys_inv 0x100 (snd (lwevent_wait_ticks 0x3000 3 True 0 (snd (lwevent_create 0x3000 0 demo))))"
    unfolding lwevent_wait_ticks_def using lwevent_calls(6) [OF 1] a by simp
  have "ACTIVE_PTR (snd (lwevent_wait_ticks 0x3000 3 True 0 (snd (lwevent_create 0x3000 0 demo)))) = 0x300"
    by (simp add: kernel_defs demo_def demo_td_def upt_conv_Cons)
  then show ?thesis unfolding demo_event_def
    using lwevent_calls(6) [OF 2] by (simp add: lwevent_wait_ticks_def)
qed

lemma demo_event_state:
  "WAITQ demo_event (WAITING_TASKS 0x3000) = [0x200, 0x300]"
  "EV_VALID (LWEVENTS demo_event 0x3000) = LWEVENT_VALID" "EV_VALUE (LWEVENTS demo_event 0x3000) = 0"
  "EV_AUTO (LWEVENTS demo_event 0x3000) = 0" "IN_ISR demo_event = 0"
  "LWEVENT_BITS (TDS demo_event 0x200) = 3" "FLAGS (TDS demo_event 0x200) = 0x80"
  "LWEVENT_BITS (TDS demo_event 0x300) = 6" "FLAGS (TDS demo_event 0x300) = 0"
  by (simp_all add: demo_event_def kernel_defs WAITING_TASKS_def demo_def demo_td_def upt_conv_Cons)

theorem lwevent_set_implements_scan_witness:
  "\<exists>s'. lwevent_set 0x3000 2 demo_event = (MQX_OK, s') \<and> EV_VALUE (LWEVENTS s' 0x3000) = 2
    \<and> WAITQ s' (WAITING_TASKS 0x3000) = [0x200] \<and> LWEVENT_BITS (TDS s' 0x300) = 2"
  using lwevent_set_implements_scan [OF sys_invD(1) [OF demo_event_inv], of "0x3000" 2 2 "[(0x300, 2)]" True]
  by (auto simp: demo_event_state lwevent_satisfied_def)

text \<open>
  Without automatic bits, setting bits wakes exactly the waiting tasks whose condition the
  new value satisfies, all of them at once, whatever their order.
\<close>

theorem lwevent_set_manual_wakes_all_satisfied:
  assumes "kinv {} s" "EV_VALID (LWEVENTS s e) = LWEVENT_VALID" "EV_AUTO (LWEVENTS s e) = 0"
  shows "\<exists>s'. lwevent_set e bits s = (MQX_OK, s')
    \<and> EV_VALUE (LWEVENTS s' e) = EV_VALUE (LWEVENTS s e) OR bits
    \<and> (\<forall>t \<in> set (WAITQ s (WAITING_TASKS e)).
         if lwevent_satisfied (TDS s t) (EV_VALUE (LWEVENTS s e) OR bits)
         then STATE (TDS s' t) = READY \<and> t \<notin> set (WAITQ s' (WAITING_TASKS e))
              \<and> LWEVENT_BITS (TDS s' t) = LWEVENT_BITS (TDS s t) AND (EV_VALUE (LWEVENTS s e) OR bits)
         else t \<in> set (WAITQ s' (WAITING_TASKS e)) \<and> TDS s' t = TDS s t)"
proof -
  let ?b = "EV_VALUE (LWEVENTS s e) OR bits" and ?h = "WAITING_TASKS e"
  let ?W = "map (\<lambda>t. (t, LWEVENT_BITS (TDS s t) AND ?b)) (filter (\<lambda>t. lwevent_satisfied (TDS s t) ?b) (WAITQ s ?h))"
  have sc: "event_scan (TDS s) (EV_AUTO (LWEVENTS s e)) (WAITQ s ?h) ?b = (?b, ?W)"
    by (simp add: assms(3) event_scan_manual)
  from lwevent_set_spec [OF assms(1,2) sc] obtain s1 where r: "released (map fst ?W) ?h s s1"
    and W: "\<forall>(t, got) \<in> set ?W. INFO (TDS s1 t) = 0 \<and> LWEVENT_BITS (TDS s1 t) = got"
    and eq: "lwevent_set e bits s =
      (MQX_OK, sched_check_scheduler_internal (upd_event e (\<lambda>E. E\<lparr>EV_VALUE := ?b\<rparr>) s1))" by blast
  have D: "set (map fst ?W) = {t \<in> set (WAITQ s ?h). lwevent_satisfied (TDS s t) ?b}" by force
  have q: "set (WAITQ s1 ?h) = set (WAITQ s ?h) - set (map fst ?W)"
    using r unfolding released_def by (auto simp del: set_map)
  have "if lwevent_satisfied (TDS s t) ?b
         then STATE (TDS s1 t) = READY \<and> t \<notin> set (WAITQ s1 ?h) \<and> LWEVENT_BITS (TDS s1 t) = LWEVENT_BITS (TDS s t) AND ?b
         else t \<in> set (WAITQ s1 ?h) \<and> TDS s1 t = TDS s t" if t: "t \<in> set (WAITQ s ?h)" for t
  proof (cases "lwevent_satisfied (TDS s t) ?b")
    case True
    then have "t \<in> set (map fst ?W)" "(t, LWEVENT_BITS (TDS s t) AND ?b) \<in> set ?W" using t unfolding D by auto
    then show ?thesis using True releasedD [OF r, of t] W q by (auto simp del: set_map)
  next
    case False
    then have "t \<notin> set (map fst ?W)" unfolding D by simp
    then show ?thesis using False t releasedD [OF r, of t] q by (simp del: set_map)
  qed
  then show ?thesis unfolding eq by simp
qed

theorem lwevent_set_manual_wakes_all_satisfied_witness:
  "\<exists>s'. lwevent_set 0x3000 3 demo_event = (MQX_OK, s')
    \<and> STATE (TDS s' 0x200) = READY \<and> STATE (TDS s' 0x300) = READY"
  using lwevent_set_manual_wakes_all_satisfied [OF sys_invD(1) [OF demo_event_inv], of "0x3000" 3]
  by (auto simp: demo_event_state lwevent_satisfied_def)

section \<open>Destroying an object\<close>

text \<open>
  Destroying a semaphore fails its waiting tasks: all of them become ready, in their order,
  off the timeout queue, and their waits return \<open>MQX_INVALID_LWSEM\<close>, however they were bounded;
  every later call on the semaphore is refused without an effect.
\<close>

theorem lwsem_destroy_fails_waiters:
  assumes "kinv {} s" "SEM_VALID (LWSEMS s m) = LWSEM_VALID"
  shows "\<exists>s'. lwsem_destroy m s = (MQX_OK, s') \<and> WAITQ s' = (WAITQ s)(LWSEM_TD_QUEUE m := [])
    \<and> (\<forall>p. READYQ s' p = READYQ s p @ filter (\<lambda>t. MY_QUEUE (TDS s t) = p) (WAITQ s (LWSEM_TD_QUEUE m)))
    \<and> (\<forall>t \<in> set (WAITQ s (LWSEM_TD_QUEUE m)). STATE (TDS s' t) = READY \<and> t \<notin> set (TIMEOUT_QUEUE s')
         \<and> lwsem_wait_timed_resume m t s' = MQX_INVALID_LWSEM)
    \<and> lwsem_wait_resume m s' = MQX_INVALID_LWSEM \<and> lwsem_post m s' = (MQX_INVALID_LWSEM, s')
    \<and> lwsem_poll m s' = (False, s') \<and> lwsem_destroy m s' = (MQX_INVALID_LWSEM, s')"
proof -
  let ?s0 = "upd_sem m (\<lambda>S. S\<lparr>SEM_VALID := 0\<rparr>) s" and ?h = "LWSEM_TD_QUEUE m"
  from lwsem_destroy_released [OF assms] obtain s1 where r: "released (WAITQ s ?h) ?h ?s0 s1"
    and e: "lwsem_destroy m s =
      (MQX_OK, sched_check_scheduler_internal (s1\<lparr>LWSEM_LIST := remove1 m (LWSEM_LIST s1)\<rparr>))" by blast
  have v: "SEM_VALID (LWSEMS s1 m) \<noteq> LWSEM_VALID" using released_frame(6) [OF r] by (simp add: LWSEM_VALID_def)
  have "STATE (TDS s1 t) = READY \<and> t \<notin> set (TIMEOUT_QUEUE s1)" if "t \<in> set (WAITQ s ?h)" for t
    using releasedD [OF r, of t] r that by (simp add: released_def)
  moreover have "WAITQ s1 = (WAITQ s)(?h := [])" using released_all [of ?s0 ?h s1] r by simp
  ultimately show ?thesis using v r unfolding e
    by (simp add: lwsem_wait_timed_resume_def lwsem_wait_resume_def lwsem_post_def lwsem_poll_def
        lwsem_destroy_def lwsem_destroy_internal_def Let_def released_def)
qed

theorem lwsem_destroy_fails_waiters_witness:
  "\<exists>s'. lwsem_destroy 0x1000 demo_sem_wait = (MQX_OK, s') \<and> STATE (TDS s' 0x200) = READY
     \<and> lwsem_wait_timed_resume 0x1000 0x200 s' = MQX_INVALID_LWSEM"
  using lwsem_destroy_fails_waiters [OF sys_invD(1) [OF demo_sem_wait_inv], of "0x1000"]
  by (simp add: demo_sem_wait_state demo_sem_state) blast

text \<open>
  Likewise for an event group, from a task: its waiting tasks become ready, and their waits
  return \<open>MQX_LWEVENT_INVALID\<close>, not \<open>MQX_OK\<close> and not a timeout.
\<close>

theorem lwevent_destroy_fails_waiters:
  assumes "kinv {} s" "EV_VALID (LWEVENTS s e) = LWEVENT_VALID" "IN_ISR s = 0"
  shows "\<exists>s'. lwevent_destroy e s = (MQX_OK, s') \<and> WAITQ s' = (WAITQ s)(WAITING_TASKS e := [])
    \<and> (\<forall>p. READYQ s' p = READYQ s p @ filter (\<lambda>t. MY_QUEUE (TDS s t) = p) (WAITQ s (WAITING_TASKS e)))
    \<and> (\<forall>t \<in> set (WAITQ s (WAITING_TASKS e)). STATE (TDS s' t) = READY \<and> t \<notin> set (TIMEOUT_QUEUE s')
         \<and> lwevent_wait_resume e timed t s' = MQX_LWEVENT_INVALID)
    \<and> lwevent_set e bits s' = (MQX_LWEVENT_INVALID, s') \<and> lwevent_clear e bits s' = (MQX_LWEVENT_INVALID, s')
    \<and> lwevent_destroy e s' = (MQX_LWEVENT_INVALID, s')"
proof -
  let ?s0 = "upd_event e (\<lambda>S. S\<lparr>EV_VALID := 0\<rparr>) s" and ?h = "WAITING_TASKS e"
  from lwevent_destroy_released [OF assms] obtain s1 where r: "released (WAITQ s ?h) ?h ?s0 s1"
    and e: "lwevent_destroy e s =
      (MQX_OK, sched_check_scheduler_internal (s1\<lparr>LWEVENT_LIST := remove1 e (LWEVENT_LIST s1)\<rparr>))" by blast
  have v: "EV_VALID (LWEVENTS s1 e) = 0" "0 \<noteq> LWEVENT_VALID" "IN_ISR s1 = 0"
    using released_frame(3,8) [OF r] assms(3) by (simp_all add: LWEVENT_VALID_def)
  have "STATE (TDS s1 t) = READY \<and> t \<notin> set (TIMEOUT_QUEUE s1)" if "t \<in> set (WAITQ s ?h)" for t
    using releasedD [OF r, of t] r that by (simp add: released_def)
  moreover have "WAITQ s1 = (WAITQ s)(?h := [])" using released_all [of ?s0 ?h s1] r by simp
  ultimately show ?thesis using v r unfolding e
    by (simp add: lwevent_wait_resume_def lwevent_set_def lwevent_clear_def
        lwevent_destroy_def lwevent_destroy_internal_def released_def)
qed

theorem lwevent_destroy_fails_waiters_witness:
  "\<exists>s'. lwevent_destroy 0x3000 demo_event = (MQX_OK, s')
     \<and> lwevent_wait_resume 0x3000 False 0x200 s' = MQX_LWEVENT_INVALID \<and> STATE (TDS s' 0x300) = READY"
  using lwevent_destroy_fails_waiters [OF sys_invD(1) [OF demo_event_inv], of "0x3000" False 0]
  by (simp add: demo_event_state) blast

section \<open>Message queues\<close>

lemma task_block_frame [simp]:
  "WAITQ (task_block s) = WAITQ s" "LWMSGQS (task_block s) = LWMSGQS s" "MEM (task_block s) = MEM s"
  "TIMEOUT_QUEUE (task_block s) = TIMEOUT_QUEUE s"
  "u \<noteq> ACTIVE_PTR s \<Longrightarrow> TDS (task_block s) u = TDS s u"
  by (simp_all add: task_block_def Let_def)

lemma msgq_messages_same:
  "LWMSGQS s' = LWMSGQS s \<Longrightarrow> MEM s' = MEM s \<Longrightarrow> msgq_messages q s' = msgq_messages q s"
  by (simp add: msgq_messages_def)

text \<open>
  C17. \<open>_lwmsgq_send\<close> on a ring that is not full appends the message in the sender's buffer and
  wakes the first waiting reader; on a full one it returns \<open>LWMSGQ_FULL\<close> without an effect or, with
  the flag, the sender waits behind the other writers and the messages stay as they are.
\<close>

theorem lwmsgq_send_appends_and_wakes:
  fixes flags :: u32
  assumes "kinv {} s" "active_ok s" "IN_ISR s = 0" "MQ_VALID (LWMSGQS s q) = LWMSGQ_VALID" "msgq_inv q b s"
  shows "if LWMSGQ_IS_FULL (LWMSGQS s q)
    then if flags AND LWMSGQ_SEND_BLOCK_ON_FULL = 0 then lwmsgq_send q b flags s = (Some LWMSGQ_FULL, s)
      else \<exists>s'. lwmsgq_send q b flags s = (None, s') \<and> msgq_messages q s' = msgq_messages q s
        \<and> WAITQ s' = (WAITQ s)(WAITING_WRITERS q := WAITQ s (WAITING_WRITERS q) @ [ACTIVE_PTR s])
    else \<exists>s'. lwmsgq_send q b flags s = (Some MQX_OK, s')
      \<and> msgq_messages q s' = msgq_messages q s @ [load_words (MEM s) b (unat (MQ_MSG_SIZE (LWMSGQS s q)))]
      \<and> WAITQ s' = (WAITQ s)(WAITING_READERS q := tl (WAITQ s (WAITING_READERS q)))
      \<and> (WAITQ s (WAITING_READERS q) \<noteq> [] \<longrightarrow> STATE (TDS s' (hd (WAITQ s (WAITING_READERS q)))) = READY
           \<and> INFO (TDS s' (hd (WAITQ s (WAITING_READERS q)))) = 0
           \<and> hd (WAITQ s (WAITING_READERS q)) \<notin> set (TIMEOUT_QUEUE s'))"
proof (cases "LWMSGQ_IS_FULL (LWMSGQS s q)")
  case True
  have "WAITQ (lwmsgq_write_block q s) =
      (WAITQ s)(WAITING_WRITERS q := WAITQ s (WAITING_WRITERS q) @ [ACTIVE_PTR s])"
    "msgq_messages q (lwmsgq_write_block q s) = msgq_messages q s"
    by (simp_all add: lwmsgq_write_block_def lwmsgq_enqueue_active_def Let_def msgq_messages_def)
  then show ?thesis using True assms(3,4) by (simp add: lwmsgq_send_def)
next
  case False
  let ?s0 = "lwmsgq_write q b s" and ?h = "WAITING_READERS q" and ?s' = "lwmsgq_send_now q b flags s"
  have e: "lwmsgq_send q b flags s = (Some MQX_OK, ?s')" using False assms(3,4) by (simp add: lwmsgq_send_def)
  have m: "msgq_messages q ?s0 = msgq_messages q s @ [load_words (MEM s) b (unat (MQ_MSG_SIZE (LWMSGQS s q)))]"
    using lwmsgq_write_appends(2) [of s q b] False assms(5) by (simp add: msgq_inv_def msgq_messages_def)
  have "msgq_messages q ?s' = msgq_messages q ?s0 \<and> WAITQ ?s' = (WAITQ s)(?h := tl (WAITQ s ?h))
      \<and> (WAITQ s ?h \<noteq> [] \<longrightarrow> STATE (TDS ?s' (hd (WAITQ s ?h))) = READY
           \<and> INFO (TDS ?s' (hd (WAITQ s ?h))) = 0 \<and> hd (WAITQ s ?h) \<notin> set (TIMEOUT_QUEUE ?s'))"
    using lwmsgq_send_now_cases [OF assms(1), of q b flags]
  proof (elim disjE exE conjE)
    assume "WAITQ s ?h = []" "?s' = (if flags AND LWMSGQ_SEND_BLOCK_ON_SEND \<noteq> 0 then task_block ?s0 else ?s0)"
    then show ?thesis by (auto simp: msgq_messages_def)
  next
    fix t s1 assume w: "WAITQ s ?h = t # tl (WAITQ s ?h)" and r: "released [t] ?h ?s0 s1"
      and i: "INFO (TDS s1 t) = 0"
      and s': "?s' = (if flags AND LWMSGQ_SEND_BLOCK_ON_SEND \<noteq> 0 then task_block s1
                      else sched_check_scheduler_internal s1)"
    have k: "kinv {} ?s0" using lwmsgq_copy_ok(1) [OF assms(1)] by (simp add: op_ok_def)
    have q: "WAITQ s1 = (WAITQ s)(?h := tl (WAITQ s ?h))" using released_hd [OF r k] w by simp
    have "t \<in> set (WAITQ s ?h)" using w by (metis list.set_intros(1))
    then have "t \<noteq> ACTIVE_PTR s1"
      using kinv_waitq_mem [OF assms(1), of t ?h] assms(2) released_frame(4) [OF r] by (auto simp: active_ok_def)
    moreover have "STATE (TDS s1 t) = READY" "t \<notin> set (TIMEOUT_QUEUE s1)" "hd (WAITQ s ?h) = t"
      using releasedD [OF r, of t] r w by (simp_all add: released_def) (metis list.sel(1))
    moreover have "msgq_messages q s1 = msgq_messages q ?s0"
      using released_frame(9,10) [OF r] by (rule msgq_messages_same)
    ultimately show ?thesis using s' q i by (auto simp: msgq_messages_def)
  qed
  then show ?thesis using False m e by simp
qed

text \<open>
  C18. \<open>_lwmsgq_receive\<close> on a ring that is not empty takes its oldest message into the reader's
  buffer and wakes the first waiting writer; on an empty one it returns \<open>LWMSGQ_EMPTY\<close> without an
  effect or, with the flag and no time limit, the reader waits behind the other readers.
\<close>

theorem lwmsgq_receive_takes_and_wakes:
  fixes flags :: u32
  assumes "sys_inv idle s" "IN_ISR s = 0" "MQ_VALID (LWMSGQS s q) = LWMSGQ_VALID" "msgq_inv q b s"
  shows "(msgq_messages q s = [] \<longrightarrow>
      (if flags AND LWMSGQ_RECEIVE_BLOCK_ON_EMPTY = 0
       then lwmsgq_receive q b flags n x s = (Some LWMSGQ_EMPTY, s)
       else \<exists>s'. lwmsgq_receive q b flags n x s = (None, s') \<and> msgq_messages q s' = []
         \<and> WAITQ s' = (WAITQ s)(WAITING_READERS q := WAITQ s (WAITING_READERS q) @ [ACTIVE_PTR s])))
    \<and> (\<forall>w ws. msgq_messages q s = w # ws \<longrightarrow> (\<exists>s'. lwmsgq_receive q b flags n x s = (Some MQX_OK, s')
         \<and> load_words (MEM s') b (unat (MQ_MSG_SIZE (LWMSGQS s q))) = w \<and> msgq_messages q s' = ws
         \<and> WAITQ s' = (WAITQ s)(WAITING_WRITERS q := tl (WAITQ s (WAITING_WRITERS q)))
         \<and> (WAITQ s (WAITING_WRITERS q) \<noteq> [] \<longrightarrow> STATE (TDS s' (hd (WAITQ s (WAITING_WRITERS q)))) = READY)))"
proof (intro conjI impI allI)
  note i = sys_invD [OF assms(1)]
  have emp: "LWMSGQ_IS_EMPTY (LWMSGQS s q) \<longleftrightarrow> msgq_messages q s = []"
    by (auto simp: LWMSGQ_IS_EMPTY_def msgq_messages_def ring_messages_def unat_eq_0)
  show "if flags AND LWMSGQ_RECEIVE_BLOCK_ON_EMPTY = 0
       then lwmsgq_receive q b flags n x s = (Some LWMSGQ_EMPTY, s)
       else \<exists>s'. lwmsgq_receive q b flags n x s = (None, s') \<and> msgq_messages q s' = []
         \<and> WAITQ s' = (WAITQ s)(WAITING_READERS q := WAITQ s (WAITING_READERS q) @ [ACTIVE_PTR s])"
    if "msgq_messages q s = []"
  proof -
    have "WAITQ (lwmsgq_read_block q flags n x s) =
        (WAITQ s)(WAITING_READERS q := WAITQ s (WAITING_READERS q) @ [ACTIVE_PTR s])"
      "msgq_messages q (lwmsgq_read_block q flags n x s) = msgq_messages q s"
      by (simp_all add: lwmsgq_read_block_def lwmsgq_enqueue_active_def Let_def msgq_messages_def
          time_delay_internal_def set_timeout_ticks_def time_delay_enqueue_def)
    then show ?thesis using that emp assms(2,3) by (simp add: lwmsgq_receive_def)
  qed
  fix w ws assume m: "msgq_messages q s = w # ws"
  let ?s0 = "lwmsgq_read q b s" and ?h = "WAITING_WRITERS q" and ?s' = "lwmsgq_receive_now q b s"
  have e: "lwmsgq_receive q b flags n x s = (Some MQX_OK, ?s')"
    using m emp assms(2,3) by (simp add: lwmsgq_receive_def)
  have g: "msgq_messages q ?s0 = ws" "load_words (MEM ?s0) b (unat (MQ_MSG_SIZE (LWMSGQS s q))) = w"
    using lwmsgq_read_removes [of s q w ws b] m assms(4) by (simp_all add: msgq_inv_def msgq_messages_def)
  have u: "\<forall>t \<in> set (WAITQ s ?h). \<not> on_timeout (STATE (TDS s t))"
    using obj_ok_untimed [OF i(3,1), of ?h] assms(3) by (simp add: owner_def WAITING_WRITERS_def)
  have "msgq_messages q ?s' = msgq_messages q ?s0 \<and> MEM ?s' = MEM ?s0 \<and> WAITQ ?s' = (WAITQ s)(?h := tl (WAITQ s ?h))
      \<and> (WAITQ s ?h \<noteq> [] \<longrightarrow> STATE (TDS ?s' (hd (WAITQ s ?h))) = READY)"
    using lwmsgq_receive_now_cases [OF i(1) u, of b]
  proof (elim disjE exE conjE)
    assume "WAITQ s ?h = []" "?s' = ?s0"
    then show ?thesis by auto
  next
    fix t s1 assume w: "WAITQ s ?h = t # tl (WAITQ s ?h)" and r: "released [t] ?h ?s0 s1"
      and s': "?s' = sched_check_scheduler_internal s1"
    have k: "kinv {} ?s0" using lwmsgq_copy_ok(1) [OF i(1)] by (simp add: op_ok_def)
    have q: "WAITQ s1 = (WAITQ s)(?h := tl (WAITQ s ?h))" using released_hd [OF r k] w by simp
    have "STATE (TDS s1 t) = READY" "hd (WAITQ s ?h) = t"
      using releasedD [OF r, of t] w by (simp_all) (metis list.sel(1))
    then show ?thesis using s' q released_frame(9,10) [OF r] by (auto simp: msgq_messages_def)
  qed
  then show "\<exists>s'. lwmsgq_receive q b flags n x s = (Some MQX_OK, s')
      \<and> load_words (MEM s') b (unat (MQ_MSG_SIZE (LWMSGQS s q))) = w \<and> msgq_messages q s' = ws
      \<and> WAITQ s' = (WAITQ s)(?h := tl (WAITQ s ?h))
      \<and> (WAITQ s ?h \<noteq> [] \<longrightarrow> STATE (TDS s' (hd (WAITQ s ?h))) = READY)"
    using e g by auto
qed

text \<open>A message queue of two one-word messages, and a reader that waits on it.\<close>

definition demo_msgq :: kernel where
  "demo_msgq = snd (lwmsgq_init 0x5000 2 1 demo)"

definition demo_reader :: kernel where
  "demo_reader = snd (lwmsgq_receive 0x5000 0x6000 LWMSGQ_RECEIVE_BLOCK_ON_EMPTY 0 ZERO_TICK_STRUCT demo_msgq)"

lemma demo_msgq_state:
  "LWMSGQS demo_msgq 0x5000 = \<lparr>MQ_VALID = LWMSGQ_VALID, MQ_MSG_SIZE = 1, MQ_MAX_SIZE = 2, MQ_CURRENT_SIZE = 0,
     MQ_WRITE_LOC = 0x5040, MQ_READ_LOC = 0x5040, MQ_START_LOC = 0x5040, MQ_END_LOC = 0x5048\<rparr>"
  "IN_ISR demo_msgq = 0" "ACTIVE_PTR demo_msgq = 0x200" "WAITQ demo_msgq h = []" "MEM demo_msgq = (\<lambda>_. 0)"
  by (simp_all add: demo_msgq_def kernel_defs demo_def)

lemma demo_msgq_inv: "sys_inv 0x100 demo_msgq"
proof -
  have "unused demo (WAITING_WRITERS 0x5000)" "unused demo (WAITING_READERS 0x5000)"
    by (simp_all add: unused_def demo_owner) (simp_all add: demo_def)
  from lwmsgq_calls(1) [OF demo_inv this] show ?thesis by (simp add: demo_msgq_def)
qed

lemma demo_msgq_ring: "msgq_inv 0x5000 0x6000 demo_msgq" "msgq_messages 0x5000 demo_msgq = []"
  using lwmsgq_init_ring [of 2 1 "0x5000" demo]
  by (simp_all add: demo_msgq_def [symmetric] msgq_inv_def buffer_ok_def demo_msgq_state ring_region_def words_at_def
      lessThan_Suc lessThan_nat_numeral)

lemma demo_reader_inv: "sys_inv 0x100 demo_reader"
  unfolding demo_reader_def by (rule lwmsgq_calls(4) [OF demo_msgq_inv]) (simp add: demo_msgq_state)

lemma demo_reader_state:
  "LWMSGQS demo_reader = LWMSGQS demo_msgq" "IN_ISR demo_reader = 0" "MEM demo_reader = MEM demo_msgq"
  "WAITQ demo_reader (WAITING_READERS 0x5000) = [0x200]"
  by (simp_all add: demo_reader_def demo_msgq_state lwmsgq_defs Let_def)

lemma demo_reader_ring: "msgq_inv 0x5000 0x6000 demo_reader" "msgq_messages 0x5000 demo_reader = []"
  using demo_msgq_ring by (simp_all add: msgq_inv_def msgq_messages_def demo_reader_state)

theorem lwmsgq_send_appends_and_wakes_witness:
  "\<exists>s'. lwmsgq_send 0x5000 0x6000 0 demo_reader = (Some MQX_OK, s') \<and> msgq_messages 0x5000 s' = [[0]]
     \<and> WAITQ s' (WAITING_READERS 0x5000) = [] \<and> STATE (TDS s' 0x200) = READY"
  using lwmsgq_send_appends_and_wakes [OF sys_invD(1,2) [OF demo_reader_inv] demo_reader_state(2) _ demo_reader_ring(1), of 0]
  by (simp add: demo_reader_state demo_reader_ring demo_msgq_state LWMSGQ_IS_FULL_def load_words_def) auto

theorem lwmsgq_receive_takes_and_wakes_witness:
  "lwmsgq_receive 0x5000 0x6000 0 0 ZERO_TICK_STRUCT demo_msgq = (Some LWMSGQ_EMPTY, demo_msgq)"
  using lwmsgq_receive_takes_and_wakes [OF demo_msgq_inv demo_msgq_state(2) _ demo_msgq_ring(1), of 0]
  by (simp add: demo_msgq_state demo_msgq_ring)

text \<open>A queue takes messages of its size while it has room.\<close>

lemma msgq_put_geometry:
  "MQ_MSG_SIZE (LWMSGQS (snd (msgq_put q b ws s)) q) = MQ_MSG_SIZE (LWMSGQS s q) \<and>
   MQ_MAX_SIZE (LWMSGQS (snd (msgq_put q b ws s)) q) = MQ_MAX_SIZE (LWMSGQS s q)"
  using lwmsgq_copy_geometry [of lwmsgq_write q b "s\<lparr>MEM := store_words b ws (MEM s)\<rparr>" q]
  by (simp add: msgq_put_def)

lemma msgq_full_length:
  "LWMSGQ_IS_FULL (LWMSGQS s q) \<longleftrightarrow> unat (MQ_MAX_SIZE (LWMSGQS s q)) \<le> length (msgq_messages q s)"
  by (simp add: LWMSGQ_IS_FULL_def msgq_messages_def ring_messages_def word_le_nat_alt)

lemma msgq_accepts:
  assumes "msgq_inv q b s" "\<forall>ws \<in> set wss. length ws = unat (MQ_MSG_SIZE (LWMSGQS s q))"
    and "length (msgq_messages q s) + length wss \<le> unat (MQ_MAX_SIZE (LWMSGQS s q))"
  shows "msgs.accepts q b s wss"
  using assms
proof (induction wss arbitrary: s)
  case (Cons ws wss)
  let ?s = "snd (msgq_put q b ws s)"
  have f: "\<not> LWMSGQ_IS_FULL (LWMSGQS s q)" using Cons.prems(3) by (simp add: msgq_full_length)
  note p = msgs.put_ok [OF Cons.prems(1) _ f, of ws] msgq_put_geometry [of q b ws s]
  have "msgs.accepts q b ?s wss" using p Cons.prems by (intro Cons.IH) auto
  then show ?case using f Cons.prems by simp
qed simp

text \<open>
  C16. A message queue is first in, first out across the ring's wrap-around: after the messages
  in it, a client that writes a sequence of messages through its buffer, as many as there is
  room for, reads back exactly the old ones and then its own, in order and unchanged.
\<close>

theorem lwmsgq_first_in_first_out:
  assumes "msgq_inv q b s" "\<forall>ws \<in> set wss. length ws = unat (MQ_MSG_SIZE (LWMSGQS s q))"
    and "length (msgq_messages q s) + length wss \<le> unat (MQ_MAX_SIZE (LWMSGQS s q))"
  shows "fst (msgs.get_many q b (length (msgq_messages q s) + length wss) (msgs.put_all q b wss s))
    = msgq_messages q s @ wss"
  using msgs.first_in_first_out [OF assms(1) msgq_accepts [OF assms]] .

theorem lwmsgq_first_in_first_out_witness:
  "fst (msgs.get_many 0x5000 0x6000 (Suc (Suc 0)) (msgs.put_all 0x5000 0x6000 [[7], [9]] demo_msgq)) = [[7], [9]]"
  using lwmsgq_first_in_first_out [OF demo_msgq_ring(1), of "[[7], [9]]"]
  by (simp add: demo_msgq_ring demo_msgq_state)

end
