(* ===== verification/MutexProps.thy ===== *)
theory MutexProps
  imports Demo
begin

text \<open>
  Properties of mutexes: they refine the abstract lock that is a line of tasks, the owner in
  front; priorities are lent and given back; and a run in which a lent priority is lost.
\<close>

section \<open>A boost does not take the processor away from a locking task\<close>

lemma boost_simps [simp]:
  "WAITQ (sched_boost_priority_internal u p s) = WAITQ s"
  "MUTEXES (sched_boost_priority_internal u p s) = MUTEXES s"
  "tasks (sched_boost_priority_internal u p s) = tasks s"
  "LOWEST_TASK_PRIORITY (sched_boost_priority_internal u p s) = LOWEST_TASK_PRIORITY s"
  "STATE (TDS (sched_boost_priority_internal u p s) t) = STATE (TDS s t)"
  "HOME_QUEUE (TDS (sched_boost_priority_internal u p s) t) = HOME_QUEUE (TDS s t)"
  "MY_QUEUE (TDS (sched_boost_priority_internal u p s) t) = (if t = u then p else MY_QUEUE (TDS s t))"
  "BOOSTED (TDS (sched_boost_priority_internal u p s) t) =
     (if t = u then BOOSTED (TDS s u) + 1 else BOOSTED (TDS s t))"
  "FLAGS (TDS (sched_boost_priority_internal u p s) t) =
     (if t = u then FLAGS (TDS s u) OR TASK_PRIORITY_BOOSTED else FLAGS (TDS s t))"
  by (simp_all add: sched_boost_priority_internal_def Let_def)

lemma unboost_simps [simp]:
  "WAITQ (sched_unboost_priority_internal u n s) = WAITQ s"
  "MUTEXES (sched_unboost_priority_internal u n s) = MUTEXES s"
  "STATE (TDS (sched_unboost_priority_internal u n s) t) = STATE (TDS s t)"
  by (simp_all add: sched_unboost_priority_internal_def Let_def)

lemma boost_stays:
  assumes "active_ok s" "top_ok s" "u \<noteq> ACTIVE_PTR s \<Longrightarrow> MY_QUEUE (TDS s (ACTIVE_PTR s)) \<le> p"
    and "p < MY_QUEUE (TDS s u)"
  shows "ACTIVE_PTR (sched_boost_priority_internal u p s) = ACTIVE_PTR s"
  using assms by (auto simp: sched_boost_priority_internal_def sched_set_priority_internal_def Let_def
      sched_check_scheduler_internal_def active_ok_def top_ok_def)

definition boost_effect :: "addr \<Rightarrow> addr \<Rightarrow> nat \<Rightarrow> kernel \<Rightarrow> kernel" where
  "boost_effect m u p s =
     (if HOME_QUEUE (TDS s u) > p
      then mutex_boosted m (if MY_QUEUE (TDS s u) > p then sched_boost_priority_internal u p s else s) else s)"

lemma mutex_boost_effect:
  assumes "active_ok s" "top_ok s" "u \<noteq> ACTIVE_PTR s \<Longrightarrow> MY_QUEUE (TDS s (ACTIVE_PTR s)) \<le> p"
  shows "mutex_boost m u p k s = k (boost_effect m u p s)"
  using boost_stays [OF assms(1,2), of u p] assms(3) by (simp add: mutex_boost_def boost_effect_def run_on_def)

lemma boost_effect_simps [simp]:
  "WAITQ (boost_effect m u p s) = WAITQ s" "tasks (boost_effect m u p s) = tasks s"
  "MX_VALID (MUTEXES (boost_effect m u p s) n) = MX_VALID (MUTEXES s n)"
  "MX_LOCK (MUTEXES (boost_effect m u p s) n) = MX_LOCK (MUTEXES s n)"
  "MX_OWNER_TD (MUTEXES (boost_effect m u p s) n) = MX_OWNER_TD (MUTEXES s n)"
  "MX_PROTOCOLS (MUTEXES (boost_effect m u p s) n) = MX_PROTOCOLS (MUTEXES s n)"
  "MX_PRIORITY_CEILING (MUTEXES (boost_effect m u p s) n) = MX_PRIORITY_CEILING (MUTEXES s n)"
  "MX_BOOSTED (MUTEXES (boost_effect m u p s) n) =
     MX_BOOSTED (MUTEXES s n) + (if n = m \<and> HOME_QUEUE (TDS s u) > p then 1 else 0)"
  "STATE (TDS (boost_effect m u p s) t) = STATE (TDS s t)"
  "HOME_QUEUE (TDS (boost_effect m u p s) t) = HOME_QUEUE (TDS s t)"
  "MY_QUEUE (TDS (boost_effect m u p s) t) =
     (if t = u \<and> HOME_QUEUE (TDS s u) > p then min p (MY_QUEUE (TDS s u)) else MY_QUEUE (TDS s t))"
  "BOOSTED (TDS (boost_effect m u p s) t) = BOOSTED (TDS s t)
     + (if t = u \<and> HOME_QUEUE (TDS s u) > p \<and> MY_QUEUE (TDS s u) > p then 1 else 0)"
  by (auto simp: boost_effect_def mutex_boosted_def)

lemma boost_effect_active:
  assumes "active_ok s" "top_ok s" "u \<noteq> ACTIVE_PTR s \<Longrightarrow> MY_QUEUE (TDS s (ACTIVE_PTR s)) \<le> p"
  shows "ACTIVE_PTR (boost_effect m u p s) = ACTIVE_PTR s"
  using boost_stays [OF assms] by (auto simp: boost_effect_def mutex_boosted_def)

lemma boost_effect_inv:
  assumes "sys_inv idle s" "u \<in> tasks s"
  shows "sys_inv idle (boost_effect m u p s)"
proof -
  have "sys_inv idle (sched_boost_priority_internal u p s)" if "p < HOME_QUEUE (TDS s u)"
    using sched_calls(3) [OF assms, of p] sys_home [OF assms] that by simp
  then show ?thesis using assms(1) by (auto simp: boost_effect_def intro!: boosted_inv)
qed

text \<open>The end of a lock as a straight line of code.\<close>

definition lock_effect :: "addr \<Rightarrow> kernel \<Rightarrow> kernel" where
  "lock_effect m s =
     (let s = (if MX_PROTOCOLS (MUTEXES s m) AND MUTEX_PRIO_INHERIT \<noteq> 0
                  \<and> MX_PROTOCOLS (MUTEXES s m) AND MUTEX_PRIORITY_QUEUEING = 0
               then boost_effect m (ACTIVE_PTR s)
                 (unat (sched_get_max_priority_on_q_internal (MUTEX_WAITING_TASKS m) s)) s else s)
      in if MX_PROTOCOLS (MUTEXES s m) AND MUTEX_PRIO_PROTECT \<noteq> 0
         then boost_effect m (ACTIVE_PTR s) (MX_PRIORITY_CEILING (MUTEXES s m)) s else s)"

lemma lock_protect_effect:
  assumes "active_ok s" "top_ok s"
  shows "mutex_lock_protect m s = (Some MQX_OK, if MX_PROTOCOLS (MUTEXES s m) AND MUTEX_PRIO_PROTECT \<noteq> 0
         then boost_effect m (ACTIVE_PTR s) (MX_PRIORITY_CEILING (MUTEXES s m)) s else s)"
  using assms by (simp add: mutex_lock_protect_def mutex_boost_effect)

lemma lock_owned_effect:
  assumes "sys_inv idle s" "IN_ISR s = 0"
  shows "mutex_lock_owned m s = (Some MQX_OK, lock_effect m s)"
proof -
  have i: "active_ok s" "top_ok s" "ACTIVE_PTR s \<in> tasks s"
    using assms by (simp_all add: sys_inv_def active_ok_def)
  have b: "sys_inv idle (boost_effect m (ACTIVE_PTR s) p s)" for p
    by (rule boost_effect_inv [OF assms(1) i(3)])
  have z: "IN_ISR (boost_effect m (ACTIVE_PTR s) p s) = 0" for p
    using assms(2) by (simp add: boost_effect_def mutex_boosted_def sched_boost_priority_internal_def
        sched_set_priority_internal_def Let_def)
  have j: "active_ok (boost_effect m (ACTIVE_PTR s) p s)" "top_ok (boost_effect m (ACTIVE_PTR s) p s)" for p
    using b [of p] z [of p] by (simp_all add: sys_inv_def)
  show ?thesis using i j
    by (simp add: mutex_lock_owned_def mutex_boost_effect lock_protect_effect lock_effect_def Let_def)
qed

lemma lock_effect_simps [simp]:
  "WAITQ (lock_effect m s) = WAITQ s" "tasks (lock_effect m s) = tasks s"
  "MX_VALID (MUTEXES (lock_effect m s) n) = MX_VALID (MUTEXES s n)"
  "MX_LOCK (MUTEXES (lock_effect m s) n) = MX_LOCK (MUTEXES s n)"
  "MX_OWNER_TD (MUTEXES (lock_effect m s) n) = MX_OWNER_TD (MUTEXES s n)"
  by (auto simp: lock_effect_def Let_def)

lemma lock_wait_case:
  assumes "sys_inv idle s" "IN_ISR s = 0" "m \<noteq> NULL" "MX_VALID (MUTEXES s m) = MUTEX_VALID"
    and "MX_LOCK (MUTEXES s m) \<noteq> 0" "MX_OWNER_TD (MUTEXES s m) \<noteq> ACTIVE_PTR s"
  shows "mutex_lock m s = mutex_lock_wait m
     (if MX_PROTOCOLS (MUTEXES s m) AND MUTEX_PRIO_INHERIT \<noteq> 0
      then boost_effect m (MX_OWNER_TD (MUTEXES s m)) (MY_QUEUE (TDS s (ACTIVE_PTR s))) s else s)"
  using assms by (simp add: mutex_lock_def Let_def mutex_boost_effect sys_inv_def)

lemma lock_take_case:
  assumes "sys_inv idle s" "IN_ISR s = 0" "m \<noteq> NULL" "MX_VALID (MUTEXES s m) = MUTEX_VALID"
    and "MX_LOCK (MUTEXES s m) = 0" "MX_OWNER_TD (MUTEXES s m) \<noteq> ACTIVE_PTR s"
  shows "mutex_lock m s = (Some MQX_OK, lock_effect m
     (upd_mutex m (\<lambda>M. M\<lparr>MX_LOCK := MQX_TEST_AND_SET_VALUE, MX_OWNER_TD := ACTIVE_PTR s\<rparr>) s))"
proof -
  let ?s = "upd_mutex m (\<lambda>M. M\<lparr>MX_LOCK := MQX_TEST_AND_SET_VALUE, MX_OWNER_TD := ACTIVE_PTR s\<rparr>) s"
  have "sys_inv idle ?s" by (rule mutex_take_inv [OF assms(1,4,5)]) simp
  from lock_owned_effect [OF this] show ?thesis using assms by (simp add: mutex_lock_def Let_def)
qed

section \<open>The abstract lock: a line of tasks with the owner in front\<close>

definition mutex_line :: "kernel \<Rightarrow> addr \<Rightarrow> addr list" where
  "mutex_line s m =
     (if MX_LOCK (MUTEXES s m) = 0 then [] else MX_OWNER_TD (MUTEXES s m) # WAITQ s (MUTEX_WAITING_TASKS m))"

text \<open>Joining the line: behind all, or, by priority, behind the tasks of the same or a higher one.\<close>

fun join_line :: "bool \<Rightarrow> (addr \<Rightarrow> nat) \<Rightarrow> addr \<Rightarrow> addr list \<Rightarrow> addr list" where
  "join_line by_priority prio t [] = [t]"
| "join_line by_priority prio t (u # ws) =
     u # (if by_priority then priority_insert prio t ws else ws @ [t])"

lemma mutex_line_sound:
  assumes "sys_inv idle s" "MX_VALID (MUTEXES s m) = MUTEX_VALID"
  shows "distinct (mutex_line s m) \<and> set (mutex_line s m) \<subseteq> tasks s"
proof -
  note i = sys_invD [OF assms(1)]
  have "distinct (WAITQ s (MUTEX_WAITING_TASKS m))" using kinv_queues [OF i(1)] by (simp add: queues_ok_def)
  moreover have "MX_OWNER_TD (MUTEXES s m) \<notin> set (WAITQ s (MUTEX_WAITING_TASKS m))"
    using mutex_waiter [OF i(3) assms(2)] by blast
  moreover have "set (WAITQ s (MUTEX_WAITING_TASKS m)) \<subseteq> tasks s" using kinv_waitq_mem [OF i(1)] by blast
  moreover have "MX_OWNER_TD (MUTEXES s m) \<in> tasks s" if "MX_LOCK (MUTEXES s m) \<noteq> 0"
    using obj_okD(3) [OF i(3), of m] assms(2) that by (auto simp: mutex_ok_def)
  ultimately show ?thesis by (simp add: mutex_line_def)
qed

lemma mutex_line_cong:
  "WAITQ s' = WAITQ s \<Longrightarrow> MX_LOCK (MUTEXES s' m) = MX_LOCK (MUTEXES s m) \<Longrightarrow>
   MX_OWNER_TD (MUTEXES s' m) = MX_OWNER_TD (MUTEXES s m) \<Longrightarrow> mutex_line s' m = mutex_line s m"
  by (simp add: mutex_line_def)

lemma waiting_tasks_inj [simp]: "MUTEX_WAITING_TASKS m = MUTEX_WAITING_TASKS n \<longleftrightarrow> m = n"
  by (simp add: MUTEX_WAITING_TASKS_def)

lemma wait_line:
  "MX_LOCK (MUTEXES s m) \<noteq> 0 \<Longrightarrow> mutex_line (snd (mutex_lock_wait m s)) n =
     (if n = m then join_line (MX_PROTOCOLS (MUTEXES s m) AND MUTEX_PRIORITY_QUEUEING \<noteq> 0)
        (\<lambda>u. MY_QUEUE (TDS s u)) (ACTIVE_PTR s) (mutex_line s m) else mutex_line s n)"
  by (simp add: mutex_line_def mutex_lock_wait_def mutex_enter_queue)

lemma priority_insert_cong:
  "(\<And>u. u \<in> insert t (set xs) \<Longrightarrow> f u = g u) \<Longrightarrow> priority_insert f t xs = priority_insert g t xs"
  by (induction xs) auto

lemma lock_joins_line:
  assumes inv: "sys_inv idle s" "IN_ISR s = 0" "m \<noteq> NULL" and v: "MX_VALID (MUTEXES s m) = MUTEX_VALID"
    and n: "MX_OWNER_TD (MUTEXES s m) \<noteq> ACTIVE_PTR s"
  shows "fst (mutex_lock m s) = (if mutex_line s m = [] then Some MQX_OK else None)"
    and "mutex_line (snd (mutex_lock m s)) k =
      (if k = m then join_line (MX_PROTOCOLS (MUTEXES s m) AND MUTEX_PRIORITY_QUEUEING \<noteq> 0)
         (\<lambda>u. MY_QUEUE (TDS s u)) (ACTIVE_PTR s) (mutex_line s m) else mutex_line s k)"
proof -
  let ?o = "MX_OWNER_TD (MUTEXES s m)" and ?w = "WAITQ s (MUTEX_WAITING_TASKS m)"
  let ?b = "boost_effect m ?o (MY_QUEUE (TDS s (ACTIVE_PTR s))) s"
  have a: "active_ok s" "top_ok s" using inv by (simp_all add: sys_inv_def)
  have act: "ACTIVE_PTR ?b = ACTIVE_PTR s" using boost_effect_active [OF a, of ?o] by simp
  have "?o \<notin> set ?w" using mutex_waiter [OF sys_invD(3) [OF inv(1)] v] by blast
  then have "priority_insert (\<lambda>u. MY_QUEUE (TDS ?b u)) (ACTIVE_PTR s) ?w =
      priority_insert (\<lambda>u. MY_QUEUE (TDS s u)) (ACTIVE_PTR s) ?w"
    using n by (intro priority_insert_cong) auto
  then have b: "mutex_line (snd (mutex_lock_wait m ?b)) k =
      (if k = m then join_line (MX_PROTOCOLS (MUTEXES s m) AND MUTEX_PRIORITY_QUEUEING \<noteq> 0)
         (\<lambda>u. MY_QUEUE (TDS s u)) (ACTIVE_PTR s) (mutex_line s m) else mutex_line s k)"
    if "MX_LOCK (MUTEXES s m) \<noteq> 0" for k using that
    by (subst wait_line) (simp_all add: act mutex_line_def)
  note t = lock_take_case [OF inv v _ n] and w = lock_wait_case [OF inv v _ n]
  show "fst (mutex_lock m s) = (if mutex_line s m = [] then Some MQX_OK else None)"
    using t w by (cases "MX_LOCK (MUTEXES s m) = 0") (simp_all add: mutex_line_def mutex_lock_wait_def)
  show "mutex_line (snd (mutex_lock m s)) k =
      (if k = m then join_line (MX_PROTOCOLS (MUTEXES s m) AND MUTEX_PRIORITY_QUEUEING \<noteq> 0)
         (\<lambda>u. MY_QUEUE (TDS s u)) (ACTIVE_PTR s) (mutex_line s m) else mutex_line s k)"
  proof (cases "MX_LOCK (MUTEXES s m) = 0")
    case True
    then show ?thesis using mutex_free_empty [OF sys_invD(3) [OF inv(1)] v] t by (simp add: mutex_line_def)
  next
    case False
    then show ?thesis using w b wait_line [OF False] by simp
  qed
qed

text \<open>What follows the hand-over in an unlock leaves every line as it is.\<close>

lemma unboost_line: "mutex_line (snd (mutex_unlock_unboost b s)) n = mutex_line s n"
  by (rule mutex_line_cong) (simp_all add: mutex_unlock_unboost_def)

lemma check_line: "mutex_line (snd (mutex_unlock_check b s)) n = mutex_line s n"
  by (simp add: mutex_unlock_check_def run_on_def unboost_line) (simp add: mutex_line_def)

lemma boost_line:
  assumes "\<And>s1. mutex_line (snd (k s1)) n = mutex_line s1 n"
  shows "mutex_line (snd (mutex_boost m u p k s)) n = mutex_line s n"
proof -
  have "mutex_line (mutex_boosted m s1) n = mutex_line s1 n"
    "mutex_line (sched_boost_priority_internal u p s1) n = mutex_line s1 n" for s1
    by (rule mutex_line_cong; simp add: mutex_boosted_def)+
  then show ?thesis using assms by (simp add: mutex_boost_def run_on_def)
qed

lemma unlock_serves_line:
  assumes "sys_inv idle s" "m \<noteq> NULL" "MX_VALID (MUTEXES s m) = MUTEX_VALID"
    and "MX_LOCK (MUTEXES s m) \<noteq> 0" "MX_OWNER_TD (MUTEXES s m) = ACTIVE_PTR s"
  shows "mutex_line (snd (mutex_unlock m s)) k = (if k = m then tl (mutex_line s m) else mutex_line s k)"
proof -
  have m: "MX_LOCK (MUTEXES s m) = MQX_TEST_AND_SET_VALUE" "MX_PROTOCOLS (MUTEXES s m) AND 3 = 0"
    using obj_okD(3) [OF sys_invD(3) [OF assms(1)], of m] assms(3,4) by (auto simp: mutex_ok_def)
  show ?thesis
  proof (cases "WAITQ s (MUTEX_WAITING_TASKS m)")
    case Nil
    have "mutex_line (upd_mutex m (\<lambda>M. M\<lparr>MX_LOCK := 0, MX_OWNER_TD := NULL\<rparr>)
        (upd_mutex m (\<lambda>M. M\<lparr>MX_BOOSTED := 0\<rparr>) s)) k = (if k = m then [] else mutex_line s k)"
      by (simp add: mutex_line_def)
    then show ?thesis using assms(2,3,5) m Nil
      by (simp add: mutex_unlock_def Let_def unboost_line) (simp add: mutex_line_def)
  next
    case (Cons t ts)
    have "mutex_line (TASK_READY t (upd_mutex m (\<lambda>M. M\<lparr>MX_OWNER_TD := t\<rparr>)
        ((upd_mutex m (\<lambda>M. M\<lparr>MX_BOOSTED := 0\<rparr>) s)\<lparr>WAITQ := (WAITQ s)(MUTEX_WAITING_TASKS m := ts)\<rparr>))) k =
        (if k = m then tl (mutex_line s m) else mutex_line s k)" for k
      using assms(4) Cons by (simp add: mutex_line_def upd_mutex_def)
    then show ?thesis using assms(2,3,5) m Cons
      by (simp add: mutex_unlock_def Let_def boost_line check_line)
  qed
qed

lemma try_lock_line:
  assumes inv: "sys_inv idle s" "IN_ISR s = 0" "m \<noteq> NULL" and v: "MX_VALID (MUTEXES s m) = MUTEX_VALID"
  shows "fst (mutex_try_lock m s) = Some (if mutex_line s m = [] then MQX_OK
      else if hd (mutex_line s m) = ACTIVE_PTR s then MQX_EDEADLK else MQX_EBUSY)"
    and "mutex_line (snd (mutex_try_lock m s)) m = (if mutex_line s m = [] then [ACTIVE_PTR s] else mutex_line s m)"
proof -
  have a: "active_ok s" "top_ok s" using inv by (simp_all add: sys_inv_def)
  let ?s = "upd_mutex m (\<lambda>M. M\<lparr>MX_OWNER_TD := ACTIVE_PTR s\<rparr>) (upd_mutex m (\<lambda>M. M\<lparr>MX_LOCK := MQX_TEST_AND_SET_VALUE\<rparr>) s)"
  have "active_ok ?s" "top_ok ?s" using a by (simp_all add: active_ok_def top_ok_def)
  note p = lock_protect_effect [OF this, of m]
  have e: "upd_mutex m (\<lambda>M. M\<lparr>MX_LOCK := MX_LOCK (MUTEXES s m)\<rparr>) s = s" by (simp add: upd_mutex_def)
  show "fst (mutex_try_lock m s) = Some (if mutex_line s m = [] then MQX_OK
      else if hd (mutex_line s m) = ACTIVE_PTR s then MQX_EDEADLK else MQX_EBUSY)"
    using inv(3) v p by (simp add: mutex_try_lock_def mem_test_and_set_def e mutex_line_def)
  show "mutex_line (snd (mutex_try_lock m s)) m = (if mutex_line s m = [] then [ACTIVE_PTR s] else mutex_line s m)"
    using inv(3) v p mutex_free_empty [OF sys_invD(3) [OF inv(1)] v]
    by (simp add: mutex_try_lock_def mem_test_and_set_def e mutex_line_def)
qed

section \<open>A run of four tasks and two mutexes\<close>

text \<open>
  In the system of theory \<open>Demo\<close>, with the blocked task raised to priority 2: the task 0x200
  blocks itself, and 0x300, of priority 3, locks the mutexes at 0x7000 and 0x7100 (both with
  priority inheritance), then makes 0x200 ready, which waits for the first mutex; then it makes
  0x400 ready and yields to it, which waits for the second; then it unlocks the second.
\<close>

definition inherit_attr :: mutex_attr where
  "inherit_attr = the (snd (mutatr_set_sched_protocol (snd (mutatr_init (Some default_attr))) MUTEX_PRIO_INHERIT))"

definition mx_start :: kernel where
  "mx_start = snd (mutex_init 0x7100 (Some inherit_attr) 0x8000
     (snd (mutex_init 0x7000 (Some inherit_attr) 0x8000 demo)))"

definition mx_idle :: kernel where "mx_idle = task_block (snd (snd (task_set_priority 4 2 mx_start)))"

definition mx_locked :: kernel where
  "mx_locked = snd (mutex_lock 0x7100 (snd (mutex_lock 0x7000 mx_idle)))"

definition mx_waiting :: kernel where "mx_waiting = snd (mutex_lock 0x7000 (task_ready 0x200 mx_locked))"

definition mx_shared :: kernel where
  "mx_shared = snd (mutex_lock 0x7100 (sched_yield (task_ready 0x400 mx_waiting)))"

definition mx_dropped :: kernel where "mx_dropped = snd (mutex_unlock 0x7100 mx_shared)"

lemmas mx_eval = kernel_defs TASK_READY_def sched_check_scheduler_internal_def
  sched_insert_priorityq_internal_def upt_conv_Cons MUTEX_WAITING_TASKS_def MUTEX_VALID_def demo_def demo_td_def
  mutex_init_def mutex_create_component_def inherit_attr_def default_attr_def mutatr_init_def
  mutatr_set_sched_protocol_def task_set_priority_def sched_set_priority_internal_def task_get_td_def
  task_ready_def sched_boost_priority_internal_def sched_get_max_priority_on_q_internal_def sched_yield_def
  sched_unboost_priority_internal_def

definition mx_mutex :: "addr \<Rightarrow> u32 \<Rightarrow> mutex" where
  "mx_mutex t n = \<lparr>MX_PROTOCOLS = MUTEX_PRIO_INHERIT OR MUTEX_QUEUEING, MX_VALID = MUTEX_VALID,
     MX_PRIORITY_CEILING = 0, MX_COUNT = 0, MX_LOCK = (if t = NULL then 0 else MQX_TEST_AND_SET_VALUE),
     MX_OWNER_TD = t, MX_BOOSTED = n\<rparr>"

lemma mx_idle_eq:
  "mx_idle = demo\<lparr>TDS := (TDS demo)(0x200 := demo_td 2 2 BLOCKED, 0x400 := demo_td 4 2 BLOCKED),
     READYQ := (\<lambda>_. [])(9 := [0x100], 3 := [0x300]), CURRENT_READY_Q := 3, ACTIVE_PTR := 0x300,
     MUTEXES := (MUTEXES demo)(0x7000 := mx_mutex NULL 0, 0x7100 := mx_mutex NULL 0),
     MUTEX_LIST := [0x7000, 0x7100], MUTEX_COMPONENT := Some MUTEX_VALID\<rparr>"
  by (simp add: mx_idle_def mx_start_def mx_eval mx_mutex_def fun_eq_iff)

lemma mx_locked_eq:
  "mx_locked = mx_idle\<lparr>MUTEXES := (MUTEXES demo)(0x7000 := mx_mutex 0x300 0, 0x7100 := mx_mutex 0x300 0)\<rparr>"
  by (simp add: mx_locked_def mx_idle_eq mx_eval mx_mutex_def fun_eq_iff)

lemma mx_waiting_eq:
  "mx_waiting = mx_locked\<lparr>TDS := (TDS demo)(
       0x200 := (demo_td 2 2 MUTEX_BLOCKED)\<lparr>INFO := 0x701C\<rparr>, 0x400 := demo_td 4 2 BLOCKED,
       0x300 := (demo_td 3 3 READY)\<lparr>MY_QUEUE := 2, FLAGS := TASK_PRIORITY_BOOSTED, BOOSTED := 1\<rparr>),
     READYQ := (\<lambda>_. [])(9 := [0x100], 2 := [0x300]), CURRENT_READY_Q := 2,
     MUTEXES := (MUTEXES demo)(0x7000 := mx_mutex 0x300 1, 0x7100 := mx_mutex 0x300 0),
     WAITQ := (\<lambda>_. [])(0x701C := [0x200])\<rparr>"
  by (simp add: mx_waiting_def mx_locked_eq mx_idle_eq mx_eval mx_mutex_def fun_eq_iff)

lemma mx_shared_eq:
  "mx_shared = mx_waiting\<lparr>TDS := (TDS mx_waiting)(0x400 := (demo_td 4 2 MUTEX_BLOCKED)\<lparr>INFO := 0x711C\<rparr>),
     MUTEXES := (MUTEXES demo)(0x7000 := mx_mutex 0x300 1, 0x7100 := mx_mutex 0x300 1),
     WAITQ := (\<lambda>_. [])(0x701C := [0x200], 0x711C := [0x400])\<rparr>"
  by (simp add: mx_shared_def mx_waiting_eq mx_locked_eq mx_idle_eq mx_eval mx_mutex_def fun_eq_iff)

lemmas mx_states = mx_shared_eq mx_waiting_eq mx_locked_eq mx_idle_eq

section \<open>Properties\<close>

lemma mx_start_reachable: "reachable 0x100 mx_start"
proof -
  let ?s = "snd (mutex_init 0x7000 (Some inherit_attr) 0x8000 demo)"
  have a: "queueing_attr (Some inherit_attr)" by (simp add: queueing_attr_def mx_eval)
  have "unused demo (MUTEX_WAITING_TASKS 0x7000)" by (simp add: unused_def demo_owner) (simp add: demo_def)
  then have r: "reachable 0x100 ?s" by (intro reachable.step [OF demo_reachable] kstep.mx_init a)
  have "unused ?s (MUTEX_WAITING_TASKS 0x7100)"
    by (simp add: unused_def owner_def mx_eval TASK_QUEUE_VALID_def LWSEM_VALID_def LWEVENT_VALID_def LWMSGQ_VALID_def)
  then show ?thesis unfolding mx_start_def by (intro reachable.step [OF r] kstep.mx_init a)
qed

lemma mx_idle_reachable: "reachable 0x100 mx_idle"
proof -
  have "ACTIVE_PTR (snd (snd (task_set_priority 4 2 mx_start))) \<noteq> 0x100" by (simp add: mx_start_def mx_eval)
  then show ?thesis unfolding mx_idle_def
    by (intro reachable.step [OF reachable.step [OF mx_start_reachable kstep.set_priority [of _ _ 4 2]]] kstep.block)
qed

lemma mx_locked_reachable: "reachable 0x100 mx_locked"
proof -
  have "ACTIVE_PTR mx_idle \<noteq> 0x100" "ACTIVE_PTR (snd (mutex_lock 0x7000 mx_idle)) \<noteq> 0x100"
    by (simp_all add: mx_idle_eq mx_eval mx_mutex_def)
  then show ?thesis unfolding mx_locked_def
    by (intro reachable.step [OF reachable.step [OF mx_idle_reachable kstep.mx_lock [of _ _ "0x7000"]]] kstep.mx_lock)
qed

lemma mx_waiting_reachable: "reachable 0x100 mx_waiting"
proof -
  have "0x200 \<in> tasks mx_locked" "STATE (TDS mx_locked 0x200) = BLOCKED" "ACTIVE_PTR (task_ready 0x200 mx_locked) \<noteq> 0x100"
    by (simp_all add: mx_states mx_eval mx_mutex_def tasks_def)
  then show ?thesis unfolding mx_waiting_def
    by (intro reachable.step [OF reachable.step [OF mx_locked_reachable kstep.ready [of "0x200"]]] kstep.mx_lock) auto
qed

lemma mx_shared_reachable: "reachable 0x100 mx_shared"
proof -
  have "0x400 \<in> tasks mx_waiting" "STATE (TDS mx_waiting 0x400) = BLOCKED"
    "ACTIVE_PTR (sched_yield (task_ready 0x400 mx_waiting)) \<noteq> 0x100"
    by (simp_all add: mx_states mx_eval mx_mutex_def tasks_def)
  then show ?thesis unfolding mx_shared_def
    by (intro reachable.step [OF reachable.step [OF reachable.step [OF mx_waiting_reachable
          kstep.ready [of "0x400"]] kstep.yield]] kstep.mx_lock) auto
qed

text \<open>
  C4. Mutual exclusion: in every reachable state a mutex is a line of tasks without repetition,
  its owner in front and then the waiting tasks, and the calls are the operations of that line. A
  lock by a task that is not the owner joins the line, at once as the owner when the line is
  empty and otherwise as a waiting task, in the order of arrival or of priority; an unlock by the
  owner takes him off, so that the next task is the owner; a try-lock succeeds exactly when the
  line is empty; an owner's second lock and anybody else's unlock are refused without any effect;
  and no call touches another mutex.
\<close>

theorem mutex_refines_line:
  assumes "reachable idle s" "IN_ISR s = 0" "m \<noteq> NULL" "MX_VALID (MUTEXES s m) = MUTEX_VALID"
    and "ACTIVE_PTR s \<noteq> NULL"
  defines "line \<equiv> mutex_line s m"
  shows "distinct line \<and> set line \<subseteq> tasks s
    \<and> (if line \<noteq> [] \<and> hd line = ACTIVE_PTR s
       then mutex_lock m s = (Some MQX_EDEADLK, s)
         \<and> mutex_line (snd (mutex_unlock m s)) m = tl line
         \<and> (\<forall>n. n \<noteq> m \<longrightarrow> mutex_line (snd (mutex_unlock m s)) n = mutex_line s n)
       else mutex_unlock m s = (Some MQX_EINVAL, s)
         \<and> fst (mutex_lock m s) = (if line = [] then Some MQX_OK else None)
         \<and> mutex_line (snd (mutex_lock m s)) m =
             join_line (MX_PROTOCOLS (MUTEXES s m) AND MUTEX_PRIORITY_QUEUEING \<noteq> 0)
               (\<lambda>t. MY_QUEUE (TDS s t)) (ACTIVE_PTR s) line
         \<and> (\<forall>n. n \<noteq> m \<longrightarrow> mutex_line (snd (mutex_lock m s)) n = mutex_line s n))
    \<and> fst (mutex_try_lock m s) = Some (if line = [] then MQX_OK
        else if hd line = ACTIVE_PTR s then MQX_EDEADLK else MQX_EBUSY)
    \<and> mutex_line (snd (mutex_try_lock m s)) m = (if line = [] then [ACTIVE_PTR s] else line)"
proof -
  have i: "sys_inv idle s" by (rule reachable_inv [OF assms(1)])
  have own: "line \<noteq> [] \<and> hd line = ACTIVE_PTR s \<longleftrightarrow>
      MX_LOCK (MUTEXES s m) \<noteq> 0 \<and> MX_OWNER_TD (MUTEXES s m) = ACTIVE_PTR s"
    by (simp add: line_def mutex_line_def)
  have free: "MX_OWNER_TD (MUTEXES s m) = NULL" if "MX_LOCK (MUTEXES s m) = 0"
    using obj_okD(3) [OF sys_invD(3) [OF i], of m] assms(4) that by (simp add: mutex_ok_def)
  show ?thesis
  proof (cases "MX_LOCK (MUTEXES s m) \<noteq> 0 \<and> MX_OWNER_TD (MUTEXES s m) = ACTIVE_PTR s")
    case True
    then have "mutex_lock m s = (Some MQX_EDEADLK, s)" using assms(2-4) by (simp add: mutex_lock_def Let_def)
    then show ?thesis
      using own True mutex_line_sound [OF i assms(4)] try_lock_line [OF i assms(2-4)]
        unlock_serves_line [OF i assms(3,4)] by (simp add: line_def)
  next
    case False
    then have n: "MX_OWNER_TD (MUTEXES s m) \<noteq> ACTIVE_PTR s" using free assms(5) by auto
    then have u: "mutex_unlock m s = (Some MQX_EINVAL, s)" using assms(3,4) by (simp add: mutex_unlock_def)
    have other: "\<not> (line \<noteq> [] \<and> hd line = ACTIVE_PTR s)" using own False by blast
    show ?thesis unfolding if_not_P [OF other]
      using u mutex_line_sound [OF i assms(4)] try_lock_line [OF i assms(2-4)]
        lock_joins_line [OF i assms(2-4) n] by (simp add: line_def)
  qed
qed

theorem mutex_refines_line_witness:
  "mutex_line (snd (mutex_unlock 0x7100 mx_shared)) 0x7100 = [0x400]
    \<and> mutex_line (snd (mutex_unlock 0x7100 mx_shared)) 0x7000 = [0x300, 0x200]"
  using mutex_refines_line [OF mx_shared_reachable, of "0x7100"]
  by (simp add: mx_states mx_mutex_def mutex_line_def MUTEX_WAITING_TASKS_def demo_def)

text \<open>
  C5. Priority inheritance: a lock that has to wait blocks the task and lends its priority to
  the owner. The owner's own priority being lower, it runs at the higher of the waiting task's
  priority and the one it has; no other priority changes. The counts are as the code has
  them: the mutex counts the loan even when the owner's priority was high enough already, the
  owner counts it only when its priority changes.
\<close>

theorem mutex_lock_inherits_priority:
  assumes "reachable idle s" "IN_ISR s = 0" "m \<noteq> NULL" "MX_VALID (MUTEXES s m) = MUTEX_VALID"
    and "MX_LOCK (MUTEXES s m) \<noteq> 0" "MX_OWNER_TD (MUTEXES s m) = u" "u \<noteq> ACTIVE_PTR s"
    and "MX_PROTOCOLS (MUTEXES s m) AND MUTEX_PRIO_INHERIT \<noteq> 0"
  defines "t \<equiv> ACTIVE_PTR s" and "s' \<equiv> snd (mutex_lock m s)"
  shows "fst (mutex_lock m s) = None \<and> STATE (TDS s' t) = MUTEX_BLOCKED \<and> t \<in> set (WAITQ s' (MUTEX_WAITING_TASKS m))
    \<and> (\<forall>v. MY_QUEUE (TDS s' v) =
         (if v = u \<and> HOME_QUEUE (TDS s u) > MY_QUEUE (TDS s t)
          then min (MY_QUEUE (TDS s t)) (MY_QUEUE (TDS s u)) else MY_QUEUE (TDS s v)))
    \<and> MX_BOOSTED (MUTEXES s' m) = MX_BOOSTED (MUTEXES s m)
        + (if HOME_QUEUE (TDS s u) > MY_QUEUE (TDS s t) then 1 else 0)
    \<and> BOOSTED (TDS s' u) = BOOSTED (TDS s u)
        + (if HOME_QUEUE (TDS s u) > MY_QUEUE (TDS s t) \<and> MY_QUEUE (TDS s u) > MY_QUEUE (TDS s t) then 1 else 0)"
proof -
  let ?b = "boost_effect m u (MY_QUEUE (TDS s t)) s"
  have i: "sys_inv idle s" by (rule reachable_inv [OF assms(1)])
  have l: "mutex_lock m s = mutex_lock_wait m ?b"
    using lock_wait_case [OF i assms(2-5)] assms(6-8) by (simp add: t_def)
  have a: "ACTIVE_PTR ?b = t"
    using boost_effect_active [of s u "MY_QUEUE (TDS s t)" m] i assms(2) by (simp add: sys_inv_def t_def)
  have q: "t \<in> set (WAITQ s' (MUTEX_WAITING_TASKS m))"
    unfolding s'_def l by (simp add: mutex_lock_wait_def mutex_enter_queue a)
  show ?thesis using q assms(7) unfolding s'_def l
    by (simp add: mutex_lock_wait_def a flip: t_def)
qed

theorem mutex_lock_inherits_priority_witness:
  "MY_QUEUE (TDS (snd (mutex_lock 0x7000 (task_ready 0x200 mx_locked))) 0x300) = 2"
proof -
  have "reachable 0x100 (task_ready 0x200 mx_locked)"
    by (rule reachable.step [OF mx_locked_reachable kstep.ready])
      (simp_all add: mx_states mx_eval mx_mutex_def tasks_def)
  from mutex_lock_inherits_priority [OF this, of "0x7000" "0x300"] show ?thesis
    by (simp add: mx_states mx_eval mx_mutex_def)
qed


lemma max_on_empty_queue: "WAITQ s h = [] \<Longrightarrow> unat (sched_get_max_priority_on_q_internal h s) = 4294967295"
  by (simp add: sched_get_max_priority_on_q_internal_def)

lemma sys_priorities:
  "sys_inv idle s \<Longrightarrow> t \<in> tasks s \<Longrightarrow> MY_QUEUE (TDS s t) \<le> LOWEST_TASK_PRIORITY s + 1"
  using kinv_queues [OF sys_invD(1)] by (simp add: queues_ok_def)

text \<open>Locking a free mutex, as one boost at most.\<close>

lemma lock_free_effect:
  assumes "sys_inv idle s" "IN_ISR s = 0" "m \<noteq> NULL" "MX_VALID (MUTEXES s m) = MUTEX_VALID"
    and "MX_LOCK (MUTEXES s m) = 0" "ACTIVE_PTR s \<noteq> NULL" "LOWEST_TASK_PRIORITY s < 4294967295"
  defines "s1 \<equiv> upd_mutex m (\<lambda>M. M\<lparr>MX_LOCK := MQX_TEST_AND_SET_VALUE, MX_OWNER_TD := ACTIVE_PTR s\<rparr>) s"
  shows "mutex_lock m s = (Some MQX_OK, if MX_PROTOCOLS (MUTEXES s m) AND MUTEX_PRIO_PROTECT \<noteq> 0
    then boost_effect m (ACTIVE_PTR s) (MX_PRIORITY_CEILING (MUTEXES s m)) s1 else s1)"
proof -
  have "MX_OWNER_TD (MUTEXES s m) = NULL"
    using obj_okD(3) [OF sys_invD(3) [OF assms(1)], of m] assms(4,5) by (simp add: mutex_ok_def)
  then have "MX_OWNER_TD (MUTEXES s m) \<noteq> ACTIVE_PTR s" using assms(6) by auto
  note l = lock_take_case [OF assms(1-5) this, folded s1_def]
  have "WAITQ s1 (MUTEX_WAITING_TASKS m) = []"
    using mutex_free_empty [OF sys_invD(3) [OF assms(1)] assms(4,5)] by (simp add: s1_def)
  from max_on_empty_queue [OF this] have "boost_effect m (ACTIVE_PTR s)
      (unat (sched_get_max_priority_on_q_internal (MUTEX_WAITING_TASKS m) s1)) s1 = s1"
    using sys_home [OF assms(1) sys_active [OF assms(1)]] assms(7) by (simp add: boost_effect_def s1_def)
  moreover have "ACTIVE_PTR s1 = ACTIVE_PTR s" by (simp add: s1_def)
  ultimately show ?thesis unfolding l lock_effect_def Let_def by (simp add: s1_def)
qed

text \<open>
  C7. Priority protection, and the round trip of a lock and an unlock without contention: a task
  that runs at its own priority and locks a free mutex gets it at once and runs at the ceiling of
  a protecting mutex, when that is higher; unlocking restores the mutex, the priority of the task,
  its count of boosts and its flags, and keeps it ready.
\<close>

theorem mutex_lock_unlock_restores:
  assumes "reachable idle s" "IN_ISR s = 0" "m \<noteq> NULL" "MX_VALID (MUTEXES s m) = MUTEX_VALID"
    and "MX_LOCK (MUTEXES s m) = 0" "MX_BOOSTED (MUTEXES s m) = 0" "LOWEST_TASK_PRIORITY s < 4294967295"
    and "ACTIVE_PTR s = t" "t \<noteq> NULL" "MY_QUEUE (TDS s t) = HOME_QUEUE (TDS s t)" "BOOSTED (TDS s t) = 0"
    and "FLAGS (TDS s t) AND TASK_PRIORITY_BOOSTED = 0"
  defines "s1 \<equiv> snd (mutex_lock m s)"
  defines "s2 \<equiv> snd (mutex_unlock m s1)"
  shows "fst (mutex_lock m s) = Some MQX_OK \<and> ACTIVE_PTR s1 = t
    \<and> MY_QUEUE (TDS s1 t) = (if MX_PROTOCOLS (MUTEXES s m) AND MUTEX_PRIO_PROTECT \<noteq> 0
          then min (MX_PRIORITY_CEILING (MUTEXES s m)) (HOME_QUEUE (TDS s t)) else HOME_QUEUE (TDS s t))
    \<and> fst (mutex_unlock m s1) = Some MQX_OK \<and> MUTEXES s2 = MUTEXES s
    \<and> MY_QUEUE (TDS s2 t) = MY_QUEUE (TDS s t) \<and> BOOSTED (TDS s2 t) = 0
    \<and> FLAGS (TDS s2 t) = FLAGS (TDS s t) \<and> STATE (TDS s2 t) = READY"
proof -
  have i: "sys_inv idle s" by (rule reachable_inv [OF assms(1)])
  have a: "active_ok s" "top_ok s" "STATE (TDS s t) = READY" using i assms(2,8) by (auto simp: sys_inv_def active_ok_def)
  let ?c = "MX_PRIORITY_CEILING (MUTEXES s m)"
  let ?u = "upd_mutex m (\<lambda>M. M\<lparr>MX_LOCK := MQX_TEST_AND_SET_VALUE, MX_OWNER_TD := t\<rparr>) s"
  note l = lock_free_effect [OF i assms(2-5) _ assms(7), unfolded assms(8), OF assms(9)]
  have m: "MX_OWNER_TD (MUTEXES s m) = NULL" "MX_PROTOCOLS (MUTEXES s m) AND 3 = 0"
    using obj_okD(3) [OF sys_invD(3) [OF i], of m] assms(4,5) by (simp_all add: mutex_ok_def)
  have w: "WAITQ s (MUTEX_WAITING_TASKS m) = []" by (rule mutex_free_empty [OF sys_invD(3) [OF i] assms(4,5)])
  have restored: "(MUTEXES s m)\<lparr>MX_BOOSTED := 0, MX_LOCK := 0, MX_OWNER_TD := NULL\<rparr> = MUTEXES s m"
    using m assms(5,6) by simp
  show ?thesis
  proof (cases "MX_PROTOCOLS (MUTEXES s m) AND MUTEX_PRIO_PROTECT \<noteq> 0 \<and> ?c < HOME_QUEUE (TDS s t)")
    case False
    then have "s1 = ?u" using l by (auto simp: s1_def boost_effect_def)
    then show ?thesis using l False assms(3,4,6,8,10-12) m w a(3) restored
      by (auto simp: s2_def s1_def boost_effect_def mutex_unlock_def Let_def mutex_unlock_unboost_def fun_eq_iff)
  next
    case True
    let ?b = "sched_boost_priority_internal t ?c ?u"
    have u: "active_ok ?u" "top_ok ?u" "ACTIVE_PTR ?u = t" using a assms(8) by (simp_all add: active_ok_def top_ok_def)
    have s1: "s1 = mutex_boosted m ?b" using l True assms(10) by (simp add: s1_def boost_effect_def)
    have act: "ACTIVE_PTR ?b = t" using boost_stays [OF u(1,2), of t ?c] u(3) True assms(10) by simp
    have f: "(FLAGS (TDS s t) OR 0x8000) AND 0x8000 \<noteq> 0" "(FLAGS (TDS s t) OR 0x8000) AND - 32769 = FLAGS (TDS s t)"
      using set_clear_flag [OF assms(12)] by (simp_all add: bit.conj_disj_distrib2)
    have s2: "s2 = sched_unboost_priority_internal t 1
        (upd_mutex m (\<lambda>M. M\<lparr>MX_LOCK := 0, MX_OWNER_TD := NULL\<rparr>) (upd_mutex m (\<lambda>M. M\<lparr>MX_BOOSTED := 0\<rparr>) s1))"
      and ok: "fst (mutex_unlock m s1) = Some MQX_OK"
      using assms(3,4,6) m w act by (simp_all add: s2_def s1 mutex_unlock_def mutex_boosted_def Let_def mutex_unlock_unboost_def)
    show ?thesis using l True ok f a(3) assms(8,10,11) act restored
      by (simp add: s2 s1 s1_def [symmetric] mutex_boosted_def sched_unboost_priority_internal_def Let_def fun_eq_iff)
  qed
qed

text \<open>A protecting mutex with ceiling 1, in the system of theory \<open>Demo\<close>.\<close>

definition mx_protect :: kernel where
  "mx_protect = snd (mutex_init 0x7000 (Some (inherit_attr\<lparr>MA_SCHED_PROTOCOL := MUTEX_PRIO_PROTECT,
     MA_PRIORITY_CEILING := 1\<rparr>)) 0x8000 demo)"

lemma mx_protect_reachable: "reachable 0x100 mx_protect"
proof -
  have "unused demo (MUTEX_WAITING_TASKS 0x7000)" by (simp add: unused_def demo_owner) (simp add: demo_def)
  then show ?thesis unfolding mx_protect_def
    by (rule reachable.step [OF demo_reachable kstep.mx_init]) (simp add: queueing_attr_def mx_eval)
qed

theorem mutex_lock_unlock_restores_witness:
  "MY_QUEUE (TDS (snd (mutex_lock 0x7000 mx_protect)) 0x200) = 1
    \<and> MY_QUEUE (TDS (snd (mutex_unlock 0x7000 (snd (mutex_lock 0x7000 mx_protect)))) 0x200) = 2"
proof -
  have s: "IN_ISR mx_protect = 0" "MX_VALID (MUTEXES mx_protect 0x7000) = MUTEX_VALID"
    "MX_LOCK (MUTEXES mx_protect 0x7000) = 0" "MX_BOOSTED (MUTEXES mx_protect 0x7000) = 0"
    "LOWEST_TASK_PRIORITY mx_protect = 8" "ACTIVE_PTR mx_protect = 0x200" "MY_QUEUE (TDS mx_protect 0x200) = 2"
    "HOME_QUEUE (TDS mx_protect 0x200) = 2" "BOOSTED (TDS mx_protect 0x200) = 0" "FLAGS (TDS mx_protect 0x200) = 0"
    "MX_PROTOCOLS (MUTEXES mx_protect 0x7000) = MUTEX_PRIO_PROTECT OR MUTEX_QUEUEING"
    "MX_PRIORITY_CEILING (MUTEXES mx_protect 0x7000) = 1"
    by (simp_all add: mx_protect_def mx_eval)
  show ?thesis using mutex_lock_unlock_restores [OF mx_protect_reachable, of "0x7000" "0x200"] by (simp add: s)
qed

text \<open>
  Destroying a mutex fails its waiting tasks: they all become ready, in the order of the
  queue, and their locks return \<open>MQX_EINVAL\<close>; every later lock, try-lock or unlock of the mutex is
  refused. The destroyed mutex keeps its owner, so that a second destruction by the owner, which
  tests the owner and not the validation field, is not refused.
\<close>

theorem mutex_destroy_fails_waiters:
  assumes "reachable idle s" "m \<noteq> NULL" "MX_VALID (MUTEXES s m) = MUTEX_VALID"
    and "MUTEX_COMPONENT s = Some MUTEX_VALID" "MX_OWNER_TD (MUTEXES s m) = ACTIVE_PTR s"
  defines "h \<equiv> MUTEX_WAITING_TASKS m"
  shows "\<exists>s'. mutex_destroy m s = (Some MQX_OK, s') \<and> sys_inv idle s' \<and> WAITQ s' = (WAITQ s)(h := [])
    \<and> (\<forall>t \<in> set (WAITQ s h). STATE (TDS s' t) = READY)
    \<and> mutex_lock_resume m s' = (Some MQX_EINVAL, s')
    \<and> mutex_lock m s' = (Some (if IN_ISR s' = 0 then MQX_EINVAL else MQX_CANNOT_CALL_FUNCTION_FROM_ISR), s')
    \<and> mutex_try_lock m s' = (Some MQX_EINVAL, s') \<and> mutex_unlock m s' = (Some MQX_EINVAL, s')
    \<and> MX_OWNER_TD (MUTEXES s' m) = MX_OWNER_TD (MUTEXES s m)"
proof -
  let ?s0 = "(upd_mutex m (\<lambda>M. M\<lparr>MX_VALID := 0\<rparr>) s)\<lparr>MUTEX_LIST := remove1 m (MUTEX_LIST s)\<rparr>"
  let ?s1 = "mutex_destroy_loop h (WAITQ s h) ?s0"
  define s' where "s' = snd (mutex_destroy m s)"
  have i: "sys_inv idle s" by (rule reachable_inv [OF assms(1)])
  have k0: "kinv {} ?s0" by (rule kinv_cong [OF sys_invD(1) [OF i]]) (auto simp: upd_mutex_def tasks_def)
  have r: "released (WAITQ s h) h ?s0 ?s1"
    using mutex_destroy_loop_released [OF k0, of h] mutex_untimed [OF sys_invD(3) [OF i] sys_invD(1) [OF i] assms(3)]
    by (simp add: h_def)
  have e: "mutex_destroy m s = (Some MQX_OK, sched_check_scheduler_internal
      (if MX_BOOSTED (MUTEXES ?s1 m) \<noteq> 0
       then sched_unboost_priority_internal (ACTIVE_PTR ?s1) (MX_BOOSTED (MUTEXES ?s1 m)) ?s1 else ?s1))"
    using assms(4,5) by (simp add: mutex_destroy_def mutex_destroy_owned_def Let_def h_def)
  have d: "mutex_destroy m s = (Some MQX_OK, s')" by (simp add: e s'_def)
  have w: "WAITQ s' = (WAITQ s)(h := [])" "MUTEXES s' = MUTEXES ?s0"
    "\<And>t. t \<in> set (WAITQ s h) \<Longrightarrow> STATE (TDS s' t) = READY"
    using released_all [of ?s0 h ?s1] r released_frame(12) [OF r] releasedD [OF r] by (simp_all add: s'_def e)
  have "sys_inv idle s'"
    using mutex_destroy_owned_inv [OF i assms(3)] assms(4,5) by (simp add: mutex_destroy_def s'_def)
  moreover have "MX_VALID (MUTEXES s' m) \<noteq> MUTEX_VALID" "MX_OWNER_TD (MUTEXES s' m) = MX_OWNER_TD (MUTEXES s m)"
    using w(2) by (simp_all add: MUTEX_VALID_def)
  ultimately show ?thesis unfolding d using w(1,3) assms(2)
    by (intro exI [of _ s'])
      (simp add: mutex_lock_resume_def mutex_lock_def mutex_try_lock_def mutex_unlock_def Let_def)
qed

theorem mutex_destroy_fails_waiters_witness:
  "\<exists>s'. mutex_destroy 0x7000 mx_shared = (Some MQX_OK, s') \<and> STATE (TDS s' 0x200) = READY
     \<and> mutex_lock_resume 0x7000 s' = (Some MQX_EINVAL, s')"
proof -
  have "MUTEX_COMPONENT mx_shared = Some MUTEX_VALID" "MX_OWNER_TD (MUTEXES mx_shared 0x7000) = ACTIVE_PTR mx_shared"
    "MX_VALID (MUTEXES mx_shared 0x7000) = MUTEX_VALID" "WAITQ mx_shared (MUTEX_WAITING_TASKS 0x7000) = [0x200]"
    by (simp_all add: mx_states mx_mutex_def MUTEX_WAITING_TASKS_def)
  then show ?thesis using mutex_destroy_fails_waiters [OF mx_shared_reachable, of "0x7000"] by auto
qed

end
