(* ===== verification/Spec2Isabelle.thy ===== *)
theory Spec2Isabelle
  imports LwMemPool XDateProps LwTimerProps PartitionProps KernelProps MutexProps
begin

text \<open>
  A verification development for the kernel of MQX, the real-time operating system in this
  repository (\<^verbatim>\<open>src/mqx\<close>), for the Cortex-M4 port.

  \<^bold>\<open>The program.\<close> MQX is a library of services around one kernel data structure
  (\<^verbatim>\<open>KERNEL_DATA_STRUCT\<close>). A task is a descriptor (\<^verbatim>\<open>TD_STRUCT\<close>) that is linked into a ready
  queue of its priority, into the timeout queue, or into the queue of the object it waits for.
  The dispatcher runs the first task of the highest ready queue that is not empty. Services
  called from tasks or interrupt service routines move tasks between queues and then let the
  dispatcher decide; the periodic tick wakes the tasks whose time has come. Below that are
  intrusive doubly linked queues, the tick arithmetic, and a memory manager; above it the rest
  of the repository (file system, network stack, USB, drivers).

  \<^bold>\<open>Theories and sources\<close> (under \<^verbatim>\<open>src/mqx/source\<close>):
  \<^item> \<open>Prelude\<close>: machine types, result codes, lemmas on words and lists.
  \<^item> \<open>Queue\<close>: \<^verbatim>\<open>include/queue.h\<close>, \<^verbatim>\<open>kernel/queue.c\<close> at the level of \<open>NEXT\<close> and \<open>PREV\<close>
    pointers, with the abstraction to the list of members; the locale \<open>bounded_fifo\<close>.
  \<^item> \<open>LwMem\<close>, \<open>LwMemAlloc\<close>, \<open>LwMemFree\<close>, \<open>LwMemPool\<close>: \<^verbatim>\<open>kernel/lwmem.c\<close> on a memory of words:
    the block headers and the free list are words of that memory; first the operations of
    allocation, then what they do to a well-formed pool, then freeing, then pools, queries and tests.
  \<^item> \<open>Partition\<close>, \<open>PartitionProps\<close>: blocks of one size, \<^verbatim>\<open>kernel/partition.c\<close>, on the same memory;
    a static partition is a second \<open>allocator\<close>, the locale of \<open>LwMemPool\<close>.
  \<^item> \<open>Ticks\<close>: \<^verbatim>\<open>psp/cortex_m/psp_ti*.c\<close> and the other conversions, on 64-bit and 128-bit words.
  \<^item> \<open>Calendar\<close>, \<open>CalendarProps\<close>: dates in \<^verbatim>\<open>kernel/time.c\<close> and the tables of \<^verbatim>\<open>kernel/time_tables.c\<close>,
    against a Gregorian calendar defined by counting days; \<open>XDate\<close>, \<open>XDateProps\<close>: extended dates, with
    \<^verbatim>\<open>psp/cortex_m/psp_tixd.c\<close>.
  \<^item> \<open>LwTimer\<close>, \<open>LwTimerProps\<close>: lightweight timers, \<^verbatim>\<open>kernel/lwtimer.c\<close>: the operations, their
    invariant, and the schedule of the calls.
  \<^item> \<open>Kernel\<close>: the state (records \<open>td\<close> and \<open>kernel\<close>), the macros of \<^verbatim>\<open>include/mqx_prv.h\<close>, the
    dispatcher and interrupt entry and exit of \<^verbatim>\<open>psp/cortex_m/core/M4/dispatch.S\<close>, and the lookup
    and error functions of \<^verbatim>\<open>kernel/task.c\<close>; \<open>KernelInv\<close>: the invariant \<open>kinv\<close>.
  \<^item> \<open>Sched\<close>: \<^verbatim>\<open>kernel/sched.c\<close>, priorities and preemption in \<^verbatim>\<open>kernel/task.c\<close>, delays and the
    tick in \<^verbatim>\<open>kernel/time.c\<close>; the locales of waiting lines; \<open>released\<close>, what waking tasks means.
  \<^item> \<open>TaskQ\<close>, \<open>LwSem\<close>, \<open>LwEvent\<close>, \<open>LwMsgQ\<close>: \<^verbatim>\<open>kernel/taskq.c\<close>, \<^verbatim>\<open>lwsem.c\<close>, \<^verbatim>\<open>lwevent.c\<close>,
    \<^verbatim>\<open>lwmsgq.c\<close>; the ring of a message queue is a \<open>bounded_fifo\<close>. \<open>Mutex\<close>: \<^verbatim>\<open>kernel/mutex.c\<close>.
  \<^item> \<open>Objects\<close>: the invariant \<open>obj_ok\<close> between waiting tasks and objects; \<open>System\<close>: the calls as one
    step relation \<open>kstep\<close>, reachable states, and \<open>reachable_inv\<close>.
  \<^item> \<open>Demo\<close>: a small system for the witnesses; \<open>KernelProps\<close>: properties of single kernel
    components; \<open>MutexProps\<close>: those of mutexes, and a run that loses a lent priority; this
    theory: properties of the kernel as a whole.

  \<^bold>\<open>How the state corresponds to the code.\<close> A descriptor or an object is named by its address;
  \<open>TDS\<close>, \<open>LWSEMS\<close> and so on map addresses to the fields. Rings of descriptors are lists of
  addresses: \<open>READYQ p\<close> for priority \<open>p\<close>, \<open>TIMEOUT_QUEUE\<close>, and \<open>WAITQ h\<close> for the queue whose
  header is at address \<open>h\<close>, the address that a blocked task keeps in \<open>INFO\<close>. Theory \<open>Queue\<close> shows
  that the pointer macros implement these list operations. Numbers of a fixed width are words;
  priorities are natural numbers. An operation is a function on the state with the name of the C
  function less its underscore; a function that blocks ends where the processor goes to another
  task, with result \<open>None\<close>, and what it does when the task runs again is its \<open>_resume\<close> function.
  Partitions grow into memory of the lightweight memory manager; growing, destroying and the self-test are defined, but
  the properties are about the blocks of a partition that is well formed. The functions of lightweight timers are a parameter of the tick; they change a state of the
  application and no timer. The calendar functions take pointers as options and return what they leave in the structures; a
  result \<open>None\<close> of the whole call is a read outside a table.
  Loops over memory that might not end are \<open>partial_function (option)\<close>; that they do end on a
  well-formed pool is part of the theorems. No fuel is used.

  \<^bold>\<open>What the lemmas show.\<close> \<open>kinv\<close> says that every task is on exactly the queues its \<open>STATE\<close>
  names, and \<open>active_ok\<close>, \<open>top_ok\<close> that the dispatcher's choice is right; every operation has an
  \<open>_ok\<close> lemma for them (with \<open>op_ok\<close>) and an \<open>_obj\<close> lemma for \<open>obj_ok\<close>. \<open>System\<close> combines them
  into one invariant of all reachable states, and the properties of this theory read it off. The
  other properties stand in the theory of their component, in \<open>KernelProps\<close> and in
  \<open>MutexProps\<close>, each after a text block with its number.

  \<^bold>\<open>Assumptions.\<close> The bounds that the hypotheses state: less than \<open>2 ^ 16\<close> members of a queue,
  counts of a semaphore within \<open>_mqx_int\<close>, 64-bit tick counts that do not wrap, the size of
  a ring within the address space, fields of a date that leave room for the 16-bit carries. A step of \<open>kstep\<close> creates an object only in memory that no
  live object uses for its waiting tasks, readies only tasks that blocked themselves, initializes
  mutexes with attributes that do not spin, destroys a mutex only once, and has an idle task that
  never blocks. A step of \<open>lwtimer_reachable\<close> creates a queue in memory that is no queue in use, adds a timer that is
  in no queue, and cancels a timer only while it is in its queue. The configuration is that of \<^verbatim>\<open>src/config\<close>: error and validity checks on, user
  mode and mutex polling off; the time slices of round-robin scheduling are modelled although
  that configuration turns them off.

  \<^bold>\<open>Not modelled.\<close> Interrupt masking: an operation is one atomic step, although some loops of the
  code (\<^verbatim>\<open>_lwmem_free\<close>, \<^verbatim>\<open>_taskq_destroy\<close>, \<^verbatim>\<open>_mutex_destroy\<close>) let interrupts in between two turns. A supervisor call
  from an interrupt service routine (a blocking call that the code does not refuse there) is
  treated as a dispatch. Register contents, stacks, task creation and destruction, user-mode
  variants, kernel logging and the self-tests \<^verbatim>\<open>_lwsem_test\<close>, \<^verbatim>\<open>_lwevent_test\<close>, \<^verbatim>\<open>_taskq_test\<close>,
  \<^verbatim>\<open>_mutex_test\<close> are left out, and the other services of \<^verbatim>\<open>kernel\<close> (messages, names, semaphores and
  events of the older kind, timers of the older kind, the general memory manager, logs), the printing of times,
  and everything outside the kernel: drivers and board support are hardware access, the file
  system, network and USB stacks are systems of their own.
\<close>

section \<open>Properties of the whole kernel\<close>


lemma demo_sem_wait_reachable: "reachable 0x100 demo_sem_wait"
proof -
  have "unused demo (LWSEM_TD_QUEUE 0x1000)" by (simp add: unused_def demo_owner) (simp add: demo_def)
  then have "reachable 0x100 demo_sem"
    unfolding demo_sem_def by (intro reachable.step [OF demo_reachable] kstep.sem_create)
  then show ?thesis unfolding demo_sem_wait_def
    by (rule reachable.step) (rule kstep.sem_wait_ticks, simp add: demo_sem_state)
qed

lemma demo_sem_wait_isr: "IN_ISR demo_sem_wait = 0"
  by (simp add: demo_sem_wait_def lwsem_wait_ticks_def lwsem_wait_frame_def demo_sem_state
      lwsem_wait_timed_internal_def time_delay_internal_def set_timeout_ticks_def)


text \<open>
  C2. Every task is where its state says: its \<open>STATE\<close> is one of the states of the kernel; it is
  on the ready queue of its priority, and on no other, exactly when it is \<open>READY\<close>, on the
  timeout queue exactly when the timeout bit is set, and on the queue of waiting tasks that
  \<open>INFO\<close> names, and on no other, exactly when it is blocked on an object. The timeout queue is
  in the order of wake-up times, and no queue holds a task twice or anything but a task.
\<close>

theorem kernel_tasks_placed:
  assumes "reachable idle s"
  shows "(\<forall>t \<in> tasks s. legal_state (STATE (TDS s t)) \<and> MY_QUEUE (TDS s t) \<le> LOWEST_TASK_PRIORITY s + 1
      \<and> (\<forall>p. t \<in> set (READYQ s p) \<longleftrightarrow> STATE (TDS s t) = READY \<and> MY_QUEUE (TDS s t) = p)
      \<and> (t \<in> set (TIMEOUT_QUEUE s) \<longleftrightarrow> STATE (TDS s t) AND IS_ON_TIMEOUT_Q \<noteq> 0)
      \<and> (\<forall>h. t \<in> set (WAITQ s h) \<longleftrightarrow>
           STATE (TDS s t) AND (TD_IS_ON_QUEUE OR TD_IS_ON_AUX_QUEUE) \<noteq> 0 \<and> INFO (TDS s t) = h))
    \<and> sorted (map (\<lambda>t. TICKS (TIMEOUT (TDS s t))) (TIMEOUT_QUEUE s)) \<and> distinct (TIMEOUT_QUEUE s)
    \<and> (\<forall>p. distinct (READYQ s p) \<and> set (READYQ s p) \<subseteq> tasks s)
    \<and> (\<forall>h. distinct (WAITQ s h) \<and> set (WAITQ s h) \<subseteq> tasks s) \<and> set (TIMEOUT_QUEUE s) \<subseteq> tasks s"
proof -
  note k = sys_invD(1) [OF reachable_inv [OF assms]]
  have q: "queues_ok s" using kinv_queues [OF k] .
  have "set (READYQ s p) \<subseteq> tasks s" "set (WAITQ s h) \<subseteq> tasks s" "set (TIMEOUT_QUEUE s) \<subseteq> tasks s" for p h
    using kinv_ready_mem [OF k] kinv_waitq_mem [OF k] kinv_timeout_mem [OF k] by blast+
  moreover have "sorted (map (\<lambda>t. TICKS (TIMEOUT (TDS s t))) (TIMEOUT_QUEUE s))"
    using q by (simp add: queues_ok_def wake_time_def [abs_def])
  moreover have "legal_state (STATE (TDS s t)) \<and> MY_QUEUE (TDS s t) \<le> LOWEST_TASK_PRIORITY s + 1
      \<and> (\<forall>p. t \<in> set (READYQ s p) \<longleftrightarrow> STATE (TDS s t) = READY \<and> MY_QUEUE (TDS s t) = p)
      \<and> (t \<in> set (TIMEOUT_QUEUE s) \<longleftrightarrow> STATE (TDS s t) AND IS_ON_TIMEOUT_Q \<noteq> 0)
      \<and> (\<forall>h. t \<in> set (WAITQ s h) \<longleftrightarrow>
           STATE (TDS s t) AND (TD_IS_ON_QUEUE OR TD_IS_ON_AUX_QUEUE) \<noteq> 0 \<and> INFO (TDS s t) = h)"
    if "t \<in> tasks s" for t
    using kinv_placed [OF k that] q that by (simp add: queues_ok_def placed_def on_timeout_def on_waitq_def)
  ultimately show ?thesis using q unfolding queues_ok_def by (intro conjI ballI allI) blast+
qed

theorem kernel_tasks_placed_witness:
  "legal_state (STATE (TDS demo_sem_wait 0x200)) \<and> distinct (TIMEOUT_QUEUE demo_sem_wait)"
proof -
  have "0x200 \<in> tasks demo_sem_wait"
    using kinv_waitq_mem [OF sys_invD(1) [OF demo_sem_wait_inv], of "0x200" "LWSEM_TD_QUEUE 0x1000"]
    by (simp add: demo_sem_wait_state)
  then show ?thesis using kernel_tasks_placed [OF demo_sem_wait_reachable] by blast
qed

text \<open>
  C3. No wake-up is lost: a task that is blocked on a task queue, a semaphore, an event group,
  a message queue or a mutex waits on an object of that kind that has not been destroyed, and it
  has a reason to wait: its semaphore has no token, its event group does not satisfy its
  condition, its mutex is locked and owned by another task.
\<close>

theorem kernel_no_lost_wakeup:
  assumes "reachable idle s" "t \<in> set (WAITQ s h)"
  shows "t \<in> tasks s \<and> INFO (TDS s t) = h
    \<and> (let k = STATE (TDS s t) AND NOT IS_ON_TIMEOUT_Q in
        k = TASK_QUEUE_BLOCKED \<and> TQ_VALID (TASK_QUEUES s (h - 16)) = TASK_QUEUE_VALID
      \<or> k = LWSEM_BLOCKED \<and> SEM_VALID (LWSEMS s (h - 8)) = LWSEM_VALID
          \<and> sint (SEM_VALUE (LWSEMS s (h - 8))) \<le> 0
      \<or> k = LWEVENT_BLOCKED \<and> EV_VALID (LWEVENTS s (h - 8)) = LWEVENT_VALID
          \<and> \<not> lwevent_satisfied (TDS s t) (EV_VALUE (LWEVENTS s (h - 8)))
      \<or> k = LWMSGQ_WRITE_BLOCKED \<and> MQ_VALID (LWMSGQS s (h - 8)) = LWMSGQ_VALID
      \<or> k = LWMSGQ_READ_BLOCKED \<and> MQ_VALID (LWMSGQS s (h - 20)) = LWMSGQ_VALID
      \<or> k = MUTEX_BLOCKED \<and> MX_VALID (MUTEXES s (h - 28)) = MUTEX_VALID
          \<and> MX_LOCK (MUTEXES s (h - 28)) = MQX_TEST_AND_SET_VALUE
          \<and> MX_OWNER_TD (MUTEXES s (h - 28)) \<in> tasks s - {t})"
proof -
  note i = sys_invD [OF reachable_inv [OF assms(1)]]
  have "waiting_ok s h t" using obj_okD(1) [OF i(3) assms(2)] .
  then have "owner s h (base_state (STATE (TDS s t)))" "quiet s h t" by (simp_all add: waiting_ok_def)
  then show ?thesis using kinv_waitq_mem [OF i(1) assms(2)] obj_okD(3) [OF i(3), of "h - 28"]
    unfolding owner_def quiet_def base_state_def Let_def
    by (elim disjE conjE) (simp_all add: mutex_ok_def)
qed

theorem kernel_no_lost_wakeup_witness:
  "sint (SEM_VALUE (LWSEMS demo_sem_wait 0x1000)) \<le> 0 \<and> INFO (TDS demo_sem_wait 0x200) = LWSEM_TD_QUEUE 0x1000"
  using kernel_no_lost_wakeup [OF demo_sem_wait_reachable, of "0x200" "LWSEM_TD_QUEUE 0x1000"]
  by (simp add: demo_sem_wait_state demo_sem_state)

text \<open>In an interrupt service routine a check of the scheduler does nothing.\<close>

lemma check_in_isr: "IN_ISR s \<noteq> 0 \<Longrightarrow> sched_check_scheduler_internal s = s"
  by (simp add: sched_check_scheduler_internal_def)

lemma released_in_isr:
  assumes "released D h s s1" "IN_ISR s \<noteq> 0"
  shows "ACTIVE_PTR (sched_check_scheduler_internal s1) = ACTIVE_PTR s"
  using released_frame(3,4) [OF assms(1)] assms(2) by (simp add: check_in_isr)

lemma isr_release_calls:
  assumes "sys_inv idle s" "IN_ISR s \<noteq> 0"
  shows "ACTIVE_PTR (snd (lwsem_post m s)) = ACTIVE_PTR s"
    and "ACTIVE_PTR (snd (lwevent_set e bits s)) = ACTIVE_PTR s"
    and "ACTIVE_PTR (snd (lwmsgq_send q b flags s)) = ACTIVE_PTR s"
    and "ACTIVE_PTR (snd (taskq_resume tq all_tasks s)) = ACTIVE_PTR s"
proof -
  note i = sys_invD [OF assms(1)]
  show "ACTIVE_PTR (snd (lwsem_post m s)) = ACTIVE_PTR s"
    using assms(2) by (simp add: lwsem_post_def Let_def check_in_isr split: list.split)
  show "ACTIVE_PTR (snd (lwevent_set e bits s)) = ACTIVE_PTR s"
  proof (cases "EV_VALID (LWEVENTS s e) = LWEVENT_VALID")
    case True
    obtain b' W where "event_scan (TDS s) (EV_AUTO (LWEVENTS s e)) (WAITQ s (WAITING_TASKS e))
        (EV_VALUE (LWEVENTS s e) OR bits) = (b', W)" by fastforce
    from lwevent_set_spec [OF i(1) True this] show ?thesis
      using assms(2) released_frame(3,4) by (fastforce simp: check_in_isr)
  qed (simp add: lwevent_set_def)
  have f: "flags AND LWMSGQ_SEND_BLOCK_ON_SEND = 0 \<and> flags AND LWMSGQ_SEND_BLOCK_ON_FULL = 0" if "flags AND 3 = 0"
  proof -
    have "flags AND 2 = (flags AND 3) AND 2" "flags AND 1 = (flags AND 3) AND 1" by (simp_all add: and.assoc)
    then show ?thesis using that by simp
  qed
  have "ACTIVE_PTR (lwmsgq_send_now q b flags s) = ACTIVE_PTR s" if "flags AND 3 = 0"
    using lwmsgq_send_now_cases [OF i(1), of q b flags] f [OF that] assms(2) released_in_isr
    by (auto simp: lwmsgq_copy_geometry)
  then show "ACTIVE_PTR (snd (lwmsgq_send q b flags s)) = ACTIVE_PTR s"
    using assms(2) f by (simp add: lwmsgq_send_def)
  show "ACTIVE_PTR (snd (taskq_resume tq all_tasks s)) = ACTIVE_PTR s"
  proof (cases "TQ_VALID (TASK_QUEUES s tq) = TASK_QUEUE_VALID")
    case True
    then have "\<forall>t \<in> set (WAITQ s (TASKQ_TD_QUEUE tq)). \<not> on_timeout (STATE (TDS s t))"
      using obj_ok_untimed [OF i(3,1), of "TASKQ_TD_QUEUE tq"] by (simp add: owner_def TASKQ_TD_QUEUE_def)
    from taskq_resume_cases [OF i(1) this] show ?thesis
      using released_in_isr assms(2) by metis
  qed (simp add: taskq_resume_def)
qed


text \<open>An interrupt while task 2 waits on the semaphore: the post makes it ready, task 3 stays.\<close>

definition demo_isr :: kernel where
  "demo_isr = int_kernel_isr_enter demo_sem_wait"


end
